(* ===== verification/Prelude.thy ===== *)
theory Prelude
  imports Main "HOL-Library.Word"
begin

unbundle bit_operations_syntax

text \<open>
  Shared vocabulary of the development: the machine types of the C sources (AArch64: \<open>int\<close> has 32
  bits, \<open>size_t\<close>, \<open>uintptr_t\<close> and \<open>long\<close> have 64), the ways a C operation can fail to return
  normally, sequencing of operations that can fail, and generic facts on lists and words that several
  components use.
\<close>

section \<open>Machine types\<close>

type_synonym u8 = "8 word"
type_synonym u16 = "16 word"
type_synonym u32 = "32 word"
type_synonym u64 = "64 word"

text \<open>Addresses and pointers are 64-bit words; the null pointer is the word 0.\<close>

type_synonym ptr = u64

abbreviation NULL :: ptr where "NULL \<equiv> 0"

text \<open>Byte-addressed memory.\<close>

type_synonym memory = "ptr \<Rightarrow> u8"

section \<open>Operations that may fail\<close>

text \<open>
  \<open>assert\<close> and \<open>ASSERT_MSG\<close> (lib/include/assert.h) call \<open>assert_fail\<close>, a branch to itself: the call
  never returns. \<open>Null_deref\<close> is a load or store through the null pointer, \<open>Out_of_bounds\<close> an access
  outside the object the code indexes, \<open>Div_by_zero\<close> an integer division by zero and \<open>Diverges\<close> a
  loop or recursion that does not end.
\<close>

datatype fault = Assert_fail | Null_deref | Out_of_bounds | Div_by_zero | Diverges

type_synonym 'a res = "fault + 'a"

definition bindR :: "'a res \<Rightarrow> ('a \<Rightarrow> 'b res) \<Rightarrow> 'b res" where
  "bindR m f = (case m of Inl e \<Rightarrow> Inl e | Inr x \<Rightarrow> f x)"

lemma bindR_simps [simp]:
  "bindR (Inl e) f = Inl e"
  "bindR (Inr x) f = f x"
  by (simp_all add: bindR_def)

lemma bindR_eq_Inr [simp]: "bindR m f = Inr y \<longleftrightarrow> (\<exists>x. m = Inr x \<and> f x = Inr y)"
  by (cases m) auto

text \<open>\<open>assert(b)\<close>.\<close>

definition c_assert :: "bool \<Rightarrow> unit res" where
  "c_assert b = (if b then Inr () else Inl Assert_fail)"

lemma c_assert_simps [simp]:
  "c_assert True = Inr ()"
  "c_assert False = Inl Assert_fail"
  "c_assert b = Inr u \<longleftrightarrow> b"
  by (auto simp: c_assert_def)

text \<open>A recursive function that may not end, as the result of a call.\<close>

definition returns :: "'a option \<Rightarrow> 'a res" where
  "returns r = (case r of None \<Rightarrow> Inl Diverges | Some x \<Rightarrow> Inr x)"

lemma returns_simps [simp]:
  "returns (Some x) = Inr x"
  "returns None = Inl Diverges"
  by (simp_all add: returns_def)

section \<open>Collections of facts\<close>

named_theorems dl_facts \<open>doubly linked lists: what an operation does to a list and to the others\<close>
named_theorems heap_facts \<open>binary heaps: contents and order\<close>
named_theorems inv_facts \<open>preservation of component invariants\<close>

section \<open>Lists\<close>

lemma take_list_update_ge [simp]: "n \<le> i \<Longrightarrow> take n (xs[i := x]) = take n xs"
  by (simp add: take_update_cancel)

lemma remove1_eq_filter: "distinct xs \<Longrightarrow> remove1 x xs = filter (\<lambda>y. y \<noteq> x) xs"
  by (simp add: distinct_remove1_removeAll removeAll_filter_not_eq neq_commute)

lemma set_remove1_distinct [simp]: "distinct xs \<Longrightarrow> set (remove1 x xs) = set xs - {x}"
  by (rule set_remove1_eq)

section \<open>Words\<close>

lemma unat_lt_bounds [simp]:
  "unat (x :: u8) < 256" "unat (y :: u16) < 65536" "unat (z :: u32) < 4294967296"
  "unat (w :: u64) < 18446744073709551616"
  using unsigned_less [of x] unsigned_less [of y] unsigned_less [of z] unsigned_less [of w]
  by simp_all

lemma unat_add_no_wrap:
  "unat (a :: 'a::len word) + unat b < 2 ^ LENGTH('a) \<Longrightarrow> unat (a + b) = unat a + unat b"
  by (rule unat_add_lem [THEN iffD1])

lemma unat_sub_no_wrap: "b \<le> (a :: 'a::len word) \<Longrightarrow> unat (a - b) = unat a - unat b"
  by (rule unat_sub)

lemma unat_drop: "unat (drop_bit n (a :: 'a::len word)) = unat a div 2 ^ n"
  by (metis drop_bit_eq_div unat_drop_bit_eq)

lemma unat_of_nat_small: "n < 2 ^ LENGTH('a) \<Longrightarrow> unat (of_nat n :: 'a::len word) = n"
  by (simp add: unat_of_nat)

lemma unat_ucast_up:
  fixes a :: "'a::len word"
  assumes "LENGTH('a) \<le> LENGTH('b::len)"
  shows "unat (ucast a :: 'b word) = unat a"
proof -
  have "unat a < 2 ^ LENGTH('b)"
    using unsigned_less [of a] assms by (meson less_le_trans one_le_numeral power_increasing)
  then show ?thesis by (simp add: unsigned_ucast_eq take_bit_nat_eq_self)
qed

lemma ucast_of_nat_unat: "(ucast (a :: 'a::len word) :: 'b::len word) = of_nat (unat a)"
  by (simp add: word_unat_eq_iff unsigned_ucast_eq unsigned_of_nat)

text \<open>Single bits.\<close>

lemma nat_xor_bit:
  fixes n :: nat
  shows "\<not> bit n k \<Longrightarrow> n XOR 2 ^ k = n + 2 ^ k" "bit n k \<Longrightarrow> n = (n XOR 2 ^ k) + 2 ^ k"
proof -
  have set: "m XOR 2 ^ k = m + 2 ^ k" if "\<not> bit m k" for m :: nat
  proof -
    have "m XOR 2 ^ k = set_bit k m"
      by (rule bit_eqI) (use that in \<open>auto simp: bit_simps\<close>)
    then show ?thesis using that by (simp add: set_bit_eq)
  qed
  then show "\<not> bit n k \<Longrightarrow> n XOR 2 ^ k = n + 2 ^ k" .
  assume "bit n k"
  then have "\<not> bit (n XOR 2 ^ k) k" by (simp add: bit_simps)
  then have "(n XOR 2 ^ k) XOR 2 ^ k = (n XOR 2 ^ k) + 2 ^ k" by (rule set)
  then show "n = (n XOR 2 ^ k) + 2 ^ k" by (simp add: xor.assoc)
qed

lemma unat_xor_bit:
  fixes a :: "'a::len word"
  assumes "k < LENGTH('a)"
  shows "unat (a XOR push_bit k 1) = unat a XOR 2 ^ k"
  using assms by (simp only: unsigned_xor_eq unsigned_push_bit_eq) (simp add: take_bit_push_bit)

lemma word_bit_unat: "bit (a :: 'a::len word) k \<longleftrightarrow> k < LENGTH('a) \<and> odd (unat a div 2 ^ k)"
  by (auto simp: bit_unsigned_iff bit_iff_odd [symmetric] dest: bit_imp_le_length)
end
