(* ===== verification/Macros.thy ===== *)
theory Macros
  imports Prelude
begin

text \<open>
  The arithmetic macros of lib/include/macro.h (\<open>MSB_POS\<close>, \<open>ALIGN_UP\<close>, \<open>ALIGN_DOWN\<close>, \<open>NEXT_POW2\<close>)
  and of lib/include/util.h (\<open>MIN\<close>, \<open>MAX\<close>). Shift amounts are below 31, where \<open>1 << sft\<close> does not
  overflow the \<open>int\<close> it is computed in.
\<close>

section \<open>The macros\<close>

definition C_MIN :: "'a::linorder \<Rightarrow> 'a \<Rightarrow> 'a" where
  "C_MIN x y = (if x < y then x else y)"

definition C_MAX :: "'a::linorder \<Rightarrow> 'a \<Rightarrow> 'a" where
  "C_MAX x y = (if x > y then x else y)"

lemma C_MIN_min [simp]: "C_MIN x y = min x y"
  by (auto simp: C_MIN_def min_def)

lemma C_MAX_max [simp]: "C_MAX x y = max x y"
  by (auto simp: C_MAX_def max_def)

definition ALIGN_UP :: "'a::len word \<Rightarrow> nat \<Rightarrow> 'a word" where
  "ALIGN_UP val sft = (val + push_bit sft 1 - 1) AND NOT (push_bit sft 1 - 1)"

definition ALIGN_DOWN :: "'a::len word \<Rightarrow> nat \<Rightarrow> 'a word" where
  "ALIGN_DOWN val sft = val AND NOT (push_bit sft 1 - 1)"

text \<open>
  \<open>MSB_POS\<close>: \<open>pos\<close> is an \<open>int8_t\<close> that runs down from the top bit; for 0 it ends at \<open>-1\<close>, which the
  cast to \<open>uint8_t\<close> turns into 255.
\<close>

fun msb_pos_loop :: "u64 \<Rightarrow> nat \<Rightarrow> u8" where
  "msb_pos_loop x 0 = (- 1)"
| "msb_pos_loop x (Suc pos) = (if drop_bit pos x \<noteq> 0 then of_nat pos else msb_pos_loop x pos)"

definition MSB_POS :: "u64 \<Rightarrow> u8" where
  "MSB_POS x = msb_pos_loop x 64"

definition NEXT_POW2 :: "u64 \<Rightarrow> u64" where
  "NEXT_POW2 val =
     (let v = val - 1;
          v = v OR drop_bit 1 v;
          v = v OR drop_bit 2 v;
          v = v OR drop_bit 4 v;
          v = v OR drop_bit 8 v;
          v = v OR drop_bit 16 v;
          v = v OR drop_bit 32 v;
          v = v + 1
      in v + (if v = 0 then 1 else 0))"

section \<open>Alignment\<close>

lemma push_bit_1_minus_1: "(push_bit s 1 - 1 :: 'a::len word) = mask s"
  by (simp add: mask_eq_exp_minus_1 push_bit_eq_mult)

lemma ALIGN_DOWN_alt: "ALIGN_DOWN v s = push_bit s (drop_bit s v)"
  unfolding ALIGN_DOWN_def push_bit_1_minus_1
  by (rule bit_word_eqI) (auto simp: bit_simps)

lemma unat_ALIGN_DOWN:
  fixes v :: "'a::len word"
  shows "unat (ALIGN_DOWN v s) = unat v div 2 ^ s * 2 ^ s"
proof -
  have "unat v div 2 ^ s * 2 ^ s < 2 ^ LENGTH('a)"
    by (rule le_less_trans [OF _ unsigned_less [of v]]) simp
  moreover have "unat (ALIGN_DOWN v s) = take_bit LENGTH('a) (push_bit s (drop_bit s (unat v)))"
    by (simp only: ALIGN_DOWN_alt unsigned_push_bit_eq unsigned_drop_bit_eq)
       (simp add: take_bit_push_bit drop_bit_take_bit [symmetric] take_bit_nat_eq_self)
  ultimately show ?thesis by (simp add: take_bit_nat_eq_self push_bit_eq_mult drop_bit_eq_div)
qed

lemma ALIGN_DOWN_le: "ALIGN_DOWN v s \<le> v"
  by (simp add: word_le_nat_alt unat_ALIGN_DOWN)

lemma ALIGN_UP_alt: "ALIGN_UP v s = ALIGN_DOWN (v + (push_bit s 1 - 1)) s"
  by (simp add: ALIGN_UP_def ALIGN_DOWN_def algebra_simps)

text \<open>Rounding up is the least multiple of \<open>2 ^ s\<close> not below the value, if the sum does not wrap.\<close>

lemma unat_ALIGN_UP:
  fixes v :: "'a::len word"
  assumes s: "s < LENGTH('a)" and nw: "unat v + (2 ^ s - 1) < 2 ^ LENGTH('a)"
  shows "unat (ALIGN_UP v s) = (unat v + (2 ^ s - 1)) div 2 ^ s * 2 ^ s"
proof -
  have "unat (of_nat (mask s) :: 'a word) = mask s"
    using s by (simp only: unsigned_of_nat take_bit_of_mask min_absorb2 less_imp_le of_nat_id)
  then have m: "unat (mask s :: 'a word) = 2 ^ s - 1"
    by (metis of_nat_mask_eq mask_eq_exp_minus_1)
  then have "unat (v + mask s) = unat v + (2 ^ s - 1)"
    using nw by (simp add: unat_add_no_wrap)
  then show ?thesis by (simp only: ALIGN_UP_alt unat_ALIGN_DOWN push_bit_1_minus_1)
qed

lemma ALIGN_UP_bounds:
  fixes v :: "'a::len word"
  assumes "s < LENGTH('a)" "unat v + (2 ^ s - 1) < 2 ^ LENGTH('a)"
  shows "unat v \<le> unat (ALIGN_UP v s)" "unat (ALIGN_UP v s) < unat v + 2 ^ s"
    "2 ^ s dvd unat (ALIGN_UP v s)"
proof -
  define d where "d = (2::nat) ^ s"
  have d: "0 < d" by (simp add: d_def)
  have e: "unat (ALIGN_UP v s) = (unat v + (d - 1)) - (unat v + (d - 1)) mod d"
    using unat_ALIGN_UP [OF assms] by (simp add: d_def minus_mod_eq_div_mult)
  have "(unat v + (d - 1)) mod d < d" using d by simp
  then have "unat v \<le> unat (ALIGN_UP v s) \<and> unat (ALIGN_UP v s) < unat v + d"
    using e d by linarith
  then show "unat v \<le> unat (ALIGN_UP v s)" "unat (ALIGN_UP v s) < unat v + 2 ^ s"
    by (simp_all add: d_def)
  show "2 ^ s dvd unat (ALIGN_UP v s)" using unat_ALIGN_UP [OF assms] by simp
qed

section \<open>Most significant bit and next power of two\<close>

lemma msb_pos_loop_correct:
  "0 < unat x \<Longrightarrow> unat x < 2 ^ n \<Longrightarrow> n \<le> 64 \<Longrightarrow>
   \<exists>k < n. msb_pos_loop x n = of_nat k \<and> 2 ^ k \<le> unat x \<and> unat x < 2 ^ Suc k"
proof (induction n)
  case 0
  then show ?case by simp
next
  case (Suc n)
  show ?case
  proof (cases "drop_bit n x = 0")
    case True
    then have "unat x div 2 ^ n = 0"
      by (metis drop_bit_eq_div unat_0 unat_drop_bit_eq)
    then have "unat x < 2 ^ n" by (simp add: div_eq_0_iff)
    with Suc True show ?thesis by (auto intro: less_SucI)
  next
    case False
    then have "unat x div 2 ^ n \<noteq> 0"
      by (metis drop_bit_eq_div unat_drop_bit_eq unat_eq_zero)
    then have "2 ^ n \<le> unat x" by (metis div_less leI)
    with Suc.prems False show ?thesis by (intro exI [of _ n]) auto
  qed
qed

lemma MSB_POS_correct:
  assumes "x \<noteq> 0"
  shows "2 ^ unat (MSB_POS x) \<le> unat x" "unat x < 2 ^ Suc (unat (MSB_POS x))" "unat (MSB_POS x) < 64"
proof -
  have "0 < unat x" using assms by (simp add: unat_gt_0)
  moreover have "unat x < 2 ^ 64" by simp
  ultimately obtain k where k: "k < 64" "msb_pos_loop x 64 = of_nat k" "2 ^ k \<le> unat x"
    "unat x < 2 ^ Suc k"
    using msb_pos_loop_correct [of x 64] by blast
  then have "unat (MSB_POS x) = k"
    by (simp only: MSB_POS_def) (simp add: unat_of_nat)
  with k show "2 ^ unat (MSB_POS x) \<le> unat x" "unat x < 2 ^ Suc (unat (MSB_POS x))"
    "unat (MSB_POS x) < 64" by simp_all
qed

text \<open>\<open>y\<close> has bit \<open>n\<close> exactly if \<open>x\<close> has one of the bits \<open>n, \<dots>, n + m - 1\<close>.\<close>

definition smeared :: "nat \<Rightarrow> u64 \<Rightarrow> u64 \<Rightarrow> bool" where
  "smeared m x y \<longleftrightarrow> (\<forall>n. bit y n \<longleftrightarrow> (\<exists>j < m. bit x (n + j)))"

lemma smeared_1: "smeared 1 x x"
  by (simp add: smeared_def)

lemma smeared_step:
  assumes "smeared m x y"
  shows "smeared (m + m) x (y OR drop_bit m y)"
proof -
  have "(\<exists>j < m + m. bit x (n + j)) \<longleftrightarrow> (\<exists>j < m. bit x (n + j)) \<or> (\<exists>j < m. bit x (n + m + j))" for n
  proof
    assume "\<exists>j < m + m. bit x (n + j)"
    then obtain j where j: "j < m + m" "bit x (n + j)" by blast
    show "(\<exists>j < m. bit x (n + j)) \<or> (\<exists>j < m. bit x (n + m + j))"
    proof (cases "j < m")
      case False
      then have "j - m < m" "n + m + (j - m) = n + j" using j by auto
      with j show ?thesis by metis
    qed (use j in blast)
  next
    assume "(\<exists>j < m. bit x (n + j)) \<or> (\<exists>j < m. bit x (n + m + j))"
    then show "\<exists>j < m + m. bit x (n + j)"
      by (metis add.assoc add_less_cancel_left trans_less_add2)
  qed
  with assms show ?thesis by (simp add: smeared_def bit_simps add.commute add.left_commute)
qed

lemma smear_all:
  fixes x :: u64
  shows "smeared 64 x
     (let v = x OR drop_bit 1 x; v = v OR drop_bit 2 v; v = v OR drop_bit 4 v;
          v = v OR drop_bit 8 v; v = v OR drop_bit 16 v in v OR drop_bit 32 v)"
proof -
  have step: "smeared k x (y OR drop_bit m y)" if "smeared m x y" "k = m + m" for k m y
    using smeared_step that by blast
  show ?thesis
    unfolding Let_def
    by (rule step [where m = 32], rule step [where m = 16], rule step [where m = 8],
        rule step [where m = 4], rule step [where m = 2], rule step [where m = 1],
        rule smeared_1, simp_all only: numeral_plus_numeral add_num_simps one_add_one)
qed

lemma smeared_value:
  assumes "smeared 64 x r" "2 ^ k \<le> unat x" "unat x < 2 ^ Suc k"
  shows "r = mask (Suc k)"
proof (rule bit_word_eqI)
  fix n assume n: "n < LENGTH(64)"
  have high: "\<not> bit x i" if "k < i" for i
  proof
    assume "bit x i"
    then have "bit (unat x) i" by (simp add: bit_unsigned_iff)
    then have "odd (unat x div 2 ^ i)" by (simp add: bit_iff_odd)
    then have "2 ^ i \<le> unat x" by (metis div_less even_zero leI)
    moreover have "(2::nat) ^ Suc k \<le> 2 ^ i" using that by (intro power_increasing) auto
    ultimately show False using assms(3) by simp
  qed
  have top: "bit x k"
  proof -
    have "unat x div 2 ^ k = 1"
      using assms(2,3) by (intro div_nat_eqI) simp_all
    then have "bit (unat x) k" by (simp add: bit_iff_odd)
    then show ?thesis by (simp add: bit_unsigned_iff)
  qed
  have "k < 64" using bit_imp_le_length [OF top] by simp
  show "bit r n \<longleftrightarrow> bit (mask (Suc k) :: u64) n"
  proof
    assume "bit r n"
    then obtain j where "bit x (n + j)" using assms(1) by (auto simp: smeared_def)
    then have "n \<le> k" using high [of "n + j"] by fastforce
    then show "bit (mask (Suc k) :: u64) n" using n by (simp add: bit_mask_iff)
  next
    assume "bit (mask (Suc k) :: u64) n"
    then have "n \<le> k" by (simp add: bit_mask_iff)
    then have "k - n < 64" "bit x (n + (k - n))" using top \<open>k < 64\<close> by auto
    then show "bit r n" using assms(1) unfolding smeared_def by blast
  qed
qed

lemma NEXT_POW2_correct:
  assumes v: "1 \<le> unat v" "unat v \<le> 2 ^ 63"
  shows "\<exists>k \<le> 63. NEXT_POW2 v = 2 ^ k \<and> unat v \<le> 2 ^ k \<and> (k = 0 \<or> 2 ^ (k - 1) < unat v)"
proof (cases "v = 1")
  case True
  then show ?thesis by (intro exI [of _ 0]) (simp add: NEXT_POW2_def Let_def)
next
  case False
  define x where "x = v - 1"
  have x: "unat x = unat v - 1" using v by (simp add: x_def unat_sub_no_wrap word_le_nat_alt)
  have "unat v \<noteq> 1" using False by (metis unat_1 word_unat_eq_iff)
  then have nz: "x \<noteq> 0" using x v by auto
  define k where "k = unat (MSB_POS x)"
  note m = MSB_POS_correct [OF nz, folded k_def]
  have "(2::nat) ^ k < 2 ^ 63" using m(1) x v by linarith
  then have k: "k < 63" by (rule power_less_imp_less_exp [rotated]) simp
  have r: "NEXT_POW2 v = mask (Suc k) + 1 + (if mask (Suc k) + 1 = (0::u64) then 1 else 0)"
    using smeared_value [OF smear_all m(1,2)] by (simp only: NEXT_POW2_def Let_def x_def)
  have "mask (Suc k) + 1 = (2::u64) ^ Suc k" by (simp add: mask_eq_exp_minus_1)
  moreover have "(2::u64) ^ Suc k \<noteq> 0" using k by (simp only: power_eq_0_iff exp_eq_zero_iff) auto
  ultimately have "NEXT_POW2 v = 2 ^ Suc k" using r by simp
  then show ?thesis using m k x v by (intro exI [of _ "Suc k"]) auto
qed

end
