(* ===== verification/MathLib.thy ===== *)
theory MathLib
  imports Prelude "HOL-Library.Signed_Division"
begin

text \<open>
  lib/include/math.h and lib/libbase/math.c: the integer square root, the solver for quadratic
  equations, and the pseudo random number generator. \<open>math_sqrt\<close> works on \<open>uint64_t\<close> with wrap-around;
  in \<open>math_solve_quadr\<close> the coefficients are integers (signed overflow is undefined in C) and
  \<open>sdiv\<close> is C's division, which truncates towards zero.
\<close>

section \<open>Definitions\<close>

partial_function (option) math_sqrt_loop :: "u64 \<Rightarrow> u64 \<Rightarrow> u64 res option" where
  "math_sqrt_loop a x =
     (if x * x > a then
        (if x = 0 then Some (Inl Div_by_zero) else math_sqrt_loop a ((x + a div x) div 2))
      else Some (Inr x))"

declare math_sqrt_loop.simps [code]

definition math_sqrt :: "u64 \<Rightarrow> u64 res option" where
  "math_sqrt a = math_sqrt_loop a a"

definition MATH_ABS :: "int \<Rightarrow> int" where
  "MATH_ABS x = (if x < 0 then - x else x)"

record MathQuadrRoots =
  cnt :: int
  r1 :: int
  r2 :: int

definition c_div :: "int \<Rightarrow> int \<Rightarrow> int res" where
  "c_div a b = (if b = 0 then Inl Div_by_zero else Inr (a sdiv b))"

text \<open>\<open>r1_0\<close>, \<open>r2_0\<close> are the indeterminate initial values of the fields.\<close>

definition math_solve_quadr :: "int \<Rightarrow> int \<Rightarrow> int \<Rightarrow> int \<Rightarrow> int \<Rightarrow> MathQuadrRoots res option" where
  "math_solve_quadr r1_0 r2_0 a b c =
     (let delta = b * b - 4 * a * c in
      if delta < 0 then Some (Inr \<lparr>cnt = 0, r1 = r1_0, r2 = r2_0\<rparr>)
      else if delta = 0 then
        Some (bindR (c_div (- 2 * c) b) (\<lambda>q. Inr \<lparr>cnt = 1, r1 = q, r2 = r2_0\<rparr>))
      else map_option (\<lambda>s.
        bindR s (\<lambda>delta_q.
        bindR (c_div (2 * c) (- b - sint delta_q)) (\<lambda>x1.
        bindR (c_div (2 * c) (- b + sint delta_q)) (\<lambda>x2.
        Inr \<lparr>cnt = 2, r1 = max x1 x2, r2 = min x1 x2\<rparr>)))) (math_sqrt (of_int delta)))"

text \<open>The generator's static state.\<close>

record rng =
  z1 :: u32
  z2 :: u32
  z3 :: u32
  z4 :: u32

definition rng_init :: rng where
  "rng_init = \<lparr>z1 = 12345, z2 = 12345, z3 = 12345, z4 = 12345\<rparr>"

definition math_rand_u32 :: "rng \<Rightarrow> rng \<times> u32" where
  "math_rand_u32 g =
     (let b1 = drop_bit 13 (push_bit 6 (z1 g) XOR z1 g);
          y1 = push_bit 18 (z1 g AND 4294967294) XOR b1;
          b2 = drop_bit 27 (push_bit 2 (z2 g) XOR z2 g);
          y2 = push_bit 2 (z2 g AND 4294967288) XOR b2;
          b3 = drop_bit 21 (push_bit 13 (z3 g) XOR z3 g);
          y3 = push_bit 7 (z3 g AND 4294967280) XOR b3;
          b4 = drop_bit 12 (push_bit 3 (z4 g) XOR z4 g);
          y4 = push_bit 13 (z4 g AND 4294967168) XOR b4
      in (\<lparr>z1 = y1, z2 = y2, z3 = y3, z4 = y4\<rparr>, y1 XOR y2 XOR y3 XOR y4))"

section \<open>The square root\<close>

text \<open>Newton's step from above stays above the root and goes down.\<close>

lemma newton_above:
  fixes a x :: nat
  assumes "0 < x" "a < x * x"
  shows "(x + a div x) div 2 < x" "r * r \<le> a \<Longrightarrow> r \<le> (x + a div x) div 2"
proof -
  have "a div x < x" using assms by (simp add: div_less_iff_less_mult)
  then show "(x + a div x) div 2 < x" by linarith
  assume r: "r * r \<le> a"
  have "2 * r \<le> x + a div x"
  proof (rule ccontr)
    assume "\<not> 2 * r \<le> x + a div x"
    then have lt: "x + a div x < 2 * r" by simp
    then have "x + (a div x + 1) \<le> 2 * r" by simp
    then have "a div x + 1 \<le> 2 * r - x" by simp
    then have "x * (a div x + 1) \<le> x * (2 * r - x)" by (rule mult_le_mono2)
    moreover have "a < x * (a div x + 1)"
      using assms(1) by (simp add: dividend_less_times_div)
    ultimately have "r * r < x * (2 * r - x)" using r by linarith
    moreover have "x * (2 * r - x) \<le> r * r"
    proof -
      have "x \<le> 2 * r" using lt by simp
      then have "int (x * (2 * r - x)) = int x * (2 * int r - int x)" by (simp add: of_nat_diff)
      also have "\<dots> \<le> int r * int r" using zero_le_square [of "int r - int x"] by (simp add: algebra_simps)
      finally show ?thesis by (metis of_nat_le_iff of_nat_mult)
    qed
    ultimately show False by simp
  qed
  then show "r \<le> (x + a div x) div 2" by simp
qed

lemma math_sqrt_loop_correct:
  fixes a x :: u64
  assumes a: "unat a < 2 ^ 32" and r: "r * r \<le> unat a" "unat a < Suc r * Suc r"
  shows "r \<le> unat x \<Longrightarrow> unat x < 2 ^ 32 \<Longrightarrow> math_sqrt_loop a x = Some (Inr (of_nat r))"
proof (induction "unat x" arbitrary: x rule: less_induct)
  case less
  have "unat x * unat x < 2 ^ 32 * 2 ^ 32" using less.prems(2) by (intro mult_strict_mono) auto
  then have sq: "unat (x * x) = unat x * unat x" by (simp add: unat_word_ariths)
  show ?case
  proof (cases "unat a < unat x * unat x")
    case False
    then have "\<not> Suc r \<le> unat x"
      using r(2) mult_le_mono [of "Suc r" "unat x" "Suc r" "unat x"] by linarith
    then have "x = of_nat r" using less.prems(1) by (metis le_antisym not_less_eq_eq word_unat_eq_iff unat_of_nat_small
        unat_lt_bounds(4) le_less_trans of_nat_inverse unsigned_less)
    moreover have "math_sqrt_loop a x = Some (Inr x)"
      using False by (subst math_sqrt_loop.simps) (simp add: word_less_nat_alt sq)
    ultimately show ?thesis by simp
  next
    case True
    then have x0: "0 < unat x" by (cases "unat x") auto
    let ?y = "(x + a div x) div 2"
    have "unat a div unat x \<le> unat a" by (rule div_le_dividend)
    then have "unat x + unat a div unat x < 2 ^ 32 + 2 ^ 32" using less.prems(2) a by linarith
    then have "unat (x + a div x) = unat x + unat a div unat x"
      by (subst unat_add_no_wrap) (simp_all add: unat_div)
    then have y: "unat ?y = (unat x + unat a div unat x) div 2" by (simp add: unat_div)
    note n = newton_above [OF x0 True]
    have "math_sqrt_loop a x = math_sqrt_loop a ?y"
      using True x0 by (subst math_sqrt_loop.simps) (auto simp: word_less_nat_alt sq)
    also have "\<dots> = Some (Inr (of_nat r))"
      by (rule less.hyps) (use n y r(1) less.prems(2) in auto)
    finally show ?thesis .
  qed
qed

text \<open>The integer part of the square root, below \<open>2 ^ 32\<close>.\<close>

lemma math_sqrt_correct:
  assumes "unat a < 2 ^ 32" "r * r \<le> unat a" "unat a < Suc r * Suc r"
  shows "math_sqrt a = Some (Inr (of_nat r))"
proof -
  have "r \<le> r * r" by (cases r) auto
  then have "r \<le> unat a" using assms(2) by (rule le_trans)
  then show ?thesis unfolding math_sqrt_def using assms by (intro math_sqrt_loop_correct) auto
qed

lemma floor_root: "\<exists>r. r * r \<le> n \<and> n < Suc r * Suc r"
proof (induction n)
  case (Suc n)
  then obtain r where r: "r * r \<le> n" "n < Suc r * Suc r" by blast
  show ?case
  proof (cases "Suc n = Suc r * Suc r")
    case True
    then show ?thesis by (intro exI [of _ "Suc r"]) simp
  next
    case False
    then show ?thesis using r by (intro exI [of _ r]) simp
  qed
qed simp

lemma math_sqrt_wraps: "math_sqrt (2 ^ 32) = Some (Inr (2 ^ 32))"
  unfolding math_sqrt_def by (subst math_sqrt_loop.simps) simp

text \<open>
  With a square discriminant and exact divisions, both results are roots of \<open>a x\<^sup>2 + b x + c\<close>.
\<close>

lemma quadr_root:
  fixes a b c s D :: int
  assumes "b * b - 4 * a * c = s * s" "D = - b - s" "D \<noteq> 0" "D dvd 2 * c" "x = (2 * c) sdiv D"
  shows "a * x * x + b * x + c = 0"
proof -
  obtain k where k: "2 * c = D * k" using assms(4) by blast
  then have x: "x = k" using assms(3,5) by (simp add: signed_divide_int_eq_divide_int)
  have "D * (2 * a * k) = 2 * a * (D * k)" by (simp add: algebra_simps)
  also have "\<dots> = 4 * a * c" using k by (simp flip: k)
  also have "\<dots> = b * b - s * s" using assms(1) by simp
  also have "\<dots> = D * (s - b)" unfolding assms(2) by (simp add: algebra_simps)
  finally have e: "2 * a * k = s - b" using assms(3) by simp
  have "2 * (a * k * k + b * k + c) = (2 * a * k) * k + 2 * (b * k) + 2 * c" by (simp add: algebra_simps)
  also have "\<dots> = (s - b) * k + 2 * (b * k) + D * k" by (simp only: e k)
  also have "\<dots> = 0" unfolding assms(2) by (simp add: algebra_simps)
  finally show ?thesis by (simp add: x)
qed

lemma math_solve_quadr_two:
  fixes a b c s :: int
  assumes d: "b * b - 4 * a * c = s * s" and s: "0 < s" "s < 2 ^ 16"
    and D: "- b - s \<noteq> 0" "(- b - s) dvd 2 * c" "- b + s \<noteq> 0" "(- b + s) dvd 2 * c"
  shows "\<exists>x1 x2. math_solve_quadr u v a b c = Some (Inr \<lparr>cnt = 2, r1 = x1, r2 = x2\<rparr>) \<and> x2 \<le> x1 \<and>
    a * x1 * x1 + b * x1 + c = 0 \<and> a * x2 * x2 + b * x2 + c = 0"
proof -
  let ?x = "(2 * c) sdiv (- b - s)" and ?y = "(2 * c) sdiv (- b + s)"
  obtain r where r: "s = int r" using s(1) by (metis less_imp_le zero_le_imp_eq_int)
  have r16: "r < 2 ^ 16" using s(2) by (simp add: r)
  have "r * r < 2 ^ 16 * 2 ^ 16" using r16 by (intro mult_strict_mono) auto
  then have rr: "unat (of_int (s * s) :: u64) = r * r"
    by (simp add: r unat_of_nat_small flip: of_nat_mult)
  have sq: "math_sqrt (of_int (s * s)) = Some (Inr (of_nat r))"
    by (rule math_sqrt_correct) (use \<open>r * r < _\<close> in \<open>simp_all only: rr, simp_all\<close>)
  have sr: "sint (of_nat r :: u64) = s"
    using r16 by (simp add: r signed_of_nat signed_take_bit_int_eq_self)
  have "0 < s * s" using s(1) by simp
  then have op: "math_solve_quadr u v a b c = Some (Inr \<lparr>cnt = 2, r1 = max ?x ?y, r2 = min ?x ?y\<rparr>)"
    using D(1,3) sq sr s(1) by (simp add: math_solve_quadr_def d Let_def c_div_def del: of_int_mult)
  have "a * ?x * ?x + b * ?x + c = 0" by (rule quadr_root [OF d refl D(1,2) refl])
  moreover have "a * ?y * ?y + b * ?y + c = 0"
    by (rule quadr_root [of b a c "- s"]) (use d D in simp_all)
  ultimately show ?thesis using op by (intro exI [of _ "max ?x ?y"] exI [of _ "min ?x ?y"]) (simp add: max_def min_def)
qed

end
