(* ===== verification/DList.thy ===== *)
theory DList
  imports Prelude
begin

text \<open>
  The doubly linked lists of lib/include/utlist.h that the kernel and the allocators use:
  \<open>DL_APPEND2\<close>, \<open>DL_PREPEND2\<close>, \<open>DL_DELETE2\<close> and the traversal of \<open>DL_FOREACH2\<close>. The links live in two
  fields of the elements; a list is the pointer to its first element, whose \<open>prev\<close> field points to
  the last one. Each macro is modelled store by store, and shown to implement the list operation that
  its name says, for one list among several that share the link fields.
\<close>

section \<open>The macros\<close>

record 'p links =
  lnext :: "'p \<Rightarrow> 'p option"
  lprev :: "'p \<Rightarrow> 'p option"

definition set_next :: "'p \<Rightarrow> 'p option \<Rightarrow> 'p links \<Rightarrow> 'p links" where
  "set_next x v l = l\<lparr>lnext := (lnext l)(x := v)\<rparr>"

definition set_prev :: "'p \<Rightarrow> 'p option \<Rightarrow> 'p links \<Rightarrow> 'p links" where
  "set_prev x v l = l\<lparr>lprev := (lprev l)(x := v)\<rparr>"

text \<open>A dereference of a pointer that may be null.\<close>

definition deref :: "'p option \<Rightarrow> 'p res" where
  "deref q = (case q of None \<Rightarrow> Inl Null_deref | Some x \<Rightarrow> Inr x)"

lemma deref_simps [simp]: "deref (Some x) = Inr x" "deref None = Inl Null_deref"
  by (simp_all add: deref_def)

text \<open>\<open>DL_PREPEND2(head,add,prev,next)\<close>.\<close>

definition dl_prepend :: "'p option \<Rightarrow> 'p \<Rightarrow> 'p links \<Rightarrow> 'p option \<times> 'p links" where
  "dl_prepend head add l =
     (let l1 = set_next add head l;
          l2 = (case head of
                  Some h \<Rightarrow> set_prev h (Some add) (set_prev add (lprev l1 h) l1)
                | None \<Rightarrow> set_prev add (Some add) l1)
      in (Some add, l2))"

text \<open>\<open>DL_APPEND2(head,add,prev,next)\<close>.\<close>

definition dl_append :: "'p option \<Rightarrow> 'p \<Rightarrow> 'p links \<Rightarrow> ('p option \<times> 'p links) res" where
  "dl_append head add l =
     (case head of
        Some h \<Rightarrow>
          (let l1 = set_prev add (lprev l h) l
           in bindR (deref (lprev l1 h)) (\<lambda>t.
              let l2 = set_next t (Some add) l1;
                  l3 = set_prev h (Some add) l2
              in Inr (Some h, set_next add None l3)))
      | None \<Rightarrow> Inr (Some add, set_next add None (set_prev add (Some add) l)))"

text \<open>\<open>DL_DELETE2(head,del,prev,next)\<close> with its assertions.\<close>

definition dl_delete :: "'p option \<Rightarrow> 'p \<Rightarrow> 'p links \<Rightarrow> ('p option \<times> 'p links) res" where
  "dl_delete head del l =
     bindR (c_assert (head \<noteq> None)) (\<lambda>_.
     bindR (c_assert (lprev l del \<noteq> None)) (\<lambda>_.
     if lprev l del = Some del then Inr (None, l)
     else if Some del = head then
       bindR (c_assert (lnext l del \<noteq> None)) (\<lambda>_.
       bindR (deref (lnext l del)) (\<lambda>n.
       let l1 = set_prev n (lprev l del) l in Inr (lnext l1 del, l1)))
     else
       bindR (deref (lprev l del)) (\<lambda>p.
       let l1 = set_next p (lnext l del) l in
       case lnext l1 del of
         Some n \<Rightarrow> Inr (head, set_prev n (lprev l1 del) l1)
       | None \<Rightarrow> bindR (deref head) (\<lambda>h. Inr (head, set_prev h (lprev l1 del) l1)))))"

text \<open>
  The elements that \<open>DL_FOREACH2\<close> visits, at most \<open>fuel\<close> of them.
\<close>

fun dl_walk :: "nat \<Rightarrow> 'p links \<Rightarrow> 'p option \<Rightarrow> 'p list" where
  "dl_walk 0 l el = []"
| "dl_walk (Suc fuel) l el = (case el of None \<Rightarrow> [] | Some x \<Rightarrow> x # dl_walk fuel l (lnext l x))"

section \<open>Lists in the store\<close>

lemma set_next_simps [simp]:
  "lnext (set_next x v l) y = (if y = x then v else lnext l y)"
  "lprev (set_next x v l) = lprev l"
  by (simp_all add: set_next_def)

lemma set_prev_simps [simp]:
  "lprev (set_prev x v l) y = (if y = x then v else lprev l y)"
  "lnext (set_prev x v l) = lnext l"
  by (simp_all add: set_prev_def)

text \<open>The elements \<open>xs\<close> are linked one to the next, and the last one's \<open>next\<close> is \<open>e\<close>.\<close>

fun dseg :: "'p links \<Rightarrow> 'p list \<Rightarrow> 'p option \<Rightarrow> bool" where
  "dseg l [] e = True"
| "dseg l [x] e = (lnext l x = e)"
| "dseg l (x # y # zs) e = (lnext l x = Some y \<and> lprev l y = Some x \<and> dseg l (y # zs) e)"

definition dlist :: "'p links \<Rightarrow> 'p option \<Rightarrow> 'p list \<Rightarrow> bool" where
  "dlist l head xs \<longleftrightarrow>
     distinct xs \<and>
     (case xs of [] \<Rightarrow> head = None
      | x # _ \<Rightarrow> head = Some x \<and> lprev l x = Some (last xs) \<and> dseg l xs None)"

text \<open>Two stores that agree on the elements of a list hold the same list.\<close>

definition agree :: "'p set \<Rightarrow> 'p links \<Rightarrow> 'p links \<Rightarrow> bool" where
  "agree A l l' \<longleftrightarrow> (\<forall>x\<in>A. lnext l' x = lnext l x \<and> lprev l' x = lprev l x)"

lemma dseg_cong:
  "agree (set xs) l l' \<Longrightarrow> dseg l' xs e = dseg l xs e"
  by (induction l xs e rule: dseg.induct) (auto simp: agree_def)

lemma dlist_frame [dl_facts]: "dlist l head xs \<Longrightarrow> agree (set xs) l l' \<Longrightarrow> dlist l' head xs"
  using dseg_cong [of xs l l' None] by (auto simp: dlist_def agree_def split: list.splits)

lemma agree_mono: "agree A l l' \<Longrightarrow> B \<subseteq> A \<Longrightarrow> agree B l l'"
  by (auto simp: agree_def)

lemma agree_trans: "agree A l l' \<Longrightarrow> agree A l' l'' \<Longrightarrow> agree A l l''"
  by (auto simp: agree_def)

lemma dlist_Nil [simp]: "dlist l head [] \<longleftrightarrow> head = None"
  by (simp add: dlist_def)

lemma dlist_head: "dlist l head xs \<Longrightarrow> head = (case xs of [] \<Rightarrow> None | x # _ \<Rightarrow> Some x)"
  by (auto simp: dlist_def split: list.splits)

lemma dlist_distinct: "dlist l head xs \<Longrightarrow> distinct xs"
  by (simp add: dlist_def)

lemma dseg_append:
  "ys \<noteq> [] \<Longrightarrow> dseg l (xs @ ys) e \<longleftrightarrow>
     dseg l xs (Some (hd ys)) \<and> dseg l ys e \<and> (xs \<noteq> [] \<longrightarrow> lprev l (hd ys) = Some (last xs))"
proof (induction xs)
  case Nil
  then show ?case by simp
next
  case (Cons x xs)
  then show ?case by (cases xs; cases ys) auto
qed

lemma dseg_snoc:
  "dseg l (xs @ [x]) e \<longleftrightarrow>
     dseg l xs (Some x) \<and> lnext l x = e \<and> (xs \<noteq> [] \<longrightarrow> lprev l x = Some (last xs))"
  by (simp add: dseg_append)

lemma dseg_set_next_last:
  "distinct (xs @ [x]) \<Longrightarrow> dseg l (xs @ [x]) e \<Longrightarrow> dseg (set_next x v l) (xs @ [x]) v"
  using dseg_cong [of xs l "set_next x v l" "Some x"] by (auto simp: dseg_snoc agree_def)

lemma dseg_set_next_other: "x \<notin> set xs \<Longrightarrow> dseg (set_next x v l) xs e = dseg l xs e"
  by (rule dseg_cong) (auto simp: agree_def)

lemma dseg_set_prev_other: "x \<notin> set xs \<Longrightarrow> dseg (set_prev x v l) xs e = dseg l xs e"
  by (rule dseg_cong) (auto simp: agree_def)

text \<open>The \<open>prev\<close> field of the first element is not part of the segment.\<close>

lemma dseg_set_prev_first: "x \<notin> set xs \<Longrightarrow> dseg (set_prev x v l) (x # xs) e = dseg l (x # xs) e"
proof (cases xs)
  case (Cons y ys)
  assume "x \<notin> set xs"
  then show ?thesis using Cons dseg_set_prev_other [of x xs v l e] by auto
qed simp

section \<open>Each macro implements the list operation\<close>

lemma dl_append_dlist:
  assumes d: "dlist l head xs" and x: "x \<notin> set xs"
  shows "\<exists>head' l'. dl_append head x l = Inr (head', l') \<and> dlist l' head' (xs @ [x]) \<and>
           agree (- insert x (set xs)) l l'"
proof (cases xs)
  case Nil
  with d show ?thesis by (auto simp: dl_append_def dlist_def agree_def)
next
  case (Cons h ys)
  define t where "t = last xs"
  define us where "us = butlast xs"
  have us: "xs = us @ [t]" using Cons by (simp add: us_def t_def)
  have "h \<in> set xs" "t \<in> set xs" using Cons by (simp_all add: t_def)
  have hd: "head = Some h" and ph: "lprev l h = Some t" and sg: "dseg l xs None" and di: "distinct xs"
    using d Cons by (auto simp: dlist_def t_def)
  have xh: "x \<noteq> h" using x Cons by auto
  define l' where "l' = set_next x None (set_prev h (Some x) (set_next t (Some x) (set_prev x (Some t) l)))"
  have op: "dl_append head x l = Inr (Some h, l')"
    using hd ph xh by (simp add: dl_append_def Let_def l'_def)
  have "dseg (set_prev x (Some t) l) xs None" using sg x by (simp add: dseg_set_prev_other)
  then have "dseg (set_next t (Some x) (set_prev x (Some t) l)) xs (Some x)"
    using di us dseg_set_next_last [of us t] by simp
  then have "dseg (set_prev h (Some x) (set_next t (Some x) (set_prev x (Some t) l))) xs (Some x)"
    using di Cons dseg_set_prev_first [of h ys] by simp
  then have "dseg l' xs (Some x)" using x by (simp add: l'_def dseg_set_next_other)
  moreover have "lprev l' x = Some t" "lnext l' x = None" "lprev l' h = Some x"
    using xh by (auto simp: l'_def)
  ultimately have "dseg l' (xs @ [x]) None" by (simp add: dseg_snoc t_def)
  then have "dlist l' (Some h) (xs @ [x])"
    using di x xh Cons \<open>lprev l' h = Some x\<close> by (auto simp: dlist_def)
  moreover have "agree (- insert x (set xs)) l l'"
    using \<open>h \<in> set xs\<close> \<open>t \<in> set xs\<close> by (auto simp: agree_def l'_def)
  ultimately show ?thesis using op by blast
qed

lemma dl_prepend_dlist:
  assumes d: "dlist l head xs" and x: "x \<notin> set xs"
  shows "fst (dl_prepend head x l) = Some x" "dlist (snd (dl_prepend head x l)) (Some x) (x # xs)"
    "agree (- insert x (set xs)) l (snd (dl_prepend head x l))"
proof -
  show "fst (dl_prepend head x l) = Some x" by (simp add: dl_prepend_def Let_def)
  show "dlist (snd (dl_prepend head x l)) (Some x) (x # xs)"
  proof (cases xs)
    case Nil
    with d show ?thesis by (simp add: dl_prepend_def dlist_def Let_def)
  next
    case (Cons h ys)
    have hd: "head = Some h" and ph: "lprev l h = Some (last xs)" and sg: "dseg l xs None"
      and di: "distinct xs" using d Cons by (auto simp: dlist_def)
    have xh: "x \<noteq> h" using x Cons by auto
    define l' where "l' = set_prev h (Some x) (set_prev x (Some (last xs)) (set_next x (Some h) l))"
    have op: "snd (dl_prepend head x l) = l'"
      using hd ph xh by (simp add: dl_prepend_def Let_def l'_def)
    have "dseg (set_prev x (Some (last xs)) (set_next x (Some h) l)) xs None"
      using sg x by (simp add: dseg_set_prev_other dseg_set_next_other)
    then have "dseg l' xs None"
      using di Cons dseg_set_prev_first [of h ys] by (simp add: l'_def)
    then show ?thesis
      using di x Cons xh unfolding op by (auto simp: dlist_def l'_def)
  qed
  show "agree (- insert x (set xs)) l (snd (dl_prepend head x l))"
    using dlist_head [OF d]
    by (auto simp: dl_prepend_def Let_def agree_def split: option.splits list.splits)
qed

lemma dseg_prev:
  "dseg l (us @ x # vs) e \<Longrightarrow> us \<noteq> [] \<Longrightarrow> lprev l x = Some (last us)"
  by (simp add: dseg_append)

lemma dseg_next:
  "dseg l (us @ x # vs) e \<Longrightarrow> lnext l x = (case vs of [] \<Rightarrow> e | v # _ \<Rightarrow> Some v)"
  by (cases vs) (simp_all add: dseg_append)

lemma dseg_tail: "dseg l (us @ vs) e \<Longrightarrow> dseg l vs e"
  by (cases "vs = []") (simp_all add: dseg_append)

text \<open>Deleting the first element.\<close>

lemma dl_delete_first:
  assumes d: "dlist l head (x # vs)"
  shows "\<exists>head' l'. dl_delete head x l = Inr (head', l') \<and> dlist l' head' vs \<and>
           agree (- set (x # vs)) l l'"
proof (cases vs)
  case Nil
  with d show ?thesis by (auto simp: dl_delete_def dlist_def agree_def)
next
  case (Cons v ws)
  define l' where "l' = set_prev v (Some (last vs)) l"
  have f: "head = Some x" "lprev l x = Some (last vs)" "lnext l x = Some v" "x \<notin> set vs"
      "dseg l vs None" "distinct vs"
    using d Cons by (auto simp: dlist_def)
  then have "last vs \<noteq> x" using Cons last_in_set [of vs] by auto
  with f have op: "dl_delete head x l = Inr (Some v, l')"
    using Cons by (auto simp: dl_delete_def Let_def l'_def)
  have "dseg l' vs None" using f Cons dseg_set_prev_first [of v ws] by (simp add: l'_def)
  then have "dlist l' (Some v) vs" using f Cons by (simp add: dlist_def l'_def)
  moreover have "agree (- set (x # vs)) l l'" using Cons by (auto simp: agree_def l'_def)
  ultimately show ?thesis using op by blast
qed

text \<open>Deleting an element that has a predecessor.\<close>

lemma dl_delete_later:
  assumes d: "dlist l head (us @ x # vs)" and us: "us \<noteq> []"
  shows "\<exists>head' l'. dl_delete head x l = Inr (head', l') \<and> dlist l' head' (us @ vs) \<and>
           agree (- set (us @ x # vs)) l l'"
proof -
  obtain h us' where h: "us = h # us'" using us by (cases us) auto
  define p where "p = last us"
  have sg: "dseg l (us @ x # vs) None" and di: "distinct (us @ x # vs)" and hd: "head = Some h"
    and ph: "lprev l h = Some (last (us @ x # vs))"
    using d h by (auto simp: dlist_def)
  have px: "lprev l x = Some p" using dseg_prev [OF sg us] by (simp add: p_def)
  have nx: "lnext l x = (case vs of [] \<Rightarrow> None | v # _ \<Rightarrow> Some v)" by (rule dseg_next [OF sg])
  have ne: "p \<noteq> x" "h \<noteq> x" "p \<in> set us" using di us h by (auto simp: p_def)
  obtain us0 where us0: "us = us0 @ [p]" using us by (metis append_butlast_last_id p_def)
  have sus: "dseg l us (Some x)" using sg by (simp add: dseg_append)
  have svs: "dseg l vs None" using dseg_tail [of l "us @ [x]" vs] sg by simp
  define l1 where "l1 = set_next p (lnext l x) l"
  have s1: "dseg l1 us (lnext l x)"
    using sus di us0 dseg_set_next_last [of us0 p] by (simp add: l1_def)
  have s2: "dseg l1 vs None" using svs di ne by (subst l1_def, subst dseg_set_next_other) auto
  define y where "y = (case vs of [] \<Rightarrow> h | v # _ \<Rightarrow> v)"
  define l' where "l' = set_prev y (Some p) l1"
  have op: "dl_delete head x l = Inr (Some h, l')"
    using hd px nx ne by (auto simp: dl_delete_def Let_def l'_def l1_def y_def split: list.splits)
  have "dseg l' (us @ vs) None \<and> lprev l' h = Some (last (us @ vs))"
  proof (cases vs)
    case Nil
    then have "dseg l' us None"
      using s1 nx di h dseg_set_prev_first [of h us'] by (simp add: l'_def y_def)
    then show ?thesis using Nil by (simp add: l'_def y_def p_def)
  next
    case (Cons v ws)
    then have "dseg l' us (Some v)" using s1 nx di by (subst l'_def, subst dseg_set_prev_other) (auto simp: y_def)
    moreover have "dseg l' vs None" using s2 di Cons dseg_set_prev_first [of v ws] by (simp add: l'_def y_def)
    moreover have "lprev l' v = Some p" by (simp add: l'_def y_def Cons)
    moreover have "v \<noteq> h" using di Cons h by auto
    then have "lprev l' h = Some (last vs)" using ph Cons by (simp add: l'_def l1_def y_def)
    ultimately show ?thesis using Cons us by (simp add: dseg_append p_def)
  qed
  then have "dlist l' (Some h) (us @ vs)" using di h by (simp add: dlist_def)
  moreover have "y \<in> set (us @ x # vs)" using h by (simp add: y_def split: list.splits)
  then have "agree (- set (us @ x # vs)) l l'" using ne by (auto simp: agree_def l'_def l1_def)
  ultimately show ?thesis using op by blast
qed

lemma dl_delete_dlist:
  assumes d: "dlist l head xs" and x: "x \<in> set xs"
  shows "\<exists>head' l'. dl_delete head x l = Inr (head', l') \<and> dlist l' head' (remove1 x xs) \<and>
           agree (- set xs) l l'"
proof -
  obtain us vs where s: "xs = us @ x # vs" "x \<notin> set us" using split_list_first [OF x] by auto
  then have r: "remove1 x xs = us @ vs" by (simp add: remove1_append)
  show ?thesis
    using dl_delete_first [of l head x vs] dl_delete_later [of l head us x vs] d s r
    by (cases "us = []") auto
qed

text \<open>\<open>DL_FOREACH2\<close> visits exactly the elements, in order.\<close>

lemma dl_walk_dseg:
  "dseg l xs None \<Longrightarrow> length xs \<le> n \<Longrightarrow>
   dl_walk n l (case xs of [] \<Rightarrow> None | x # _ \<Rightarrow> Some x) = xs"
proof (induction n arbitrary: xs)
  case 0
  then show ?case by simp
next
  case (Suc n)
  show ?case
  proof (cases xs)
    case (Cons x ys)
    then have "lnext l x = (case ys of [] \<Rightarrow> None | y # _ \<Rightarrow> Some y)" "dseg l ys None"
      using Suc.prems by (cases ys; simp)+
    with Suc.IH [of ys] Suc.prems Cons show ?thesis by simp
  qed simp
qed

lemma dl_walk_dlist: "dlist l head xs \<Longrightarrow> length xs \<le> n \<Longrightarrow> dl_walk n l head = xs"
  using dl_walk_dseg [of l xs n] by (auto simp: dlist_def split: list.splits)

section \<open>An array of lists that share the link fields\<close>

text \<open>
  The page manager, the slab allocator and the scheduler keep an array of list heads; an element is in
  at most one of the lists.
\<close>

definition dls_append ::
  "'p option list \<Rightarrow> nat \<Rightarrow> 'p \<Rightarrow> 'p links \<Rightarrow> ('p option list \<times> 'p links) res" where
  "dls_append hs q x l =
     (if q < length hs then bindR (dl_append (hs ! q) x l) (\<lambda>(h, l'). Inr (hs[q := h], l'))
      else Inl Out_of_bounds)"

definition dls_delete ::
  "'p option list \<Rightarrow> nat \<Rightarrow> 'p \<Rightarrow> 'p links \<Rightarrow> ('p option list \<times> 'p links) res" where
  "dls_delete hs q x l =
     (if q < length hs then bindR (dl_delete (hs ! q) x l) (\<lambda>(h, l'). Inr (hs[q := h], l'))
      else Inl Out_of_bounds)"

definition dlists :: "'p links \<Rightarrow> 'p option list \<Rightarrow> 'p list list \<Rightarrow> bool" where
  "dlists l hs xss \<longleftrightarrow>
     length hs = length xss \<and> (\<forall>q < length xss. dlist l (hs ! q) (xss ! q)) \<and>
     (\<forall>q < length xss. \<forall>q' < length xss. q \<noteq> q' \<longrightarrow> set (xss ! q) \<inter> set (xss ! q') = {})"

text \<open>The elements of all lists.\<close>

definition dls_elems :: "'p list list \<Rightarrow> 'p set" where
  "dls_elems xss = (\<Union>q < length xss. set (xss ! q))"

lemma dls_elems_update:
  "q < length xss \<Longrightarrow> dls_elems (xss[q := ys]) \<subseteq> dls_elems xss \<union> set ys"
  by (auto simp: dls_elems_def nth_list_update split: if_splits)

lemma dls_elems_mem: "q < length xss \<Longrightarrow> x \<in> set (xss ! q) \<Longrightarrow> x \<in> dls_elems xss"
  by (auto simp: dls_elems_def)

lemma dlists_length: "dlists l hs xss \<Longrightarrow> length hs = length xss"
  by (simp add: dlists_def)

lemma dlists_nth: "dlists l hs xss \<Longrightarrow> q < length xss \<Longrightarrow> dlist l (hs ! q) (xss ! q)"
  by (simp add: dlists_def)

lemma dlists_update:
  assumes d: "dlists l hs xss" and q: "q < length xss" and n: "dlist l' h ys"
    and fresh: "set ys \<inter> (dls_elems xss - set (xss ! q)) = {}"
    and ag: "agree (dls_elems xss - set (xss ! q)) l l'"
  shows "dlists l' (hs[q := h]) (xss[q := ys])"
proof -
  have other: "set (xss ! i) \<subseteq> dls_elems xss - set (xss ! q)" if "i < length xss" "i \<noteq> q" for i
    using d q that by (fastforce simp: dlists_def dls_elems_def)
  have dl: "dlist l' ((hs[q := h]) ! i) ((xss[q := ys]) ! i)" if i: "i < length xss" for i
    using d n i q other [OF i] ag
    by (cases "i = q") (auto simp: dlists_def intro: dlist_frame agree_mono)
  have dis: "set (xss[q := ys] ! i) \<inter> set (xss[q := ys] ! j) = {}"
    if ij: "i < length xss" "j < length xss" "i \<noteq> j" for i j
  proof (cases "i = q \<or> j = q")
    case True
    then show ?thesis using other [of i] other [of j] fresh ij q by (auto simp: nth_list_update)
  next
    case False
    then show ?thesis using d ij by (auto simp: dlists_def)
  qed
  show ?thesis using d dl dis by (auto simp: dlists_def)
qed

lemma dls_append_dlists [dl_facts]:
  assumes d: "dlists l hs xss" and q: "q < length xss" and x: "x \<notin> dls_elems xss"
  shows "\<exists>hs' l'. dls_append hs q x l = Inr (hs', l') \<and> dlists l' hs' (xss[q := xss ! q @ [x]]) \<and>
           agree (- insert x (dls_elems xss)) l l'"
proof -
  have "x \<notin> set (xss ! q)" using q x by (auto simp: dls_elems_def)
  then obtain h l' where a: "dl_append (hs ! q) x l = Inr (h, l')" "dlist l' h (xss ! q @ [x])"
    "agree (- insert x (set (xss ! q))) l l'"
    using dl_append_dlist [OF dlists_nth [OF d q]] by blast
  have "dlists l' (hs[q := h]) (xss[q := xss ! q @ [x]])"
    by (rule dlists_update [OF d q a(2)])
      (use d q x a(3) in \<open>auto simp: dlists_def intro: agree_mono dls_elems_mem\<close>)
  moreover have "agree (- insert x (dls_elems xss)) l l'"
    using a(3) by (rule agree_mono) (use q in \<open>auto intro: dls_elems_mem\<close>)
  ultimately show ?thesis using a(1) d q by (auto simp: dls_append_def dlists_def)
qed

lemma dls_delete_dlists [dl_facts]:
  assumes d: "dlists l hs xss" and q: "q < length xss" and x: "x \<in> set (xss ! q)"
  shows "\<exists>hs' l'. dls_delete hs q x l = Inr (hs', l') \<and>
           dlists l' hs' (xss[q := remove1 x (xss ! q)]) \<and> agree (- dls_elems xss) l l'"
proof -
  obtain h l' where a: "dl_delete (hs ! q) x l = Inr (h, l')" "dlist l' h (remove1 x (xss ! q))"
    "agree (- set (xss ! q)) l l'"
    using dl_delete_dlist [OF dlists_nth [OF d q] x] by blast
  have "dlists l' (hs[q := h]) (xss[q := remove1 x (xss ! q)])"
    by (rule dlists_update [OF d q a(2)])
      (use a(3) in \<open>auto intro: agree_mono dest: notin_set_remove1\<close>)
  moreover have "agree (- dls_elems xss) l l'"
    using a(3) by (rule agree_mono) (use q in \<open>auto intro: dls_elems_mem\<close>)
  ultimately show ?thesis using a(1) d q by (auto simp: dls_delete_def dlists_def)
qed

lemma dls_delete_elems:
  assumes "dlists l hs xss" "q < length xss" "x \<in> set (xss ! q)"
  shows "dls_elems (xss[q := remove1 x (xss ! q)]) = dls_elems xss - {x}"
proof -
  have "distinct (xss ! q)" using assms by (auto simp: dlists_def dest: dlist_distinct)
  moreover have "x \<notin> set (xss ! i)" if "i < length xss" "i \<noteq> q" for i
    using assms that by (fastforce simp: dlists_def)
  ultimately show ?thesis
    using assms(2) by (fastforce simp: dls_elems_def nth_list_update split: if_splits)
qed

lemma dls_append_elems:
  "q < length xss \<Longrightarrow> dls_elems (xss[q := xss ! q @ [x]]) = insert x (dls_elems xss)"
  by (fastforce simp: dls_elems_def nth_list_update split: if_splits)

section \<open>Two lists\<close>

text \<open>An element is on one of two lists, or on none: the lists of a slab allocator.\<close>

definition two_lists :: "'p links \<Rightarrow> 'p option \<Rightarrow> 'p option \<Rightarrow> 'p list \<Rightarrow> 'p list \<Rightarrow> bool" where
  "two_lists l h1 h2 xs ys \<longleftrightarrow> dlist l h1 xs \<and> dlist l h2 ys \<and> set xs \<inter> set ys = {}"

lemma two_lists_sym: "two_lists l h1 h2 xs ys \<longleftrightarrow> two_lists l h2 h1 ys xs"
  by (auto simp: two_lists_def)

lemma two_lists_delete:
  assumes t: "two_lists l h1 h2 xs ys" and x: "x \<in> set xs"
  shows "\<exists>h l'. dl_delete h1 x l = Inr (h, l') \<and> two_lists l' h h2 (remove1 x xs) ys"
proof -
  have d: "dlist l h1 xs" "dlist l h2 ys" "set xs \<inter> set ys = {}" using t by (auto simp: two_lists_def)
  obtain h l' where o: "dl_delete h1 x l = Inr (h, l')" "dlist l' h (remove1 x xs)" "agree (- set xs) l l'"
    using dl_delete_dlist [OF d(1) x] by blast
  have "dlist l' h2 ys" by (rule dlist_frame [OF d(2) agree_mono [OF o(3)]]) (use d(3) in blast)
  moreover have "set (remove1 x xs) \<inter> set ys = {}" using d(3) set_remove1_subset [of x xs] by blast
  ultimately show ?thesis using o by (auto simp: two_lists_def)
qed

lemma two_lists_prepend:
  assumes t: "two_lists l h1 h2 xs ys" and x: "x \<notin> set xs" "x \<notin> set ys"
  shows "\<exists>h l'. dl_prepend h1 x l = (h, l') \<and> two_lists l' h h2 (x # xs) ys"
proof -
  have d: "dlist l h1 xs" "dlist l h2 ys" "set xs \<inter> set ys = {}" using t by (auto simp: two_lists_def)
  note o = dl_prepend_dlist [OF d(1) x(1)]
  have "dlist (snd (dl_prepend h1 x l)) h2 ys"
    by (rule dlist_frame [OF d(2) agree_mono [OF o(3)]]) (use d(3) x in auto)
  then show ?thesis using o(1,2) d(3) x by (cases "dl_prepend h1 x l") (auto simp: two_lists_def)
qed

lemma two_lists_append:
  assumes t: "two_lists l h1 h2 xs ys" and x: "x \<notin> set xs" "x \<notin> set ys"
  shows "\<exists>h l'. dl_append h1 x l = Inr (h, l') \<and> two_lists l' h h2 (xs @ [x]) ys"
proof -
  have d: "dlist l h1 xs" "dlist l h2 ys" "set xs \<inter> set ys = {}" using t by (auto simp: two_lists_def)
  obtain h l' where o: "dl_append h1 x l = Inr (h, l')" "dlist l' h (xs @ [x])" "agree (- insert x (set xs)) l l'"
    using dl_append_dlist [OF d(1) x(1)] by blast
  have "dlist l' h2 ys" by (rule dlist_frame [OF d(2) agree_mono [OF o(3)]]) (use d(3) x in auto)
  then show ?thesis using o(1,2) d(3) x by (auto simp: two_lists_def)
qed

lemma two_lists_frame:
  "two_lists l h1 h2 xs ys \<Longrightarrow> agree (set xs \<union> set ys) l l' \<Longrightarrow> two_lists l' h1 h2 xs ys"
  by (auto simp: two_lists_def intro: dlist_frame agree_mono)

end
