(* ===== verification/RingBuf.thy ===== *)
theory RingBuf
  imports Prelude
begin

text \<open>
  The ring buffers of lib/include/ring_buffer.h: the macros \<open>RB_TYPE\<close>, \<open>RB_INIT\<close>, \<open>RB_PUSH_PRE\<close>,
  \<open>RB_PEEK\<close>, \<open>RB_POP\<close> and \<open>RB_LEN\<close>. They hold the kernel's queues of waiting senders and the
  buffers of the UART servers. The contract is a bounded first-in first-out queue, stated as the
  locale \<open>bounded_fifo\<close> and proved of the macros by interpretation.
\<close>

section \<open>The macros\<close>

text \<open>
  \<open>head\<close> is the index of the most recently pushed element; \<open>head\<close>, \<open>size\<close> and \<open>capacity\<close> are
  \<open>size_t\<close> and wrap at 64 bits.
\<close>

record 'a ring =
  rb_head :: u64
  rb_size :: u64
  rb_capacity :: u64
  rb_array :: "'a list"

text \<open>\<open>RB_INIT(RB, CAP)\<close> on a buffer of type \<open>RB_TYPE(T, CAP)\<close>; \<open>z\<close> is the all-zero element.\<close>

definition rb_init :: "'a \<Rightarrow> u64 \<Rightarrow> 'a ring" where
  "rb_init z cap =
     \<lparr>rb_head = cap - 1, rb_size = 0, rb_capacity = cap, rb_array = replicate (unat cap) z\<rparr>"

text \<open>
  \<open>RB_PUSH_PRE(RB, ELEM_PTR)\<close>: the second component is the index that \<open>ELEM_PTR\<close> points to, or
  \<open>None\<close> for \<open>NULL\<close>. The caller then stores the element through the pointer.
\<close>

definition rb_push_pre :: "'a ring \<Rightarrow> 'a ring \<times> u64 option" where
  "rb_push_pre r =
     (if rb_size r \<ge> rb_capacity r then (r, None)
      else let h = (rb_head r + 1) mod rb_capacity r
           in (r\<lparr>rb_head := h, rb_size := rb_size r + 1\<rparr>, Some h))"

text \<open>\<open>*slot = v\<close> through a pointer obtained from \<open>RB_PUSH_PRE\<close>.\<close>

definition rb_store :: "u64 \<Rightarrow> 'a \<Rightarrow> 'a ring \<Rightarrow> 'a ring" where
  "rb_store i v r = r\<lparr>rb_array := (rb_array r)[unat i := v]\<rparr>"

definition rb_peek :: "'a ring \<Rightarrow> u64 option" where
  "rb_peek r =
     (if rb_size r = 0 then None
      else Some ((rb_head r + rb_capacity r + 1 - rb_size r) mod rb_capacity r))"

definition rb_pop :: "'a ring \<Rightarrow> 'a ring" where
  "rb_pop r = r\<lparr>rb_size := rb_size r - 1\<rparr>"

definition rb_len :: "'a ring \<Rightarrow> u64" where
  "rb_len r = rb_size r"

text \<open>
  The two idioms of the callers: push and store through the slot, \<open>None\<close> when the buffer is full;
  and the element at the front.
\<close>

definition rb_push :: "'a \<Rightarrow> 'a ring \<Rightarrow> 'a ring option" where
  "rb_push v r =
     (case rb_push_pre r of (r', None) \<Rightarrow> None | (r', Some slot) \<Rightarrow> Some (rb_store slot v r'))"

definition rb_front :: "'a ring \<Rightarrow> 'a option" where
  "rb_front r = map_option (\<lambda>i. rb_array r ! unat i) (rb_peek r)"

section \<open>Well-formed buffers and their contents\<close>

definition rb_ok :: "'a ring \<Rightarrow> bool" where
  "rb_ok r \<longleftrightarrow>
     0 < unat (rb_capacity r) \<and> unat (rb_capacity r) < 2 ^ 62 \<and> rb_head r < rb_capacity r \<and>
     rb_size r \<le> rb_capacity r \<and> length (rb_array r) = unat (rb_capacity r)"

text \<open>Index of the \<open>i\<close>-th oldest element, over the natural numbers.\<close>

definition rb_idx :: "'a ring \<Rightarrow> nat \<Rightarrow> nat" where
  "rb_idx r i =
     (unat (rb_head r) + unat (rb_capacity r) + 1 - unat (rb_size r) + i) mod unat (rb_capacity r)"

definition rb_list :: "'a ring \<Rightarrow> 'a list" where
  "rb_list r = map (\<lambda>i. rb_array r ! rb_idx r i) [0..<unat (rb_size r)]"

lemma length_rb_list [simp]: "length (rb_list r) = unat (rb_size r)"
  by (simp add: rb_list_def)

lemma rb_init_ok: "0 < unat cap \<Longrightarrow> unat cap < 2 ^ 62 \<Longrightarrow> rb_ok (rb_init z cap)"
  by (simp add: rb_ok_def rb_init_def word_less_nat_alt unat_sub_if_size)

lemma rb_init_list [simp]: "rb_list (rb_init z cap) = []"
  by (simp add: rb_list_def rb_init_def)

lemma rb_ok_nat:
  assumes "rb_ok r"
  shows "unat (rb_head r) < unat (rb_capacity r)" "unat (rb_size r) \<le> unat (rb_capacity r)"
    "0 < unat (rb_capacity r)" "unat (rb_capacity r) < 2 ^ 62"
    "length (rb_array r) = unat (rb_capacity r)"
  using assms by (auto simp: rb_ok_def word_less_nat_alt word_le_nat_alt)

lemma unat_head_Suc:
  assumes "rb_ok r"
  shows "unat ((rb_head r + 1) mod rb_capacity r) = (unat (rb_head r) + 1) mod unat (rb_capacity r)"
  using rb_ok_nat [OF assms] by (simp add: unat_mod unat_add_no_wrap)

lemma unat_size_Suc:
  assumes "rb_ok r"
  shows "unat (rb_size r + 1) = unat (rb_size r) + 1"
  using rb_ok_nat [OF assms] by (simp add: unat_add_no_wrap)

text \<open>The word arithmetic of \<open>RB_PEEK\<close> does not wrap on a well-formed buffer.\<close>

lemma unat_peek_idx:
  assumes "rb_ok r"
  shows "unat ((rb_head r + rb_capacity r + 1 - rb_size r) mod rb_capacity r) = rb_idx r 0"
proof -
  note b = rb_ok_nat [OF assms]
  have s: "unat (rb_head r + rb_capacity r + 1) = unat (rb_head r) + unat (rb_capacity r) + 1"
    using b by (simp add: unat_add_no_wrap)
  then have le: "rb_size r \<le> rb_head r + rb_capacity r + 1"
    using b by (simp add: word_le_nat_alt)
  show ?thesis
    unfolding rb_idx_def by (simp add: unat_mod unat_sub_no_wrap [OF le] s)
qed

lemma rb_idx_less: "rb_ok r \<Longrightarrow> rb_idx r i < unat (rb_capacity r)"
  by (simp add: rb_idx_def rb_ok_nat)

text \<open>The indices in use are pairwise different, so a store at the new head changes no element.\<close>

lemma rb_idx_push:
  fixes r defines "r' \<equiv> fst (rb_push_pre r)"
  assumes ok: "rb_ok r" and room: "rb_size r < rb_capacity r"
  shows "i \<le> unat (rb_size r) \<Longrightarrow> rb_idx r' i = (if i = unat (rb_size r)
           then (unat (rb_head r) + 1) mod unat (rb_capacity r) else rb_idx r i)"
    and "i < unat (rb_size r) \<Longrightarrow> rb_idx r i \<noteq> (unat (rb_head r) + 1) mod unat (rb_capacity r)"
proof -
  define h s c where defs: "h = unat (rb_head r)" "s = unat (rb_size r)" "c = unat (rb_capacity r)"
  have b: "h < c" "s < c" "0 < c"
    using rb_ok_nat [OF ok] room by (auto simp: defs word_less_nat_alt)
  have r': "unat (rb_head r') = (h + 1) mod c" "unat (rb_size r') = s + 1"
      "unat (rb_capacity r') = c"
    using room unat_head_Suc [OF ok] unat_size_Suc [OF ok]
    by (auto simp: r'_def rb_push_pre_def Let_def defs)
  have eq: "((h + 1) mod c + c + 1 - (s + 1) + i) mod c = (h + c + 1 - s + i) mod c" if "i \<le> s" for i
  proof -
    have "((h + 1) mod c + c + 1 - (s + 1) + i) = (h + 1) mod c + (c - s + i)"
      using b by simp
    then have "((h + 1) mod c + c + 1 - (s + 1) + i) mod c = (h + 1 + (c - s + i)) mod c"
      by (simp only: mod_add_left_eq)
    also have "h + 1 + (c - s + i) = h + c + 1 - s + i" using b by simp
    finally show ?thesis .
  qed
  show "rb_idx r' i = (if i = unat (rb_size r)
           then (unat (rb_head r) + 1) mod unat (rb_capacity r) else rb_idx r i)"
    if i: "i \<le> unat (rb_size r)"
  proof (cases "i = s")
    case True
    have "h + c + 1 - s + s = h + 1 + c" using b by simp
    then have "(h + c + 1 - s + i) mod c = (h + 1) mod c"
      using True by (simp only: mod_add_self2)
    then show ?thesis
      using eq [of i] i True by (simp add: rb_idx_def r' defs [symmetric])
  next
    case False
    then show ?thesis using eq [of i] i by (simp add: rb_idx_def r' defs [symmetric])
  qed
  show "rb_idx r i \<noteq> (unat (rb_head r) + 1) mod unat (rb_capacity r)" if i: "i < unat (rb_size r)"
  proof
    assume "rb_idx r i = (unat (rb_head r) + 1) mod unat (rb_capacity r)"
    then have "(h + c + 1 - s + i) mod c = (h + 1) mod c"
      by (simp add: rb_idx_def defs [symmetric])
    moreover have "h + c + 1 - s + i = (h + 1) + (c - s + i)" using b by simp
    ultimately have "c dvd (c - s + i)"
      by (metis add_diff_cancel_left' le_add1 mod_eq_dvd_iff_nat)
    moreover have "0 < c - s + i" "c - s + i < c" using b i by (simp_all add: defs)
    ultimately show False using dvd_imp_le by fastforce
  qed
qed

lemma rb_push_pre_ok: "rb_ok r \<Longrightarrow> rb_ok (fst (rb_push_pre r))"
  using unat_size_Suc [of r]
  by (auto simp: rb_ok_def rb_push_pre_def Let_def word_less_nat_alt word_le_nat_alt unat_mod)

lemma rb_push_Some:
  assumes ok: "rb_ok r" and push: "rb_push v r = Some r'"
  shows "rb_ok r'" "rb_list r' = rb_list r @ [v]" "rb_capacity r' = rb_capacity r"
proof -
  have room: "rb_size r < rb_capacity r"
    using push by (auto simp: rb_push_def rb_push_pre_def split: if_splits)
  define h where "h = (rb_head r + 1) mod rb_capacity r"
  define r1 where "r1 = fst (rb_push_pre r)"
  have r': "r' = rb_store h v r1"
    using push room by (auto simp: rb_push_def rb_push_pre_def Let_def h_def r1_def)
  show "rb_ok r'"
    using rb_push_pre_ok [OF ok] by (simp add: r' r1_def rb_store_def rb_ok_def)
  show "rb_capacity r' = rb_capacity r"
    by (simp add: r' r1_def rb_store_def rb_push_pre_def Let_def)
  have idx: "rb_idx r' i = rb_idx r1 i" for i
    by (simp add: r' rb_store_def rb_idx_def)
  have size: "unat (rb_size r') = Suc (unat (rb_size r))"
    using room unat_size_Suc [OF ok]
    by (simp add: r' r1_def rb_store_def rb_push_pre_def Let_def)
  have arr: "rb_array r' = (rb_array r)[unat h := v]"
    using room by (simp add: r' r1_def rb_store_def rb_push_pre_def Let_def)
  have hl: "unat h < length (rb_array r)"
    using rb_ok_nat [OF ok] by (simp add: h_def unat_mod)
  show "rb_list r' = rb_list r @ [v]"
    using rb_idx_push(1) [OF ok room, folded unat_head_Suc [OF ok] h_def] hl
      rb_idx_push(2) [OF ok room, folded unat_head_Suc [OF ok] h_def, THEN not_sym]
    by (auto simp: rb_list_def size arr idx r1_def intro!: map_cong)
qed

lemma rb_push_None: "rb_push v r = None \<longleftrightarrow> rb_size r \<ge> rb_capacity r"
  by (auto simp: rb_push_def rb_push_pre_def Let_def)

lemma rb_front_list: "rb_ok r \<Longrightarrow> rb_front r = (case rb_list r of [] \<Rightarrow> None | x # _ \<Rightarrow> Some x)"
proof -
  assume ok: "rb_ok r"
  show ?thesis
  proof (cases "rb_size r = 0")
    case True
    then show ?thesis by (simp add: rb_front_def rb_peek_def rb_list_def)
  next
    case False
    then obtain n where n: "unat (rb_size r) = Suc n"
      by (metis not0_implies_Suc unat_eq_zero)
    have "rb_list r = rb_array r ! rb_idx r 0 # map (\<lambda>i. rb_array r ! rb_idx r i) [1..<Suc n]"
      by (simp add: rb_list_def n upt_conv_Cons del: upt_Suc)
    then show ?thesis
      using False unat_peek_idx [OF ok] by (simp add: rb_front_def rb_peek_def)
  qed
qed

lemma rb_pop_list:
  assumes ok: "rb_ok r" and ne: "rb_size r \<noteq> 0"
  shows "rb_ok (rb_pop r)" "rb_list (rb_pop r) = tl (rb_list r)"
proof -
  obtain n where n: "unat (rb_size r) = Suc n"
    using ne by (metis not0_implies_Suc unat_eq_zero)
  have s: "unat (rb_size r - 1) = n"
    using n ne by (simp add: unat_minus_one)
  note b = rb_ok_nat [OF ok]
  show "rb_ok (rb_pop r)"
    using ok b n s by (simp add: rb_ok_def rb_pop_def word_le_nat_alt)
  have idx: "rb_idx (rb_pop r) i = rb_idx r (Suc i)" for i
    using b n s by (simp add: rb_idx_def rb_pop_def) (simp add: Suc_diff_le)
  have "map (\<lambda>i. rb_array r ! rb_idx r i) [1..<Suc n] = map (\<lambda>i. rb_array r ! rb_idx r (Suc i)) [0..<n]"
    using map_Suc_upt [of 0 n] by (metis (no_types, lifting) One_nat_def list.map_comp comp_apply map_eq_conv)
  then show "rb_list (rb_pop r) = tl (rb_list r)"
    using s by (simp add: rb_list_def n idx upt_conv_Cons del: upt_Suc) (simp add: rb_pop_def)
qed

section \<open>The contract: a bounded queue\<close>

text \<open>
  What the callers rely on: a well-formed buffer holds a list of at most \<open>cap\<close> elements, pushing
  appends and fails exactly when the buffer is full, the front is the head of the list and popping
  removes it.
\<close>

locale bounded_fifo =
  fixes push :: "'a \<Rightarrow> 'q \<Rightarrow> 'q option"
    and front :: "'q \<Rightarrow> 'a option"
    and pop :: "'q \<Rightarrow> 'q"
    and contents :: "'q \<Rightarrow> 'a list"
    and inv :: "'q \<Rightarrow> bool"
    and cap :: "'q \<Rightarrow> nat"
  assumes push_contents: "inv q \<Longrightarrow> push x q = Some q' \<Longrightarrow> contents q' = contents q @ [x]"
    and push_inv: "inv q \<Longrightarrow> push x q = Some q' \<Longrightarrow> inv q'"
    and push_cap: "inv q \<Longrightarrow> push x q = Some q' \<Longrightarrow> cap q' = cap q"
    and push_full: "inv q \<Longrightarrow> push x q = None \<longleftrightarrow> length (contents q) = cap q"
    and front_contents: "inv q \<Longrightarrow> front q = (case contents q of [] \<Rightarrow> None | x # _ \<Rightarrow> Some x)"
    and pop_contents: "inv q \<Longrightarrow> contents q \<noteq> [] \<Longrightarrow> contents (pop q) = tl (contents q)"
    and pop_inv: "inv q \<Longrightarrow> contents q \<noteq> [] \<Longrightarrow> inv (pop q)"
    and bounded: "inv q \<Longrightarrow> length (contents q) \<le> cap q"

text \<open>Pushing a list of elements one by one, and taking out \<open>n\<close> elements.\<close>

fun push_all :: "('a \<Rightarrow> 'q \<Rightarrow> 'q option) \<Rightarrow> 'a list \<Rightarrow> 'q \<Rightarrow> 'q option" where
  "push_all push [] q = Some q"
| "push_all push (x # xs) q = (case push x q of None \<Rightarrow> None | Some q' \<Rightarrow> push_all push xs q')"

fun take_out :: "('q \<Rightarrow> 'a option) \<Rightarrow> ('q \<Rightarrow> 'q) \<Rightarrow> nat \<Rightarrow> 'q \<Rightarrow> 'a list \<times> 'q" where
  "take_out front pop 0 q = ([], q)"
| "take_out front pop (Suc n) q =
     (case front q of None \<Rightarrow> ([], q)
      | Some x \<Rightarrow> (let (xs, q') = take_out front pop n (pop q) in (x # xs, q')))"

context bounded_fifo
begin

lemma push_all_contents:
  "inv q \<Longrightarrow> length (contents q) + length xs \<le> cap q \<Longrightarrow>
   \<exists>q'. push_all push xs q = Some q' \<and> inv q' \<and> contents q' = contents q @ xs"
proof (induction xs arbitrary: q)
  case Nil
  then show ?case by simp
next
  case (Cons x xs)
  then obtain q1 where q1: "push x q = Some q1"
    using push_full [of q x] by (cases "push x q") auto
  with Cons.prems have "inv q1" "contents q1 = contents q @ [x]" "cap q1 = cap q"
    using push_inv push_contents push_cap by blast+
  with Cons.IH [of q1] Cons.prems q1 show ?case by simp
qed

lemma take_out_contents:
  "inv q \<Longrightarrow> n \<le> length (contents q) \<Longrightarrow>
   fst (take_out front pop n q) = take n (contents q) \<and>
   inv (snd (take_out front pop n q)) \<and> contents (snd (take_out front pop n q)) = drop n (contents q)"
proof (induction n arbitrary: q)
  case 0
  then show ?case by simp
next
  case (Suc n)
  then obtain x xs where c: "contents q = x # xs" by (cases "contents q") auto
  with Suc.prems have "front q = Some x" "inv (pop q)" "contents (pop q) = xs"
    using front_contents pop_inv pop_contents by auto
  with Suc.IH [of "pop q"] Suc.prems c show ?case by (simp add: split_beta)
qed

text \<open>First in, first out: what is pushed comes out in the same order.\<close>

lemma fifo_order:
  assumes "inv q" "contents q = []" "length xs \<le> cap q"
  shows "\<exists>q'. push_all push xs q = Some q' \<and> fst (take_out front pop (length xs) q') = xs"
  using push_all_contents [OF assms(1), of xs] take_out_contents assms by fastforce

end

interpretation rb: bounded_fifo rb_push rb_front rb_pop rb_list rb_ok "\<lambda>r. unat (rb_capacity r)"
proof
  fix q :: "'a ring" and x q'
  assume ok: "rb_ok q"
  show "rb_push x q = Some q' \<Longrightarrow> rb_list q' = rb_list q @ [x]"
    by (rule rb_push_Some [OF ok])
  show "rb_push x q = Some q' \<Longrightarrow> rb_ok q'"
    by (rule rb_push_Some [OF ok])
  show "rb_push x q = Some q' \<Longrightarrow> unat (rb_capacity q') = unat (rb_capacity q)"
    by (simp add: rb_push_Some [OF ok])
  show "rb_push x q = None \<longleftrightarrow> length (rb_list q) = unat (rb_capacity q)"
    using rb_ok_nat [OF ok] by (auto simp: rb_push_None word_le_nat_alt)
  show "rb_front q = (case rb_list q of [] \<Rightarrow> None | x # _ \<Rightarrow> Some x)"
    by (rule rb_front_list [OF ok])
  show "length (rb_list q) \<le> unat (rb_capacity q)"
    using rb_ok_nat [OF ok] by simp
next
  fix q :: "'a ring"
  assume ok: "rb_ok q" and "rb_list q \<noteq> []"
  then have "rb_size q \<noteq> 0" by (auto simp: rb_list_def)
  then show "rb_list (rb_pop q) = tl (rb_list q)" "rb_ok (rb_pop q)"
    using rb_pop_list [OF ok] by auto
qed

end
