(* ===== verification/PrioHeap.thy ===== *)
theory PrioHeap
  imports Prelude "HOL-Library.Multiset"
begin

text \<open>
  The binary heaps of lib/include/heap.h: \<open>HEAP_TYPE\<close>, \<open>HEAP_INIT\<close>, the two sift functions the
  macros \<open>HEAPIFY_BOTTOM_TOP\<close> and \<open>HEAPIFY_TOP_BOTTOM\<close> generate, \<open>HEAP_INSERT\<close>, \<open>HEAP_INSERT_U\<close>,
  \<open>HEAP_POP\<close> and \<open>HEAP_PEEK\<close>. A heap is an array of pointers to elements; the key is a field of
  the element, so the operations take \<open>key\<close>, which reads the key field of the element at a pointer,
  and \<open>cmp\<close>, the macro's comparison. The scheduler's ready queue and the clock server's delay queue
  are instances.
\<close>

section \<open>The macros\<close>

record 'p heap =
  heap_array :: "'p list"
  hcount :: nat
  hcapacity :: nat
  global_insertion_count :: u64

text \<open>\<open>HEAP_INIT\<close> leaves the array as it is.\<close>

definition heap_init :: "'p list \<Rightarrow> nat \<Rightarrow> 'p heap" where
  "heap_init arr cap =
     \<lparr>heap_array = arr, hcount = 0, hcapacity = cap, global_insertion_count = 0\<rparr>"

definition swap :: "'p list \<Rightarrow> nat \<Rightarrow> nat \<Rightarrow> 'p list" where
  "swap a i j = a[i := a ! j, j := a ! i]"

text \<open>
  \<open>heapify_bottom_top\<close> on the array. At index 0 the parent is 0 itself, so the recursion ends there
  only because the comparison of an element with itself is false: the function is partial.
\<close>

partial_function (option) heapify_bottom_top ::
  "('p \<Rightarrow> 'k) \<Rightarrow> ('k \<Rightarrow> 'k \<Rightarrow> bool) \<Rightarrow> 'p list \<Rightarrow> nat \<Rightarrow> 'p list option" where
  "heapify_bottom_top key cmp a index =
     (let parent_node = (if index \<ge> 1 then (index - 1) div 2 else 0)
      in if cmp (key (a ! index)) (key (a ! parent_node))
         then heapify_bottom_top key cmp (swap a parent_node index) parent_node
         else Some a)"

declare heapify_bottom_top.simps [code]

text \<open>
  \<open>heapify_top_bottom\<close>: \<open>left\<close> and \<open>right\<close> are \<open>None\<close> where the code sets them to \<open>-1\<close>. The
  child chosen is below the parent, so the recursion ends.
\<close>

definition min_child :: "('p \<Rightarrow> 'k) \<Rightarrow> ('k \<Rightarrow> 'k \<Rightarrow> bool) \<Rightarrow> nat \<Rightarrow> 'p list \<Rightarrow> nat \<Rightarrow> nat" where
  "min_child key cmp n a parent_node =
     (let left = (if parent_node * 2 + 1 \<ge> n then None else Some (parent_node * 2 + 1));
          right = (if parent_node * 2 + 2 \<ge> n then None else Some (parent_node * 2 + 2));
          m1 = (case left of
                  None \<Rightarrow> parent_node
                | Some l \<Rightarrow> if cmp (key (a ! l)) (key (a ! parent_node)) then l else parent_node)
      in case right of
           None \<Rightarrow> m1
         | Some r \<Rightarrow> if cmp (key (a ! r)) (key (a ! m1)) then r else m1)"

lemma min_child_cases:
  "min_child key cmp n a p = p \<or>
   (min_child key cmp n a p = p * 2 + 1 \<and> p * 2 + 1 < n) \<or>
   (min_child key cmp n a p = p * 2 + 2 \<and> p * 2 + 2 < n)"
  by (auto simp: min_child_def Let_def)

function heapify_top_bottom ::
  "('p \<Rightarrow> 'k) \<Rightarrow> ('k \<Rightarrow> 'k \<Rightarrow> bool) \<Rightarrow> nat \<Rightarrow> 'p list \<Rightarrow> nat \<Rightarrow> 'p list" where
  "heapify_top_bottom key cmp n a parent_node =
     (let m = min_child key cmp n a parent_node
      in if m \<noteq> parent_node then heapify_top_bottom key cmp n (swap a m parent_node) m else a)"
  by pat_completeness auto
termination
proof (relation "measure (\<lambda>(key, cmp, n, a, p). n - p)", simp)
  fix key :: "'p \<Rightarrow> 'k" and cmp :: "'k \<Rightarrow> 'k \<Rightarrow> bool" and n :: nat and a p m
  assume "m = min_child key cmp n a p" "m \<noteq> p"
  then show "((key, cmp, n, swap a m p, m), key, cmp, n, a, p)
      \<in> measure (\<lambda>(key, cmp, n, a, p). n - p)"
    using min_child_cases [of key cmp n a p] by auto
qed

declare heapify_top_bottom.simps [simp del] heapify_bottom_top.simps [simp del]

text \<open>
  \<open>HEAP_INSERT_U\<close>: nothing happens when the heap is full. \<open>None\<close> is a call that does not return.
\<close>

definition heap_insert_u ::
  "('p \<Rightarrow> 'k) \<Rightarrow> ('k \<Rightarrow> 'k \<Rightarrow> bool) \<Rightarrow> 'p \<Rightarrow> 'p heap \<Rightarrow> 'p heap option" where
  "heap_insert_u key cmp p h =
     (if hcount h < hcapacity h
      then map_option (\<lambda>a. h\<lparr>heap_array := a, hcount := hcount h + 1\<rparr>)
             (heapify_bottom_top key cmp ((heap_array h)[hcount h := p]) (hcount h))
      else Some h)"

text \<open>
  \<open>HEAP_INSERT\<close> also stamps the element's \<open>insert_val\<close> with the insertion counter, before the
  element is compared: \<open>key st\<close> reads keys in the store \<open>st\<close> and \<open>set_insert_val\<close> writes the stamp.
\<close>

definition heap_insert ::
  "('s \<Rightarrow> 'p \<Rightarrow> 'k) \<Rightarrow> (u64 \<Rightarrow> 'p \<Rightarrow> 's \<Rightarrow> 's) \<Rightarrow> ('k \<Rightarrow> 'k \<Rightarrow> bool) \<Rightarrow> 'p \<Rightarrow> 'p heap \<times> 's \<Rightarrow>
   ('p heap \<times> 's) option" where
  "heap_insert key set_insert_val cmp p hs =
     (let h = fst hs in
      if hcount h < hcapacity h
      then (let st = set_insert_val (global_insertion_count h) p (snd hs) in
            map_option (\<lambda>a. (h\<lparr>heap_array := a, hcount := hcount h + 1,
                              global_insertion_count := global_insertion_count h + 1\<rparr>, st))
              (heapify_bottom_top (key st) cmp ((heap_array h)[hcount h := p]) (hcount h)))
      else Some hs)"

definition heap_pop ::
  "('p \<Rightarrow> 'k) \<Rightarrow> ('k \<Rightarrow> 'k \<Rightarrow> bool) \<Rightarrow> 'p heap \<Rightarrow> 'p option \<times> 'p heap" where
  "heap_pop key cmp h =
     (if hcount h = 0 then (None, h)
      else (let e = heap_array h ! 0;
                a = (heap_array h)[0 := heap_array h ! (hcount h - 1)];
                n = hcount h - 1
            in (Some e, h\<lparr>heap_array := heapify_top_bottom key cmp n a 0, hcount := n\<rparr>)))"

definition heap_peek :: "'p heap \<Rightarrow> 'p option" where
  "heap_peek h = (if hcount h = 0 then None else Some (heap_array h ! 0))"

section \<open>Contents and order\<close>

definition heap_ok :: "'p heap \<Rightarrow> bool" where
  "heap_ok h \<longleftrightarrow> hcount h \<le> hcapacity h \<and> hcapacity h = length (heap_array h)"

definition heap_elems :: "'p heap \<Rightarrow> 'p list" where
  "heap_elems h = take (hcount h) (heap_array h)"

text \<open>No element of \<open>a\<close> below index \<open>n\<close> has a key before its parent's.\<close>

definition parent_of :: "nat \<Rightarrow> nat" where
  "parent_of i = (i - 1) div 2"

definition ordered_at :: "('p \<Rightarrow> 'k) \<Rightarrow> ('k \<Rightarrow> 'k \<Rightarrow> bool) \<Rightarrow> 'p list \<Rightarrow> nat \<Rightarrow> nat \<Rightarrow> bool" where
  "ordered_at key cmp a j i \<longleftrightarrow> \<not> cmp (key (a ! i)) (key (a ! j))"

definition heap_ordered :: "('p \<Rightarrow> 'k) \<Rightarrow> ('k \<Rightarrow> 'k \<Rightarrow> bool) \<Rightarrow> nat \<Rightarrow> 'p list \<Rightarrow> bool" where
  "heap_ordered key cmp n a \<longleftrightarrow> (\<forall>i. 0 < i \<and> i < n \<longrightarrow> ordered_at key cmp a (parent_of i) i)"

definition is_heap :: "('p \<Rightarrow> 'k) \<Rightarrow> ('k \<Rightarrow> 'k \<Rightarrow> bool) \<Rightarrow> 'p heap \<Rightarrow> bool" where
  "is_heap key cmp h \<longleftrightarrow> heap_ok h \<and> heap_ordered key cmp (hcount h) (heap_array h)"

lemma length_swap [simp]: "length (swap a i j) = length a"
  by (simp add: swap_def)

lemma nth_swap:
  "i < length a \<Longrightarrow> j < length a \<Longrightarrow> swap a i j ! k = (if k = i then a ! j else if k = j then a ! i else a ! k)"
  by (auto simp: swap_def nth_list_update)

lemma mset_swap [simp]: "i < length a \<Longrightarrow> j < length a \<Longrightarrow> mset (swap a i j) = mset a"
  by (simp add: swap_def mset_swap)

lemma take_swap: "i < n \<Longrightarrow> j < n \<Longrightarrow> n \<le> length a \<Longrightarrow> take n (swap a i j) = swap (take n a) i j"
  by (simp add: swap_def take_update_swap)

lemma mset_take_swap [simp]:
  "i < n \<Longrightarrow> j < n \<Longrightarrow> n \<le> length a \<Longrightarrow> mset (take n (swap a i j)) = mset (take n a)"
  by (simp add: take_swap)

lemma parent_of_less: "0 < i \<Longrightarrow> parent_of i < i"
  by (simp add: parent_of_def)

lemma parent_of_child [simp]: "parent_of (2 * i + 1) = i" "parent_of (2 * i + 2) = i"
  by (simp_all add: parent_of_def)

lemma parent_of_eq: "0 < k \<Longrightarrow> parent_of k = i \<longleftrightarrow> k = 2 * i + 1 \<or> k = 2 * i + 2"
  by (simp add: parent_of_def) arith

text \<open>The recursion of \<open>heapify_top_bottom\<close> permutes the first \<open>n\<close> elements and leaves the rest.\<close>

lemma heapify_top_bottom_perm:
  "p < n \<Longrightarrow> n \<le> length a \<Longrightarrow>
   mset (take n (heapify_top_bottom key cmp n a p)) = mset (take n a) \<and>
   length (heapify_top_bottom key cmp n a p) = length a"
proof (induction key cmp n a p rule: heapify_top_bottom.induct)
  case (1 key cmp n a p)
  define m where "m = min_child key cmp n a p"
  have m: "m < n" using 1(2) min_child_cases [of key cmp n a p] by (auto simp: m_def)
  show ?case
  proof (cases "m = p")
    case True
    then show ?thesis by (simp add: heapify_top_bottom.simps [of key cmp n a p] m_def Let_def)
  next
    case False
    with "1" m show ?thesis
      by (simp add: heapify_top_bottom.simps [of key cmp n a p] m_def [symmetric] Let_def)
  qed
qed

lemma nth_heap_elems: "i < hcount h \<Longrightarrow> heap_ok h \<Longrightarrow> heap_array h ! i \<in> set (heap_elems h)"
  by (metis heap_elems_def heap_ok_def length_take min.absorb2 nth_mem nth_take)

section \<open>The contract of the comparison\<close>

text \<open>
  \<open>cmp\<close> must be a strict weak order on keys. Inside this locale both sift functions are shown to end
  and to restore the heap order from an array that violates it at one index only.
\<close>

definition except_up :: "('p \<Rightarrow> 'k) \<Rightarrow> ('k \<Rightarrow> 'k \<Rightarrow> bool) \<Rightarrow> nat \<Rightarrow> nat \<Rightarrow> 'p list \<Rightarrow> bool" where
  "except_up key cmp n i a \<longleftrightarrow>
     (\<forall>k. 0 < k \<and> k < n \<and> k \<noteq> i \<longrightarrow> ordered_at key cmp a (parent_of k) k) \<and>
     (\<forall>k. 0 < k \<and> k < n \<and> parent_of k = i \<and> 0 < i \<longrightarrow> ordered_at key cmp a (parent_of i) k)"

definition except_down :: "('p \<Rightarrow> 'k) \<Rightarrow> ('k \<Rightarrow> 'k \<Rightarrow> bool) \<Rightarrow> nat \<Rightarrow> nat \<Rightarrow> 'p list \<Rightarrow> bool" where
  "except_down key cmp n i a \<longleftrightarrow>
     (\<forall>k. 0 < k \<and> k < n \<and> parent_of k \<noteq> i \<longrightarrow> ordered_at key cmp a (parent_of k) k) \<and>
     (\<forall>k. 0 < k \<and> k < n \<and> parent_of k = i \<and> 0 < i \<longrightarrow> ordered_at key cmp a (parent_of i) k)"

locale key_order =
  fixes cmp :: "'k \<Rightarrow> 'k \<Rightarrow> bool"
  assumes irrefl: "\<not> cmp x x"
    and trans: "cmp x y \<Longrightarrow> cmp y z \<Longrightarrow> cmp x z"
    and neg_trans: "\<not> cmp x y \<Longrightarrow> \<not> cmp y z \<Longrightarrow> \<not> cmp x z"
begin

lemma asym: "cmp x y \<Longrightarrow> \<not> cmp y x"
  using irrefl trans by blast

lemma root_minimal:
  "heap_ordered key cmp n a \<Longrightarrow> i < n \<Longrightarrow> \<not> cmp (key (a ! i)) (key (a ! 0))"
proof (induction i rule: less_induct)
  case (less i)
  show ?case
  proof (cases "i = 0")
    case True
    then show ?thesis by (simp add: irrefl)
  next
    case False
    then have "parent_of i < i" by (simp add: parent_of_less)
    with less False have "\<not> cmp (key (a ! parent_of i)) (key (a ! 0))"
      "\<not> cmp (key (a ! i)) (key (a ! parent_of i))"
      by (auto simp: heap_ordered_def ordered_at_def)
    then show ?thesis using neg_trans by blast
  qed
qed

lemma except_up_swap:
  assumes i: "0 < i" "i < n" "n \<le> length a" and e: "except_up key cmp n i a"
    and c: "cmp (key (a ! i)) (key (a ! parent_of i))"
  shows "except_up key cmp n (parent_of i) (swap a (parent_of i) i)"
proof -
  define p where "p = parent_of i"
  have p: "p < i" "p < length a" "i < length a" using i parent_of_less [of i] by (auto simp: p_def)
  have ord: "\<not> cmp (key (a ! k)) (key (a ! parent_of k))" if "0 < k" "k < n" "k \<noteq> i" for k
    using e that by (auto simp: except_up_def ordered_at_def)
  have gp: "\<not> cmp (key (a ! k)) (key (a ! p))" if "0 < k" "k < n" "parent_of k = i" for k
    using e that i by (auto simp: except_up_def ordered_at_def p_def)
  have cip: "cmp (key (a ! i)) (key (a ! p))" using c by (simp add: p_def)
  note sw = nth_swap [OF p(2,3)]
  have 1: "\<not> cmp (key (swap a p i ! k)) (key (swap a p i ! parent_of k))"
    if k: "0 < k" "k < n" "k \<noteq> p" for k
  proof (cases "k = i")
    case True
    then show ?thesis using asym [OF cip] p by (simp add: sw p_def [symmetric])
  next
    case False
    consider "parent_of k = i" | "parent_of k = p" | "parent_of k \<noteq> i" "parent_of k \<noteq> p" by blast
    then show ?thesis
    proof cases
      case 1
      then show ?thesis using gp [OF k(1,2)] False k p by (simp add: sw)
    next
      case 2
      then have "\<not> cmp (key (a ! k)) (key (a ! p))" using ord [OF k(1,2) False] by simp
      then have "\<not> cmp (key (a ! k)) (key (a ! i))" using cip trans by blast
      then show ?thesis using 2 False k by (simp add: sw)
    next
      case 3
      then show ?thesis using ord [OF k(1,2) False] False k by (simp add: sw)
    qed
  qed
  have 2: "\<not> cmp (key (swap a p i ! k)) (key (swap a p i ! parent_of p))"
    if k: "0 < k" "k < n" "parent_of k = p" "0 < p" for k
  proof -
    have g: "parent_of p < p" "p < n" using k p i parent_of_less [of p] by auto
    have op: "\<not> cmp (key (a ! p)) (key (a ! parent_of p))" using ord [of p] k p g by simp
    show ?thesis
    proof (cases "k = i")
      case True
      then show ?thesis using op g p by (simp add: sw)
    next
      case False
      then have "\<not> cmp (key (a ! k)) (key (a ! p))" using ord [of k] k by simp
      then have "\<not> cmp (key (a ! k)) (key (a ! parent_of p))" using op neg_trans by blast
      moreover have "k \<noteq> p" using k parent_of_less [of k] by auto
      ultimately show ?thesis using False g p by (simp add: sw)
    qed
  qed
  show ?thesis using 1 2 by (simp add: except_up_def ordered_at_def p_def)
qed

lemma heapify_bottom_top_correct:
  "i < n \<Longrightarrow> n \<le> length a \<Longrightarrow> except_up key cmp n i a \<Longrightarrow>
   \<exists>a'. heapify_bottom_top key cmp a i = Some a' \<and> length a' = length a \<and>
        mset (take n a') = mset (take n a) \<and> heap_ordered key cmp n a'"
proof (induction i arbitrary: a rule: less_induct)
  case (less i)
  let ?p = "parent_of i"
  have unfold: "heapify_bottom_top key cmp a i =
      (if cmp (key (a ! i)) (key (a ! ?p)) then heapify_bottom_top key cmp (swap a ?p i) ?p else Some a)"
    by (subst heapify_bottom_top.simps) (simp add: parent_of_def Let_def)
  show ?case
  proof (cases "cmp (key (a ! i)) (key (a ! ?p))")
    case False
    then have "heap_ordered key cmp n a"
      using less.prems(3) unfolding heap_ordered_def except_up_def ordered_at_def by metis
    with False show ?thesis by (simp add: unfold)
  next
    case True
    then have i: "0 < i" using irrefl by (cases i) (auto simp: parent_of_def)
    then have p: "?p < i" by (rule parent_of_less)
    have e: "except_up key cmp n ?p (swap a ?p i)"
      by (rule except_up_swap [OF i less.prems True])
    show ?thesis
      using less.IH [OF p _ _ e] True p less.prems by (simp add: unfold)
  qed
qed

lemma min_child_minimal:
  assumes "0 < k" "k < n" "parent_of k = p"
  shows "\<not> cmp (key (a ! k)) (key (a ! min_child key cmp n a p))"
proof -
  have k: "k = p * 2 + 1 \<or> k = p * 2 + 2" using assms parent_of_eq [of k p] by auto
  define P L R where defs: "P = key (a ! p)" "L = key (a ! Suc (p * 2))"
    "R = key (a ! Suc (Suc (p * 2)))"
  show ?thesis
  proof (cases "p * 2 + 2 < n")
    case True
    then have mc: "min_child key cmp n a p =
        (if cmp L P then if cmp R L then p * 2 + 2 else p * 2 + 1
         else if cmp R P then p * 2 + 2 else p)"
      by (simp add: min_child_def Let_def defs)
    have LR: "cmp L P \<or> \<not> cmp R P \<or> \<not> cmp L R" using trans by blast
    from k show ?thesis
    proof
      assume "k = p * 2 + 1"
      then show ?thesis
        using LR irrefl [of L] asym [of R L] by (auto simp: mc defs [symmetric])
    next
      assume "k = p * 2 + 2"
      then show ?thesis
        using irrefl [of R] neg_trans [of R P L] asym [of L P] by (simp add: mc defs [symmetric])
    qed
  next
    case False
    then have "k = p * 2 + 1" using k assms(2) by auto
    moreover have "min_child key cmp n a p = (if cmp L P then p * 2 + 1 else p)"
      using False assms(2) calculation by (simp add: min_child_def Let_def defs)
    ultimately show ?thesis using irrefl by (auto simp: defs)
  qed
qed

lemma min_child_before:
  "min_child key cmp n a p \<noteq> p \<Longrightarrow> cmp (key (a ! min_child key cmp n a p)) (key (a ! p))"
  unfolding min_child_def Let_def by (auto split: if_splits intro: trans)

lemma except_down_swap:
  assumes m: "m = min_child key cmp n a p" "m \<noteq> p" and p: "p < n" "n \<le> length a"
    and e: "except_down key cmp n p a"
  shows "except_down key cmp n m (swap a m p)"
proof -
  have mn: "m < n" "0 < m" and pm: "parent_of m = p"
    using m min_child_cases [of key cmp n a p] by (auto simp: parent_of_def)
  have lens: "m < length a" "p < length a" using mn p by auto
  note sw = nth_swap [OF lens]
  have cmp_mp: "cmp (key (a ! m)) (key (a ! p))" using m min_child_before by blast
  have ord: "\<not> cmp (key (a ! k)) (key (a ! parent_of k))" if "0 < k" "k < n" "parent_of k \<noteq> p" for k
    using e that by (auto simp: except_down_def ordered_at_def)
  have gp: "\<not> cmp (key (a ! k)) (key (a ! parent_of p))" if "0 < k" "k < n" "parent_of k = p" "0 < p" for k
    using e that by (auto simp: except_down_def ordered_at_def)
  have 1: "\<not> cmp (key (swap a m p ! k)) (key (swap a m p ! parent_of k))"
    if k: "0 < k" "k < n" "parent_of k \<noteq> m" for k
  proof -
    have kp: "parent_of k < k" using k by (simp add: parent_of_less)
    show ?thesis
    proof (cases "parent_of k = p")
      case True
      then show ?thesis
        using min_child_minimal [OF k(1,2) True, of key a, folded m(1)] asym [OF cmp_mp] m(2) kp
        by (auto simp: sw)
    next
      case False
      consider "k = p" | "k \<noteq> p" "k \<noteq> m" using False pm by blast
      then show ?thesis
      proof cases
        case 1
        then show ?thesis using gp [OF mn(2,1) pm] k False kp m(2) by (auto simp: sw)
      next
        case 2
        then show ?thesis using ord [OF k(1,2) False] False k by (simp add: sw)
      qed
    qed
  qed
  have 2: "\<not> cmp (key (swap a m p ! k)) (key (swap a m p ! parent_of m))"
    if k: "0 < k" "k < n" "parent_of k = m" for k
  proof -
    have "parent_of k < k" "parent_of m < m"
      using k mn parent_of_less [of k] parent_of_less [of m] by simp_all
    then have "k \<noteq> m" "k \<noteq> p" using k pm by auto
    then show ?thesis using ord [of k] k m(2) pm by (simp add: sw)
  qed
  show ?thesis using 1 2 by (simp add: except_down_def ordered_at_def)
qed

lemma heapify_top_bottom_ordered:
  "p < n \<Longrightarrow> n \<le> length a \<Longrightarrow> except_down key cmp n p a \<Longrightarrow>
   heap_ordered key cmp n (heapify_top_bottom key cmp n a p)"
proof (induction "n - p" arbitrary: a p rule: less_induct)
  case less
  define m where "m = min_child key cmp n a p"
  show ?case
  proof (cases "m = p")
    case True
    then have "heap_ordered key cmp n a"
      using less.prems(3) min_child_minimal [of _ n p key a]
      unfolding heap_ordered_def except_down_def ordered_at_def m_def by metis
    with True show ?thesis by (simp add: heapify_top_bottom.simps [of key cmp n a p] m_def Let_def)
  next
    case False
    then have m: "p < m" "m < n" using min_child_cases [of key cmp n a p] by (auto simp: m_def)
    have e: "except_down key cmp n m (swap a m p)"
      by (rule except_down_swap [OF m_def False less.prems])
    have "heap_ordered key cmp n (heapify_top_bottom key cmp n (swap a m p) m)"
      using less.hyps [of m "swap a m p"] e m less.prems by simp
    with False show ?thesis
      by (simp add: heapify_top_bottom.simps [of key cmp n a p] m_def [symmetric] Let_def)
  qed
qed

lemma heap_insert_correct:
  assumes h: "is_heap (key st) cmp h" and room: "hcount h < hcapacity h"
    and st': "st' = set_insert_val (global_insertion_count h) p st"
    and same: "\<And>q. q \<in> set (heap_elems h) \<Longrightarrow> key st' q = key st q"
  shows "\<exists>h'. heap_insert key set_insert_val cmp p (h, st) = Some (h', st') \<and>
              is_heap (key st') cmp h' \<and> mset (heap_elems h') = add_mset p (mset (heap_elems h)) \<and>
              hcount h' = Suc (hcount h) \<and> hcapacity h' = hcapacity h \<and>
              global_insertion_count h' = global_insertion_count h + 1"
proof -
  let ?n = "hcount h" and ?a = "heap_array h"
  let ?b = "?a[?n := p]"
  have ok: "?n < length ?a" "hcapacity h = length ?a"
    using h room by (auto simp: is_heap_def heap_ok_def)
  have keys: "key st' (?a ! i) = key st (?a ! i)" if "i < ?n" for i
    using same nth_heap_elems that h by (auto simp: is_heap_def)
  have "ordered_at (key st') cmp ?b (parent_of k) k" if k: "0 < k" "k < Suc ?n" "k \<noteq> ?n" for k
  proof -
    have "k < ?n" "parent_of k < ?n" using k parent_of_less [of k] by auto
    then show ?thesis
      using h k keys by (simp add: is_heap_def heap_ordered_def ordered_at_def)
  qed
  moreover have "parent_of k \<noteq> ?n" if "0 < k" "k < Suc ?n" for k
    using parent_of_less [of k] that by auto
  ultimately have "except_up (key st') cmp (Suc ?n) ?n ?b"
    by (auto simp: except_up_def)
  then obtain a' where a': "heapify_bottom_top (key st') cmp ?b ?n = Some a'"
    "length a' = length ?a" "mset (take (Suc ?n) a') = mset (take (Suc ?n) ?b)"
    "heap_ordered (key st') cmp (Suc ?n) a'"
    using heapify_bottom_top_correct [of ?n "Suc ?n" ?b "key st'"] ok by auto
  have "mset (take (Suc ?n) ?b) = add_mset p (mset (take ?n ?a))"
    using ok by (simp add: take_Suc_conv_app_nth)
  with a' ok room show ?thesis
    by (auto simp: heap_insert_def Let_def st' [symmetric] is_heap_def heap_ok_def heap_elems_def)
qed

lemma heap_pop_correct:
  assumes h: "is_heap key cmp h" and ne: "hcount h \<noteq> 0"
  shows "\<exists>e h'. heap_pop key cmp h = (Some e, h') \<and> is_heap key cmp h' \<and>
           mset (heap_elems h) = add_mset e (mset (heap_elems h')) \<and>
           (\<forall>q \<in> set (heap_elems h). \<not> cmp (key q) (key e)) \<and>
           hcapacity h' = hcapacity h \<and> global_insertion_count h' = global_insertion_count h"
proof -
  let ?n = "hcount h - 1" and ?a = "heap_array h"
  let ?b = "?a[0 := ?a ! ?n]"
  define b' where "b' = heapify_top_bottom key cmp ?n ?b 0"
  have ok: "hcount h \<le> length ?a" "hcapacity h = length ?a"
    using h by (auto simp: is_heap_def heap_ok_def)
  have n: "hcount h = Suc ?n" using ne by simp
  have min: "\<forall>q \<in> set (heap_elems h). \<not> cmp (key q) (key (?a ! 0))"
    using h root_minimal [of key "hcount h" ?a] by (auto simp: is_heap_def heap_elems_def in_set_conv_nth)
  have perm: "mset (take ?n b') = mset (take ?n ?b) \<and> length b' = length ?a"
    using ok heapify_top_bottom_perm [of 0 ?n ?b key cmp]
    by (cases "?n = 0") (simp_all add: b'_def heapify_top_bottom.simps [of key cmp 0] min_child_def)
  have ms: "mset (take (hcount h) ?a) = add_mset (?a ! 0) (mset (take ?n ?b))"
  proof (cases ?n)
    case 0
    with n ok show ?thesis by (cases ?a) simp_all
  next
    case (Suc m)
    have "take (hcount h) ?a = take ?n ?a @ [?a ! ?n]"
      using n ok take_Suc_conv_app_nth [of ?n ?a] by simp
    moreover have "take ?n ?a = ?a ! 0 # take m (tl ?a)"
      using n ok Suc by (cases ?a) simp_all
    moreover have "take ?n ?b = ?a ! ?n # take m (tl ?a)"
      using ok Suc by (cases ?a) simp_all
    ultimately show ?thesis by simp
  qed
  have "heap_ordered key cmp ?n b'"
  proof (cases "?n = 0")
    case True
    then show ?thesis by (simp add: heap_ordered_def)
  next
    case False
    have "ordered_at key cmp ?b (parent_of k) k" if "0 < k" "k < ?n" "parent_of k \<noteq> 0" for k
      using h that by (simp add: is_heap_def heap_ordered_def ordered_at_def)
    then have "except_down key cmp ?n 0 ?b" by (simp add: except_down_def)
    then show ?thesis
      using False ok heapify_top_bottom_ordered [of 0 ?n ?b key] by (simp add: b'_def)
  qed
  moreover have "heap_pop key cmp h = (Some (?a ! 0), h\<lparr>heap_array := b', hcount := ?n\<rparr>)"
    using ne by (simp add: heap_pop_def Let_def b'_def)
  ultimately show ?thesis
    using ok perm ms min ne by (auto simp: is_heap_def heap_ok_def heap_elems_def)
qed

end

lemma is_heap_cong:
  assumes "\<And>q. q \<in> set (heap_elems h) \<Longrightarrow> key q = key' q"
  shows "is_heap key cmp h = is_heap key' cmp h"
proof -
  have "key (heap_array h ! i) = key' (heap_array h ! i)" if "i < hcount h" "heap_ok h" for i
    using assms nth_heap_elems that by auto
  moreover have "parent_of i < hcount h" if "0 < i" "i < hcount h" for i
    using that parent_of_less [of i] by simp
  ultimately show ?thesis
    by (auto simp: is_heap_def heap_ordered_def ordered_at_def)
qed

lemma heap_init_ok: "length arr = cap \<Longrightarrow> is_heap key cmp (heap_init arr cap)"
  by (simp add: is_heap_def heap_ok_def heap_init_def heap_ordered_def)

lemma heap_init_elems [simp]: "heap_elems (heap_init arr cap) = []"
  by (simp add: heap_elems_def heap_init_def)

lemma heap_insert_full: "hcapacity h \<le> hcount h \<Longrightarrow> heap_insert key f cmp p (h, st) = Some (h, st)"
  by (simp add: heap_insert_def Let_def)

lemma heap_pop_empty: "hcount h = 0 \<Longrightarrow> heap_pop key cmp h = (None, h)"
  by (simp add: heap_pop_def)

lemma heap_count_elems: "heap_ok h \<Longrightarrow> hcount h = length (heap_elems h)"
  by (simp add: heap_ok_def heap_elems_def)

end
