(* ===== verification/Pgmgr.thy ===== *)
theory Pgmgr
  imports DList Macros
begin

text \<open>
  The page manager of kernel/include/pgmgr.h and kernel/src/pgmgr.c after its initialization: a buddy
  allocator over segments ("roots") of 1 MB pages. Every page has a descriptor (\<open>struct PgDsp\<close>, 32
  bytes) in an array that starts at the \<open>root\<close> pointer of its segment; the first descriptor of a free
  block of \<open>2 ^ q\<close> pages is on the list \<open>free_lists[q]\<close>. Descriptors are addressed by their
  addresses, their fields are maps over addresses, and their list links are the shared link fields
  of the lists of theory DList.
\<close>

section \<open>State\<close>

abbreviation (input) PG_SFT :: nat where "PG_SFT \<equiv> 20"
abbreviation (input) PGMGR_MAXLVL :: nat where "PGMGR_MAXLVL \<equiv> 9"
abbreviation (input) PGDSP_USED :: u16 where "PGDSP_USED \<equiv> 1"
abbreviation (input) PGDSP_SZ :: nat where "PGDSP_SZ \<equiv> 32"

record PgDsp =
  pd_addr :: u64
  pd_flags :: u16
  pd_lvl :: u8

record PgRoot =
  pr_root :: ptr
  pr_start :: u64
  pr_end :: u64

text \<open>\<open>roots_n\<close> is the length of \<open>roots\<close>; \<open>dsps\<close> and \<open>dsp_links\<close> are the descriptors in memory.\<close>

record PgMgr =
  free_lists :: "ptr option list"
  roots :: "PgRoot list"
  dsps :: "ptr \<Rightarrow> PgDsp"
  dsp_links :: "ptr links"

text \<open>The address of \<open>root[i]\<close>, and \<open>dsp + n\<close>, \<open>dsp - n\<close> on descriptor pointers.\<close>

definition dsp_at :: "ptr \<Rightarrow> nat \<Rightarrow> ptr" where
  "dsp_at root i = root + of_nat (PGDSP_SZ * i)"

definition dsp_back :: "ptr \<Rightarrow> nat \<Rightarrow> ptr" where
  "dsp_back dsp i = dsp - of_nat (PGDSP_SZ * i)"

definition upd_dsp :: "ptr \<Rightarrow> (PgDsp \<Rightarrow> PgDsp) \<Rightarrow> PgMgr \<Rightarrow> PgMgr" where
  "upd_dsp d f m = m\<lparr>dsps := (dsps m)(d := f (dsps m d))\<rparr>"

text \<open>\<open>DL_APPEND2\<close> and \<open>DL_DELETE2\<close> on \<open>free_lists[q]\<close>.\<close>

definition fl_append :: "nat \<Rightarrow> ptr \<Rightarrow> PgMgr \<Rightarrow> PgMgr res" where
  "fl_append q d m =
     bindR (dls_append (free_lists m) q d (dsp_links m))
       (\<lambda>(hs, l). Inr (m\<lparr>free_lists := hs, dsp_links := l\<rparr>))"

definition fl_delete :: "nat \<Rightarrow> ptr \<Rightarrow> PgMgr \<Rightarrow> PgMgr res" where
  "fl_delete q d m =
     bindR (dls_delete (free_lists m) q d (dsp_links m))
       (\<lambda>(hs, l). Inr (m\<lparr>free_lists := hs, dsp_links := l\<rparr>))"

section \<open>pg_alloc_page\<close>

text \<open>The first level from \<open>q\<close> on with a non-empty free list.\<close>

function pg_find_level :: "PgMgr \<Rightarrow> nat \<Rightarrow> nat" where
  "pg_find_level m q =
     (if q \<le> PGMGR_MAXLVL \<and> free_lists m ! q = None then pg_find_level m (Suc q) else q)"
  by pat_completeness auto
termination by (relation "measure (\<lambda>(m, q). Suc PGMGR_MAXLVL - q)") auto

declare pg_find_level.simps [simp del]

text \<open>The loop that splits the block at \<open>dsp\<close> from level \<open>q\<close> down to \<open>p\<close>.\<close>

fun pg_split :: "ptr \<Rightarrow> nat \<Rightarrow> nat \<Rightarrow> PgMgr \<Rightarrow> PgMgr res" where
  "pg_split dsp p 0 m = Inr m"
| "pg_split dsp p (Suc q) m =
     (if Suc q > p then
        let unused_half = dsp_at dsp (2 ^ q);
            m1 = upd_dsp unused_half (\<lambda>d. d\<lparr>pd_flags := pd_flags d AND NOT PGDSP_USED\<rparr>) m
        in bindR (fl_append q unused_half m1) (pg_split dsp p q)
      else Inr m)"

definition pg_alloc_page :: "u8 \<Rightarrow> u16 \<Rightarrow> PgMgr \<Rightarrow> (PgMgr \<times> ptr) res" where
  "pg_alloc_page p0 flags m =
     (let p = (if p0 < of_nat PG_SFT then 0 else p0 - of_nat PG_SFT);
          q = pg_find_level m (unat p)
      in if q > PGMGR_MAXLVL then Inr (m, NULL)
         else bindR (deref (free_lists m ! q)) (\<lambda>dsp.
              bindR (fl_delete q dsp m) (\<lambda>m1.
              bindR (pg_split dsp (unat p) q m1) (\<lambda>m2.
              let m3 = upd_dsp dsp (\<lambda>d. d\<lparr>pd_flags := pd_flags d OR PGDSP_USED, pd_lvl := p\<rparr>) m2
              in Inr (m3, pd_addr (dsps m3 dsp))))))"

section \<open>pg_free_page\<close>

definition addr_in_segment :: "PgRoot \<Rightarrow> u64 \<Rightarrow> bool" where
  "addr_in_segment seg addr \<longleftrightarrow> addr \<ge> pr_start seg \<and> addr < pr_end seg"

text \<open>
  The binary search for the segment: \<open>l\<close>, \<open>r\<close> and \<open>m\<close> are \<open>unsigned\<close>, so \<open>m - 1\<close> wraps at 0. The
  result is the final \<open>l\<close>; \<open>None\<close> would be a search that does not end.
\<close>

partial_function (option) pg_search :: "PgRoot list \<Rightarrow> u64 \<Rightarrow> u32 \<Rightarrow> u32 \<Rightarrow> u32 res option" where
  "pg_search rs addr l r =
     (if l < r then
        let m = (l + r) div 2 in
        if unat m < length rs then
          (if addr < pr_start (rs ! unat m) then pg_search rs addr l (m - 1)
           else if addr \<ge> pr_end (rs ! unat m) then pg_search rs addr (m + 1) r
           else Some (Inr l))
        else Some (Inl Out_of_bounds)
      else Some (Inr l))"

declare pg_search.simps [code]

text \<open>The loop that merges the block at \<open>dsp\<close> with its free buddies; returns the block and its level.\<close>

function pg_combine :: "PgRoot \<Rightarrow> ptr \<Rightarrow> nat \<Rightarrow> PgMgr \<Rightarrow> (PgMgr \<times> ptr \<times> nat) res" where
  "pg_combine seg dsp lvl m =
     (if lvl < PGMGR_MAXLVL then
        let addr = pd_addr (dsps m dsp) in
        if addr AND push_bit (PG_SFT + lvl - 1) 1 \<noteq> 0 then Inr (m, dsp, lvl)
        else
          let buddy_addr = addr XOR push_bit (PG_SFT + lvl) 1 in
          if \<not> addr_in_segment seg buddy_addr then Inr (m, dsp, lvl)
          else
            let buddy = (if addr AND push_bit (PG_SFT + lvl) 1 \<noteq> 0 then dsp_back dsp (2 ^ lvl)
                         else dsp_at dsp (2 ^ lvl))
            in if pd_flags (dsps m buddy) AND PGDSP_USED \<noteq> 0 then Inr (m, dsp, lvl)
               else (case fl_delete lvl buddy m of
                       Inl e \<Rightarrow> Inl e
                     | Inr m' \<Rightarrow> pg_combine seg (if buddy < dsp then buddy else dsp) (Suc lvl) m')
      else Inr (m, dsp, lvl))"
  by pat_completeness auto
termination by (relation "measure (\<lambda>(seg, dsp, lvl, m). PGMGR_MAXLVL - lvl)") auto

declare pg_combine.simps [simp del]

definition pg_free_page :: "ptr \<Rightarrow> PgMgr \<Rightarrow> PgMgr res" where
  "pg_free_page addr m =
     bindR (bindR (returns (pg_search (roots m) addr 0 (of_nat (length (roots m))))) (\<lambda>r. r)) (\<lambda>l.
     if unat l < length (roots m) then
       let seg = roots m ! unat l in
       if \<not> addr_in_segment seg addr then Inr m
       else
         let dsp = dsp_at (pr_root seg) (unat (drop_bit PG_SFT (addr - pr_start seg))) in
         bindR (pg_combine seg dsp (unat (pd_lvl (dsps m dsp))) m) (\<lambda>(m', dsp', lvl).
         fl_append lvl dsp' m')
     else Inl Out_of_bounds)"

section \<open>pgmgr_debug\<close>

text \<open>
  \<open>struct PgMgrDebug\<close>, with its two arrays as lists; the caller provides arrays of \<open>dbg_roots_n\<close>
  entries. The free lists are counted by walking them; \<open>fuel\<close> bounds a walk.
\<close>

record PgMgrDebug =
  dbg_mgr :: ptr
  dbg_roots_n :: nat
  roots_num_pages :: "u64 list"
  roots_num_pages_used :: "u64 list"
  free_lists_cnt :: "u32 list"

definition root_pages :: "PgRoot \<Rightarrow> u64" where
  "root_pages rt = drop_bit PG_SFT (pr_end rt - pr_start rt)"

fun count_used :: "(ptr \<Rightarrow> PgDsp) \<Rightarrow> ptr \<Rightarrow> nat \<Rightarrow> u64" where
  "count_used ds root 0 = 0"
| "count_used ds root (Suc j) =
     count_used ds root j + (if pd_flags (ds (dsp_at root j)) AND PGDSP_USED \<noteq> 0 then 1 else 0)"

definition pgmgr_debug :: "nat \<Rightarrow> ptr \<Rightarrow> PgMgr \<Rightarrow> PgMgrDebug \<Rightarrow> PgMgrDebug" where
  "pgmgr_debug fuel addr m dbg =
     (if addr = NULL then dbg\<lparr>dbg_mgr := addr\<rparr>
      else
        let n = C_MIN (dbg_roots_n dbg) (length (roots m)); rs = take n (roots m) in
        dbg\<lparr>dbg_mgr := addr,
           roots_num_pages := map root_pages rs @ drop n (roots_num_pages dbg),
           roots_num_pages_used :=
             map (\<lambda>rt. count_used (dsps m) (pr_root rt) (unat (root_pages rt))) rs @
             drop n (roots_num_pages_used dbg),
           free_lists_cnt :=
             map (\<lambda>q. of_nat (length (dl_walk fuel (dsp_links m) (free_lists m ! q)))) [0..<Suc PGMGR_MAXLVL],
           dbg_roots_n := length (roots m)\<rparr>)"

section \<open>The abstract allocator\<close>

text \<open>
  Pages are pairs of a segment and an index into it; a block \<open>(r, i, q)\<close> is the run of \<open>2 ^ q\<close> pages
  of segment \<open>r\<close> from \<open>i\<close> on. The abstract state is the list of free pages heads per level, \<open>fl\<close>, and
  a set \<open>B\<close> of blocks handed out.
\<close>

type_synonym page = "nat \<times> nat"
type_synonym block = "nat \<times> nat \<times> nat"

definition npages :: "PgRoot \<Rightarrow> nat" where
  "npages rt = unat (root_pages rt)"

definition first_page :: "PgRoot \<Rightarrow> nat" where
  "first_page rt = unat (drop_bit PG_SFT (pr_start rt))"

definition pg_ptr :: "PgRoot list \<Rightarrow> page \<Rightarrow> ptr" where
  "pg_ptr rs = (\<lambda>(r, i). dsp_at (pr_root (rs ! r)) i)"

definition valid_pages :: "PgRoot list \<Rightarrow> page set" where
  "valid_pages rs = {(r, i). r < length rs \<and> i < npages (rs ! r)}"

definition blk_pages :: "block \<Rightarrow> page set" where
  "blk_pages = (\<lambda>(r, i, q). {r} \<times> {i..<i + 2 ^ q})"

definition blk_head :: "block \<Rightarrow> page" where
  "blk_head = (\<lambda>(r, i, q). (r, i))"

definition blk_ok :: "PgRoot list \<Rightarrow> block \<Rightarrow> bool" where
  "blk_ok rs = (\<lambda>(r, i, q). q \<le> PGMGR_MAXLVL \<and> r < length rs \<and> i + 2 ^ q \<le> npages (rs ! r) \<and>
                  2 ^ q dvd first_page (rs ! r) + i)"

definition fblocks :: "page list list \<Rightarrow> block set" where
  "fblocks fl = {(r, i, q). q < length fl \<and> (r, i) \<in> set (fl ! q)}"

definition disjoint_blocks :: "block set \<Rightarrow> bool" where
  "disjoint_blocks B \<longleftrightarrow> (\<forall>b\<in>B. \<forall>b'\<in>B. b \<noteq> b' \<longrightarrow> blk_pages b \<inter> blk_pages b' = {})"

definition covered :: "block set \<Rightarrow> page set" where
  "covered B = \<Union> (blk_pages ` B)"

text \<open>The segments are whole pages and the descriptors of different pages do not overlap.\<close>

definition roots_ok :: "PgRoot list \<Rightarrow> (ptr \<Rightarrow> PgDsp) \<Rightarrow> bool" where
  "roots_ok rs ds \<longleftrightarrow>
     (\<forall>rt\<in>set rs. take_bit PG_SFT (pr_start rt) = 0 \<and> take_bit PG_SFT (pr_end rt) = 0 \<and>
        pr_start rt \<le> pr_end rt \<and> unat (pr_root rt) + PGDSP_SZ * npages rt < 2 ^ 64) \<and>
     inj_on (pg_ptr rs) (valid_pages rs) \<and>
     (\<forall>(r, i)\<in>valid_pages rs.
        pd_addr (ds (pg_ptr rs (r, i))) = pr_start (rs ! r) + push_bit PG_SFT (of_nat i))"

text \<open>The concrete free lists are the abstract ones; free and handed-out blocks are aligned and disjoint.\<close>

definition pm_inv :: "PgMgr \<Rightarrow> page list list \<Rightarrow> block set \<Rightarrow> bool" where
  "pm_inv m fl B \<longleftrightarrow>
     roots_ok (roots m) (dsps m) \<and> length fl = Suc PGMGR_MAXLVL \<and>
     dlists (dsp_links m) (free_lists m) (map (map (pg_ptr (roots m))) fl) \<and>
     (\<forall>b\<in>fblocks fl \<union> B. blk_ok (roots m) b) \<and>
     disjoint_blocks (fblocks fl \<union> B) \<and> fblocks fl \<inter> B = {}"

text \<open>What \<open>pg_free_page\<close> relies on: the first descriptor of an allocated block is marked and holds its level.\<close>

definition used :: "PgMgr \<Rightarrow> page \<Rightarrow> bool" where
  "used m pg \<longleftrightarrow> pd_flags (dsps m (pg_ptr (roots m) pg)) AND PGDSP_USED \<noteq> 0"

definition live_at :: "PgMgr \<Rightarrow> block \<Rightarrow> bool" where
  "live_at m b \<longleftrightarrow> used m (blk_head b) \<and>
     unat (pd_lvl (dsps m (pg_ptr (roots m) (blk_head b)))) = snd (snd b)"

lemma pm_inv_length: "pm_inv m fl B \<Longrightarrow> length fl = 10 \<and> length (free_lists m) = 10"
  by (auto simp: pm_inv_def dlists_def)

lemma blk_ok_valid: "blk_ok rs b \<Longrightarrow> blk_pages b \<subseteq> valid_pages rs"
  by (auto simp: blk_ok_def blk_pages_def valid_pages_def)

lemma blk_head_in: "blk_head b \<in> blk_pages b"
  by (auto simp: blk_head_def blk_pages_def split: prod.splits)

lemma blk_head_simp [simp]: "blk_head (r, i, q) = (r, i)"
  by (simp add: blk_head_def)

lemma disjointD:
  "disjoint_blocks B \<Longrightarrow> b \<in> B \<Longrightarrow> b' \<in> B \<Longrightarrow> pg \<in> blk_pages b \<Longrightarrow> pg \<in> blk_pages b' \<Longrightarrow> b = b'"
  unfolding disjoint_blocks_def by (metis disjoint_iff)

lemma disjoint_subset: "disjoint_blocks B \<Longrightarrow> A \<subseteq> B \<Longrightarrow> disjoint_blocks A"
  unfolding disjoint_blocks_def by blast

lemma disjoint_insert:
  "disjoint_blocks B \<Longrightarrow> (\<And>b. b \<in> B \<Longrightarrow> blk_pages b \<inter> blk_pages c = {}) \<Longrightarrow> disjoint_blocks (insert c B)"
  unfolding disjoint_blocks_def by (simp add: Int_commute)

lemma disjoint_same_head:
  "disjoint_blocks B \<Longrightarrow> b \<in> B \<Longrightarrow> b' \<in> B \<Longrightarrow> blk_head b = blk_head b' \<Longrightarrow> b = b'"
  by (metis disjointD blk_head_in)

lemma fblocks_elems: "dls_elems fl = blk_head ` fblocks fl"
  by (force simp: dls_elems_def fblocks_def blk_head_def)

lemma dls_elems_map: "dls_elems (map (map f) fl) = f ` dls_elems fl"
  by (auto simp: dls_elems_def)

lemma map_remove1_inj:
  "inj_on f (insert x (set xs)) \<Longrightarrow> map f (remove1 x xs) = remove1 (f x) (map f xs)"
  by (induction xs) (auto simp: inj_on_def)

lemma fblocks_append:
  "q < length fl \<Longrightarrow> fblocks (fl[q := fl ! q @ [(r, i)]]) = insert (r, i, q) (fblocks fl)"
  by (auto simp: fblocks_def nth_list_update split: if_splits)

lemma fblocks_remove:
  assumes "q < length fl" "distinct (fl ! q)"
  shows "fblocks (fl[q := remove1 (r, i) (fl ! q)]) = fblocks fl - {(r, i, q)}"
  using assms by (auto simp: fblocks_def nth_list_update split: if_splits)

lemma pm_inv_distinct:
  assumes "pm_inv m fl B" "q < length fl"
  shows "distinct (fl ! q)"
proof -
  have "distinct (map (pg_ptr (roots m)) (fl ! q))"
    using assms dlists_nth [of "dsp_links m" "free_lists m" "map (map (pg_ptr (roots m))) fl" q]
    by (auto simp: pm_inv_def dest!: dlist_distinct)
  then show ?thesis by (simp add: distinct_map)
qed

lemma covered_split: "blk_pages (r, i, Suc q) = blk_pages (r, i, q) \<union> blk_pages (r, i + 2 ^ q, q)"
  by (auto simp: blk_pages_def)

lemma pm_inv_ptr_inj: "pm_inv m fl B \<Longrightarrow> inj_on (pg_ptr (roots m)) (valid_pages (roots m))"
  by (simp add: pm_inv_def roots_ok_def)

lemma fblocks_valid: "pm_inv m fl B \<Longrightarrow> dls_elems fl \<subseteq> valid_pages (roots m)"
  using blk_ok_valid blk_head_in by (fastforce simp: pm_inv_def fblocks_elems)

section \<open>Operations on the abstract state\<close>

text \<open>Taking a free block off its list, and putting a block that is handed out on a list.\<close>

lemma fl_delete_inv:
  assumes inv: "pm_inv m fl B" and b: "(r, i, q) \<in> fblocks fl"
  shows "\<exists>m'. fl_delete q (pg_ptr (roots m) (r, i)) m = Inr m' \<and>
           pm_inv m' (fl[q := remove1 (r, i) (fl ! q)]) (insert (r, i, q) B) \<and>
           roots m' = roots m \<and> dsps m' = dsps m"
proof -
  let ?f = "pg_ptr (roots m)"
  have q: "q < length fl" "(r, i) \<in> set (fl ! q)" using b by (auto simp: fblocks_def)
  have d: "dlists (dsp_links m) (free_lists m) (map (map ?f) fl)" using inv by (simp add: pm_inv_def)
  obtain hs l where op: "dls_delete (free_lists m) q (?f (r, i)) (dsp_links m) = Inr (hs, l)"
    "dlists l hs ((map (map ?f) fl)[q := remove1 (?f (r, i)) (map (map ?f) fl ! q)])"
    using dls_delete_dlists [OF d, of q "?f (r, i)"] q by auto
  have "insert (r, i) (set (fl ! q)) \<subseteq> valid_pages (roots m)"
    using q dls_elems_mem [of q fl] fblocks_valid [OF inv] by auto
  then have "inj_on ?f (insert (r, i) (set (fl ! q)))"
    by (rule inj_on_subset [OF pm_inv_ptr_inj [OF inv]])
  then have "(map (map ?f) fl)[q := remove1 (?f (r, i)) (map (map ?f) fl ! q)] =
      map (map ?f) (fl[q := remove1 (r, i) (fl ! q)])"
    using q by (simp add: map_update map_remove1_inj)
  with op have "dlists l hs (map (map ?f) (fl[q := remove1 (r, i) (fl ! q)]))" by simp
  moreover have fb: "fblocks (fl[q := remove1 (r, i) (fl ! q)]) = fblocks fl - {(r, i, q)}"
    using fblocks_remove q pm_inv_distinct [OF inv] by blast
  moreover have "fblocks fl - {(r, i, q)} \<union> insert (r, i, q) B = fblocks fl \<union> B" using b by auto
  ultimately show ?thesis
    using op(1) inv by (auto simp: fl_delete_def pm_inv_def)
qed

lemma fl_append_inv:
  assumes inv: "pm_inv m fl (insert (r, i, q) B)" and new: "(r, i, q) \<notin> B" and q: "q \<le> PGMGR_MAXLVL"
  shows "\<exists>m'. fl_append q (pg_ptr (roots m) (r, i)) m = Inr m' \<and>
           pm_inv m' (fl[q := fl ! q @ [(r, i)]]) B \<and> roots m' = roots m \<and> dsps m' = dsps m"
proof -
  let ?f = "pg_ptr (roots m)"
  have q': "q < length fl" using q pm_inv_length [OF inv] by simp
  have d: "dlists (dsp_links m) (free_lists m) (map (map ?f) fl)" using inv by (simp add: pm_inv_def)
  have "(r, i) \<notin> dls_elems fl"
  proof
    assume "(r, i) \<in> dls_elems fl"
    then obtain b where "b \<in> fblocks fl" "blk_head b = (r, i)" by (auto simp: fblocks_elems)
    with inv show False
      using disjoint_same_head [of _ b "(r, i, q)"] by (fastforce simp: pm_inv_def)
  qed
  moreover have "(r, i) \<in> valid_pages (roots m)"
    using inv blk_ok_valid blk_head_in [of "(r, i, q)"] by (fastforce simp: pm_inv_def)
  ultimately have "?f (r, i) \<notin> dls_elems (map (map ?f) fl)"
    unfolding dls_elems_map
    using inj_on_image_mem_iff [OF pm_inv_ptr_inj [OF inv] _ fblocks_valid [OF inv]] by blast
  then obtain hs l where op: "dls_append (free_lists m) q (?f (r, i)) (dsp_links m) = Inr (hs, l)"
    "dlists l hs ((map (map ?f) fl)[q := map (map ?f) fl ! q @ [?f (r, i)]])"
    using dls_append_dlists [OF d, of q "?f (r, i)"] q' by auto
  have "(map (map ?f) fl)[q := map (map ?f) fl ! q @ [?f (r, i)]] = map (map ?f) (fl[q := fl ! q @ [(r, i)]])"
    using q' by (simp add: map_update)
  with op have "dlists l hs (map (map ?f) (fl[q := fl ! q @ [(r, i)]]))" by simp
  moreover have fb: "fblocks (fl[q := fl ! q @ [(r, i)]]) = insert (r, i, q) (fblocks fl)"
    by (rule fblocks_append [OF q'])
  moreover have "insert (r, i, q) (fblocks fl) \<union> B = fblocks fl \<union> insert (r, i, q) B" by auto
  ultimately show ?thesis
    using op(1) inv new by (auto simp: fl_append_def pm_inv_def)
qed

text \<open>Updates of a descriptor that keep its address.\<close>

lemma upd_dsp_simps [simp]:
  "roots (upd_dsp d f m) = roots m" "free_lists (upd_dsp d f m) = free_lists m"
  "dsp_links (upd_dsp d f m) = dsp_links m"
  "dsps (upd_dsp d f m) = (dsps m)(d := f (dsps m d))"
  by (simp_all add: upd_dsp_def)

lemma pm_inv_upd:
  assumes "\<And>x. pd_addr (f x) = pd_addr x"
  shows "pm_inv (upd_dsp d f m) fl B = pm_inv m fl B"
proof -
  have "pd_addr (((dsps m)(d := f (dsps m d))) x) = pd_addr (dsps m x)" for x
    using assms by simp
  then show ?thesis by (simp add: pm_inv_def roots_ok_def del: fun_upd_apply)
qed

text \<open>Replacing a block by its two halves, and two halves by their block.\<close>

lemma halves_of:
  "blk_ok rs (r, i, Suc q) \<Longrightarrow> blk_ok rs (r, i, q) \<and> blk_ok rs (r, i + 2 ^ q, q)"
  unfolding blk_ok_def split_conv
  by (auto simp: add.assoc [symmetric] intro: dvd_add dest: dvd_mult_left)

lemma disjoint_split:
  assumes d: "disjoint_blocks (insert (r, i, Suc q) S)" and n: "(r, i, Suc q) \<notin> S"
  shows "disjoint_blocks (insert (r, i, q) (insert (r, i + 2 ^ q, q) S))"
    "(r, i, q) \<notin> S" "(r, i + 2 ^ q, q) \<notin> S"
proof -
  have other: "blk_pages b \<inter> blk_pages (r, i, Suc q) = {}" if "b \<in> S" for b
    using d n that by (auto simp: disjoint_blocks_def)
  have sub: "blk_pages (r, i, q) \<subseteq> blk_pages (r, i, Suc q)"
    "blk_pages (r, i + 2 ^ q, q) \<subseteq> blk_pages (r, i, Suc q)"
    by (auto simp: blk_pages_def)
  have halves: "blk_pages (r, i, q) \<inter> blk_pages (r, i + 2 ^ q, q) = {}"
    by (auto simp: blk_pages_def)
  have S: "blk_pages b \<inter> blk_pages b' = {}" if "b \<in> S" "b' \<in> S" "b \<noteq> b'" for b b'
    using d that by (auto simp: disjoint_blocks_def)
  have x: "blk_pages (r, i, q) \<inter> blk_pages b = {}" "blk_pages (r, i + 2 ^ q, q) \<inter> blk_pages b = {}"
    if "b \<in> S" for b
    using other [OF that] sub by blast+
  show "disjoint_blocks (insert (r, i, q) (insert (r, i + 2 ^ q, q) S))"
    unfolding disjoint_blocks_def using S x halves by (auto simp: Int_commute)
  show "(r, i, q) \<notin> S" "(r, i + 2 ^ q, q) \<notin> S"
    using other sub blk_head_in by blast+
qed

lemma pm_inv_split:
  assumes inv: "pm_inv m fl (insert (r, i, Suc q) B)" and n: "(r, i, Suc q) \<notin> B"
  shows "pm_inv m fl (insert (r, i + 2 ^ q, q) (insert (r, i, q) B))"
    "(r, i, q) \<notin> B" "(r, i + 2 ^ q, q) \<notin> insert (r, i, q) B"
proof -
  let ?S = "fblocks fl \<union> B"
  have dj: "disjoint_blocks (insert (r, i, Suc q) ?S)" and n': "(r, i, Suc q) \<notin> ?S"
    using inv n by (auto simp: pm_inv_def)
  note d = disjoint_split [OF dj n']
  have "blk_ok (roots m) (r, i, q)" "blk_ok (roots m) (r, i + 2 ^ q, q)"
    using inv halves_of by (auto simp: pm_inv_def)
  then show "pm_inv m fl (insert (r, i + 2 ^ q, q) (insert (r, i, q) B))"
    using inv d by (auto simp: pm_inv_def insert_commute)
  show "(r, i, q) \<notin> B" "(r, i + 2 ^ q, q) \<notin> insert (r, i, q) B" using d by auto
qed

lemma covered_iff: "(r, y) \<in> covered S \<longleftrightarrow> (\<exists>z l. (r, z, l) \<in> S \<and> z \<le> y \<and> y < z + 2 ^ l)"
  by (force simp: covered_def blk_pages_def)

lemma covered_insert [simp]: "covered (insert b B) = blk_pages b \<union> covered B"
  by (simp add: covered_def)

lemma covered_Un [simp]: "covered (A \<union> B) = covered A \<union> covered B"
  by (simp add: covered_def)

lemma dsp_at_add: "dsp_at (dsp_at root i) j = dsp_at root (i + j)"
  by (simp add: dsp_at_def algebra_simps)

lemma pg_ptr_add: "dsp_at (pg_ptr rs (r, i)) j = pg_ptr rs (r, i + j)"
  by (simp add: pg_ptr_def dsp_at_add)

section \<open>Marks of the descriptors\<close>

text \<open>\<open>(r, j, l)\<close> is the buddy of \<open>(r, i, l)\<close>, \<open>f\<close> being the number of the first page of the segment.\<close>

definition buddies :: "nat \<Rightarrow> nat \<Rightarrow> nat \<Rightarrow> nat \<Rightarrow> bool" where
  "buddies f l i j \<longleftrightarrow> 2 ^ l dvd f + i \<and> (if 2 ^ Suc l dvd f + i then j = i + 2 ^ l else i = j + 2 ^ l)"

text \<open>
  A block whose first page is not marked is as large as the managed range allows: no buddy of a
  larger level fits. Pages outside all blocks are marked.
\<close>

definition honest :: "PgMgr \<Rightarrow> block set \<Rightarrow> bool" where
  "honest m S \<longleftrightarrow>
     (\<forall>(r, i, q)\<in>S. \<not> used m (r, i) \<longrightarrow>
        (\<forall>l j. q < l \<and> l < PGMGR_MAXLVL \<and> buddies (first_page (roots m ! r)) l i j \<longrightarrow>
           \<not> blk_pages (r, j, l) \<subseteq> covered S)) \<and>
     (\<forall>pg\<in>valid_pages (roots m) - covered S. used m pg)"

text \<open>The state between calls: blocks \<open>L\<close> are allocated.\<close>

definition pm_ok :: "PgMgr \<Rightarrow> page list list \<Rightarrow> block set \<Rightarrow> bool" where
  "pm_ok m fl L \<longleftrightarrow> pm_inv m fl L \<and> (\<forall>b\<in>L. live_at m b) \<and> honest m (fblocks fl \<union> L)"

section \<open>Allocation\<close>

lemma pg_find_level_props:
  "p \<le> pg_find_level m p \<and>
   (\<forall>q. p \<le> q \<and> q < pg_find_level m p \<longrightarrow> free_lists m ! q = None) \<and>
   (pg_find_level m p \<le> PGMGR_MAXLVL \<longrightarrow> free_lists m ! pg_find_level m p \<noteq> None)"
proof (induction m p rule: pg_find_level.induct)
  case (1 m q)
  show ?case
  proof (cases "q \<le> PGMGR_MAXLVL \<and> free_lists m ! q = None")
    case True
    then have e: "pg_find_level m q = pg_find_level m (Suc q)" by (simp add: pg_find_level.simps [of m q])
    have "free_lists m ! k = None" if "q \<le> k" "k < pg_find_level m (Suc q)" for k
      using 1 [OF True] that True by (cases "k = q") auto
    then show ?thesis using 1 [OF True] unfolding e by (meson Suc_leD)
  next
    case False
    then have "pg_find_level m q = q" by (subst pg_find_level.simps) (simp only: if_False)
    then show ?thesis using False by auto
  qed
qed

lemma free_list_head:
  assumes inv: "pm_inv m fl B" and q: "q \<le> PGMGR_MAXLVL"
  shows "free_lists m ! q = (case fl ! q of [] \<Rightarrow> None | pg # _ \<Rightarrow> Some (pg_ptr (roots m) pg))"
proof -
  have "dlist (dsp_links m) (free_lists m ! q) (map (map (pg_ptr (roots m))) fl ! q)"
    using inv q by (intro dlists_nth) (auto simp: pm_inv_def)
  then show ?thesis
    using pm_inv_length [OF inv] q by (auto dest!: dlist_head split: list.splits)
qed

text \<open>The blocks that splitting \<open>(r, i, q)\<close> down to level \<open>p\<close> puts on the free lists.\<close>

definition upper_halves :: "nat \<Rightarrow> nat \<Rightarrow> nat \<Rightarrow> nat \<Rightarrow> block set" where
  "upper_halves r i p q = (\<lambda>l. (r, i + 2 ^ l, l)) ` {p..<q}"

lemma upper_halves_Suc:
  "p \<le> q \<Longrightarrow> upper_halves r i p (Suc q) = insert (r, i + 2 ^ q, q) (upper_halves r i p q)"
  by (simp add: upper_halves_def atLeastLessThanSuc)

lemma upper_halves_cover:
  "p \<le> q \<Longrightarrow> blk_pages (r, i, q) = blk_pages (r, i, p) \<union> covered (upper_halves r i p q)"
proof (induction q)
  case 0
  then show ?case by (simp add: upper_halves_def covered_def)
next
  case (Suc q)
  show ?case
  proof (cases "p = Suc q")
    case True
    then show ?thesis by (simp add: upper_halves_def covered_def)
  next
    case False
    with Suc show ?thesis by (auto simp: covered_split upper_halves_Suc)
  qed
qed

definition split_frame :: "PgMgr \<Rightarrow> PgMgr \<Rightarrow> nat \<Rightarrow> nat \<Rightarrow> nat \<Rightarrow> bool" where
  "split_frame m m' r i q \<longleftrightarrow>
     roots m' = roots m \<and>
     (\<forall>pg\<in>valid_pages (roots m). pg \<notin> blk_pages (r, i, q) \<or> pg = (r, i) \<longrightarrow>
        dsps m' (pg_ptr (roots m) pg) = dsps m (pg_ptr (roots m) pg))"

lemma pg_split_ok:
  "pm_inv m fl (insert (r, i, q) B) \<Longrightarrow> (r, i, q) \<notin> B \<Longrightarrow> p \<le> q \<Longrightarrow>
   \<exists>m' fl'. pg_split (pg_ptr (roots m) (r, i)) p q m = Inr m' \<and>
     pm_inv m' fl' (insert (r, i, p) B) \<and> (r, i, p) \<notin> B \<and>
     fblocks fl' = fblocks fl \<union> upper_halves r i p q \<and> split_frame m m' r i q"
proof (induction q arbitrary: m fl)
  case 0
  then show ?case by (intro exI [of _ m] exI [of _ fl]) (simp add: upper_halves_def split_frame_def)
next
  case (Suc q)
  let ?d = "pg_ptr (roots m) (r, i)"
  let ?clr = "\<lambda>d. d\<lparr>pd_flags := pd_flags d AND NOT PGDSP_USED\<rparr>"
  show ?case
  proof (cases "p = Suc q")
    case True
    with Suc.prems show ?thesis
      by (intro exI [of _ m] exI [of _ fl]) (simp add: upper_halves_def split_frame_def)
  next
    case False
    let ?h = "(r, i + 2 ^ q)"
    define m1 where "m1 = upd_dsp (pg_ptr (roots m) ?h) ?clr m"
    note sp = pm_inv_split [OF Suc.prems(1,2)]
    have ok: "blk_ok (roots m) (r, i, Suc q)" using Suc.prems(1) by (simp add: pm_inv_def)
    then have q9: "q \<le> PGMGR_MAXLVL" by (simp add: blk_ok_def)
    have inv1: "pm_inv m1 fl (insert (r, i + 2 ^ q, q) (insert (r, i, q) B))"
      using sp(1) by (simp add: m1_def pm_inv_upd)
    obtain m2 where m2: "fl_append q (pg_ptr (roots m1) ?h) m1 = Inr m2"
      "pm_inv m2 (fl[q := fl ! q @ [?h]]) (insert (r, i, q) B)" "roots m2 = roots m1" "dsps m2 = dsps m1"
      using fl_append_inv [OF inv1 sp(3) q9] by blast
    have rts: "roots m1 = roots m" by (simp add: m1_def)
    obtain m' fl' where m': "pg_split (pg_ptr (roots m2) (r, i)) p q m2 = Inr m'"
      "pm_inv m' fl' (insert (r, i, p) B)" "(r, i, p) \<notin> B"
      "fblocks fl' = fblocks (fl[q := fl ! q @ [?h]]) \<union> upper_halves r i p q" "split_frame m2 m' r i q"
      using Suc.IH [OF m2(2) sp(2)] Suc.prems(3) False by auto
    have op: "pg_split ?d p (Suc q) m = Inr m'"
      using Suc.prems(3) False m2(1,3) m'(1) rts
      by (simp add: Let_def pg_ptr_add m1_def)
    have fb: "fblocks fl' = fblocks fl \<union> upper_halves r i p (Suc q)"
      using m'(4) fblocks_append [of q fl r "i + 2 ^ q"] pm_inv_length [OF Suc.prems(1)] q9 Suc.prems(3) False
      by (auto simp: upper_halves_Suc)
    have hv: "?h \<in> valid_pages (roots m)"
      using blk_ok_valid [OF ok] by (auto simp: blk_pages_def)
    have "dsps m1 (pg_ptr (roots m) pg) = dsps m (pg_ptr (roots m) pg)"
      if "pg \<in> valid_pages (roots m)" "pg \<notin> blk_pages (r, i, Suc q) \<or> pg = (r, i)" for pg
    proof -
      have "pg \<noteq> ?h" using that(2) by (auto simp: blk_pages_def)
      then have "pg_ptr (roots m) pg \<noteq> pg_ptr (roots m) ?h"
        using inj_onD [OF pm_inv_ptr_inj [OF Suc.prems(1)] _ that(1) hv] by blast
      then show ?thesis by (simp add: m1_def)
    qed
    then have "split_frame m m' r i (Suc q)"
      using m'(5) m2(3,4) rts by (auto simp: split_frame_def covered_split)
    then show ?thesis using op m'(2,3) fb by blast
  qed
qed

text \<open>Marking the first descriptor of an allocated block.\<close>

lemma used_upd:
  assumes "inj_on (pg_ptr (roots m)) (valid_pages (roots m))" "pg \<in> valid_pages (roots m)"
    "pg' \<in> valid_pages (roots m)"
  shows "used (upd_dsp (pg_ptr (roots m) pg') f m) pg \<longleftrightarrow>
     (if pg = pg' then pd_flags (f (dsps m (pg_ptr (roots m) pg))) AND PGDSP_USED \<noteq> 0 else used m pg)"
  using inj_onD [OF assms(1) _ assms(2,3)] by (auto simp: used_def)

lemma or_used: "(x OR PGDSP_USED) AND PGDSP_USED \<noteq> (0 :: u16)"
proof
  assume "(x OR PGDSP_USED) AND PGDSP_USED = (0 :: u16)"
  then have "\<not> bit ((x OR PGDSP_USED) AND PGDSP_USED) 0" by simp
  then show False by (simp add: bit_simps)
qed

lemma pm_inv_valid_head:
  assumes "pm_inv m fl B" "b \<in> fblocks fl \<union> B"
  shows "blk_pages b \<subseteq> valid_pages (roots m)" "blk_head b \<in> valid_pages (roots m)"
proof -
  have "blk_ok (roots m) b" using assms unfolding pm_inv_def by blast
  then show "blk_pages b \<subseteq> valid_pages (roots m)" by (rule blk_ok_valid)
  then show "blk_head b \<in> valid_pages (roots m)" using blk_head_in by blast
qed

lemma pm_inv_head_eq:
  assumes "pm_inv m fl B" "b \<in> fblocks fl \<union> B" "b' \<in> fblocks fl \<union> B" "b \<noteq> b'"
  shows "pg_ptr (roots m) (blk_head b) \<noteq> pg_ptr (roots m) (blk_head b')"
proof
  assume "pg_ptr (roots m) (blk_head b) = pg_ptr (roots m) (blk_head b')"
  then have "blk_head b = blk_head b'"
    using inj_onD [OF pm_inv_ptr_inj [OF assms(1)]] pm_inv_valid_head(2) [OF assms(1)] assms(2,3) by blast
  moreover have "disjoint_blocks (fblocks fl \<union> B)" using assms(1) by (simp add: pm_inv_def)
  ultimately show False using disjoint_same_head assms(2,3,4) by blast
qed

lemma live_at_frame:
  assumes "live_at m b" "split_frame m m' r i q" "blk_head b \<in> valid_pages (roots m)"
    "blk_pages b \<inter> blk_pages (r, i, q) = {}"
  shows "live_at m' b"
proof -
  have "blk_head b \<notin> blk_pages (r, i, q)" using assms(4) blk_head_in by blast
  then show ?thesis using assms(1-3) by (auto simp: split_frame_def live_at_def used_def)
qed

lemma live_at_mark:
  assumes inv: "pm_inv m fl (insert (r, i, q) L)" and lv: "unat lv = q"
    and b: "b \<in> insert (r, i, q) L" and l: "b \<in> L \<Longrightarrow> live_at m b"
  shows "live_at (upd_dsp (pg_ptr (roots m) (r, i))
            (\<lambda>d. d\<lparr>pd_flags := pd_flags d OR PGDSP_USED, pd_lvl := lv\<rparr>) m) b"
proof (cases "b = (r, i, q)")
  case True
  then show ?thesis using lv or_used by (simp add: live_at_def used_def)
next
  case False
  then have "pg_ptr (roots m) (blk_head b) \<noteq> pg_ptr (roots m) (r, i)"
    using pm_inv_head_eq [OF inv, of b "(r, i, q)"] b by simp
  then show ?thesis using l b False by (simp add: live_at_def used_def)
qed

lemma honest_upper_half:
  assumes ok: "blk_ok rs (r, i, q)" and l: "l < q" "l < l'"
  shows "\<not> buddies (first_page (rs ! r)) l' (i + 2 ^ l) j"
proof
  assume "buddies (first_page (rs ! r)) l' (i + 2 ^ l) j"
  then have "2 ^ Suc l dvd first_page (rs ! r) + (i + 2 ^ l)"
    using l unfolding buddies_def by (meson Suc_leI le_imp_power_dvd dvd_trans)
  moreover have "2 ^ Suc l dvd first_page (rs ! r) + i"
    using ok l by (auto simp only: blk_ok_def split_conv intro: dvd_trans [OF le_imp_power_dvd] Suc_leI)
  ultimately have "2 ^ Suc l dvd (2::nat) ^ l"
    by (metis add.assoc dvd_add_right_iff)
  then show False by (simp add: power_dvd_imp_le)
qed

lemma honest_after_split:
  assumes h: "honest m S" and rs: "roots m' = roots m"
    and b: "(r, i, q) \<in> S" "blk_ok (roots m) (r, i, q)" "p \<le> q"
    and S': "S' = insert (r, i, p) (S - {(r, i, q)} \<union> upper_halves r i p q)"
    and val: "\<And>b. b \<in> S \<Longrightarrow> blk_head b \<in> valid_pages (roots m)" and dj: "disjoint_blocks S"
    and frame: "\<And>pg. pg \<in> valid_pages (roots m) \<Longrightarrow> pg \<notin> blk_pages (r, i, q) \<Longrightarrow> used m' pg = used m pg"
    and mark: "used m' (r, i)"
  shows "honest m' S'"
proof -
  have cov: "covered S' = covered S"
  proof -
    have "covered S = blk_pages (r, i, q) \<union> covered (S - {(r, i, q)})"
      using b(1) by (auto simp: covered_def)
    then show ?thesis using upper_halves_cover [OF b(3), of r i] by (auto simp: S')
  qed
  have "\<not> blk_pages (r', j, l) \<subseteq> covered S'"
    if c: "(r', i', q') \<in> S'" "\<not> used m' (r', i')" "q' < l" "l < PGMGR_MAXLVL"
      "buddies (first_page (roots m ! r')) l i' j" for r' i' q' l j
  proof -
    consider "(r', i', q') = (r, i, p)" | "(r', i', q') \<in> S - {(r, i, q)}" | "(r', i', q') \<in> upper_halves r i p q"
      using c(1) S' by blast
    then show ?thesis
    proof cases
      case 1
      then show ?thesis using c(2) mark by simp
    next
      case 2
      then have "(r', i') \<notin> blk_pages (r, i, q)"
        using dj b(1) blk_head_in [of "(r', i', q')"] unfolding disjoint_blocks_def by fastforce
      moreover have "(r', i') \<in> valid_pages (roots m)" using val [of "(r', i', q')"] 2 by simp
      ultimately have "\<not> used m (r', i')" using frame c(2) by simp
      then show ?thesis using h 2 c(3-5) unfolding honest_def cov by blast
    next
      case 3
      then have "r' = r" "i' = i + 2 ^ q'" "q' < q" by (auto simp: upper_halves_def)
      then show ?thesis using honest_upper_half [OF b(2), of q' l j] c(3,5) by simp
    qed
  qed
  moreover have "used m' pg" if "pg \<in> valid_pages (roots m) - covered S'" for pg
  proof -
    have "pg \<notin> blk_pages (r, i, q)" using that b(1) by (auto simp: cov) (auto simp: covered_def)
    then show ?thesis using frame that h by (auto simp: honest_def cov)
  qed
  ultimately show ?thesis unfolding honest_def rs by blast
qed

lemma alloc_level: "unat (if p0 < of_nat PG_SFT then 0 else p0 - of_nat PG_SFT :: u8) = unat p0 - PG_SFT"
  by (auto simp: word_less_nat_alt unat_sub_no_wrap word_le_nat_alt)

text \<open>Marking the block that remains after splitting completes the allocation.\<close>

lemma alloc_mark:
  assumes ok: "pm_ok m fl L" and b: "(r, i, q) \<in> fblocks fl" and pq: "p \<le> q"
    and inv2: "pm_inv m2 fl' (insert (r, i, p) L)" and fr: "split_frame m m2 r i q"
    and fb: "fblocks fl' = fblocks fl - {(r, i, q)} \<union> upper_halves r i p q" and lvp: "unat lvp = p"
  shows "pm_ok (upd_dsp (pg_ptr (roots m) (r, i))
            (\<lambda>d. d\<lparr>pd_flags := pd_flags d OR PGDSP_USED, pd_lvl := lvp\<rparr>) m2) fl' (insert (r, i, p) L)"
    (is "pm_ok (upd_dsp _ ?mark m2) _ _")
proof -
  let ?m3 = "upd_dsp (pg_ptr (roots m2) (r, i)) ?mark m2"
  have inv: "pm_inv m fl L" and lv: "\<forall>b\<in>L. live_at m b" and ho: "honest m (fblocks fl \<union> L)"
    using ok by (auto simp: pm_ok_def)
  have rs: "roots m2 = roots m" "roots ?m3 = roots m" using fr by (simp_all add: split_frame_def)
  have dj: "disjoint_blocks (fblocks fl \<union> L)" using inv by (simp add: pm_inv_def)
  have bL: "(r, i, q) \<notin> L" using inv b by (auto simp: pm_inv_def)
  have blk: "blk_ok (roots m) (r, i, q)" using inv b by (auto simp: pm_inv_def)
  have live: "live_at ?m3 b" if "b \<in> insert (r, i, p) L" for b
  proof (rule live_at_mark [OF inv2 lvp that])
    assume bl: "b \<in> L"
    have v: "blk_head b \<in> valid_pages (roots m)" using bl by (intro pm_inv_valid_head(2) [OF inv]) simp
    have "b \<noteq> (r, i, q)" using bl bL by blast
    then have d: "blk_pages b \<inter> blk_pages (r, i, q) = {}"
      using dj b bl unfolding disjoint_blocks_def by simp
    have "live_at m b" using lv bl by blast
    then show "live_at m2 b" by (rule live_at_frame [OF _ fr v d])
  qed
  have mark: "used ?m3 (r, i)" using live [of "(r, i, p)"] by (simp add: live_at_def)
  have frame: "used ?m3 pg = used m pg"
    if v: "pg \<in> valid_pages (roots m)" "pg \<notin> blk_pages (r, i, q)" for pg
  proof -
    have "(r, i) \<in> valid_pages (roots m2)" using pm_inv_valid_head(2) [OF inv2, of "(r, i, p)"] by simp
    moreover have "pg \<noteq> (r, i)" using v(2) blk_head_in [of "(r, i, q)"] by auto
    ultimately have "used ?m3 pg = used m2 pg"
      using used_upd [OF pm_inv_ptr_inj [OF inv2], of pg "(r, i)" ?mark] v(1) rs by simp
    then show ?thesis using fr v by (auto simp: split_frame_def used_def)
  qed
  have S': "fblocks fl' \<union> insert (r, i, p) L =
      insert (r, i, p) (fblocks fl \<union> L - {(r, i, q)} \<union> upper_halves r i p q)"
    using fb bL by blast
  have val: "blk_head b \<in> valid_pages (roots m)" if "b \<in> fblocks fl \<union> L" for b
    by (rule pm_inv_valid_head(2) [OF inv that])
  have "(r, i, q) \<in> fblocks fl \<union> L" using b by simp
  from honest_after_split [OF ho rs(2) this blk pq S' val dj frame mark]
  have "honest ?m3 (fblocks fl' \<union> insert (r, i, p) L)" .
  then show ?thesis
    unfolding pm_ok_def using inv2 live rs by (simp add: pm_inv_upd)
qed

lemma covered_remove: "b \<in> S \<Longrightarrow> covered S = blk_pages b \<union> covered (S - {b})"
  by (auto simp: covered_def)

lemma pm_inv_addr:
  "pm_inv m fl B \<Longrightarrow> (r, i, q) \<in> fblocks fl \<union> B \<Longrightarrow>
   pd_addr (dsps m (pg_ptr (roots m) (r, i))) = pr_start (roots m ! r) + push_bit PG_SFT (of_nat i)"
  using pm_inv_valid_head(2) [of m fl B "(r, i, q)"] by (fastforce simp: pm_inv_def roots_ok_def)

text \<open>
  Allocation either finds no free block of the level asked for or above and changes nothing, or hands
  out a block of that level that was free before, aligned to its size, and keeps the invariant.
\<close>

lemma pg_alloc_page_spec:
  fixes p0 :: u8
  defines "p \<equiv> unat p0 - PG_SFT"
  assumes ok: "pm_ok m fl L"
  shows "(\<exists>m' fl' r i. pg_alloc_page p0 flg m = Inr (m', pr_start (roots m ! r) + push_bit PG_SFT (of_nat i)) \<and>
            pm_ok m' fl' (insert (r, i, p) L) \<and> roots m' = roots m \<and> (r, i, p) \<notin> L \<and>
            blk_pages (r, i, p) \<subseteq> covered (fblocks fl) \<and>
            covered (fblocks fl') \<union> blk_pages (r, i, p) = covered (fblocks fl)) \<or>
         (pg_alloc_page p0 flg m = Inr (m, NULL) \<and> (\<forall>q. p \<le> q \<and> q \<le> PGMGR_MAXLVL \<longrightarrow> fl ! q = []))"
proof -
  have inv: "pm_inv m fl L" using ok by (auto simp: pm_ok_def)
  define q where "q = pg_find_level m p"
  note fq = pg_find_level_props [of p m, folded q_def]
  define lvp where "lvp = (if p0 < of_nat PG_SFT then 0 else p0 - of_nat PG_SFT)"
  have lvp: "unat lvp = p" by (simp only: lvp_def alloc_level p_def)
  show ?thesis
  proof (cases "q \<le> PGMGR_MAXLVL")
    case False
    then have "pg_alloc_page p0 flg m = Inr (m, NULL)"
      unfolding pg_alloc_page_def lvp_def [symmetric] lvp Let_def q_def [symmetric] by simp
    moreover have "fl ! k = []" if "p \<le> k" "k \<le> PGMGR_MAXLVL" for k
      using fq False that free_list_head [OF inv that(2)] by (auto split: list.splits)
    ultimately show ?thesis by blast
  next
    case True
    then obtain r i ys where f: "fl ! q = (r, i) # ys" "free_lists m ! q = Some (pg_ptr (roots m) (r, i))"
      using fq free_list_head [OF inv True] by (auto split: list.splits)
    have b: "(r, i, q) \<in> fblocks fl"
      using f True pm_inv_length [OF inv] by (simp add: fblocks_def)
    obtain m1 where m1: "fl_delete q (pg_ptr (roots m) (r, i)) m = Inr m1"
      "pm_inv m1 (fl[q := remove1 (r, i) (fl ! q)]) (insert (r, i, q) L)"
      "roots m1 = roots m" "dsps m1 = dsps m"
      using fl_delete_inv [OF inv b] by blast
    have bL: "(r, i, q) \<notin> L" using inv b by (auto simp: pm_inv_def)
    obtain m2 fl' where m2: "pg_split (pg_ptr (roots m1) (r, i)) p q m1 = Inr m2"
      "pm_inv m2 fl' (insert (r, i, p) L)" "(r, i, p) \<notin> L"
      "fblocks fl' = fblocks (fl[q := remove1 (r, i) (fl ! q)]) \<union> upper_halves r i p q"
      "split_frame m1 m2 r i q"
      using pg_split_ok [OF m1(2) bL, of p] fq by blast
    have fb: "fblocks fl' = fblocks fl - {(r, i, q)} \<union> upper_halves r i p q"
      using m2(4) fblocks_remove [of q fl r i] pm_inv_distinct [OF inv, of q] True pm_inv_length [OF inv]
      by simp
    have fr: "split_frame m m2 r i q" using m2(5) m1(3,4) by (simp add: split_frame_def)
    have pq: "p \<le> q" using fq by blast
    define m3 where "m3 = upd_dsp (pg_ptr (roots m) (r, i))
      (\<lambda>d. d\<lparr>pd_flags := pd_flags d OR PGDSP_USED, pd_lvl := lvp\<rparr>) m2"
    have ok3: "pm_ok m3 fl' (insert (r, i, p) L)"
      unfolding m3_def by (rule alloc_mark [OF ok b pq m2(2) fr fb lvp])
    have rs: "roots m3 = roots m" using fr by (simp add: m3_def split_frame_def)
    have "pd_addr (dsps m3 (pg_ptr (roots m3) (r, i))) = pr_start (roots m3 ! r) + push_bit PG_SFT (of_nat i)"
      using ok3 by (intro pm_inv_addr [of m3 fl' "insert (r, i, p) L" r i p]) (simp_all add: pm_ok_def)
    then have op: "pg_alloc_page p0 flg m = Inr (m3, pr_start (roots m ! r) + push_bit PG_SFT (of_nat i))"
      unfolding pg_alloc_page_def lvp_def [symmetric] lvp Let_def q_def [symmetric]
      using True f(2) m1(1,3) m2(1) rs by (simp add: m3_def lvp)
    have cov: "covered (fblocks fl') \<union> blk_pages (r, i, p) = covered (fblocks fl)"
      using covered_remove [OF b] upper_halves_cover [OF pq, of r i] by (auto simp: fb)
    then have "blk_pages (r, i, p) \<subseteq> covered (fblocks fl)" by blast
    then show ?thesis using op ok3 rs m2(3) cov by blast
  qed
qed

section \<open>Addresses and buddies\<close>

lemma aligned_unat:
  fixes a :: u64
  shows "take_bit s a = 0 \<Longrightarrow> unat a = 2 ^ s * unat (drop_bit s a)"
  by (metis bits_ident drop_bit_eq_div mult.commute add_0_right push_bit_eq_mult unat_drop_bit_eq
      unsigned_take_bit_eq unat_0)

lemma root_range:
  assumes ok: "roots_ok rs ds" and r: "r < length rs"
  shows "unat (pr_start (rs ! r)) = 2 ^ PG_SFT * first_page (rs ! r)"
    "unat (pr_end (rs ! r)) = 2 ^ PG_SFT * (first_page (rs ! r) + npages (rs ! r))"
proof -
  let ?rt = "rs ! r"
  have a: "take_bit PG_SFT (pr_start ?rt) = 0" "take_bit PG_SFT (pr_end ?rt) = 0" "pr_start ?rt \<le> pr_end ?rt"
    using ok r by (auto simp: roots_ok_def)
  show s: "unat (pr_start ?rt) = 2 ^ PG_SFT * first_page ?rt"
    using aligned_unat [OF a(1)] by (simp add: first_page_def)
  obtain n where e: "unat (pr_end ?rt) = 2 ^ PG_SFT * n" using aligned_unat [OF a(2)] by blast
  have "unat (pr_end ?rt - pr_start ?rt) = unat (pr_end ?rt) - unat (pr_start ?rt)"
    by (rule unat_sub_no_wrap [OF a(3)])
  then have "npages ?rt = (2 ^ PG_SFT * (n - first_page ?rt)) div 2 ^ PG_SFT"
    by (simp only: npages_def root_pages_def unat_drop e s diff_mult_distrib2)
  then have "npages ?rt = n - first_page ?rt" by simp
  moreover have "first_page ?rt \<le> n"
    using a(3) e s by (simp add: word_le_nat_alt)
  ultimately show "unat (pr_end ?rt) = 2 ^ PG_SFT * (first_page ?rt + npages ?rt)"
    using e by simp
qed

lemma in_segment_iff:
  assumes "roots_ok rs ds" "r < length rs"
  shows "addr_in_segment (rs ! r) a \<longleftrightarrow>
     2 ^ PG_SFT * first_page (rs ! r) \<le> unat a \<and> unat a < 2 ^ PG_SFT * (first_page (rs ! r) + npages (rs ! r))"
  using root_range [OF assms] by (simp add: addr_in_segment_def word_le_nat_alt word_less_nat_alt)

lemma unat_page_start:
  assumes ok: "roots_ok rs ds" and r: "r < length rs" and i: "i \<le> npages (rs ! r)"
  shows "unat (pr_start (rs ! r) + push_bit PG_SFT (of_nat i)) = 2 ^ PG_SFT * (first_page (rs ! r) + i)"
proof -
  note rr = root_range [OF ok r]
  have "2 ^ PG_SFT * (first_page (rs ! r) + i) \<le> 2 ^ PG_SFT * (first_page (rs ! r) + npages (rs ! r))"
    using i by simp
  also have "\<dots> < 2 ^ 64" using rr(2) unat_lt_bounds(4) [of "pr_end (rs ! r)"] by simp
  finally have b: "2 ^ PG_SFT * (first_page (rs ! r) + i) < 2 ^ 64" .
  have "push_bit PG_SFT (of_nat i :: u64) = of_nat (2 ^ PG_SFT * i)"
    by (simp add: push_bit_eq_mult)
  moreover have "unat (of_nat (2 ^ PG_SFT * i) :: u64) = 2 ^ PG_SFT * i"
    using b by (intro unat_of_nat_small) simp
  ultimately show ?thesis
    using b rr(1) by (subst unat_add_no_wrap) (simp_all add: distrib_left)
qed

lemma unat_page_addr:
  assumes ok: "roots_ok rs ds" and v: "(r, i) \<in> valid_pages rs"
  shows "unat (pd_addr (ds (pg_ptr rs (r, i)))) = 2 ^ PG_SFT * (first_page (rs ! r) + i)"
  using unat_page_start [OF ok, of r i] ok v by (auto simp: roots_ok_def valid_pages_def)

text \<open>Bit \<open>20 + k\<close> of the address of page number \<open>n\<close> is bit \<open>k\<close> of \<open>n\<close>.\<close>

lemma page_bit:
  fixes a :: u64
  assumes "unat a = 2 ^ PG_SFT * n" "k < 44"
  shows "a AND push_bit (PG_SFT + k) 1 \<noteq> 0 \<longleftrightarrow> bit n k"
proof -
  have "a AND push_bit (PG_SFT + k) 1 \<noteq> 0 \<longleftrightarrow> odd (unat a div 2 ^ (PG_SFT + k))"
    using assms(2) by (simp only: bit_iff_and_push_bit_not_eq_0 [symmetric] word_bit_unat) simp
  also have "unat a div 2 ^ (PG_SFT + k) = n div 2 ^ k"
    by (simp only: assms(1) power_add div_mult2_eq) simp
  finally show ?thesis by (simp add: bit_iff_odd)
qed

lemma page_xor:
  fixes a :: u64
  assumes "unat a = 2 ^ PG_SFT * n" "k < 44"
  shows "unat (a XOR push_bit (PG_SFT + k) 1) = 2 ^ PG_SFT * (n XOR 2 ^ k)"
proof -
  have "unat (a XOR push_bit (PG_SFT + k) 1) = unat a XOR 2 ^ (PG_SFT + k)"
    using assms(2) by (intro unat_xor_bit) simp
  also have "\<dots> = push_bit PG_SFT n XOR push_bit PG_SFT (2 ^ k)"
    by (simp only: assms(1) push_bit_eq_mult power_add mult.commute)
  also have "\<dots> = push_bit PG_SFT (n XOR 2 ^ k)" by (rule push_bit_xor [symmetric])
  finally show ?thesis by (simp only: push_bit_eq_mult mult.commute)
qed

lemma aligned_bits:
  assumes "2 ^ l dvd (n::nat)" "k < l"
  shows "\<not> bit n k"
proof -
  obtain m where "n = push_bit l m" using assms(1) by (metis dvdE mult.commute push_bit_eq_mult)
  then show ?thesis using assms(2) by (simp add: bit_push_bit_iff)
qed

lemma dvd_gap: "d dvd a \<Longrightarrow> d dvd b \<Longrightarrow> a < b \<Longrightarrow> a + d \<le> (b::nat)"
  by (metis dvd_diff_nat dvd_imp_le le_diff_conv2 less_imp_le_nat add.commute zero_less_diff)

text \<open>Two buddies make up an aligned block of the next level.\<close>

lemma buddy_xor:
  fixes n :: nat
  assumes "2 ^ l dvd n"
  shows "if bit n l then n = (n XOR 2 ^ l) + 2 ^ l \<and> 2 ^ Suc l dvd n XOR 2 ^ l
         else n XOR 2 ^ l = n + 2 ^ l \<and> 2 ^ Suc l dvd n"
proof -
  obtain k where k: "n = 2 ^ l * k" using assms by blast
  have "bit n l \<longleftrightarrow> odd k" by (simp add: bit_iff_odd k)
  moreover have "2 ^ Suc l dvd n" if "even k" using that k by (auto elim!: evenE simp: dvd_def)
  moreover have "2 ^ Suc l dvd n XOR 2 ^ l" if "bit n l"
  proof -
    have "n = (n XOR 2 ^ l) + 2 ^ l" by (rule nat_xor_bit(2) [OF that])
    then have "n XOR 2 ^ l = 2 ^ l * (k - 1)" using k by (simp add: diff_mult_distrib2)
    moreover have "odd k" using that by (simp add: bit_iff_odd k)
    ultimately show ?thesis by (auto elim!: oddE)
  qed
  ultimately show ?thesis using nat_xor_bit [of n l] by auto
qed

text \<open>A block that contains one of two buddies of a smaller level contains both.\<close>

lemma pair_inside:
  fixes z n :: nat
  assumes a: "2 ^ l dvd n" "2 ^ l' dvd z" "l < l'" and m: "z \<le> n XOR 2 ^ l" "n XOR 2 ^ l < z + 2 ^ l'"
  shows "z \<le> n \<and> n < z + 2 ^ l'"
proof -
  define c where "c = (if bit n l then n XOR 2 ^ l else n)"
  have c: "2 ^ Suc l dvd c" "n = c \<or> n = c + 2 ^ l" "n XOR 2 ^ l = c \<or> n XOR 2 ^ l = c + 2 ^ l"
    using buddy_xor [OF a(1)] by (auto simp: c_def split: if_splits)
  have z: "2 ^ Suc l dvd z" using a(2,3) by (meson Suc_leI dvd_trans le_imp_power_dvd)
  have z': "2 ^ Suc l dvd z + 2 ^ l'" using z a(3) by (meson Suc_leI dvd_add le_imp_power_dvd)
  have "z \<le> c"
  proof (rule ccontr)
    assume "\<not> z \<le> c"
    then show False using dvd_gap [OF c(1) z] m c(3) by auto
  qed
  moreover have "c + 2 ^ Suc l \<le> z + 2 ^ l'"
    using dvd_gap [OF c(1) z'] m c(3) by auto
  moreover have "0 < (2::nat) ^ l" by simp
  ultimately show ?thesis using c(2) unfolding power_Suc by linarith
qed

text \<open>
  If the page at the buddy of a block in hand is not marked, the buddy is a free block of the same
  level: the test of \<open>pg_free_page\<close> is right.
\<close>

lemma buddy_is_free:
  assumes inv: "pm_inv m fl (insert (r, x, l) L)" and ho: "honest m (fblocks fl \<union> insert (r, x, l) L)"
    and lv: "\<forall>b\<in>L. live_at m b" and l: "l < PGMGR_MAXLVL" and v: "(r, y) \<in> valid_pages (roots m)"
    and y: "first_page (roots m ! r) + y = (first_page (roots m ! r) + x) XOR 2 ^ l"
    and nu: "\<not> used m (r, y)"
  shows "(r, y, l) \<in> fblocks fl"
proof -
  let ?f = "first_page (roots m ! r)" and ?S = "fblocks fl \<union> insert (r, x, l) L"
  have ok: "blk_ok (roots m) b" if "b \<in> ?S" for b using inv that unfolding pm_inv_def by blast
  have dj: "disjoint_blocks ?S" using inv by (simp add: pm_inv_def)
  have al: "2 ^ l dvd ?f + x" using ok [of "(r, x, l)"] by (simp add: blk_ok_def)
  note bx = buddy_xor [OF al, folded y]
  have al': "2 ^ l dvd ?f + y" 
  proof (cases "bit (?f + x) l")
    case True
    with bx have "2 ^ Suc l dvd ?f + y" by simp
    then show ?thesis by (rule power_le_dvd) simp
  next
    case False
    with bx have "?f + y = ?f + x + 2 ^ l" by presburger
    then show ?thesis using dvd_add [OF al dvd_refl] by (simp only:)
  qed
  have bud: "buddies ?f l y x"
  proof (cases "bit (?f + x) l")
    case True
    then show ?thesis using bx al' by (auto simp: buddies_def)
  next
    case False
    then have "y = x + 2 ^ l" "2 ^ Suc l dvd ?f + x" using bx by auto
    then have "\<not> 2 ^ Suc l dvd ?f + y"
      by (simp add: add.assoc [symmetric] dvd_add_right_iff power_dvd_imp_le)
    then show ?thesis using al' \<open>y = x + 2 ^ l\<close> by (simp add: buddies_def)
  qed
  have "(r, y) \<in> covered ?S" using ho v nu unfolding honest_def by blast
  then obtain z l' where b: "(r, z, l') \<in> ?S" "z \<le> y" "y < z + 2 ^ l'"
    unfolding covered_iff by blast
  have az: "2 ^ l' dvd ?f + z" using ok [OF b(1)] by (simp add: blk_ok_def)
  have "\<not> l < l'"
  proof
    assume ll: "l < l'"
    then have "(r, x) \<in> blk_pages (r, z, l')"
      using pair_inside [OF al az ll] b y by (auto simp: blk_pages_def)
    moreover have "(r, x) \<in> blk_pages (r, x, l)" by (simp add: blk_pages_def)
    ultimately have "(r, z, l') = (r, x, l)" using disjointD [OF dj b(1)] by blast
    then show False using ll by simp
  qed
  then have "2 ^ l' dvd ?f + y" using al' by (meson dvd_trans le_imp_power_dvd linorder_not_less)
  then have zy: "z = y" using dvd_gap [OF az, of "?f + y"] b by fastforce
  have "l' = l"
  proof (rule ccontr)
    assume "l' \<noteq> l"
    then have "l' < l" using \<open>\<not> l < l'\<close> by simp
    moreover have "blk_pages (r, x, l) \<subseteq> covered ?S" by (auto simp: covered_def)
    ultimately show False using ho b(1) zy nu l bud unfolding honest_def by blast
  qed
  moreover have "y \<noteq> x" using bx by (auto split: if_splits)
  moreover have "(r, y, l) \<notin> L" using lv nu by (auto simp: live_at_def)
  ultimately show ?thesis using b(1) zy by auto
qed

text \<open>The address computations of the loop in \<open>pg_free_page\<close>, in page numbers.\<close>

lemma dsp_back_at: "dsp_back (dsp_at root (i + j)) j = dsp_at root i"
  by (simp add: dsp_back_def dsp_at_def algebra_simps)

lemma combine_tests:
  assumes inv: "pm_inv m fl (insert (r, x, l) L)" and l: "l < PGMGR_MAXLVL"
  defines "a \<equiv> pd_addr (dsps m (pg_ptr (roots m) (r, x)))" and "n \<equiv> first_page (roots m ! r) + x"
  shows "a AND push_bit (PG_SFT + l - 1) 1 = 0"
    and "a AND push_bit (PG_SFT + l) 1 \<noteq> 0 \<longleftrightarrow> bit n l"
    and "addr_in_segment (roots m ! r) (a XOR push_bit (PG_SFT + l) 1) \<longleftrightarrow>
         (\<exists>y < npages (roots m ! r). first_page (roots m ! r) + y = n XOR 2 ^ l)"
proof -
  have rok: "roots_ok (roots m) (dsps m)" and blk: "blk_ok (roots m) (r, x, l)"
    using inv by (auto simp: pm_inv_def)
  have v: "(r, x) \<in> valid_pages (roots m)" using pm_inv_valid_head(2) [OF inv, of "(r, x, l)"] by simp
  have al: "2 ^ l dvd n" using blk by (simp add: blk_ok_def n_def)
  have ua: "unat a = 2 ^ PG_SFT * n" unfolding a_def n_def by (rule unat_page_addr [OF rok v])
  show "a AND push_bit (PG_SFT + l) 1 \<noteq> 0 \<longleftrightarrow> bit n l" using page_bit [OF ua, of l] l by simp
  show "a AND push_bit (PG_SFT + l - 1) 1 = 0"
  proof (cases l)
    case 0
    have "unat a = 524288 * (2 * n)" using ua by simp
    then have "unat a div 524288 = 2 * n" by (simp only: nonzero_mult_div_cancel_left zero_neq_numeral [symmetric] not_False_eq_True)
    then have "even (unat a div 2 ^ 19)" by simp
    then have "\<not> bit a 19" by (simp add: word_bit_unat)
    then have "a AND push_bit 19 1 = 0" using bit_iff_and_push_bit_not_eq_0 by blast
    then show ?thesis using 0 by simp
  next
    case (Suc k)
    then show ?thesis using page_bit [OF ua, of k] aligned_bits [OF al, of k] l by simp
  qed
  have r: "r < length (roots m)" using v by (simp add: valid_pages_def)
  have "unat (a XOR push_bit (PG_SFT + l) 1) = 2 ^ PG_SFT * (n XOR 2 ^ l)"
    using page_xor [OF ua, of l] l by simp
  then have "addr_in_segment (roots m ! r) (a XOR push_bit (PG_SFT + l) 1) \<longleftrightarrow>
      first_page (roots m ! r) \<le> n XOR 2 ^ l \<and> n XOR 2 ^ l < first_page (roots m ! r) + npages (roots m ! r)"
    by (simp only: in_segment_iff [OF rok r] mult_le_cancel1 mult_less_cancel1) simp
  then show "addr_in_segment (roots m ! r) (a XOR push_bit (PG_SFT + l) 1) \<longleftrightarrow>
         (\<exists>y < npages (roots m ! r). first_page (roots m ! r) + y = n XOR 2 ^ l)"
    by (metis le_iff_add nat_add_left_cancel_less)
qed

text \<open>The descriptor of the lower page has the lower address.\<close>

lemma dsp_less:
  assumes "roots_ok rs ds" "(r, i) \<in> valid_pages rs" "(r, j) \<in> valid_pages rs"
  shows "pg_ptr rs (r, i) < pg_ptr rs (r, j) \<longleftrightarrow> i < j"
proof -
  have b: "unat (pg_ptr rs (r, k)) = unat (pr_root (rs ! r)) + PGDSP_SZ * k"
    if "(r, k) \<in> valid_pages rs" for k
  proof -
    have "rs ! r \<in> set rs" and k: "k < npages (rs ! r)" using that by (auto simp: valid_pages_def)
    then have lim: "unat (pr_root (rs ! r)) + PGDSP_SZ * k < 2 ^ 64"
      using assms(1) by (fastforce simp: roots_ok_def)
    then have "unat (of_nat (PGDSP_SZ * k) :: u64) = PGDSP_SZ * k" by (intro unat_of_nat_small) simp
    then show ?thesis using lim by (simp only: pg_ptr_def split_conv dsp_at_def) (subst unat_add_no_wrap; simp)
  qed
  show ?thesis using b [OF assms(2)] b [OF assms(3)] by (simp add: word_less_nat_alt)
qed

section \<open>Deallocation\<close>

text \<open>Merging two buddies keeps the blocks disjoint and the marks meaningful.\<close>

lemma disjoint_merge:
  assumes dj: "disjoint_blocks S" and b: "(r, z, l) \<in> S" "(r, z + 2 ^ l, l) \<in> S"
  shows "disjoint_blocks (insert (r, z, Suc l) (S - {(r, z, l), (r, z + 2 ^ l, l)}))"
proof (rule disjoint_insert)
  show "disjoint_blocks (S - {(r, z, l), (r, z + 2 ^ l, l)})" by (rule disjoint_subset [OF dj]) blast
  fix c assume "c \<in> S - {(r, z, l), (r, z + 2 ^ l, l)}"
  then show "blk_pages c \<inter> blk_pages (r, z, Suc l) = {}"
    unfolding covered_split using disjointD [OF dj, of c] b by blast
qed

lemma covered_merge:
  assumes "(r, z, l) \<in> S" "(r, z + 2 ^ l, l) \<in> S"
  shows "covered (insert (r, z, Suc l) (S - {(r, z, l), (r, z + 2 ^ l, l)})) = covered S"
  using assms by (auto simp: covered_split) (auto simp: covered_def)

lemma honest_merge:
  assumes h: "honest m S" and b: "(r, z, l) \<in> S" "(r, z + 2 ^ l, l) \<in> S" and m': "roots m' = roots m" "dsps m' = dsps m"
  shows "honest m' (insert (r, z, Suc l) (S - {(r, z, l), (r, z + 2 ^ l, l)}))"
proof -
  have u: "used m' = used m" using m' by (intro ext) (simp add: used_def)
  show ?thesis
    using h b(1) unfolding honest_def covered_merge [OF b] u m'(1)
    by (fastforce dest: Suc_lessD)
qed

lemma merged_ok:
  assumes "blk_ok rs (r, z, l)" "blk_ok rs (r, z + 2 ^ l, l)" "l < PGMGR_MAXLVL"
    "2 ^ Suc l dvd first_page (rs ! r) + z"
  shows "blk_ok rs (r, z, Suc l)"
  using assms by (auto simp: blk_ok_def)

text \<open>One round of the loop, in terms of blocks.\<close>

lemma merge_step:
  assumes inv: "pm_inv m fl (insert (r, x, l) L)" and xL: "(r, x, l) \<notin> L"
    and ho: "honest m (fblocks fl \<union> insert (r, x, l) L)" and l: "l < PGMGR_MAXLVL"
    and y: "first_page (roots m ! r) + y = (first_page (roots m ! r) + x) XOR 2 ^ l"
    and bf: "(r, y, l) \<in> fblocks fl"
  shows "\<exists>m' fl'. fl_delete l (pg_ptr (roots m) (r, y)) m = Inr m' \<and>
     pm_inv m' fl' (insert (r, min x y, Suc l) L) \<and> (r, min x y, Suc l) \<notin> L \<and>
     honest m' (fblocks fl' \<union> insert (r, min x y, Suc l) L) \<and> roots m' = roots m \<and> dsps m' = dsps m \<and>
     covered (fblocks fl') \<union> blk_pages (r, min x y, Suc l) = covered (fblocks fl) \<union> blk_pages (r, x, l)"
proof -
  let ?z = "min x y" and ?f = "first_page (roots m ! r)"
  let ?S = "fblocks fl \<union> insert (r, x, l) L"
  have ok: "blk_ok (roots m) (r, x, l)" "blk_ok (roots m) (r, y, l)" using inv bf by (auto simp: pm_inv_def)
  have al: "2 ^ l dvd ?f + x" using ok(1) by (simp add: blk_ok_def)
  have zz: "2 ^ Suc l dvd ?f + ?z" "{x, y} = {?z, ?z + 2 ^ l}"
    using buddy_xor [OF al, folded y] by (auto simp: min_def split: if_splits)
  have in_S: "(r, ?z, l) \<in> ?S" "(r, ?z + 2 ^ l, l) \<in> ?S"
    using zz(2) bf by (metis Un_iff doubleton_eq_iff insertCI)+
  obtain m' where m': "fl_delete l (pg_ptr (roots m) (r, y)) m = Inr m'"
    "pm_inv m' (fl[l := remove1 (r, y) (fl ! l)]) (insert (r, y, l) (insert (r, x, l) L))"
    "roots m' = roots m" "dsps m' = dsps m"
    using fl_delete_inv [OF inv bf] by blast
  define fl' where "fl' = fl[l := remove1 (r, y) (fl ! l)]"
  have fb: "fblocks fl' = fblocks fl - {(r, y, l)}"
    using fblocks_remove [of l fl r y] pm_inv_distinct [OF inv, of l] pm_inv_length [OF inv] l
    by (simp add: fl'_def)
  have yL: "(r, y, l) \<notin> L" "(r, x, l) \<notin> fblocks fl" "x \<noteq> y" using inv bf by (auto simp: pm_inv_def)
  have pair: "{(r, x, l), (r, y, l)} = {(r, ?z, l), (r, ?z + 2 ^ l, l)}" using zz(2) by auto
  have S': "fblocks fl' \<union> insert (r, ?z, Suc l) L =
      insert (r, ?z, Suc l) (?S - {(r, ?z, l), (r, ?z + 2 ^ l, l)})"
    unfolding pair [symmetric] fb using yL xL by blast
  have dj: "disjoint_blocks ?S" using inv by (simp add: pm_inv_def)
  note dm = disjoint_merge [OF dj in_S, folded S']
  have new: "(r, ?z, Suc l) \<notin> ?S"
  proof
    assume "(r, ?z, Suc l) \<in> ?S"
    then have "(r, ?z, Suc l) = (r, ?z, l)"
      by (rule disjoint_same_head [OF dj _ in_S(1)]) simp
    then show False by simp
  qed
  have "blk_ok (roots m) (r, ?z, Suc l)"
  proof (rule merged_ok [OF _ _ l zz(1)])
    show "blk_ok (roots m) (r, ?z, l)" using ok by (simp add: min_def)
    show "blk_ok (roots m) (r, ?z + 2 ^ l, l)" using ok zz(2) by (metis doubleton_eq_iff)
  qed
  then have "pm_inv m' fl' (insert (r, ?z, Suc l) L)"
    using m'(2,3) dm new unfolding fl'_def [symmetric] pm_inv_def by (auto simp: fb)
  moreover have "honest m' (fblocks fl' \<union> insert (r, ?z, Suc l) L)"
    unfolding S' by (rule honest_merge [OF ho in_S m'(3,4)])
  moreover have "covered (fblocks fl') \<union> blk_pages (r, ?z, Suc l) = covered (fblocks fl) \<union> blk_pages (r, x, l)"
  proof -
    have "blk_pages (r, ?z, Suc l) = blk_pages (r, x, l) \<union> blk_pages (r, y, l)"
      using zz(2) by (auto simp: covered_split doubleton_eq_iff)
    then show ?thesis using covered_remove [OF bf] fb by auto
  qed
  ultimately show ?thesis using m'(1,3,4) new by blast
qed

lemma buddy_ptr:
  assumes "2 ^ l dvd f + x" "f + y = (f + x) XOR 2 ^ l"
  shows "(if bit (f + x) l then dsp_back (pg_ptr rs (r, x)) (2 ^ l)
          else dsp_at (pg_ptr rs (r, x)) (2 ^ l)) = pg_ptr rs (r, y)"
proof (cases "bit (f + x) l")
  case True
  then have "f + x = f + y + 2 ^ l" using buddy_xor [OF assms(1)] assms(2) by simp
  then have "x = y + 2 ^ l" by simp
  then show ?thesis using True by (simp only: pg_ptr_def split_conv dsp_back_at if_True)
next
  case False
  then have "f + y = f + x + 2 ^ l" using buddy_xor [OF assms(1)] assms(2) by simp
  then have "y = x + 2 ^ l" by simp
  then show ?thesis using False by (simp only: pg_ptr_add if_False)
qed

text \<open>The whole loop: it ends with the block in hand, maximal or stopped at a marked buddy.\<close>

lemma pg_combine_ok:
  "pm_inv m fl (insert (r, x, l) L) \<Longrightarrow> (r, x, l) \<notin> L \<Longrightarrow>
   honest m (fblocks fl \<union> insert (r, x, l) L) \<Longrightarrow> \<forall>b\<in>L. live_at m b \<Longrightarrow>
   \<exists>m' fl' x' l'. pg_combine (roots m ! r) (pg_ptr (roots m) (r, x)) l m =
       Inr (m', pg_ptr (roots m) (r, x'), l') \<and>
     pm_inv m' fl' (insert (r, x', l') L) \<and> (r, x', l') \<notin> L \<and>
     honest m' (fblocks fl' \<union> insert (r, x', l') L) \<and> roots m' = roots m \<and> dsps m' = dsps m \<and>
     covered (fblocks fl') \<union> blk_pages (r, x', l') = covered (fblocks fl) \<union> blk_pages (r, x, l)"
proof (induction "PGMGR_MAXLVL - l" arbitrary: m fl x l)
  case 0
  then have "\<not> l < PGMGR_MAXLVL" by simp
  then have "pg_combine (roots m ! r) (pg_ptr (roots m) (r, x)) l m = Inr (m, pg_ptr (roots m) (r, x), l)"
    by (subst pg_combine.simps) simp
  then show ?case using 0(2,3,4) by blast
next
  case (Suc k)
  note inv = Suc.prems(1)
  have l: "l < PGMGR_MAXLVL" using Suc.hyps(2) by simp
  let ?a = "pd_addr (dsps m (pg_ptr (roots m) (r, x)))" and ?f = "first_page (roots m ! r)"
  note t = combine_tests [OF inv l]
  have ok: "blk_ok (roots m) (r, x, l)" using inv by (simp add: pm_inv_def)
  then have al: "2 ^ l dvd ?f + x" by (simp add: blk_ok_def)
  show ?case
  proof (cases "\<exists>y < npages (roots m ! r). ?f + y = (?f + x) XOR 2 ^ l \<and> \<not> used m (r, y)")
    case False
    have "pg_combine (roots m ! r) (pg_ptr (roots m) (r, x)) l m = Inr (m, pg_ptr (roots m) (r, x), l)"
    proof (cases "\<exists>y < npages (roots m ! r). ?f + y = (?f + x) XOR 2 ^ l")
      case True
      then obtain y where y: "y < npages (roots m ! r)" "?f + y = (?f + x) XOR 2 ^ l" "used m (r, y)"
        using False by blast
      have "(if bit (?f + x) l then dsp_back (pg_ptr (roots m) (r, x)) (2 ^ l)
             else dsp_at (pg_ptr (roots m) (r, x)) (2 ^ l)) = pg_ptr (roots m) (r, y)"
        by (rule buddy_ptr [OF al y(2)])
      then show ?thesis
        using y l t(1,2) t(3) [THEN iffD2, OF True] by (subst pg_combine.simps) (simp add: Let_def used_def)
    next
      case False
      then have "\<not> addr_in_segment (roots m ! r) (?a XOR push_bit (PG_SFT + l) 1)" using t(3) by blast
      then show ?thesis using l t(1) by (subst pg_combine.simps) (simp add: Let_def)
    qed
    then show ?thesis using Suc.prems by blast
  next
    case True
    then obtain y where y: "y < npages (roots m ! r)" "?f + y = (?f + x) XOR 2 ^ l" "\<not> used m (r, y)"
      by blast
    have vx: "(r, x) \<in> valid_pages (roots m)" using pm_inv_valid_head(2) [OF inv, of "(r, x, l)"] by simp
    then have vy: "(r, y) \<in> valid_pages (roots m)" using y(1) by (simp add: valid_pages_def)
    have bf: "(r, y, l) \<in> fblocks fl"
      by (rule buddy_is_free [OF inv Suc.prems(3,4) l vy y(2,3)])
    obtain m' fl' where m': "fl_delete l (pg_ptr (roots m) (r, y)) m = Inr m'"
      "pm_inv m' fl' (insert (r, min x y, Suc l) L)" "(r, min x y, Suc l) \<notin> L"
      "honest m' (fblocks fl' \<union> insert (r, min x y, Suc l) L)" "roots m' = roots m" "dsps m' = dsps m"
      "covered (fblocks fl') \<union> blk_pages (r, min x y, Suc l) = covered (fblocks fl) \<union> blk_pages (r, x, l)"
      using merge_step [OF inv Suc.prems(2,3) l y(2) bf] by blast
    have buddy: "(if bit (?f + x) l then dsp_back (pg_ptr (roots m) (r, x)) (2 ^ l)
             else dsp_at (pg_ptr (roots m) (r, x)) (2 ^ l)) = pg_ptr (roots m) (r, y)"
      by (rule buddy_ptr [OF al y(2)])
    have less: "pg_ptr (roots m) (r, y) < pg_ptr (roots m) (r, x) \<longleftrightarrow> y < x"
      using inv by (intro dsp_less [OF _ vy vx, of "dsps m"]) (simp add: pm_inv_def)
    have seg: "addr_in_segment (roots m ! r) (?a XOR push_bit (PG_SFT + l) 1)" using t(3) y by blast
    have "pg_combine (roots m ! r) (pg_ptr (roots m) (r, x)) l m =
        pg_combine (roots m' ! r) (pg_ptr (roots m') (r, min x y)) (Suc l) m'"
      using l t(1,2) seg buddy less y(3) m'(1,5)
      by (subst pg_combine.simps) (simp add: Let_def used_def min_def)
    moreover have "\<forall>b\<in>L. live_at m' b" using Suc.prems(4) m'(5,6) by (simp add: live_at_def used_def)
    ultimately show ?thesis
      using Suc.hyps(1) [of "Suc l" m' fl' "min x y"] Suc.hyps(2) m'(2-7) by simp
  qed
qed

text \<open>With one segment, as in the kernel's boot configuration, the search finds an address inside it.\<close>

lemma pg_search_one:
  assumes "addr_in_segment rt addr"
  shows "pg_search [rt] addr 0 1 = Some (Inr 0)"
proof -
  have "\<not> addr < pr_start rt" "\<not> pr_end rt \<le> addr" using assms by (auto simp: addr_in_segment_def)
  then show ?thesis by (subst pg_search.simps) (simp add: Let_def)
qed

lemma page_index:
  assumes ok: "roots_ok rs ds" and v: "(r, i) \<in> valid_pages rs"
  defines "a \<equiv> pr_start (rs ! r) + push_bit PG_SFT (of_nat i)"
  shows "addr_in_segment (rs ! r) a" "unat (drop_bit PG_SFT (a - pr_start (rs ! r))) = i"
proof -
  have r: "r < length rs" "i < npages (rs ! r)" using v by (auto simp: valid_pages_def)
  have ua: "unat a = 2 ^ PG_SFT * (first_page (rs ! r) + i)"
    using unat_page_addr [OF ok v] ok v by (auto simp: a_def roots_ok_def)
  show "addr_in_segment (rs ! r) a"
    using r by (simp only: in_segment_iff [OF ok r(1)] ua mult_le_cancel1 mult_less_cancel1) simp
  have "pr_start (rs ! r) \<le> a" using ua root_range(1) [OF ok r(1)] by (simp add: word_le_nat_alt)
  then have "unat (a - pr_start (rs ! r)) = 2 ^ PG_SFT * i"
    using ua root_range(1) [OF ok r(1)] by (simp add: unat_sub_no_wrap distrib_left)
  then show "unat (drop_bit PG_SFT (a - pr_start (rs ! r))) = i"
    by (simp only: unat_drop) simp
qed

text \<open>
  Freeing an allocated block of the only segment returns its pages to the free blocks, merged with
  their free buddies, and keeps the invariant.
\<close>

lemma pg_free_page_spec:
  assumes ok: "pm_ok m fl L" and one: "length (roots m) = 1" and b: "(0, i, q) \<in> L"
  shows "\<exists>m' fl'. pg_free_page (pr_start (roots m ! 0) + push_bit PG_SFT (of_nat i)) m = Inr m' \<and>
     pm_ok m' fl' (L - {(0, i, q)}) \<and> roots m' = roots m \<and>
     covered (fblocks fl') = covered (fblocks fl) \<union> blk_pages (0, i, q)"
proof -
  let ?L = "L - {(0, i, q)}" and ?a = "pr_start (roots m ! 0) + push_bit PG_SFT (of_nat i)"
  have inv: "pm_inv m fl L" and lv: "\<forall>b\<in>L. live_at m b" and ho: "honest m (fblocks fl \<union> L)"
    using ok by (auto simp: pm_ok_def)
  have L: "insert (0, i, q) ?L = L" using b by blast
  have v: "(0, i) \<in> valid_pages (roots m)" using pm_inv_valid_head(2) [OF inv, of "(0, i, q)"] b by simp
  have rok: "roots_ok (roots m) (dsps m)" using inv by (simp add: pm_inv_def)
  note pi = page_index [OF rok v]
  have rs: "roots m = [roots m ! 0]" using one by (cases "roots m") auto
  have search: "pg_search (roots m) ?a 0 (of_nat (length (roots m))) = Some (Inr 0)"
    using pg_search_one [OF pi(1)] rs by (metis One_nat_def length_Cons list.size(3) of_nat_1)
  have lvl: "unat (pd_lvl (dsps m (pg_ptr (roots m) (0, i)))) = q" using lv b by (auto simp: live_at_def)
  have prem: "pm_inv m fl (insert (0, i, q) ?L)" "honest m (fblocks fl \<union> insert (0, i, q) ?L)"
    "\<forall>b\<in>?L. live_at m b" using inv ho lv unfolding L by auto
  have notin: "(0, i, q) \<notin> ?L" by simp
  obtain m1 fl1 x' l' where c: "pg_combine (roots m ! 0) (pg_ptr (roots m) (0, i)) q m =
       Inr (m1, pg_ptr (roots m) (0, x'), l')"
     "pm_inv m1 fl1 (insert (0, x', l') ?L)" "(0, x', l') \<notin> ?L"
     "honest m1 (fblocks fl1 \<union> insert (0, x', l') ?L)" "roots m1 = roots m" "dsps m1 = dsps m"
     "covered (fblocks fl1) \<union> blk_pages (0, x', l') = covered (fblocks fl) \<union> blk_pages (0, i, q)"
    using pg_combine_ok [OF prem(1) notin prem(2,3)] by blast
  have l9: "l' \<le> PGMGR_MAXLVL" using c(2) by (auto simp: pm_inv_def blk_ok_def)
  obtain m2 where m2: "fl_append l' (pg_ptr (roots m1) (0, x')) m1 = Inr m2"
    "pm_inv m2 (fl1[l' := fl1 ! l' @ [(0, x')]]) ?L" "roots m2 = roots m1" "dsps m2 = dsps m1"
    using fl_append_inv [OF c(2,3) l9] by blast
  have fb: "fblocks (fl1[l' := fl1 ! l' @ [(0, x')]]) = insert (0, x', l') (fblocks fl1)"
    using fblocks_append pm_inv_length [OF c(2)] l9 by simp
  have used: "used m2 = used m1" using m2(3,4) by (intro ext) (simp add: used_def)
  have "honest m2 (fblocks (fl1[l' := fl1 ! l' @ [(0, x')]]) \<union> ?L)"
    using c(4) unfolding fb honest_def used m2(3) by simp
  moreover have "\<forall>b\<in>?L. live_at m2 b" using lv c(5,6) m2(3,4) by (auto simp: live_at_def used_def)
  ultimately have "pm_ok m2 (fl1[l' := fl1 ! l' @ [(0, x')]]) ?L" using m2(2) by (simp add: pm_ok_def)
  moreover have "pg_free_page ?a m = Inr m2"
    using search pi c(1,5) m2(1) lvl one
    by (simp add: pg_free_page_def Let_def pg_ptr_def)
  moreover have "covered (fblocks (fl1[l' := fl1 ! l' @ [(0, x')]])) = covered (fblocks fl) \<union> blk_pages (0, i, q)"
    unfolding fb using c(7) by auto
  ultimately show ?thesis using c(5) m2(3) by metis
qed

section \<open>The contract: a source of pages\<close>

text \<open>
  What the slab allocator relies on when it asks for a page (\<open>func_alloc_page\<close>): the call returns,
  and a page it hands out is aligned and was not handed out before. \<open>owns s H\<close> says that the source in
  state \<open>s\<close> has handed out the blocks that start at the addresses \<open>H\<close>.
\<close>

locale page_source =
  fixes alloc_page :: "u8 \<Rightarrow> u16 \<Rightarrow> 's \<Rightarrow> ('s \<times> ptr) res"
    and owns :: "'s \<Rightarrow> ptr set \<Rightarrow> bool"
  assumes page_alloc:
    "owns s H \<Longrightarrow> \<exists>s' a. alloc_page (of_nat PG_SFT) flg s = Inr (s', a) \<and>
       (a = NULL \<and> owns s' H \<or> a \<noteq> NULL \<and> a \<notin> H \<and> take_bit PG_SFT a = 0 \<and> owns s' (insert a H))"

definition blk_addr :: "PgMgr \<Rightarrow> block \<Rightarrow> ptr" where
  "blk_addr m = (\<lambda>(r, i, q). pr_start (roots m ! r) + push_bit PG_SFT (of_nat i))"

text \<open>A manager with one segment, not at address 0, and its allocated blocks.\<close>

definition mgr_owns :: "PgMgr \<Rightarrow> ptr set \<Rightarrow> bool" where
  "mgr_owns m H \<longleftrightarrow>
     (\<exists>fl L. pm_ok m fl L \<and> length (roots m) = 1 \<and> pr_start (roots m ! 0) \<noteq> 0 \<and> H = blk_addr m ` L)"

lemma blk_addr_eq:
  assumes inv: "pm_inv m fl B" and b: "b \<in> fblocks fl \<union> B" "b' \<in> fblocks fl \<union> B"
    and one: "length (roots m) = 1" and eq: "blk_addr m b = blk_addr m b'"
  shows "b = b'"
proof -
  obtain i q where bi: "b = (0, i, q)" using pm_inv_valid_head(2) [OF inv b(1)] one
    by (cases b) (auto simp: valid_pages_def)
  obtain i' q' where bi': "b' = (0, i', q')" using pm_inv_valid_head(2) [OF inv b(2)] one
    by (cases b') (auto simp: valid_pages_def)
  have v: "(0, i) \<in> valid_pages (roots m)" "(0, i') \<in> valid_pages (roots m)"
    using pm_inv_valid_head(2) [OF inv b(1)] pm_inv_valid_head(2) [OF inv b(2)] bi bi' by simp_all
  have rok: "roots_ok (roots m) (dsps m)" and dj: "disjoint_blocks (fblocks fl \<union> B)"
    using inv by (simp_all add: pm_inv_def)
  have e: "pr_start (roots m ! 0) + push_bit PG_SFT (of_nat i) = pr_start (roots m ! 0) + push_bit PG_SFT (of_nat i')"
    using eq by (simp add: blk_addr_def bi bi')
  have "i = i'"
    using page_index(2) [OF rok v(1), unfolded e] page_index(2) [OF rok v(2)] by (rule trans [OF sym])
  then show ?thesis using disjoint_same_head [OF dj b] bi bi' by simp
qed

lemma block_start_nonnull:
  assumes rok: "roots_ok (roots m) (dsps m)" and nz: "pr_start (roots m ! 0) \<noteq> 0" and v: "(0, i) \<in> valid_pages (roots m)"
  shows "pr_start (roots m ! 0) + push_bit PG_SFT (of_nat i) \<noteq> (NULL :: ptr)"
proof -
  have r: "0 < length (roots m)" using v by (simp add: valid_pages_def)
  have ua: "unat (pr_start (roots m ! 0) + push_bit PG_SFT (of_nat i)) = 2 ^ PG_SFT * (first_page (roots m ! 0) + i)"
    using v by (intro unat_page_start [OF rok]) (auto simp: valid_pages_def)
  have "first_page (roots m ! 0) \<noteq> 0"
  proof
    assume "first_page (roots m ! 0) = 0"
    then have "unat (pr_start (roots m ! 0)) = 0" using root_range(1) [OF rok r] by simp
    then show False using nz by (simp add: unat_eq_zero)
  qed
  then show ?thesis using ua by (metis add_is_0 mult_is_0 power_eq_0_iff unat_0 zero_neq_numeral)
qed

text \<open>Blocks of any order start at addresses of their own.\<close>

lemma mgr_alloc_any:
  assumes o: "mgr_owns m H"
  shows "\<exists>m' a. pg_alloc_page p0 flg m = Inr (m', a) \<and>
       (a = NULL \<and> mgr_owns m' H \<or> a \<noteq> NULL \<and> a \<notin> H \<and> take_bit PG_SFT a = 0 \<and> mgr_owns m' (insert a H))"
proof -
  obtain fl L where ok: "pm_ok m fl L" and one: "length (roots m) = 1" and nz: "pr_start (roots m ! 0) \<noteq> 0"
    and H: "H = blk_addr m ` L" using o by (auto simp: mgr_owns_def)
  let ?q = "unat p0 - PG_SFT"
  from pg_alloc_page_spec [OF ok, of p0 flg]
  show ?thesis
  proof (elim disjE exE conjE)
    fix m' fl' r i
    assume a: "pg_alloc_page p0 flg m = Inr (m', pr_start (roots m ! r) + push_bit PG_SFT (of_nat i))"
      "pm_ok m' fl' (insert (r, i, ?q) L)" "roots m' = roots m" "(r, i, ?q) \<notin> L"
    let ?a = "pr_start (roots m ! r) + push_bit PG_SFT (of_nat i)"
    have inv': "pm_inv m' fl' (insert (r, i, ?q) L)" using a(2) by (simp add: pm_ok_def)
    have v: "(r, i) \<in> valid_pages (roots m)" using pm_inv_valid_head(2) [OF inv', of "(r, i, ?q)"] a(3) by simp
    then have r0: "r = 0" using one by (simp add: valid_pages_def)
    have ba: "blk_addr m' b = blk_addr m b" for b using a(3) by (simp add: blk_addr_def)
    have nb: "blk_addr m (r, i, ?q) = ?a" by (simp add: blk_addr_def)
    have "?a \<notin> H"
    proof
      assume "?a \<in> H"
      then obtain b where b: "b \<in> L" "blk_addr m' b = blk_addr m' (r, i, ?q)" by (auto simp: H ba nb)
      then have "b = (r, i, ?q)" using blk_addr_eq [OF inv', of b "(r, i, ?q)"] one a(3) by simp
      then show False using b(1) a(4) by simp
    qed
    moreover have rok: "roots_ok (roots m) (dsps m)" using ok by (simp add: pm_ok_def pm_inv_def)
    have ua: "unat ?a = 2 ^ PG_SFT * (first_page (roots m ! r) + i)"
      using v by (intro unat_page_start [OF rok]) (auto simp: valid_pages_def)
    have "?a \<noteq> NULL" using block_start_nonnull [OF rok nz] v r0 by simp
    moreover have "2 ^ PG_SFT dvd unat ?a" unfolding ua by (rule dvd_triv_left)
    then have "take_bit PG_SFT ?a = 0"
      by (subst word_unat_eq_iff, subst unsigned_take_bit_eq) (simp add: take_bit_eq_mod mod_eq_0_iff_dvd)
    moreover have "insert ?a H = blk_addr m' ` insert (r, i, ?q) L" using ba nb H by auto
    then have "mgr_owns m' (insert ?a H)" unfolding mgr_owns_def using a(2,3) one nz by auto
    ultimately show ?thesis using a(1) by blast
  next
    assume "pg_alloc_page p0 flg m = Inr (m, NULL)"
    then show ?thesis using o by blast
  qed
qed

lemmas mgr_alloc = mgr_alloc_any [of _ _ "of_nat PG_SFT"]

lemma mgr_free:
  assumes o: "mgr_owns m H" and a: "a \<in> H"
  shows "\<exists>m'. pg_free_page a m = Inr m' \<and> mgr_owns m' (H - {a})"
proof -
  obtain fl L where ok: "pm_ok m fl L" and one: "length (roots m) = 1" and nz: "pr_start (roots m ! 0) \<noteq> 0"
    and H: "H = blk_addr m ` L" using o by (auto simp: mgr_owns_def)
  have inv: "pm_inv m fl L" using ok by (simp add: pm_ok_def)
  obtain r i q where b: "(r, i, q) \<in> L" "a = blk_addr m (r, i, q)" using a H by auto
  have "r = 0" using pm_inv_valid_head(2) [OF inv, of "(r, i, q)"] b(1) one by (simp add: valid_pages_def)
  with b have b0: "(0, i, q) \<in> L" and av: "a = pr_start (roots m ! 0) + push_bit PG_SFT (of_nat i)"
    by (simp_all add: blk_addr_def)
  obtain m' fl' where f: "pg_free_page a m = Inr m'" "pm_ok m' fl' (L - {(0, i, q)})" "roots m' = roots m"
    using pg_free_page_spec [OF ok one b0] unfolding av by blast
  have ba: "blk_addr m' = blk_addr m" using f(3) by (simp add: blk_addr_def fun_eq_iff)
  have a0: "a = blk_addr m (0, i, q)" by (simp add: blk_addr_def av)
  have uniq: "c = (0, i, q)" if "c \<in> L" "blk_addr m c = a" for c
    by (rule blk_addr_eq [OF inv _ _ one]) (use that b0 a0 in auto)
  have "H - {a} = blk_addr m ` (L - {(0, i, q)})"
  proof (intro equalityI subsetI)
    fix x assume "x \<in> H - {a}"
    then obtain c where c: "c \<in> L" "x = blk_addr m c" "x \<noteq> a" using H by blast
    then have "c \<noteq> (0, i, q)" using a0 by blast
    then show "x \<in> blk_addr m ` (L - {(0, i, q)})" using c by blast
  next
    fix x assume "x \<in> blk_addr m ` (L - {(0, i, q)})"
    then show "x \<in> H - {a}" using uniq H by blast
  qed
  then show ?thesis using f one nz ba unfolding mgr_owns_def by metis
qed

interpretation pgs: page_source pg_alloc_page mgr_owns
  by unfold_locales (rule mgr_alloc)

end
