(* ===== verification/PgInit.thy ===== *)
theory PgInit
  imports Pgmgr
begin

text \<open>
  The initialization of the page manager (\<open>pg_init\<close> and its helpers in kernel/src/pgmgr.c,
  kernel/include/pgmgr_init.h): trimming the memory segments to whole pages, turning them into the
  manager's segments, choosing where the manager and the page descriptors live, and cutting the
  remaining pages into aligned blocks on the free lists. An array of segments with its length is a
  list; \<open>PgMgr\<close> and the descriptors are written where the code puts them, their contents before that
  are a parameter.
\<close>

section \<open>Segments\<close>

record PgInitSeg =
  seg_start :: u64
  seg_end :: u64
  seg_flag :: u32

abbreviation (input) PGINIT_SEG_DSP_READ_ONLY :: u32 where "PGINIT_SEG_DSP_READ_ONLY \<equiv> 1"
abbreviation (input) PGINIT_TRIMS_N :: nat where "PGINIT_TRIMS_N \<equiv> 8"
abbreviation (input) CACHE_LINE_SFT :: nat where "CACHE_LINE_SFT \<equiv> 6"

definition pg_init_seg_ctor :: "u64 \<Rightarrow> u64 \<Rightarrow> u32 \<Rightarrow> PgInitSeg" where
  "pg_init_seg_ctor s e f = \<lparr>seg_start = s, seg_end = e, seg_flag = f\<rparr>"

definition seg_len :: "PgInitSeg \<Rightarrow> u64" where
  "seg_len sg = seg_end sg - seg_start sg"

definition read_only :: "PgInitSeg \<Rightarrow> bool" where
  "read_only sg \<longleftrightarrow> seg_flag sg AND PGINIT_SEG_DSP_READ_ONLY \<noteq> 0"

text \<open>\<open>memswap(&xs[i], &xs[j], sizeof(xs[0]))\<close>.\<close>

definition memswap :: "'a list \<Rightarrow> nat \<Rightarrow> nat \<Rightarrow> 'a list" where
  "memswap xs i j = xs[i := xs ! j, j := xs ! i]"

definition msbmask_ptr_t :: "u64 \<Rightarrow> u64" where
  "msbmask_ptr_t x =
     (let x = x OR drop_bit 1 x; x = x OR drop_bit 2 x; x = x OR drop_bit 4 x;
          x = x OR drop_bit 8 x; x = x OR drop_bit 16 x; x = x OR drop_bit 32 x
      in x AND NOT (drop_bit 1 x))"

section \<open>pg_init_trimx\<close>

definition pg_init_trimx_init_empty :: "nat \<Rightarrow> PgInitSeg list" where
  "pg_init_trimx_init_empty n = replicate n \<lparr>seg_start = 0, seg_end = 0, seg_flag = 0\<rparr>"

text \<open>The new value of \<open>trimx->n\<close>: the loop from index \<open>i\<close> over \<open>n\<close> entries.\<close>

fun pg_init_trimx_nonempty_cnt :: "nat \<Rightarrow> PgInitSeg list \<Rightarrow> nat \<Rightarrow> nat" where
  "pg_init_trimx_nonempty_cnt n [] i = n"
| "pg_init_trimx_nonempty_cnt n (t # ts) i =
     (if seg_start t \<noteq> seg_end t then i else pg_init_trimx_nonempty_cnt n ts (Suc i))"

text \<open>The bubble loop of \<open>pg_init_trimx_maybe_add\<close> from \<open>i = k - 1\<close> down.\<close>

fun trim_bubble :: "nat \<Rightarrow> PgInitSeg list \<Rightarrow> PgInitSeg list" where
  "trim_bubble 0 ts = ts"
| "trim_bubble (Suc i) ts =
     (if seg_len (ts ! i) \<ge> seg_len (ts ! Suc i) then ts else trim_bubble i (memswap ts i (Suc i)))"

definition pg_init_trimx_maybe_add :: "PgInitSeg list \<Rightarrow> PgInitSeg \<Rightarrow> PgInitSeg list \<times> bool" where
  "pg_init_trimx_maybe_add trims cand =
     (let n = length trims in
      if seg_len cand \<le> seg_len (trims ! (n - 1)) then (trims, False)
      else (trim_bubble (n - 1) (trims[n - 1 := cand]), True))"

text \<open>One segment: its trimmed version and the trim-offs.\<close>

definition trim_seg :: "PgInitSeg \<Rightarrow> PgInitSeg list \<Rightarrow> PgInitSeg \<times> PgInitSeg list" where
  "trim_seg sg trims =
     (if seg_start sg \<ge> seg_end sg then (sg, trims)
      else
        let start_trim = ALIGN_UP (seg_start sg) PG_SFT; end_trim = ALIGN_DOWN (seg_end sg) PG_SFT;
            trims' =
              (if end_trim > start_trim then
                 let t1 = (if seg_start sg \<noteq> start_trim
                           then fst (pg_init_trimx_maybe_add trims (pg_init_seg_ctor (seg_start sg) start_trim (seg_flag sg)))
                           else trims)
                 in (if seg_end sg \<noteq> end_trim
                     then fst (pg_init_trimx_maybe_add t1 (pg_init_seg_ctor end_trim (seg_end sg) (seg_flag sg)))
                     else t1)
               else fst (pg_init_trimx_maybe_add trims (pg_init_seg_ctor (seg_start sg) (seg_end sg) (seg_flag sg))))
        in (sg\<lparr>seg_start := start_trim, seg_end := end_trim\<rparr>, trims'))"

fun trim_segs :: "PgInitSeg list \<Rightarrow> PgInitSeg list \<Rightarrow> PgInitSeg list \<times> PgInitSeg list" where
  "trim_segs [] trims = ([], trims)"
| "trim_segs (sg # sgs) trims =
     (let (sg', trims1) = trim_seg sg trims; (sgs', trims2) = trim_segs sgs trims1 in (sg' # sgs', trims2))"

definition pg_init_trimx :: "PgInitSeg list \<Rightarrow> nat \<Rightarrow> PgInitSeg list \<times> PgInitSeg list \<times> nat" where
  "pg_init_trimx segx n =
     (let (segx', trims) = trim_segs segx (pg_init_trimx_init_empty n)
      in (segx', trims, pg_init_trimx_nonempty_cnt n trims 0))"

section \<open>pg_init_rootx, pg_init_pgmgr_addr, pg_init_blankspace\<close>

fun pg_init_rootx :: "PgInitSeg list \<Rightarrow> PgRoot list" where
  "pg_init_rootx [] = []"
| "pg_init_rootx (sg # sgs) =
     (if seg_start sg \<ge> seg_end sg then pg_init_rootx sgs
      else \<lparr>pr_root = NULL, pr_start = seg_start sg, pr_end = seg_end sg\<rparr> # pg_init_rootx sgs)"

definition pg_init_addr_step :: "u32 \<Rightarrow> PgInitSeg \<Rightarrow> u64 \<times> u64 \<Rightarrow> u64 \<times> u64" where
  "pg_init_addr_step sz sg = (\<lambda>(pgmgr_addr, rating).
     if read_only sg then (pgmgr_addr, rating)
     else
       let aligned_start = ALIGN_UP (seg_start sg) CACHE_LINE_SFT in
       if aligned_start + ucast sz > seg_end sg then (pgmgr_addr, rating)
       else
         let new_rating = seg_end sg - aligned_start in
         if pgmgr_addr = 0 \<or> new_rating < rating then (aligned_start, new_rating) else (pgmgr_addr, rating))"

definition pg_init_pgmgr_addr :: "PgInitSeg list \<Rightarrow> u32 \<Rightarrow> u64" where
  "pg_init_pgmgr_addr segx sz = fst (fold (pg_init_addr_step sz) segx (- 1, - 1))"

text \<open>The first segment from index \<open>j\<close> on that contains the manager's segment.\<close>

fun find_seg :: "PgRoot \<Rightarrow> PgInitSeg list \<Rightarrow> nat \<Rightarrow> nat" where
  "find_seg rt [] j = j"
| "find_seg rt (sg # sgs) j =
     (if seg_start sg \<le> pr_start rt \<and> seg_end sg \<ge> pr_end rt then j else find_seg rt sgs (Suc j))"

fun pg_init_blankspace_loop :: "ptr \<Rightarrow> u64 \<Rightarrow> PgRoot list \<Rightarrow> nat \<Rightarrow> PgInitSeg list \<Rightarrow> PgInitSeg list option" where
  "pg_init_blankspace_loop pgmgr sz [] i segx = Some segx"
| "pg_init_blankspace_loop pgmgr sz (rt # rts) i segx =
     (let j = find_seg rt (drop i segx) i in
      if j = length segx then None
      else
        let segx1 = (if j \<noteq> i then memswap segx i j else segx);
            sg = (segx1 ! i)\<lparr>seg_start := pr_start rt, seg_end := pr_end rt\<rparr>;
            sg' = (if pgmgr \<ge> seg_start sg \<and> pgmgr < seg_end sg then sg\<lparr>seg_start := pgmgr + sz\<rparr> else sg)
        in pg_init_blankspace_loop pgmgr sz rts (Suc i) (segx1[i := sg']))"

definition pg_init_blankspace :: "ptr \<Rightarrow> u64 \<Rightarrow> PgRoot list \<Rightarrow> PgInitSeg list \<Rightarrow> PgInitSeg list option" where
  "pg_init_blankspace pgmgr sz rts segx =
     map_option (take (length rts)) (pg_init_blankspace_loop pgmgr sz rts 0 segx)"

section \<open>pg_init_pgdsps\<close>

text \<open>\<open>idx\<close> is \<open>None\<close> for \<open>-1\<close>; the loop over the segments from index \<open>i\<close>.\<close>

fun next_root_loop :: "PgRoot list \<Rightarrow> PgInitSeg list \<Rightarrow> nat \<Rightarrow> nat option \<Rightarrow> u64 \<Rightarrow> nat option" where
  "next_root_loop [] segx i idx score = idx"
| "next_root_loop (rt # rts) segx i idx score =
     (if pr_root rt \<noteq> NULL then next_root_loop rts segx (Suc i) idx score
      else if read_only (segx ! i) then
        next_root_loop rts segx (Suc i) (if idx = None then Some i else idx) score
      else
        let this_score = drop_bit PG_SFT (pr_end rt - pr_start rt) in
        if this_score < score then next_root_loop rts segx (Suc i) (Some i) this_score
        else next_root_loop rts segx (Suc i) idx score)"

definition pg_init_pgdsps_next_root :: "PgMgr \<Rightarrow> PgInitSeg list \<Rightarrow> nat option" where
  "pg_init_pgdsps_next_root m segx = next_root_loop (roots m) segx 0 None (- 1)"

definition pg_init_pgdsps_calc_space_for_root :: "PgRoot \<Rightarrow> u64" where
  "pg_init_pgdsps_calc_space_for_root rt = drop_bit PG_SFT (pr_end rt - pr_start rt) * of_nat PGDSP_SZ"

fun best_seg_loop ::
  "PgRoot list \<Rightarrow> PgInitSeg list \<Rightarrow> nat \<Rightarrow> u64 \<Rightarrow> nat \<Rightarrow> nat option \<Rightarrow> u64 \<Rightarrow> nat option" where
  "best_seg_loop [] segx pgidx req i best space = best"
| "best_seg_loop (rt # rts) segx pgidx req i best space =
     (if read_only (segx ! i) \<or> i \<noteq> pgidx \<and> pr_root rt = NULL then
        best_seg_loop rts segx pgidx req (Suc i) best space
      else
        let blank_space = seg_len (segx ! i) in
        if blank_space < req then best_seg_loop rts segx pgidx req (Suc i) best space
        else if blank_space < space then best_seg_loop rts segx pgidx req (Suc i) (Some i) blank_space
        else best_seg_loop rts segx pgidx req (Suc i) best space)"

definition pg_init_pgdsps_alloc_root ::
  "PgMgr \<Rightarrow> PgInitSeg list \<Rightarrow> nat \<Rightarrow> (PgMgr \<times> PgInitSeg list) option" where
  "pg_init_pgdsps_alloc_root m segx pgidx =
     (let req = pg_init_pgdsps_calc_space_for_root (roots m ! pgidx) in
      case best_seg_loop (roots m) segx pgidx req 0 None (- 1) of
        None \<Rightarrow> None
      | Some b \<Rightarrow>
          let root' = (roots m ! pgidx)\<lparr>pr_root := seg_start (segx ! b)\<rparr> in
          Some (m\<lparr>roots := (roots m)[pgidx := root']\<rparr>,
                segx[b := (segx ! b)\<lparr>seg_start := seg_start (segx ! b) + req\<rparr>]))"

text \<open>The \<open>memset\<close> of the descriptors, then their addresses.\<close>

definition zero_dsp :: "ptr \<Rightarrow> PgMgr \<Rightarrow> PgMgr" where
  "zero_dsp d m =
     m\<lparr>dsps := (dsps m)(d := \<lparr>pd_addr = 0, pd_flags = 0, pd_lvl = 0\<rparr>),
       dsp_links := set_next d None (set_prev d None (dsp_links m))\<rparr>"

definition pg_init_pgdsps_write_root :: "nat \<Rightarrow> PgMgr \<Rightarrow> PgMgr" where
  "pg_init_pgdsps_write_root idx m =
     (let rt = roots m ! idx;
          num_pages = unat (drop_bit PG_SFT (pr_end rt - pr_start rt));
          m1 = fold (\<lambda>i. zero_dsp (dsp_at (pr_root rt) i)) [0..<num_pages] m
      in fold (\<lambda>i. upd_dsp (dsp_at (pr_root rt) i)
                 (\<lambda>d. d\<lparr>pd_addr := pr_start rt + push_bit PG_SFT (of_nat i)\<rparr>)) [0..<num_pages] m1)"

text \<open>The \<open>while (1)\<close> loop; the flag is the function's result.\<close>

partial_function (option) pg_init_pgdsps ::
  "PgMgr \<Rightarrow> PgInitSeg list \<Rightarrow> (bool \<times> PgMgr \<times> PgInitSeg list) option" where
  "pg_init_pgdsps m segx =
     (case pg_init_pgdsps_next_root m segx of
        None \<Rightarrow> Some (True, m, segx)
      | Some idx \<Rightarrow>
          (case pg_init_pgdsps_alloc_root m segx idx of
             None \<Rightarrow> Some (False, m, segx)
           | Some ms \<Rightarrow> pg_init_pgdsps (pg_init_pgdsps_write_root idx (fst ms)) (snd ms)))"

declare pg_init_pgdsps.simps [code]

section \<open>pg_init_free_lists\<close>

fun addr_maxlvl_from :: "u64 \<Rightarrow> nat \<Rightarrow> nat" where
  "addr_maxlvl_from addr 0 = 0"
| "addr_maxlvl_from addr (Suc l) =
     (if addr AND (push_bit (Suc l + PG_SFT) 1 - 1) = 0 then Suc l else addr_maxlvl_from addr l)"

definition pg_addr_maxlvl :: "u64 \<Rightarrow> nat" where
  "pg_addr_maxlvl addr = addr_maxlvl_from addr PGMGR_MAXLVL"

fun pagecnt_maxlvl_from :: "u64 \<Rightarrow> nat \<Rightarrow> nat" where
  "pagecnt_maxlvl_from n 0 = 0"
| "pagecnt_maxlvl_from n (Suc l) =
     (if n AND push_bit (Suc l) 1 \<noteq> 0 then Suc l else pagecnt_maxlvl_from n l)"

definition pg_pagecnt_maxlvl :: "u64 \<Rightarrow> nat" where
  "pg_pagecnt_maxlvl n = pagecnt_maxlvl_from n PGMGR_MAXLVL"

text \<open>The two loops of \<open>pg_init_free_lists_add_range\<close>.\<close>

partial_function (option) add_range_aligned ::
  "PgRoot \<Rightarrow> u64 \<Rightarrow> u64 \<Rightarrow> PgMgr \<Rightarrow> (PgMgr \<times> u64) res option" where
  "add_range_aligned rt start_idx end_idx m =
     (let d = dsp_at (pr_root rt) (unat start_idx); lvl = pg_addr_maxlvl (pd_addr (dsps m d)) in
      if start_idx + push_bit lvl 1 > end_idx then Some (Inr (m, start_idx))
      else (case fl_append lvl d m of
              Inl e \<Rightarrow> Some (Inl e)
            | Inr m' \<Rightarrow> add_range_aligned rt (start_idx + push_bit lvl 1) end_idx m'))"

declare add_range_aligned.simps [code]

partial_function (option) add_range_rest :: "PgRoot \<Rightarrow> u64 \<Rightarrow> u64 \<Rightarrow> PgMgr \<Rightarrow> PgMgr res option" where
  "add_range_rest rt start_idx end_idx m =
     (if start_idx = end_idx then Some (Inr m)
      else
        let d = dsp_at (pr_root rt) (unat start_idx);
            lvl = C_MIN (pg_addr_maxlvl (pd_addr (dsps m d))) (pg_pagecnt_maxlvl (end_idx - start_idx))
        in (case fl_append lvl d m of
              Inl e \<Rightarrow> Some (Inl e)
            | Inr m' \<Rightarrow> add_range_rest rt (start_idx + push_bit lvl 1) end_idx m'))"

declare add_range_rest.simps [code]

definition pg_init_free_lists_add_range :: "PgRoot \<Rightarrow> u64 \<Rightarrow> u64 \<Rightarrow> PgMgr \<Rightarrow> PgMgr res option" where
  "pg_init_free_lists_add_range rt start_idx end_idx m =
     (case add_range_aligned rt start_idx end_idx m of
        None \<Rightarrow> None
      | Some (Inl e) \<Rightarrow> Some (Inl e)
      | Some (Inr (m', start')) \<Rightarrow> add_range_rest rt start' end_idx m')"

text \<open>The loop of \<open>pg_init_free_lists_per_root\<close> that marks pages and finds the range.\<close>

definition mark_page :: "PgRoot \<Rightarrow> u64 \<Rightarrow> u64 \<Rightarrow> nat \<Rightarrow> u64 \<times> u64 \<times> PgMgr \<Rightarrow> u64 \<times> u64 \<times> PgMgr" where
  "mark_page rt s e i = (\<lambda>(start_idx, end_idx, m).
     let d = dsp_at (pr_root rt) i; addr = pd_addr (dsps m d) in
     (if addr = s then of_nat i else start_idx, if addr = e then of_nat i else end_idx,
      if addr < s \<or> addr \<ge> e then upd_dsp d (\<lambda>d. d\<lparr>pd_flags := pd_flags d OR PGDSP_USED\<rparr>) m else m))"

definition pg_init_free_lists_per_root :: "PgRoot \<Rightarrow> PgInitSeg \<Rightarrow> PgMgr \<Rightarrow> PgMgr res option" where
  "pg_init_free_lists_per_root rt sg m =
     (let s = ALIGN_UP (seg_start sg) PG_SFT; e = ALIGN_DOWN (seg_end sg) PG_SFT;
          num_pages = drop_bit PG_SFT (pr_end rt - pr_start rt);
          (start_idx, end_idx, m1) = fold (mark_page rt s e) [0..<unat num_pages] (0, num_pages, m)
      in pg_init_free_lists_add_range rt start_idx end_idx m1)"

fun pg_init_free_lists :: "PgRoot list \<Rightarrow> PgInitSeg list \<Rightarrow> PgMgr \<Rightarrow> PgMgr res option" where
  "pg_init_free_lists (rt # rts) (sg # sgs) m =
     (case pg_init_free_lists_per_root rt sg m of
        None \<Rightarrow> None
      | Some (Inl e) \<Rightarrow> Some (Inl e)
      | Some (Inr m') \<Rightarrow> pg_init_free_lists rts sgs m')"
| "pg_init_free_lists _ _ m = Some (Inr m)"

section \<open>pg_init\<close>

text \<open>
  \<open>sizeof(struct PgMgr)\<close> is 88 and \<open>sizeof(struct PgRoot)\<close> is 24. The result is the manager's address
  with the manager, or \<open>None\<close> for \<open>NULL\<close>; \<open>ds\<close> and \<open>l\<close> are the contents of the descriptors' memory.
\<close>

definition pg_init ::
  "PgInitSeg list \<Rightarrow> (ptr \<Rightarrow> PgDsp) \<Rightarrow> ptr links \<Rightarrow> (ptr \<times> PgMgr) option res option" where
  "pg_init segx0 ds l =
     (let (segx, trims, n) = pg_init_trimx segx0 PGINIT_TRIMS_N;
          rts = pg_init_rootx segx;
          sz = 88 + 24 * of_nat (length rts) :: u32;
          pgmgr_addr = pg_init_pgmgr_addr segx sz
      in if pgmgr_addr = - 1 then Some (Inr None)
         else
           let m = \<lparr>free_lists = replicate (Suc PGMGR_MAXLVL) None, roots = rts, dsps = ds, dsp_links = l\<rparr> in
           case pg_init_blankspace pgmgr_addr (ucast sz) rts segx of
             None \<Rightarrow> Some (Inr None)
           | Some segx1 \<Rightarrow>
               (case pg_init_pgdsps m segx1 of
                  None \<Rightarrow> None
                | Some (False, _, _) \<Rightarrow> Some (Inr None)
                | Some (True, m1, segx2) \<Rightarrow>
                    map_option (\<lambda>r. bindR r (\<lambda>m2. Inr (Some (pgmgr_addr, m2))))
                      (pg_init_free_lists (roots m1) segx2 m1)))"

section \<open>Levels of page addresses and page counts\<close>

lemma addr_maxlvl_from_props:
  fixes a :: u64
  assumes a: "unat a = 2 ^ PG_SFT * n" and k: "k \<le> PGMGR_MAXLVL"
  shows "addr_maxlvl_from a k \<le> k \<and> 2 ^ addr_maxlvl_from a k dvd n \<and>
         (addr_maxlvl_from a k < k \<longrightarrow> \<not> 2 ^ Suc (addr_maxlvl_from a k) dvd n)"
  using k
proof (induction k)
  case 0
  then show ?case by simp
next
  case (Suc k)
  have "a AND (push_bit (Suc k + PG_SFT) 1 - 1) = 0 \<longleftrightarrow> 2 ^ (Suc k + PG_SFT) dvd unat a"
    unfolding push_bit_1_minus_1 by (rule and_mask_dvd_nat [symmetric])
  also have "\<dots> \<longleftrightarrow> 2 ^ Suc k dvd n"
    by (simp only: a power_add mult.commute [of "2 ^ Suc k"] nat_mult_dvd_cancel_disj) simp
  finally have "a AND (push_bit (Suc k + PG_SFT) 1 - 1) = 0 \<longleftrightarrow> 2 ^ Suc k dvd n" .
  with Suc show ?case
    by (auto simp del: power_Suc simp: less_Suc_eq)
qed

lemma pg_addr_maxlvl_props:
  fixes a :: u64
  assumes "unat a = 2 ^ PG_SFT * n"
  shows "2 ^ pg_addr_maxlvl a dvd n"
    "pg_addr_maxlvl a < PGMGR_MAXLVL \<Longrightarrow> \<not> 2 ^ Suc (pg_addr_maxlvl a) dvd n"
  using addr_maxlvl_from_props [OF assms order.refl] by (auto simp: pg_addr_maxlvl_def)

lemma addr_maxlvl_from_le: "addr_maxlvl_from a k \<le> k"
  by (induction k) auto

lemma pg_addr_maxlvl_le: "pg_addr_maxlvl a \<le> PGMGR_MAXLVL"
  unfolding pg_addr_maxlvl_def by (rule addr_maxlvl_from_le)

lemma pagecnt_maxlvl_from_props:
  "pagecnt_maxlvl_from n k \<le> k \<and> (pagecnt_maxlvl_from n k = 0 \<or> bit n (pagecnt_maxlvl_from n k)) \<and>
   (\<forall>j. pagecnt_maxlvl_from n k < j \<and> j \<le> k \<longrightarrow> \<not> bit n j)"
proof (induction k)
  case 0
  then show ?case by simp
next
  case (Suc k)
  have e: "n AND push_bit (Suc k) 1 \<noteq> 0 \<longleftrightarrow> bit n (Suc k)"
    by (rule bit_iff_and_push_bit_not_eq_0 [symmetric])
  show ?case
    unfolding pagecnt_maxlvl_from.simps e using Suc by (auto simp: le_Suc_eq)
qed

lemma pg_pagecnt_maxlvl_le: "n \<noteq> 0 \<Longrightarrow> 2 ^ pg_pagecnt_maxlvl n \<le> unat n"
proof -
  assume n: "n \<noteq> 0"
  consider "pg_pagecnt_maxlvl n = 0" | "bit n (pg_pagecnt_maxlvl n)"
    using pagecnt_maxlvl_from_props [of n PGMGR_MAXLVL] by (auto simp: pg_pagecnt_maxlvl_def)
  then show ?thesis
  proof cases
    case 1
    then show ?thesis using n unat_gt_0 [of n] by simp
  next
    case 2
    then have "odd (unat n div 2 ^ pg_pagecnt_maxlvl n)" by (simp add: word_bit_unat)
    then show ?thesis by (metis div_less even_zero leI)
  qed
qed

lemma pg_pagecnt_maxlvl_pow2:
  fixes n :: u64
  assumes "unat n = 2 ^ k" "k \<le> PGMGR_MAXLVL"
  shows "pg_pagecnt_maxlvl n = k"
proof -
  have b: "bit n j \<longleftrightarrow> j = k" if "j \<le> PGMGR_MAXLVL" for j
  proof -
    have "bit n j \<longleftrightarrow> bit (2 ^ k :: nat) j" using that assms(1) by (simp add: word_bit_unat bit_iff_odd)
    then show ?thesis by (auto simp: bit_simps)
  qed
  have p: "pg_pagecnt_maxlvl n \<le> PGMGR_MAXLVL" "pg_pagecnt_maxlvl n = 0 \<or> bit n (pg_pagecnt_maxlvl n)"
    "\<And>j. pg_pagecnt_maxlvl n < j \<Longrightarrow> j \<le> PGMGR_MAXLVL \<Longrightarrow> \<not> bit n j"
    using pagecnt_maxlvl_from_props [of n PGMGR_MAXLVL] by (simp_all add: pg_pagecnt_maxlvl_def)
  show ?thesis
  proof (cases "bit n (pg_pagecnt_maxlvl n)")
    case True
    then show ?thesis using b p(1) by simp
  next
    case False
    then have "pg_pagecnt_maxlvl n = 0" using p(2) by simp
    then show ?thesis using p(3) [of k] b [of k] assms(2) by (cases "k = 0") auto
  qed
qed

section \<open>Cutting a range into blocks\<close>

lemma pm_inv_insert:
  assumes inv: "pm_inv m fl B" and ok: "blk_ok (roots m) b"
    and new: "blk_pages b \<inter> covered (fblocks fl \<union> B) = {}"
  shows "pm_inv m fl (insert b B)" "b \<notin> B"
proof -
  have ne: "blk_pages b \<noteq> {}" using blk_head_in by blast
  then have nb: "b \<notin> fblocks fl \<union> B" using new by (auto simp: covered_def)
  have "disjoint_blocks (insert b (fblocks fl \<union> B))"
    by (rule disjoint_insert) (use inv new in \<open>auto simp: pm_inv_def covered_def\<close>)
  then show "pm_inv m fl (insert b B)" using inv ok nb by (auto simp: pm_inv_def)
  show "b \<notin> B" using nb by blast
qed

text \<open>One \<open>DL_APPEND2\<close> of a block of pages that no list holds yet.\<close>

lemma append_block:
  assumes inv: "pm_inv m fl {}" and ok: "blk_ok (roots m) (r, i, q)"
    and new: "blk_pages (r, i, q) \<inter> covered (fblocks fl) = {}"
  shows "\<exists>m' fl'. fl_append q (pg_ptr (roots m) (r, i)) m = Inr m' \<and> pm_inv m' fl' {} \<and>
           fblocks fl' = insert (r, i, q) (fblocks fl) \<and> roots m' = roots m \<and> dsps m' = dsps m"
proof -
  have q: "q \<le> PGMGR_MAXLVL" using ok by (simp add: blk_ok_def)
  have "pm_inv m fl (insert (r, i, q) {})" "(r, i, q) \<notin> {}"
    using pm_inv_insert [OF inv ok] new by auto
  from fl_append_inv [OF this q] show ?thesis
    using fblocks_append [of q fl r i] pm_inv_length [OF inv] q by fastforce
qed

text \<open>Pages \<open>i, \<dots>, j - 1\<close> of segment \<open>r\<close>.\<close>

definition run :: "nat \<Rightarrow> nat \<Rightarrow> nat \<Rightarrow> page set" where
  "run r i j = {r} \<times> {i..<j}"

lemma blk_pages_run: "blk_pages (r, i, q) = run r i (i + 2 ^ q)"
  by (simp add: blk_pages_def run_def)

lemma run_split: "i \<le> j \<Longrightarrow> j \<le> k \<Longrightarrow> run r i k = run r i j \<union> run r j k"
  by (auto simp: run_def)

lemma run_empty [simp]: "run r i i = {}"
  by (simp add: run_def)

text \<open>Page numbers do not come near the end of the address space.\<close>

lemma npages_bound: "npages rt < 2 ^ 44"
proof -
  have "unat (pr_end rt - pr_start rt) div 2 ^ 20 < 2 ^ 44"
    using unat_lt_bounds(4) [of "pr_end rt - pr_start rt"] by (intro div_less_iff_less_mult [THEN iffD2]) simp_all
  then show ?thesis by (simp only: npages_def root_pages_def unat_drop)
qed

lemma idx_add:
  fixes a :: u64
  assumes "unat a < 2 ^ 45" "k \<le> PGMGR_MAXLVL"
  shows "unat (a + push_bit k 1) = unat a + 2 ^ k"
proof -
  have "unat (push_bit k 1 :: u64) = 2 ^ k"
    using assms(2) by (simp only: unsigned_push_bit_eq) (simp add: take_bit_push_bit)
  moreover have "(2::nat) ^ k \<le> 2 ^ 9" using assms(2) by (intro power_increasing) auto
  ultimately show ?thesis using assms(1) by (subst unat_add_no_wrap) simp_all
qed

text \<open>
  The blocks of the first loop are maximal for their address; a start position that is not a multiple
  of 512 lies less than its alignment above the start of the range.
\<close>

definition mx_block :: "PgRoot list \<Rightarrow> block \<Rightarrow> bool" where
  "mx_block rs = (\<lambda>(r, i, q). q = PGMGR_MAXLVL \<or> \<not> 2 ^ Suc q dvd first_page (rs ! r) + i)"

definition low_start :: "nat \<Rightarrow> nat \<Rightarrow> nat \<Rightarrow> bool" where
  "low_start f s x \<longleftrightarrow> (\<forall>l < PGMGR_MAXLVL. 2 ^ l dvd f + x \<and> \<not> 2 ^ Suc l dvd f + x \<longrightarrow> x < s + 2 ^ l)"

lemma low_start_init: "low_start f s s"
  by (simp add: low_start_def)

lemma low_start_step:
  assumes low: "low_start f s x" and L: "2 ^ L dvd f + x" "L = PGMGR_MAXLVL \<or> \<not> 2 ^ Suc L dvd f + x"
  shows "low_start f s (x + 2 ^ L)"
  unfolding low_start_def
proof (intro allI impI)
  fix l assume l: "l < PGMGR_MAXLVL" and d: "2 ^ l dvd f + (x + 2 ^ L) \<and> \<not> 2 ^ Suc l dvd f + (x + 2 ^ L)"
  have d2: "2 ^ L dvd f + (x + 2 ^ L)" using L(1) by (metis add.assoc dvd_add dvd_refl)
  have "L \<le> l"
  proof (rule ccontr)
    assume "\<not> L \<le> l"
    then have "2 ^ Suc l dvd f + (x + 2 ^ L)" using d2 by (meson power_le_dvd Suc_leI not_le)
    then show False using d by blast
  qed
  then have LM: "L \<noteq> PGMGR_MAXLVL" using l by simp
  then have nd: "\<not> 2 ^ Suc L dvd f + x" using L(2) by blast
  have "Suc L \<le> l"
  proof (rule ccontr)
    assume "\<not> Suc L \<le> l"
    then have "l = L" using \<open>L \<le> l\<close> by simp
    obtain k where k: "f + x = 2 ^ L * k" using L(1) by blast
    then have "odd k" using nd by (auto elim!: evenE)
    then have "2 ^ Suc L dvd f + (x + 2 ^ L)"
      using k by (auto simp: add.assoc [symmetric] elim!: oddE)
    then show False using d \<open>l = L\<close> by blast
  qed
  then have "(2::nat) ^ Suc L \<le> 2 ^ l" by (intro power_increasing) auto
  moreover have "x < s + 2 ^ L" using low L(1) nd LM \<open>L \<le> l\<close> l unfolding low_start_def by auto
  ultimately show "x + 2 ^ L < s + 2 ^ l" by simp
qed

lemma run_blk_ok:
  assumes "r < length rs" "i + 2 ^ q \<le> npages (rs ! r)" "q \<le> PGMGR_MAXLVL" "2 ^ q dvd first_page (rs ! r) + i"
  shows "blk_ok rs (r, i, q)"
  using assms by (simp add: blk_ok_def)

lemma run_valid: "r < length rs \<Longrightarrow> i < npages (rs ! r) \<Longrightarrow> (r, i) \<in> valid_pages rs"
  by (simp add: valid_pages_def)

lemma add_range_aligned_ok:
  fixes a e :: u64
  assumes r: "r < length (roots m)"
  shows "pm_inv m fl {} \<Longrightarrow> unat a \<le> unat e \<Longrightarrow> unat e \<le> npages (roots m ! r) \<Longrightarrow>
    run r (unat a) (unat e) \<inter> covered (fblocks fl) = {} \<Longrightarrow>
    low_start (first_page (roots m ! r)) s (unat a) \<Longrightarrow>
    \<exists>m' fl' a'. add_range_aligned (roots m ! r) a e m = Some (Inr (m', a')) \<and>
      pm_inv m' fl' {} \<and> roots m' = roots m \<and> dsps m' = dsps m \<and> unat a \<le> unat a' \<and> unat a' \<le> unat e \<and>
      covered (fblocks fl') = covered (fblocks fl) \<union> run r (unat a) (unat a') \<and> fblocks fl \<subseteq> fblocks fl' \<and>
      (\<forall>b\<in>fblocks fl' - fblocks fl. mx_block (roots m) b) \<and>
      low_start (first_page (roots m ! r)) s (unat a') \<and>
      (unat a' = unat e \<or> (\<exists>k\<le>PGMGR_MAXLVL. 2 ^ k dvd first_page (roots m ! r) + unat a' \<and> unat e < unat a' + 2 ^ k))"
  using r
proof (induction "unat e - unat a" arbitrary: a m fl rule: less_induct)
  case less
  let ?rt = "roots m ! r"
  note inv = less.prems(1)
  define L where "L = pg_addr_maxlvl (pd_addr (dsps m (dsp_at (pr_root ?rt) (unat a))))"
  have L9: "L \<le> PGMGR_MAXLVL" unfolding L_def by (rule pg_addr_maxlvl_le)
  have a44: "unat a < 2 ^ 45" using less.prems(2,3) npages_bound [of ?rt] by simp
  have ua: "unat (a + push_bit L 1) = unat a + 2 ^ L" by (rule idx_add [OF a44 L9])
  have rok: "roots_ok (roots m) (dsps m)" using inv by (simp add: pm_inv_def)
  have lvl: "2 ^ L dvd first_page ?rt + unat a \<and> (L = PGMGR_MAXLVL \<or> \<not> 2 ^ Suc L dvd first_page ?rt + unat a)"
    if "unat a < unat e"
  proof -
    have "(r, unat a) \<in> valid_pages (roots m)" using that less.prems by (intro run_valid) auto
    then show ?thesis
      using pg_addr_maxlvl_props [OF unat_page_addr [OF rok]] L9 by (fastforce simp: L_def pg_ptr_def)
  qed
  show ?case
  proof (cases "unat e < unat a + 2 ^ L")
    case True
    then have "add_range_aligned ?rt a e m = Some (Inr (m, a))"
      by (subst add_range_aligned.simps) (simp add: Let_def L_def [symmetric] word_less_nat_alt ua del: push_bit_of_1)
    moreover have "unat a = unat e \<or> (\<exists>k\<le>PGMGR_MAXLVL. 2 ^ k dvd first_page ?rt + unat a \<and> unat e < unat a + 2 ^ k)"
      using True lvl L9 less.prems(2) by (meson le_neq_implies_less)
    ultimately show ?thesis using less.prems by (intro exI [of _ m] exI [of _ fl] exI [of _ a]) simp
  next
    case False
    then have fit: "unat a + 2 ^ L \<le> unat e" by simp
    have "(0::nat) < 2 ^ L" by simp
    then have ae: "unat a < unat e" using fit by linarith
    note lv = lvl [OF ae]
    have ok: "blk_ok (roots m) (r, unat a, L)"
      using fit less.prems(3,6) L9 lv by (intro run_blk_ok) auto
    have "run r (unat a) (unat a + 2 ^ L) \<subseteq> run r (unat a) (unat e)" using fit by (auto simp: run_def)
    then have "blk_pages (r, unat a, L) \<inter> covered (fblocks fl) = {}"
      using less.prems(4) unfolding blk_pages_run by blast
    from append_block [OF inv ok this]
    obtain m1 fl1 where m1: "fl_append L (pg_ptr (roots m) (r, unat a)) m = Inr m1" "pm_inv m1 fl1 {}"
      "fblocks fl1 = insert (r, unat a, L) (fblocks fl)" "roots m1 = roots m" "dsps m1 = dsps m" by blast
    let ?a = "a + push_bit L 1"
    have step: "add_range_aligned ?rt a e m = add_range_aligned ?rt ?a e m1"
      using m1(1) False
      by (subst add_range_aligned.simps)
        (simp add: Let_def L_def [symmetric] word_less_nat_alt ua pg_ptr_def del: push_bit_of_1)
    have cov1: "covered (fblocks fl1) = covered (fblocks fl) \<union> run r (unat a) (unat ?a)"
      unfolding m1(3) covered_insert blk_pages_run ua by blast
    have "run r (unat ?a) (unat e) \<subseteq> run r (unat a) (unat e)"
      "run r (unat ?a) (unat e) \<inter> run r (unat a) (unat ?a) = {}"
      unfolding run_def ua by auto
    then have free: "run r (unat ?a) (unat e) \<inter> covered (fblocks fl1) = {}"
      using less.prems(4) unfolding cov1 by blast
    have "low_start (first_page ?rt) s (unat ?a)"
      unfolding ua by (rule low_start_step [OF less.prems(5)]) (use lv in auto)
    moreover have "unat e - unat ?a < unat e - unat a" using ae ua \<open>0 < 2 ^ L\<close> by linarith
    moreover have "unat ?a \<le> unat e" using fit ua by simp
    ultimately obtain m' fl' a' where m': "add_range_aligned (roots m1 ! r) ?a e m1 = Some (Inr (m', a'))"
      "pm_inv m' fl' {}" "roots m' = roots m1" "dsps m' = dsps m1" "unat ?a \<le> unat a'" "unat a' \<le> unat e"
      "covered (fblocks fl') = covered (fblocks fl1) \<union> run r (unat ?a) (unat a')" "fblocks fl1 \<subseteq> fblocks fl'"
      "\<forall>b\<in>fblocks fl' - fblocks fl1. mx_block (roots m1) b"
      "low_start (first_page (roots m1 ! r)) s (unat a')"
      "unat a' = unat e \<or> (\<exists>k\<le>PGMGR_MAXLVL. 2 ^ k dvd first_page (roots m1 ! r) + unat a' \<and> unat e < unat a' + 2 ^ k)"
      using less.hyps [of ?a m1 fl1] less.prems(3,6) free m1(2) unfolding m1(4) by blast
    have "covered (fblocks fl') = covered (fblocks fl) \<union> run r (unat a) (unat a')"
      using m'(5,7) cov1 run_split [of "unat a" "unat ?a" "unat a'" r] ua by auto
    moreover have "mx_block (roots m) (r, unat a, L)" using lv by (auto simp: mx_block_def)
    then have "\<forall>b\<in>fblocks fl' - fblocks fl. mx_block (roots m) b" using m'(9) m1(3,4) by auto
    ultimately show ?thesis
      using step m' m1(3,4,5) ua by (intro exI [of _ m'] exI [of _ fl'] exI [of _ a']) auto
  qed
qed

text \<open>The second loop ends at the end of the range; one round suffices if the rest is a single block.\<close>

lemma add_range_rest_ok:
  fixes a e :: u64
  assumes r: "r < length (roots m)"
  shows "pm_inv m fl {} \<Longrightarrow> unat a \<le> unat e \<Longrightarrow> unat e \<le> npages (roots m ! r) \<Longrightarrow>
    run r (unat a) (unat e) \<inter> covered (fblocks fl) = {} \<Longrightarrow>
    \<exists>m' fl'. add_range_rest (roots m ! r) a e m = Some (Inr m') \<and>
      pm_inv m' fl' {} \<and> roots m' = roots m \<and> dsps m' = dsps m \<and> fblocks fl \<subseteq> fblocks fl' \<and>
      covered (fblocks fl') = covered (fblocks fl) \<union> run r (unat a) (unat e) \<and>
      (unat a = unat e \<longrightarrow> fl' = fl) \<and>
      (\<forall>k\<le>PGMGR_MAXLVL. unat e = unat a + 2 ^ k \<and> 2 ^ k dvd first_page (roots m ! r) + unat a \<longrightarrow>
         fblocks fl' = insert (r, unat a, k) (fblocks fl))"
  using r
proof (induction "unat e - unat a" arbitrary: a m fl rule: less_induct)
  case less
  let ?rt = "roots m ! r" and ?f = "first_page (roots m ! r)"
  note inv = less.prems(1)
  show ?case
  proof (cases "a = e")
    case True
    then have "add_range_rest ?rt a e m = Some (Inr m)" by (subst add_range_rest.simps) simp
    then show ?thesis using inv True by (intro exI [of _ m] exI [of _ fl]) simp
  next
    case False
    then have ae: "unat a < unat e" using less.prems(2) by (metis le_neq_implies_less word_unat_eq_iff)
    have a_e: "unat (e - a) = unat e - unat a" using ae by (intro unat_sub_no_wrap) (simp add: word_le_nat_alt)
    define A where "A = pg_addr_maxlvl (pd_addr (dsps m (dsp_at (pr_root ?rt) (unat a))))"
    define C where "C = pg_pagecnt_maxlvl (e - a)"
    have "(r, unat a) \<in> valid_pages (roots m)" using ae less.prems by (intro run_valid) auto
    then have ua: "unat (pd_addr (dsps m (dsp_at (pr_root ?rt) (unat a)))) = 2 ^ PG_SFT * (?f + unat a)"
      using unat_page_addr [of "roots m" "dsps m" r "unat a"] inv by (simp add: pm_inv_def pg_ptr_def)
    have A: "A \<le> PGMGR_MAXLVL" "2 ^ A dvd ?f + unat a" "A < PGMGR_MAXLVL \<Longrightarrow> \<not> 2 ^ Suc A dvd ?f + unat a"
      unfolding A_def using pg_addr_maxlvl_le pg_addr_maxlvl_props [OF ua] by auto
    have C: "2 ^ C \<le> unat e - unat a"
      unfolding C_def a_e [symmetric] using False by (intro pg_pagecnt_maxlvl_le) simp
    define L where "L = C_MIN A C"
    have L: "L \<le> A" "L \<le> C" "L = A \<or> L = C" by (auto simp: L_def min_def)
    then have L9: "L \<le> PGMGR_MAXLVL" and al: "2 ^ L dvd ?f + unat a"
      using A by (auto intro: power_le_dvd)
    have "(2::nat) ^ L \<le> 2 ^ C" using L(2) by (intro power_increasing) auto
    then have fit: "unat a + 2 ^ L \<le> unat e" using C ae by linarith
    have a44: "unat a < 2 ^ 45" using less.prems(2,3) npages_bound [of ?rt] by simp
    have ua': "unat (a + push_bit L 1) = unat a + 2 ^ L" by (rule idx_add [OF a44 L9])
    have ok: "blk_ok (roots m) (r, unat a, L)"
      using fit less.prems(3,5) L9 al by (intro run_blk_ok) auto
    have "run r (unat a) (unat a + 2 ^ L) \<subseteq> run r (unat a) (unat e)" using fit by (auto simp: run_def)
    then have "blk_pages (r, unat a, L) \<inter> covered (fblocks fl) = {}"
      using less.prems(4) unfolding blk_pages_run by blast
    from append_block [OF inv ok this]
    obtain m1 fl1 where m1: "fl_append L (pg_ptr (roots m) (r, unat a)) m = Inr m1" "pm_inv m1 fl1 {}"
      "fblocks fl1 = insert (r, unat a, L) (fblocks fl)" "roots m1 = roots m" "dsps m1 = dsps m" by blast
    let ?a = "a + push_bit L 1"
    have step: "add_range_rest ?rt a e m = add_range_rest ?rt ?a e m1"
      using m1(1) False
      by (subst add_range_rest.simps)
        (simp add: Let_def A_def [symmetric] C_def [symmetric] L_def [symmetric] pg_ptr_def
          del: push_bit_of_1 C_MIN_min)
    have cov1: "covered (fblocks fl1) = covered (fblocks fl) \<union> run r (unat a) (unat ?a)"
      unfolding m1(3) covered_insert blk_pages_run ua' by blast
    have "run r (unat ?a) (unat e) \<subseteq> run r (unat a) (unat e)"
      "run r (unat ?a) (unat e) \<inter> run r (unat a) (unat ?a) = {}"
      unfolding run_def ua' by auto
    then have free: "run r (unat ?a) (unat e) \<inter> covered (fblocks fl1) = {}"
      using less.prems(4) unfolding cov1 by blast
    have "(0::nat) < 2 ^ L" by simp
    then have dec: "unat e - unat ?a < unat e - unat a" using ae ua' by linarith
    have "unat ?a \<le> unat e" using fit ua' by simp
    then obtain m' fl' where m': "add_range_rest ?rt ?a e m1 = Some (Inr m')"
      "pm_inv m' fl' {}" "roots m' = roots m" "dsps m' = dsps m1" "fblocks fl1 \<subseteq> fblocks fl'"
      "covered (fblocks fl') = covered (fblocks fl1) \<union> run r (unat ?a) (unat e)"
      "unat ?a = unat e \<longrightarrow> fl' = fl1"
      using less.hyps [OF dec m1(2)] less.prems(3,5) free unfolding m1(4) by blast
    have cov: "covered (fblocks fl') = covered (fblocks fl) \<union> run r (unat a) (unat e)"
      using m'(6) cov1 run_split [of "unat a" "unat ?a" "unat e" r] fit ua' by auto
    have single: "fblocks fl' = insert (r, unat a, k) (fblocks fl)"
      if k: "k \<le> PGMGR_MAXLVL" "unat e = unat a + 2 ^ k" "2 ^ k dvd ?f + unat a" for k
    proof -
      have "C = k" unfolding C_def by (rule pg_pagecnt_maxlvl_pow2) (use a_e k in simp_all)
      moreover have "k \<le> A"
      proof (rule ccontr)
        assume "\<not> k \<le> A"
        then have "2 ^ Suc A dvd ?f + unat a" by (intro power_le_dvd [OF k(3)]) simp
        moreover have "A < PGMGR_MAXLVL" using \<open>\<not> k \<le> A\<close> k(1) by simp
        ultimately show False using A(3) by blast
      qed
      ultimately have "L = k" by (simp add: L_def)
      then show ?thesis using m'(7) m1(3) ua' k(2) by simp
    qed
    show ?thesis
      using step m'(1-5) m1(3,5) cov single ae by (intro exI [of _ m'] exI [of _ fl']) auto
  qed
qed

text \<open>
  Both loops together: the range is cut into blocks that the free lists now hold. If what the first
  loop leaves over is empty or a single block, every new block is maximal in its range.
\<close>

definition rest_single :: "nat \<Rightarrow> nat \<Rightarrow> nat \<Rightarrow> bool" where
  "rest_single f i j \<longleftrightarrow>
     (\<forall>x. i \<le> x \<and> x < j \<and> low_start f i x \<and> (\<exists>k\<le>PGMGR_MAXLVL. 2 ^ k dvd f + x \<and> j < x + 2 ^ k) \<longrightarrow>
        (\<exists>k<PGMGR_MAXLVL. j = x + 2 ^ k))"

lemma add_range_ok:
  fixes a e :: u64
  assumes r: "r < length (roots m)" and inv: "pm_inv m fl {}" and ae: "unat a \<le> unat e"
    and e: "unat e \<le> npages (roots m ! r)" and free: "run r (unat a) (unat e) \<inter> covered (fblocks fl) = {}"
  shows "\<exists>m' fl'. pg_init_free_lists_add_range (roots m ! r) a e m = Some (Inr m') \<and>
      pm_inv m' fl' {} \<and> roots m' = roots m \<and> dsps m' = dsps m \<and> fblocks fl \<subseteq> fblocks fl' \<and>
      covered (fblocks fl') = covered (fblocks fl) \<union> run r (unat a) (unat e) \<and>
      (rest_single (first_page (roots m ! r)) (unat a) (unat e) \<longrightarrow>
         (\<forall>b\<in>fblocks fl' - fblocks fl. mx_block (roots m) b \<or>
            (\<exists>i k. b = (r, i, k) \<and> unat e = i + 2 ^ k \<and> low_start (first_page (roots m ! r)) (unat a) i)))"
proof -
  let ?f = "first_page (roots m ! r)"
  from add_range_aligned_ok [OF r inv ae e free low_start_init]
  obtain m1 fl1 a1 where m1: "add_range_aligned (roots m ! r) a e m = Some (Inr (m1, a1))"
    "pm_inv m1 fl1 {}" "roots m1 = roots m" "dsps m1 = dsps m" "unat a \<le> unat a1" "unat a1 \<le> unat e"
    "covered (fblocks fl1) = covered (fblocks fl) \<union> run r (unat a) (unat a1)" "fblocks fl \<subseteq> fblocks fl1"
    "\<forall>b\<in>fblocks fl1 - fblocks fl. mx_block (roots m) b" "low_start ?f (unat a) (unat a1)"
    "unat a1 = unat e \<or> (\<exists>k\<le>PGMGR_MAXLVL. 2 ^ k dvd ?f + unat a1 \<and> unat e < unat a1 + 2 ^ k)"
    by blast
  have "run r (unat a1) (unat e) \<subseteq> run r (unat a) (unat e)"
    "run r (unat a1) (unat e) \<inter> run r (unat a) (unat a1) = {}"
    using m1(5) unfolding run_def by auto
  then have free1: "run r (unat a1) (unat e) \<inter> covered (fblocks fl1) = {}"
    using free unfolding m1(7) by blast
  have r1: "r < length (roots m1)" and e1: "unat e \<le> npages (roots m1 ! r)" using r e m1(3) by simp_all
  from add_range_rest_ok [OF r1 m1(2,6) e1 free1]
  obtain m2 fl2 where m2: "add_range_rest (roots m1 ! r) a1 e m1 = Some (Inr m2)"
    "pm_inv m2 fl2 {}" "roots m2 = roots m1" "dsps m2 = dsps m1" "fblocks fl1 \<subseteq> fblocks fl2"
    "covered (fblocks fl2) = covered (fblocks fl1) \<union> run r (unat a1) (unat e)"
    "unat a1 = unat e \<longrightarrow> fl2 = fl1"
    "\<forall>k\<le>PGMGR_MAXLVL. unat e = unat a1 + 2 ^ k \<and> 2 ^ k dvd first_page (roots m1 ! r) + unat a1 \<longrightarrow>
         fblocks fl2 = insert (r, unat a1, k) (fblocks fl1)"
    by blast
  have "pg_init_free_lists_add_range (roots m ! r) a e m = Some (Inr m2)"
    using m1(1,3) m2(1) by (simp add: pg_init_free_lists_add_range_def)
  moreover have "covered (fblocks fl2) = covered (fblocks fl) \<union> run r (unat a) (unat e)"
    using m1(7) m2(6) run_split [OF m1(5,6), of r] by auto
  moreover have "\<exists>i k. b = (r, i, k) \<and> unat e = i + 2 ^ k \<and> low_start ?f (unat a) i"
    if rs: "rest_single ?f (unat a) (unat e)" and b: "b \<in> fblocks fl2 - fblocks fl" "\<not> mx_block (roots m) b" for b
  proof -
    have bn: "b \<in> fblocks fl2 - fblocks fl1" using b m1(9) by blast
    then have ne: "unat a1 \<noteq> unat e" using m2(7) by auto
    then obtain k where k: "k < PGMGR_MAXLVL" "unat e = unat a1 + 2 ^ k"
      using rs m1(5,6,10,11) unfolding rest_single_def by (metis le_neq_implies_less)
    obtain k' where k': "2 ^ k' dvd ?f + unat a1" "unat e < unat a1 + 2 ^ k'" using m1(11) ne by blast
    have "(2::nat) ^ k < 2 ^ k'" using k' k by linarith
    then have "k \<le> k'" by (metis less_imp_le_nat linorder_not_le power_increasing one_le_numeral leD)
    then have "2 ^ k dvd ?f + unat a1" using k'(1) by (rule power_le_dvd [rotated])
    then have "fblocks fl2 = insert (r, unat a1, k) (fblocks fl1)" using m2(8) k m1(3) by simp
    then show ?thesis using bn k m1(10) by auto
  qed
  ultimately show ?thesis
    using m1(3,4,8) m2(2-5) by (intro exI [of _ m2] exI [of _ fl2]) auto
qed

section \<open>Marking pages\<close>

lemma mark_fold:
  assumes ok: "roots_ok (roots m) (dsps m)" and r: "r < length (roots m)"
    and s: "s = pr_start (roots m ! r) + push_bit PG_SFT (of_nat a)" and e: "e = pr_start (roots m ! r) + push_bit PG_SFT (of_nat b)"
    and ab: "a < npages (roots m ! r)" "b \<le> npages (roots m ! r)" and n: "n \<le> npages (roots m ! r)"
  shows "\<exists>m'. fold (mark_page (roots m ! r) s e) [0..<n] (x, y, m) =
     (if a < n then of_nat a else x, if b < n then of_nat b else y, m') \<and>
     roots m' = roots m \<and> free_lists m' = free_lists m \<and> dsp_links m' = dsp_links m \<and>
     (\<forall>d. pd_addr (dsps m' d) = pd_addr (dsps m d)) \<and>
     (\<forall>pg\<in>valid_pages (roots m). used m' pg \<longleftrightarrow> used m pg \<or>
        (fst pg = r \<and> snd pg < n \<and> (snd pg < a \<or> b \<le> snd pg)))"
  using n
proof (induction n)
  case 0
  then show ?case by simp
next
  case (Suc n)
  let ?rt = "roots m ! r" and ?f = "first_page (roots m ! r)"
  obtain m' where m': "fold (mark_page ?rt s e) [0..<n] (x, y, m) =
     (if a < n then of_nat a else x, if b < n then of_nat b else y, m')"
     "roots m' = roots m" "free_lists m' = free_lists m" "dsp_links m' = dsp_links m"
     "\<forall>d. pd_addr (dsps m' d) = pd_addr (dsps m d)"
     "\<forall>pg\<in>valid_pages (roots m). used m' pg \<longleftrightarrow> used m pg \<or>
        (fst pg = r \<and> snd pg < n \<and> (snd pg < a \<or> b \<le> snd pg))"
    using Suc by auto
  let ?d = "pg_ptr (roots m) (r, n)" and ?set = "\<lambda>d. d\<lparr>pd_flags := pd_flags d OR PGDSP_USED\<rparr>"
  have v: "(r, n) \<in> valid_pages (roots m)" using Suc.prems r by (simp add: valid_pages_def)
  have un: "unat (pd_addr (dsps m' ?d)) = 2 ^ PG_SFT * (?f + n)" using unat_page_addr [OF ok v] m'(5) by simp
  have us: "unat s = 2 ^ PG_SFT * (?f + a)" unfolding s by (rule unat_page_start [OF ok r]) (use ab in simp)
  have ue: "unat e = 2 ^ PG_SFT * (?f + b)" unfolding e by (rule unat_page_start [OF ok r ab(2)])
  have t: "pd_addr (dsps m' ?d) = s \<longleftrightarrow> n = a" "pd_addr (dsps m' ?d) = e \<longleftrightarrow> n = b"
    "pd_addr (dsps m' ?d) < s \<or> pd_addr (dsps m' ?d) \<ge> e \<longleftrightarrow> n < a \<or> b \<le> n"
    by (simp_all only: word_unat_eq_iff word_less_nat_alt word_le_nat_alt un us ue
        nat_mult_less_cancel_disj nat_mult_le_cancel_disj nat_mult_eq_cancel_disj) simp_all
  define m2 where "m2 = (if n < a \<or> b \<le> n then upd_dsp ?d ?set m' else m')"
  have step: "fold (mark_page ?rt s e) [0..<Suc n] (x, y, m) =
      (if a < Suc n then of_nat a else x, if b < Suc n then of_nat b else y, m2)"
    using m'(1) t unfolding m2_def
    by (simp add: mark_page_def Let_def pg_ptr_def)
  have inj: "inj_on (pg_ptr (roots m')) (valid_pages (roots m'))" using ok m'(2) by (simp add: roots_ok_def)
  have upd: "used (upd_dsp ?d ?set m') pg \<longleftrightarrow> used m' pg \<or> pg = (r, n)" if "pg \<in> valid_pages (roots m)" for pg
    using used_upd [OF inj, of pg "(r, n)" ?set] that v m'(2) by (auto simp: or_used)
  have "used m2 pg \<longleftrightarrow> used m pg \<or> (fst pg = r \<and> snd pg < Suc n \<and> (snd pg < a \<or> b \<le> snd pg))"
    if "pg \<in> valid_pages (roots m)" for pg
    using m'(6) that upd [OF that] by (cases pg) (auto simp: m2_def less_Suc_eq)
  then show ?case
    using step m'(2-5) by (intro exI [of _ m2]) (simp add: m2_def)
qed

section \<open>The free lists after initialization\<close>

lemma honest_fresh:
  assumes cov: "covered S = run r a b"
    and blocks: "\<And>c. c \<in> S \<Longrightarrow> mx_block (roots m) c \<or>
       (\<exists>i k. c = (r, i, k) \<and> b = i + 2 ^ k \<and> low_start (first_page (roots m ! r)) a i)"
    and marks: "\<And>pg. pg \<in> valid_pages (roots m) \<Longrightarrow> pg \<notin> run r a b \<Longrightarrow> used m pg"
  shows "honest m S"
proof -
  have "\<not> blk_pages (r', j, l) \<subseteq> run r a b"
    if c: "(r', i, q) \<in> S" "q < l" "l < PGMGR_MAXLVL" "buddies (first_page (roots m ! r')) l i j" for r' i q l j
  proof -
    have d: "2 ^ l dvd first_page (roots m ! r') + i" using c(4) by (simp add: buddies_def)
    then have "2 ^ Suc q dvd first_page (roots m ! r') + i" using c(2) by (auto intro: power_le_dvd simp del: power_Suc)
    then have "\<not> mx_block (roots m) (r', i, q)" using c(2,3) by (simp add: mx_block_def)
    then have s: "r' = r" "b = i + 2 ^ q" "low_start (first_page (roots m ! r)) a i" using blocks [OF c(1)] by auto
    show ?thesis
    proof (cases "2 ^ Suc l dvd first_page (roots m ! r') + i")
      case True
      then have "j = i + 2 ^ l" using c(4) by (simp add: buddies_def)
      moreover have "(2::nat) ^ q \<le> 2 ^ l" using c(2) by (intro power_increasing) auto
      ultimately have "(r', j) \<notin> run r a b" using s(2) by (simp add: run_def)
      then show ?thesis using blk_head_in [of "(r', j, l)"] by auto
    next
      case False
      then have "i = j + 2 ^ l" using c(4) by (simp add: buddies_def)
      moreover have "i < a + 2 ^ l" using s(1,3) d False c(3) by (auto simp: low_start_def)
      ultimately have "(r', j) \<notin> run r a b" by (simp add: run_def)
      then show ?thesis using blk_head_in [of "(r', j, l)"] by auto
    qed
  qed
  then show ?thesis using marks unfolding honest_def cov by blast
qed

lemma pm_inv_same:
  assumes "pm_inv m fl B" "roots m' = roots m" "free_lists m' = free_lists m" "dsp_links m' = dsp_links m"
    "\<forall>d. pd_addr (dsps m' d) = pd_addr (dsps m d)"
  shows "pm_inv m' fl B"
  using assms by (simp add: pm_inv_def roots_ok_def)

text \<open>
  \<open>pg_init_free_lists_per_root\<close> on the only segment of a fresh manager: the free blocks are exactly
  the pages of the blank space, the others are marked.
\<close>

lemma per_root_ok:
  assumes inv: "pm_inv m fl {}" and none: "fblocks fl = {}" and r: "r < length (roots m)"
    and a: "ALIGN_UP (seg_start sg) PG_SFT = pr_start (roots m ! r) + push_bit PG_SFT (of_nat a)"
    and b: "ALIGN_DOWN (seg_end sg) PG_SFT = pr_start (roots m ! r) + push_bit PG_SFT (of_nat b)"
    and ab: "a \<le> b" "b \<le> npages (roots m ! r)" "a < npages (roots m ! r)"
  shows "\<exists>m' fl'. pg_init_free_lists_per_root (roots m ! r) sg m = Some (Inr m') \<and> pm_inv m' fl' {} \<and>
     roots m' = roots m \<and> covered (fblocks fl') = run r a b \<and>
     (\<forall>pg\<in>valid_pages (roots m). used m' pg \<longleftrightarrow> used m pg \<or> fst pg = r \<and> (snd pg < a \<or> b \<le> snd pg)) \<and>
     (length (roots m) = 1 \<and> rest_single (first_page (roots m ! r)) a b \<longrightarrow> pm_ok m' fl' {})"
proof -
  let ?rt = "roots m ! r" and ?n = "npages (roots m ! r)"
  have rok: "roots_ok (roots m) (dsps m)" using inv by (simp add: pm_inv_def)
  have n44: "?n < 2 ^ 64" using npages_bound [of ?rt] by simp
  obtain m1 where m1: "fold (mark_page ?rt (ALIGN_UP (seg_start sg) PG_SFT) (ALIGN_DOWN (seg_end sg) PG_SFT)) [0..<?n] (0, of_nat ?n, m) =
     (if a < ?n then of_nat a else 0, if b < ?n then of_nat b else of_nat ?n, m1)"
     "roots m1 = roots m" "free_lists m1 = free_lists m" "dsp_links m1 = dsp_links m"
     "\<forall>d. pd_addr (dsps m1 d) = pd_addr (dsps m d)"
     "\<forall>pg\<in>valid_pages (roots m). used m1 pg \<longleftrightarrow> used m pg \<or> (fst pg = r \<and> snd pg < ?n \<and> (snd pg < a \<or> b \<le> snd pg))"
    using mark_fold [OF rok r a b ab(3,2) order.refl] by blast
  have idx: "unat (of_nat a :: u64) = a" "unat (if b < ?n then of_nat b else of_nat ?n :: u64) = b"
    using ab n44 by (simp_all add: unat_of_nat_small)
  have inv1: "pm_inv m1 fl {}" by (rule pm_inv_same [OF inv m1(2-5)])
  have used1: "used m1 pg \<longleftrightarrow> used m pg \<or> fst pg = r \<and> (snd pg < a \<or> b \<le> snd pg)"
    if "pg \<in> valid_pages (roots m)" for pg
    using m1(6) that by (auto simp: valid_pages_def)
  let ?a = "of_nat a :: u64" and ?b = "if b < ?n then of_nat b else of_nat ?n :: u64"
  have r1: "r < length (roots m1)" and e1: "unat ?b \<le> npages (roots m1 ! r)" and le: "unat ?a \<le> unat ?b"
    using r ab unfolding m1(2) idx by simp_all
  have free: "run r (unat ?a) (unat ?b) \<inter> covered (fblocks fl) = {}" by (simp add: none covered_def)
  obtain m' fl' where m': "pg_init_free_lists_add_range (roots m1 ! r) ?a ?b m1 = Some (Inr m')"
      "pm_inv m' fl' {}" "roots m' = roots m1" "dsps m' = dsps m1" "fblocks fl \<subseteq> fblocks fl'"
      "covered (fblocks fl') = covered (fblocks fl) \<union> run r a b"
      "rest_single (first_page (roots m1 ! r)) a b \<longrightarrow>
         (\<forall>c\<in>fblocks fl' - fblocks fl. mx_block (roots m1) c \<or>
            (\<exists>i k. c = (r, i, k) \<and> b = i + 2 ^ k \<and> low_start (first_page (roots m1 ! r)) a i))"
    using add_range_ok [OF r1 inv1 le e1 free] unfolding idx by blast
  have cov: "covered (fblocks fl') = run r a b" using m'(6) none by (simp add: covered_def)
  have um: "used m' = used m1" using m'(3,4) by (intro ext) (simp add: used_def)
  have nn: "drop_bit PG_SFT (pr_end ?rt - pr_start ?rt) = of_nat ?n" by (simp add: npages_def root_pages_def)
  have n': "unat (drop_bit PG_SFT (pr_end ?rt - pr_start ?rt)) = ?n" by (simp add: npages_def root_pages_def)
  have op: "pg_init_free_lists_per_root ?rt sg m = Some (Inr m')"
    unfolding pg_init_free_lists_per_root_def Let_def n' nn
    using m1(1,2) m'(1) ab(3) n44 by (simp add: unat_of_nat_small)
  have ok: "pm_ok m' fl' {}" if one: "length (roots m) = 1" and rs: "rest_single (first_page ?rt) a b"
  proof -
    have "honest m' (fblocks fl')"
    proof (rule honest_fresh [OF cov])
      show "mx_block (roots m') c \<or>
         (\<exists>i k. c = (r, i, k) \<and> b = i + 2 ^ k \<and> low_start (first_page (roots m' ! r)) a i)"
        if "c \<in> fblocks fl'" for c
        using m'(7) rs that none unfolding m'(3) m1(2) by blast
      show "used m' pg" if "pg \<in> valid_pages (roots m')" "pg \<notin> run r a b" for pg
        using that used1 [of pg] one r unfolding um m'(3) m1(2)
        by (cases pg) (auto simp: run_def valid_pages_def)
    qed
    then show ?thesis using m'(2) by (simp add: pm_ok_def)
  qed
  show ?thesis using op m'(2,3) m1(2) cov used1 ok um by (intro exI [of _ m'] exI [of _ fl']) auto
qed

section \<open>Writing the descriptors\<close>

lemma zero_fold:
  "dsps (fold (\<lambda>i. zero_dsp (g i)) is m) d =
     (if d \<in> g ` set is then \<lparr>pd_addr = 0, pd_flags = 0, pd_lvl = 0\<rparr> else dsps m d)"
  "roots (fold (\<lambda>i. zero_dsp (g i)) is m) = roots m"
  "free_lists (fold (\<lambda>i. zero_dsp (g i)) is m) = free_lists m"
  by (induction "is" arbitrary: m) (auto simp: zero_dsp_def)

lemma addr_fold:
  fixes g :: "nat \<Rightarrow> ptr"
  assumes inj: "inj_on g {..<n}"
  shows "k \<le> n \<Longrightarrow> i < n \<Longrightarrow> dsps (fold (\<lambda>i. upd_dsp (g i) (\<lambda>d. d\<lparr>pd_addr := h i\<rparr>)) [0..<k] m) (g i) =
     (if i < k then (dsps m (g i))\<lparr>pd_addr := h i\<rparr> else dsps m (g i))"
proof (induction k)
  case 0
  then show ?case by simp
next
  case (Suc k)
  then have "g i = g k \<longleftrightarrow> i = k" using inj_onD [OF inj, of i k] by auto
  with Suc show ?case by (auto simp: less_Suc_eq)
qed

lemma addr_fold_roots [simp]:
  "roots (fold (\<lambda>i. upd_dsp (g i) (f i)) is m) = roots m"
  "free_lists (fold (\<lambda>i. upd_dsp (g i) (f i)) is m) = free_lists m"
  by (induction "is" arbitrary: m) auto

lemma dsp_at_inj:
  assumes "unat root + PGDSP_SZ * n < 2 ^ 64"
  shows "inj_on (dsp_at root) {..<n}"
proof (rule inj_onI)
  fix i j assume ij: "i \<in> {..<n}" "j \<in> {..<n}" "dsp_at root i = dsp_at root j"
  then have "(of_nat (PGDSP_SZ * i) :: u64) = of_nat (PGDSP_SZ * j)" by (simp add: dsp_at_def)
  then have "unat (of_nat (PGDSP_SZ * i) :: u64) = unat (of_nat (PGDSP_SZ * j) :: u64)" by simp
  moreover have "unat (of_nat (PGDSP_SZ * k) :: u64) = PGDSP_SZ * k" if "k < n" for k
    using that assms by (intro unat_of_nat_small) simp
  ultimately show "i = j" using ij(1,2) by simp
qed

text \<open>A manager with one segment whose descriptors were just written has empty lists and no marks.\<close>

lemma write_root_inv:
  fixes m :: PgMgr
  assumes rs: "roots m = [rt]" and fl: "free_lists m = replicate (Suc PGMGR_MAXLVL) None"
    and al: "take_bit PG_SFT (pr_start rt) = 0" "take_bit PG_SFT (pr_end rt) = 0" "pr_start rt \<le> pr_end rt"
    and fit: "unat (pr_root rt) + PGDSP_SZ * npages rt < 2 ^ 64"
  defines "m' \<equiv> pg_init_pgdsps_write_root 0 m"
  shows "pm_inv m' (replicate (Suc PGMGR_MAXLVL) []) {}" "roots m' = [rt]"
    "pg \<in> valid_pages [rt] \<Longrightarrow> \<not> used m' pg"
proof -
  let ?n = "npages rt" and ?g = "dsp_at (pr_root rt)"
  have nn: "unat (drop_bit PG_SFT (pr_end rt - pr_start rt)) = ?n" by (simp add: npages_def root_pages_def)
  have vp: "valid_pages [rt] = {0} \<times> {..<?n}" by (auto simp: valid_pages_def)
  have inj: "inj_on ?g {..<?n}" by (rule dsp_at_inj [OF fit])
  have d: "dsps m' (?g i) = \<lparr>pd_addr = pr_start rt + push_bit PG_SFT (of_nat i), pd_flags = 0, pd_lvl = 0\<rparr>"
    if "i < ?n" for i
    using that addr_fold [OF inj order.refl that]
    by (simp add: m'_def pg_init_pgdsps_write_root_def Let_def rs nn zero_fold)
  show r: "roots m' = [rt]"
    by (simp add: m'_def pg_init_pgdsps_write_root_def Let_def rs zero_fold)
  have f: "free_lists m' = replicate (Suc PGMGR_MAXLVL) None"
    unfolding m'_def pg_init_pgdsps_write_root_def Let_def rs by (simp add: zero_fold fl)
  have "roots_ok (roots m') (dsps m')"
    unfolding roots_ok_def r vp using al fit inj d by (auto simp: inj_on_def pg_ptr_def)
  moreover have "dlists l (replicate (Suc PGMGR_MAXLVL) None) (map (map f) (replicate (Suc PGMGR_MAXLVL) []))"
    for l and f :: "page \<Rightarrow> ptr"
    unfolding dlists_def by (simp add: less_Suc_eq)
  moreover have "fblocks (replicate (Suc PGMGR_MAXLVL) []) = {}"
    unfolding fblocks_def by auto
  ultimately show "pm_inv m' (replicate (Suc PGMGR_MAXLVL) []) {}"
    unfolding pm_inv_def f by (simp add: disjoint_blocks_def)
  show "pg \<in> valid_pages [rt] \<Longrightarrow> \<not> used m' pg"
    using d unfolding vp by (auto simp: used_def r pg_ptr_def)
qed

section \<open>pg_init on one segment\<close>

text \<open>
  A writable segment of whole pages that ends below the last page of the address space and has room
  for the manager (112 bytes with its one segment) and the descriptors.
\<close>

definition one_seg :: "u64 \<Rightarrow> u64 \<Rightarrow> nat \<Rightarrow> bool" where
  "one_seg s e n \<longleftrightarrow>
     take_bit PG_SFT s = 0 \<and> take_bit PG_SFT e = 0 \<and> unat e = unat s + 2 ^ PG_SFT * n \<and>
     112 + PGDSP_SZ * n \<le> 2 ^ PG_SFT * (n - 1) \<and> unat e + 2 ^ PG_SFT < 2 ^ 64"

text \<open>The first page that holds neither the manager nor descriptors.\<close>

definition mgr_pages :: "nat \<Rightarrow> nat" where
  "mgr_pages n = (112 + PGDSP_SZ * n + (2 ^ PG_SFT - 1)) div 2 ^ PG_SFT"

lemma ALIGN_DOWN_aligned:
  fixes a :: u64
  assumes "take_bit sft a = 0"
  shows "ALIGN_DOWN a sft = a"
proof -
  obtain q where q: "unat a = 2 ^ sft * q" using aligned_unat [OF assms] by blast
  have "unat (ALIGN_DOWN a sft) = unat a" unfolding unat_ALIGN_DOWN q by simp
  then show ?thesis by (simp add: word_unat_eq_iff)
qed

lemma ALIGN_UP_aligned:
  fixes a :: u64
  assumes "take_bit sft a = 0" "sft < 64" "unat a + (2 ^ sft - 1) < 2 ^ 64"
  shows "ALIGN_UP a sft = a"
proof -
  obtain q where q: "unat a = 2 ^ sft * q" using aligned_unat [OF assms(1)] by blast
  have "(unat a + (2 ^ sft - 1)) div 2 ^ sft = q"
    unfolding q by (subst div_mult_self4 [OF power_not_zero]) simp_all
  then have "unat (ALIGN_UP a sft) = unat a" using assms(2,3) q by (subst unat_ALIGN_UP) simp_all
  then show ?thesis by (simp add: word_unat_eq_iff)
qed

lemma one_seg_facts:
  assumes o: "one_seg s e n"
  shows "s < e" "1 < n" "ALIGN_UP s PG_SFT = s" "ALIGN_DOWN e PG_SFT = e" "ALIGN_UP s CACHE_LINE_SFT = s"
    "unat (s + 112) = unat s + 112" "unat (e - s) = 2 ^ PG_SFT * n" "npages \<lparr>pr_root = r, pr_start = s, pr_end = e\<rparr> = n"
    "mgr_pages n < n" "unat s + 112 + PGDSP_SZ * n \<le> unat e" "unat e + 2 ^ PG_SFT < 2 ^ 64"
proof -
  have a: "take_bit PG_SFT s = 0" "take_bit PG_SFT e = 0" "unat e = unat s + 2 ^ PG_SFT * n"
     "112 + PGDSP_SZ * n \<le> 2 ^ PG_SFT * (n - 1)" "unat e + 2 ^ PG_SFT < 2 ^ 64"
    using o by (auto simp: one_seg_def)
  show n: "1 < n" using a(4) by (cases "n \<le> 1") auto
  show se: "s < e" using a(3) n by (simp add: word_less_nat_alt)
  have s64: "unat s + 2 ^ PG_SFT * n + 2 ^ PG_SFT < 2 ^ 64" using a(3,5) by simp
  show "ALIGN_UP s PG_SFT = s" using s64 by (intro ALIGN_UP_aligned a) simp_all
  show "ALIGN_DOWN e PG_SFT = e" by (rule ALIGN_DOWN_aligned [OF a(2)])
  have "take_bit CACHE_LINE_SFT s = take_bit CACHE_LINE_SFT (take_bit PG_SFT s)" by simp
  then have "take_bit CACHE_LINE_SFT s = 0" using a(1) by simp
  then show "ALIGN_UP s CACHE_LINE_SFT = s" using s64 by (intro ALIGN_UP_aligned) simp_all
  show "unat (s + 112) = unat s + 112" using s64 by (subst unat_add_no_wrap) simp_all
  show d: "unat (e - s) = 2 ^ PG_SFT * n" using a(3) se by (subst unat_sub_no_wrap) simp_all
  show "npages \<lparr>pr_root = r, pr_start = s, pr_end = e\<rparr> = n"
    by (simp only: npages_def root_pages_def PgRoot.simps unat_drop d) simp
  have "112 + PGDSP_SZ * n + (2 ^ PG_SFT - 1) < 2 ^ PG_SFT * n"
  proof -
    obtain k where "n = Suc k" using n by (cases n) auto
    then show ?thesis using a(4) by simp
  qed
  then show "mgr_pages n < n" unfolding mgr_pages_def by (intro div_less_iff_less_mult [THEN iffD2]) (simp_all add: mult.commute)
  have "2 ^ PG_SFT * (n - 1) \<le> 2 ^ PG_SFT * n" by simp
  then show "unat s + 112 + PGDSP_SZ * n \<le> unat e" using a(3,4) by linarith
  show "unat e + 2 ^ PG_SFT < 2 ^ 64" by (rule a(5))
qed

lemma one_seg_trimx:
  assumes o: "one_seg s e n"
  shows "fst (pg_init_trimx [\<lparr>seg_start = s, seg_end = e, seg_flag = 0\<rparr>] k) =
    [\<lparr>seg_start = s, seg_end = e, seg_flag = 0\<rparr>]"
  using one_seg_facts [OF o] by (simp add: pg_init_trimx_def trim_seg_def Let_def split_beta)

lemma one_seg_addr:
  assumes o: "one_seg s e n"
  shows "pg_init_pgmgr_addr [\<lparr>seg_start = s, seg_end = e, seg_flag = 0\<rparr>] 112 = s" "s \<noteq> - 1"
proof -
  note f = one_seg_facts [OF o]
  have room: "(e < s + 112) = False" using f(6,10) by (simp add: word_less_nat_alt)
  have rate: "(e - s < - 1) = True"
  proof -
    have "unat (e - s) < 2 ^ 64 - 1" using f(7,11) o by (simp add: one_seg_def)
    moreover have "unat (- 1 :: u64) = 2 ^ 64 - 1" unfolding unsigned_minus_1_eq_mask by (simp add: mask_eq_exp_minus_1)
    ultimately show ?thesis by (simp only: word_less_nat_alt)
  qed
  show "pg_init_pgmgr_addr [\<lparr>seg_start = s, seg_end = e, seg_flag = 0\<rparr>] 112 = s"
    using f(5) by (simp add: pg_init_pgmgr_addr_def pg_init_addr_step_def read_only_def Let_def room rate)
  show "s \<noteq> - 1" using f(1) by (metis not_less word_n1_ge)
qed

lemma one_seg_pgdsps:
  fixes m :: PgMgr
  assumes o: "one_seg s e n" and m: "roots m = [\<lparr>pr_root = NULL, pr_start = s, pr_end = e\<rparr>]"
  defines "rt \<equiv> \<lparr>pr_root = s + 112, pr_start = s, pr_end = e\<rparr>"
  shows "pg_init_pgdsps m [\<lparr>seg_start = s + 112, seg_end = e, seg_flag = 0\<rparr>] =
    Some (True, pg_init_pgdsps_write_root 0 (m\<lparr>roots := [rt]\<rparr>),
          [\<lparr>seg_start = s + 112 + of_nat (PGDSP_SZ * n), seg_end = e, seg_flag = 0\<rparr>])"
proof -
  note f = one_seg_facts [OF o]
  let ?sg = "\<lparr>seg_start = s + 112, seg_end = e, seg_flag = 0\<rparr>"
  have np: "drop_bit PG_SFT (e - s) = (of_nat n :: u64)"
  proof -
    have "unat (drop_bit PG_SFT (e - s)) = n" using f(8) [of NULL] by (simp add: npages_def root_pages_def)
    then have "(of_nat (unat (drop_bit PG_SFT (e - s))) :: u64) = of_nat n" by (rule arg_cong)
    then show ?thesis by simp
  qed
  have n44: "n < 2 ^ 44" using npages_bound [of rt] f(8) by (simp add: rt_def)
  have un: "unat (of_nat n :: u64) = n" "unat (of_nat (PGDSP_SZ * n) :: u64) = PGDSP_SZ * n"
    using n44 by (simp_all add: unat_of_nat_small del: of_nat_mult)
  have m1: "unat (- 1 :: u64) = 2 ^ 64 - 1" unfolding unsigned_minus_1_eq_mask by (simp add: mask_eq_exp_minus_1)
  have sc: "(of_nat n :: u64) < - 1" using n44 un(1) m1 by (simp add: word_less_nat_alt)
  have next0: "pg_init_pgdsps_next_root m [?sg] = Some 0"
    using sc by (simp add: pg_init_pgdsps_next_root_def m read_only_def Let_def np)
  have bl: "unat (e - (s + 112)) = unat e - (unat s + 112)"
    using f(6,10) by (subst unat_sub_no_wrap) (simp_all add: word_le_nat_alt)
  have req: "pg_init_pgdsps_calc_space_for_root \<lparr>pr_root = NULL, pr_start = s, pr_end = e\<rparr> = of_nat (PGDSP_SZ * n)"
    by (simp add: pg_init_pgdsps_calc_space_for_root_def np mult.commute)
  have fit: "\<not> e - (s + 112) < of_nat (PGDSP_SZ * n)" "e - (s + 112) < - 1"
    using bl un(2) f(10,11) m1 by (simp_all add: word_less_nat_alt del: of_nat_mult)
  have alloc: "pg_init_pgdsps_alloc_root m [?sg] 0 = Some (m\<lparr>roots := [rt]\<rparr>,
      [\<lparr>seg_start = s + 112 + of_nat (PGDSP_SZ * n), seg_end = e, seg_flag = 0\<rparr>])"
    using fit by (simp add: pg_init_pgdsps_alloc_root_def m req read_only_def seg_len_def Let_def rt_def del: of_nat_mult)
  have nz: "s + 112 \<noteq> 0" using f(6) by (metis unat_0 add_is_0 zero_neq_numeral)
  have finished: "pg_init_pgdsps_next_root (pg_init_pgdsps_write_root 0 (m\<lparr>roots := [rt]\<rparr>)) sgs = None" for sgs
    using nz by (simp add: pg_init_pgdsps_next_root_def pg_init_pgdsps_write_root_def Let_def zero_fold rt_def)
  show ?thesis
    by (subst pg_init_pgdsps.simps, simp add: next0 alloc del: of_nat_mult)
      (subst pg_init_pgdsps.simps, simp add: finished del: of_nat_mult)
qed

text \<open>
  \<open>pg_init\<close> on such a segment returns a manager at its start. The manager owns exactly the pages after
  those that it and its descriptors lie in, and satisfies the allocator's invariant if the range that
  is left over after the aligned blocks is at most one block.
\<close>

lemma pg_init_one:
  assumes o: "one_seg s e n" and rest: "rest_single (unat (drop_bit PG_SFT s)) (mgr_pages n) n"
  shows "\<exists>m fl. pg_init [\<lparr>seg_start = s, seg_end = e, seg_flag = 0\<rparr>] ds l = Some (Inr (Some (s, m))) \<and>
    pm_ok m fl {} \<and> covered (fblocks fl) = run 0 (mgr_pages n) n \<and>
    roots m = [\<lparr>pr_root = s + 112, pr_start = s, pr_end = e\<rparr>]"
proof -
  note f = one_seg_facts [OF o]
  let ?old = "\<lparr>pr_root = NULL, pr_start = s, pr_end = e\<rparr>" and ?rt = "\<lparr>pr_root = s + 112, pr_start = s, pr_end = e\<rparr>"
  let ?mgr = "\<lparr>free_lists = replicate (Suc PGMGR_MAXLVL) None, roots = [?old], dsps = ds, dsp_links = l\<rparr>"
  define m1 where "m1 = pg_init_pgdsps_write_root 0 (?mgr\<lparr>roots := [?rt]\<rparr>)"
  have al: "take_bit PG_SFT s = 0" "take_bit PG_SFT e = 0" using o by (auto simp: one_seg_def)
  have np: "npages ?rt = n" "npages ?old = n" using f(8) by simp_all
  have fit: "unat (pr_root ?rt) + PGDSP_SZ * npages ?rt < 2 ^ 64" using f(6,10,11) np by simp
  have le: "pr_start ?rt \<le> pr_end ?rt" using f(1) by simp
  have h: "roots (?mgr\<lparr>roots := [?rt]\<rparr>) = [?rt]"
    "free_lists (?mgr\<lparr>roots := [?rt]\<rparr>) = replicate (Suc PGMGR_MAXLVL) None"
    "take_bit PG_SFT (pr_start ?rt) = 0" "take_bit PG_SFT (pr_end ?rt) = 0"
    by (simp_all only: PgMgr.simps PgRoot.simps al)
  note w = write_root_inv [OF h le fit, folded m1_def]
  define sg where "sg = \<lparr>seg_start = s + 112 + of_nat (PGDSP_SZ * n), seg_end = e, seg_flag = (0::u32)\<rparr>"
  have us: "unat (seg_start sg) = unat s + 112 + PGDSP_SZ * n"
  proof -
    have "unat (of_nat (PGDSP_SZ * n) :: u64) = PGDSP_SZ * n"
      using f(10,11) by (intro unat_of_nat_small) simp
    then show ?thesis using f(6,10,11) by (simp add: sg_def unat_add_no_wrap del: of_nat_mult)
  qed
  have fp: "first_page (roots m1 ! 0) = unat (drop_bit PG_SFT s)" by (simp add: w(2) first_page_def)
  have s2: "unat s = 2 ^ PG_SFT * unat (drop_bit PG_SFT s)" by (rule aligned_unat [OF al(1)])
  have rok: "roots_ok (roots m1) (dsps m1)" using w(1) by (simp add: pm_inv_def)
  have r0: "0 < length (roots m1)" by (simp add: w(2))
  have npr: "npages (roots m1 ! 0) = n" by (simp only: w(2) nth_Cons_0 np)
  have a: "ALIGN_UP (seg_start sg) PG_SFT = pr_start (roots m1 ! 0) + push_bit PG_SFT (of_nat (mgr_pages n))"
  proof -
    have "(unat (seg_start sg) + (2 ^ PG_SFT - 1)) div 2 ^ PG_SFT = unat (drop_bit PG_SFT s) + mgr_pages n"
      unfolding us mgr_pages_def by (subst s2) (simp add: add.assoc)
    moreover have "unat (seg_start sg) + (2 ^ PG_SFT - 1) < 2 ^ 64" using us f(10,11) by simp
    ultimately have "unat (ALIGN_UP (seg_start sg) PG_SFT) = 2 ^ PG_SFT * (unat (drop_bit PG_SFT s) + mgr_pages n)"
      by (subst unat_ALIGN_UP) simp_all
    moreover have "unat (pr_start (roots m1 ! 0) + push_bit PG_SFT (of_nat (mgr_pages n))) =
        2 ^ PG_SFT * (unat (drop_bit PG_SFT s) + mgr_pages n)"
      using unat_page_start [OF rok r0, of "mgr_pages n"] npr f(9) fp by simp
    ultimately show ?thesis by (simp only: word_unat_eq_iff)
  qed
  have b: "ALIGN_DOWN (seg_end sg) PG_SFT = pr_start (roots m1 ! 0) + push_bit PG_SFT (of_nat n)"
  proof -
    have "unat (pr_start (roots m1 ! 0) + push_bit PG_SFT (of_nat n)) = 2 ^ PG_SFT * (unat (drop_bit PG_SFT s) + n)"
      using unat_page_start [OF rok r0, of n] npr fp by simp
    also have "\<dots> = unat e" using s2 o unfolding one_seg_def distrib_left by linarith
    finally show ?thesis using f(4) by (simp only: sg_def PgInitSeg.simps word_unat_eq_iff)
  qed
  have none: "fblocks (replicate (Suc PGMGR_MAXLVL) []) = {}" unfolding fblocks_def by auto
  obtain m fl where m: "pg_init_free_lists_per_root (roots m1 ! 0) sg m1 = Some (Inr m)" "roots m = roots m1"
    "covered (fblocks fl) = run 0 (mgr_pages n) n" "pm_ok m fl {}"
    using per_root_ok [OF w(1) none r0 a b] f(9) npr rest fp w(2) by auto
  have blank: "pg_init_blankspace s 112 [?old] [\<lparr>seg_start = s, seg_end = e, seg_flag = 0\<rparr>] =
      Some [\<lparr>seg_start = s + 112, seg_end = e, seg_flag = 0\<rparr>]"
    using f(1) by (simp add: pg_init_blankspace_def Let_def)
  have rx: "pg_init_rootx [\<lparr>seg_start = s, seg_end = e, seg_flag = 0\<rparr>] = [?old]"
    using f(1) by (simp add: leD)
  have pd: "pg_init_pgdsps ?mgr [\<lparr>seg_start = s + 112, seg_end = e, seg_flag = 0\<rparr>] = Some (True, m1, [sg])"
    unfolding m1_def sg_def by (rule one_seg_pgdsps [OF o]) simp
  have "pg_init [\<lparr>seg_start = s, seg_end = e, seg_flag = 0\<rparr>] ds l = Some (Inr (Some (s, m)))"
    unfolding pg_init_def Let_def split_beta one_seg_trimx [OF o] rx
    using one_seg_addr [OF o] blank m(1) w(2) pd by simp
  then show ?thesis using m w(2) by (intro exI [of _ m] exI [of _ fl]) simp
qed

text \<open>A small machine: four pages from \<open>0x40000000\<close>.\<close>

lemma four_pages:
  "one_seg 0x40000000 0x40400000 4" "rest_single (unat (drop_bit PG_SFT (0x40000000 :: u64))) (mgr_pages 4) 4"
proof -
  show "one_seg 0x40000000 0x40400000 4"
    unfolding one_seg_def by simp
  have m: "mgr_pages 4 = 1" by (simp add: mgr_pages_def)
  have f: "unat (drop_bit PG_SFT (0x40000000 :: u64)) = 1024" by (simp add: unat_drop)
  have "\<not> (\<exists>k\<le>PGMGR_MAXLVL. 2 ^ k dvd 1024 + x \<and> 4 < x + (2::nat) ^ k)" if x: "1 \<le> x" "x < 4" for x :: nat
  proof (intro notI, elim exE conjE)
    fix k :: nat assume k: "2 ^ k dvd 1024 + x" "4 < x + 2 ^ k"
    consider "k = 0" | "k = 1" | "2 \<le> k" by linarith
    then show False
    proof cases
      case 3
      then have "(2::nat) ^ 2 dvd 2 ^ k" by (rule le_imp_power_dvd)
      then have "4 dvd 1024 + x" using k(1) by (simp add: dvd_trans)
      then show False using x by presburger
    next
      case 1
      then show False using k x by simp
    next
      case 2
      then have "2 dvd 1024 + x" "x = 3" using k x by simp_all
      then show False by simp
    qed
  qed
  then show "rest_single (unat (drop_bit PG_SFT (0x40000000 :: u64))) (mgr_pages 4) 4"
    unfolding m f rest_single_def by blast
qed
lemma four_pages_boot:
  "\<exists>m fl. pg_init [\<lparr>seg_start = 0x40000000, seg_end = 0x40400000, seg_flag = 0\<rparr>] ds l = Some (Inr (Some (0x40000000, m))) \<and>
    pm_ok m fl {} \<and> covered (fblocks fl) = run 0 1 4 \<and>
    roots m = [\<lparr>pr_root = 0x40000070, pr_start = 0x40000000, pr_end = 0x40400000\<rparr>]"
proof -
  have "mgr_pages 4 = 1" by (simp add: mgr_pages_def)
  then show ?thesis using pg_init_one [OF four_pages, of ds l] by simp
qed

end
