(* ===== verification/Slab.thy ===== *)
theory Slab
  imports Pgmgr MathLib
begin

text \<open>
  The slab allocator of lib/include/slab.h and lib/libslab/slab.c: fixed-size objects carved out of
  whole pages. A slab's header holds the chain of free object indices, one byte per object; an
  allocator keeps the slabs with objects in use, those with room in front, and the empty ones on two
  doubly linked lists. \<open>struct SlabMgr\<close> is an array of allocators, so an allocator pointer is an index.
  The page source is a parameter, as \<open>func_alloc_page\<close> is in the code.
\<close>

section \<open>State\<close>

abbreviation (input) SLAB_OBJ_N_MAX :: nat where "SLAB_OBJ_N_MAX \<equiv> 256"
abbreviation (input) SLAB_END_PADDING_MIN :: u32 where "SLAB_END_PADDING_MIN \<equiv> 64"
abbreviation (input) SLABMGR_CAP :: u32 where "SLABMGR_CAP \<equiv> 64"
abbreviation (input) PG_SZ :: u32 where "PG_SZ \<equiv> 1048576"
abbreviation (input) sizeof_Slab :: u32 where "sizeof_Slab \<equiv> 48"

text \<open>\<open>first_free\<close> is an \<open>int16_t\<close>, \<open>-1\<close> when no object is free.\<close>

record Slab =
  magic :: "u8 list"
  sl_data :: ptr
  sl_alloc :: nat
  used_cnt :: u16
  first_free :: "16 word"
  free_list :: "nat \<Rightarrow> u8"

record SlabAlloc =
  obj_sz :: u32
  pg_sft :: u32
  obj_n :: u16
  padding_base :: u8
  padding_align :: u8
  slabs :: "ptr option"
  empty_slabs :: "ptr option"

text \<open>
  The manager, the slabs in memory, the state of the random number generator and that of the page source.
\<close>

record 'p SlabMgr =
  slab_alloc_arr :: "nat \<Rightarrow> SlabAlloc"
  slab_alloc_n :: u32
  slab_mem :: "ptr \<Rightarrow> Slab"
  slab_links :: "ptr links"
  slab_rng :: rng
  source :: 'p

definition upd_slab :: "ptr \<Rightarrow> (Slab \<Rightarrow> Slab) \<Rightarrow> 'p SlabMgr \<Rightarrow> 'p SlabMgr" where
  "upd_slab s f m = m\<lparr>slab_mem := (slab_mem m)(s := f (slab_mem m s))\<rparr>"

definition upd_alloc :: "nat \<Rightarrow> (SlabAlloc \<Rightarrow> SlabAlloc) \<Rightarrow> 'p SlabMgr \<Rightarrow> 'p SlabMgr" where
  "upd_alloc k f m = m\<lparr>slab_alloc_arr := (slab_alloc_arr m)(k := f (slab_alloc_arr m k))\<rparr>"

section \<open>Slabs\<close>

definition slab_magic :: "u8 list" where
  "slab_magic = [115, 108, 97, 98]"

definition slab_slab_set_magic :: "Slab \<Rightarrow> Slab" where
  "slab_slab_set_magic s = s\<lparr>magic := slab_magic\<rparr>"

definition slab_slab_check_magic :: "Slab \<Rightarrow> bool" where
  "slab_slab_check_magic s \<longleftrightarrow> magic s = slab_magic"

definition init_chain :: "nat \<Rightarrow> (nat \<Rightarrow> u8) \<Rightarrow> nat \<Rightarrow> u8" where
  "init_chain n f =
     (fold (\<lambda>i g. g(i := of_nat (i + 1))) [0..<n - 1] f)(n - 1 := of_nat (n - 1))"

definition slab_slab_init :: "ptr \<Rightarrow> nat \<Rightarrow> 'p SlabMgr \<Rightarrow> 'p SlabMgr res" where
  "slab_slab_init s k m =
     (let a = slab_alloc_arr m k;
          m1 = upd_slab s (\<lambda>sl. (slab_slab_set_magic sl)
                 \<lparr>sl_alloc := k, free_list := init_chain (unat (obj_n a)) (free_list sl),
                  first_free := 0, used_cnt := 0\<rparr>) m;
          m2 = m1\<lparr>slab_links := set_next s None (set_prev s None (slab_links m1))\<rparr>;
          (g, rand) = math_rand_u32 (slab_rng m2);
          al = ucast (padding_align a) :: u32
      in if al = 0 \<or> SLAB_END_PADDING_MIN div al = 0 then Inl Div_by_zero
         else
           let padding = ucast (padding_base a) + rand mod (SLAB_END_PADDING_MIN div al) * al
           in Inr (upd_slab s (\<lambda>sl. sl\<lparr>sl_data := s + ucast (obj_n a) + ucast padding\<rparr>) (m2\<lparr>slab_rng := g\<rparr>)))"

definition slab_slab_alloc :: "ptr \<Rightarrow> u32 \<Rightarrow> 'p SlabMgr \<Rightarrow> 'p SlabMgr \<times> ptr" where
  "slab_slab_alloc s flag m =
     (let sl = slab_mem m s; a = slab_alloc_arr m (sl_alloc sl) in
      if used_cnt sl \<ge> obj_n a \<or> first_free sl = - 1 then (m, NULL)
      else
        let p = sl_data sl + ucast (obj_sz a * ucast (first_free sl));
            ff = ucast (first_free sl) :: u8;
            next_free = free_list sl (unat ff)
        in (upd_slab s (\<lambda>sl. sl\<lparr>first_free := (if next_free = ff then - 1 else ucast next_free),
                               used_cnt := used_cnt sl + 1\<rparr>) m, p))"

definition slab_slab_free :: "ptr \<Rightarrow> ptr \<Rightarrow> 'p SlabMgr \<Rightarrow> 'p SlabMgr res" where
  "slab_slab_free s p m =
     (let sl = slab_mem m s; a = slab_alloc_arr m (sl_alloc sl) in
      if obj_sz a = 0 then Inl Div_by_zero
      else
        let idx = ucast ((p - sl_data sl) div ucast (obj_sz a)) :: u8;
            v = (if first_free sl = - 1 then idx else ucast (first_free sl))
        in Inr (upd_slab s (\<lambda>sl. sl\<lparr>free_list := (free_list sl)(unat idx := v),
                                   first_free := ucast idx, used_cnt := used_cnt sl - 1\<rparr>) m))"

section \<open>Creating an allocator\<close>

definition slab_alloc_calc_page_sft :: "u32 \<Rightarrow> u32" where
  "slab_alloc_calc_page_sft sz = of_nat PG_SFT"

definition slab_create_allow :: "u32 \<Rightarrow> u32 \<Rightarrow> bool" where
  "slab_create_allow sz align \<longleftrightarrow> sz \<ge> 16 \<and> sz < PG_SZ div 2"

text \<open>The search for the number of objects, from \<open>n\<close> down: the number and the padding it needs.\<close>

fun fit_objs :: "u32 \<Rightarrow> nat \<Rightarrow> nat \<Rightarrow> (nat \<times> u32) option" where
  "fit_objs sz sft 0 = None"
| "fit_objs sz sft (Suc n) =
     (let hdr = sizeof_Slab + of_nat (Suc n);
          padding = ALIGN_UP hdr sft - hdr;
          total_padding = PG_SZ - sizeof_Slab - (1 + sz) * of_nat (Suc n)
      in if total_padding \<ge> padding + SLAB_END_PADDING_MIN then Some (Suc n, padding)
         else fit_objs sz sft n)"

definition slab_alloc_init :: "SlabAlloc \<Rightarrow> u32 \<Rightarrow> u32 \<Rightarrow> SlabAlloc \<times> bool" where
  "slab_alloc_init a sz align =
     (let a1 = a\<lparr>obj_sz := sz, pg_sft := slab_alloc_calc_page_sft sz, empty_slabs := None, slabs := None\<rparr>;
          sft = unat (MSB_POS (ucast align));
          max_n = unat (ucast PG_SZ - ucast sizeof_Slab :: u64) div unat (1 + sz);
          n = (if max_n > SLAB_OBJ_N_MAX then SLAB_OBJ_N_MAX else max_n)
      in case fit_objs sz sft n of
           None \<Rightarrow> (a1, False)
         | Some (k, padding) \<Rightarrow>
             (a1\<lparr>obj_n := of_nat k, padding_align := ucast align, padding_base := ucast padding\<rparr>, True))"

definition slab_create :: "u32 \<Rightarrow> u32 \<Rightarrow> 'p SlabMgr \<Rightarrow> 'p SlabMgr \<times> nat option" where
  "slab_create sz align m =
     (if slab_alloc_n m \<ge> SLABMGR_CAP then (m, None)
      else if \<not> slab_create_allow sz align then (m, None)
      else
        let k = unat (slab_alloc_n m);
            m1 = m\<lparr>slab_alloc_n := slab_alloc_n m + 1\<rparr>;
            (a, ok) = slab_alloc_init (slab_alloc_arr m1 k) sz align
        in (upd_alloc k (\<lambda>_. a) m1, if ok then Some k else None))"

section \<open>slab_alloc, slab_free\<close>

text \<open>The list macros on \<open>alloc->slabs\<close> and \<open>alloc->empty_slabs\<close>.\<close>

definition del_slabs :: "nat \<Rightarrow> ptr \<Rightarrow> 'p SlabMgr \<Rightarrow> 'p SlabMgr res" where
  "del_slabs k s m = bindR (dl_delete (slabs (slab_alloc_arr m k)) s (slab_links m))
     (\<lambda>(h, l). Inr (upd_alloc k (\<lambda>a. a\<lparr>slabs := h\<rparr>) (m\<lparr>slab_links := l\<rparr>)))"

definition add_slabs :: "nat \<Rightarrow> ptr \<Rightarrow> 'p SlabMgr \<Rightarrow> 'p SlabMgr" where
  "add_slabs k s m =
     (let (h, l) = dl_prepend (slabs (slab_alloc_arr m k)) s (slab_links m)
      in upd_alloc k (\<lambda>a. a\<lparr>slabs := h\<rparr>) (m\<lparr>slab_links := l\<rparr>))"

definition app_slabs :: "nat \<Rightarrow> ptr \<Rightarrow> 'p SlabMgr \<Rightarrow> 'p SlabMgr res" where
  "app_slabs k s m = bindR (dl_append (slabs (slab_alloc_arr m k)) s (slab_links m))
     (\<lambda>(h, l). Inr (upd_alloc k (\<lambda>a. a\<lparr>slabs := h\<rparr>) (m\<lparr>slab_links := l\<rparr>)))"

definition del_empty :: "nat \<Rightarrow> ptr \<Rightarrow> 'p SlabMgr \<Rightarrow> 'p SlabMgr res" where
  "del_empty k s m = bindR (dl_delete (empty_slabs (slab_alloc_arr m k)) s (slab_links m))
     (\<lambda>(h, l). Inr (upd_alloc k (\<lambda>a. a\<lparr>empty_slabs := h\<rparr>) (m\<lparr>slab_links := l\<rparr>)))"

definition add_empty :: "nat \<Rightarrow> ptr \<Rightarrow> 'p SlabMgr \<Rightarrow> 'p SlabMgr" where
  "add_empty k s m =
     (let (h, l) = dl_prepend (empty_slabs (slab_alloc_arr m k)) s (slab_links m)
      in upd_alloc k (\<lambda>a. a\<lparr>empty_slabs := h\<rparr>) (m\<lparr>slab_links := l\<rparr>))"

text \<open>A slab with room, at the front of \<open>slabs\<close>; \<open>None\<close> if there is no page for a new one.\<close>

definition slab_with_room ::
  "(u8 \<Rightarrow> u16 \<Rightarrow> 'p \<Rightarrow> ('p \<times> ptr) res) \<Rightarrow> nat \<Rightarrow> 'p SlabMgr \<Rightarrow> ('p SlabMgr \<times> ptr option) res" where
  "slab_with_room func_alloc_page k m =
     (let a = slab_alloc_arr m k;
          room = (case slabs a of None \<Rightarrow> False | Some s \<Rightarrow> used_cnt (slab_mem m s) \<noteq> obj_n a)
      in if room then Inr (m, slabs a)
         else case empty_slabs a of
           Some s \<Rightarrow> bindR (del_empty k s m) (\<lambda>m1. Inr (add_slabs k s m1, Some s))
         | None \<Rightarrow>
             bindR (func_alloc_page (ucast (pg_sft a)) 0 (source m)) (\<lambda>(p', s).
             let m1 = m\<lparr>source := p'\<rparr> in
             if s = NULL then Inr (m1, None)
             else bindR (slab_slab_init s k m1) (\<lambda>m2. Inr (add_slabs k s m2, Some s))))"

definition slab_alloc ::
  "(u8 \<Rightarrow> u16 \<Rightarrow> 'p \<Rightarrow> ('p \<times> ptr) res) \<Rightarrow> nat \<Rightarrow> u32 \<Rightarrow> 'p SlabMgr \<Rightarrow> ('p SlabMgr \<times> ptr) res" where
  "slab_alloc func_alloc_page k flag m =
     bindR (slab_with_room func_alloc_page k m) (\<lambda>(m1, so).
     case so of
       None \<Rightarrow> Inr (m1, NULL)
     | Some s \<Rightarrow>
         let (m2, addr) = slab_slab_alloc s flag m1 in
         if used_cnt (slab_mem m2 s) = obj_n (slab_alloc_arr m2 k) then
           bindR (del_slabs k s m2) (\<lambda>m3. bindR (app_slabs k s m3) (\<lambda>m4. Inr (m4, addr)))
         else Inr (m2, addr))"

definition slab_free :: "nat \<Rightarrow> ptr \<Rightarrow> 'p SlabMgr \<Rightarrow> 'p SlabMgr res" where
  "slab_free k p m =
     (let s = ALIGN_DOWN p (unat (pg_sft (slab_alloc_arr m k))) in
      if \<not> slab_slab_check_magic (slab_mem m s) then Inr m
      else bindR (slab_slab_free s p m) (\<lambda>m1.
        if used_cnt (slab_mem m1 s) = 0 then
          bindR (del_slabs k s m1) (\<lambda>m2. Inr (add_empty k s m2))
        else if Some s \<noteq> slabs (slab_alloc_arr m1 k) then
          bindR (del_slabs k s m1) (\<lambda>m2. Inr (add_slabs k s m2))
        else Inr m1))"

section \<open>The chain of free objects\<close>

fun chained :: "(nat \<Rightarrow> u8) \<Rightarrow> nat list \<Rightarrow> bool" where
  "chained f [] = True"
| "chained f [x] = (f x = of_nat x)"
| "chained f (x # y # zs) = (f x = of_nat y \<and> chained f (y # zs))"

text \<open>The free objects of a slab of \<open>n\<close> objects are \<open>c\<close>, in the order in which they are handed out.\<close>

definition slab_chain :: "nat \<Rightarrow> Slab \<Rightarrow> nat list \<Rightarrow> bool" where
  "slab_chain n sl c \<longleftrightarrow>
     distinct c \<and> set c \<subseteq> {..<n} \<and> unat (used_cnt sl) + length c = n \<and>
     first_free sl = (case c of [] \<Rightarrow> - 1 | i # _ \<Rightarrow> of_nat i) \<and> chained (free_list sl) c"

lemma chained_cong: "(\<And>x. x \<in> set c \<Longrightarrow> f x = g x) \<Longrightarrow> chained f c = chained g c"
  by (induction f c rule: chained.induct) auto

lemma u8_small: "i < 256 \<Longrightarrow> unat (of_nat i :: u8) = i"
  by (simp add: unat_of_nat_small)

lemma u8_inj: "i < 256 \<Longrightarrow> j < 256 \<Longrightarrow> (of_nat i :: u8) = of_nat j \<longleftrightarrow> i = j"
  by (metis u8_small)

lemma ucast_of_nat_u16: "i < 256 \<Longrightarrow> (ucast (of_nat i :: 16 word) :: u8) = of_nat i"
  by (simp add: word_unat_eq_iff unsigned_ucast_eq u8_small unat_of_nat_small take_bit_nat_eq_self)

lemma ucast_of_nat_u64: "i < 256 \<Longrightarrow> (ucast (of_nat i :: u64) :: u8) = of_nat i"
  by (simp add: word_unat_eq_iff unsigned_ucast_eq u8_small unat_of_nat_small take_bit_nat_eq_self)

lemma ucast_of_nat_u8: "i < 256 \<Longrightarrow> (ucast (of_nat i :: u8) :: 16 word) = of_nat i"
  by (simp add: word_unat_eq_iff unsigned_ucast_eq u8_small unat_of_nat_small take_bit_nat_eq_self)

lemma of_nat_not_minus1: "i < 256 \<Longrightarrow> (of_nat i :: 16 word) \<noteq> - 1"
proof
  assume i: "i < 256" "(of_nat i :: 16 word) = - 1"
  have "unat (of_nat i :: 16 word) = i" using i(1) by (simp add: unat_of_nat_small)
  moreover have "unat (- 1 :: 16 word) = 65535" by (simp add: unsigned_minus_1_eq_mask mask_eq_exp_minus_1)
  ultimately show False using i by simp
qed

text \<open>A fresh slab has all objects on its chain, in order.\<close>

lemma init_chain_fold:
  "fold (\<lambda>i g. g(i := of_nat (i + 1))) [0..<k] f = (\<lambda>i. if i < k then of_nat (i + 1) else f i)"
  by (induction k) auto

lemma init_chain_chained:
  assumes n: "0 < n"
  shows "chained (init_chain n f) [0..<n]"
proof -
  have ic: "init_chain n f i = (if i = n - 1 then of_nat (n - 1) else of_nat (i + 1))" if "i < n" for i
    unfolding init_chain_def init_chain_fold using that by auto
  have "chained (init_chain n f) [i..<n]" if "i < n" for i
    using that
  proof (induction "n - i" arbitrary: i)
    case 0
    then show ?case by simp
  next
    case (Suc k)
    show ?case
    proof (cases "Suc i < n")
      case True
      then have "[i..<n] = i # Suc i # [Suc (Suc i)..<n]" by (simp add: upt_conv_Cons)
      moreover have "chained (init_chain n f) [Suc i..<n]" using Suc True by simp
      ultimately show ?thesis using True ic [of i] by (simp add: upt_conv_Cons)
    next
      case False
      then have "[i..<n] = [i]" "i = n - 1" using Suc.prems by (simp_all add: upt_conv_Cons)
      then show ?thesis using ic [of i] Suc.prems by simp
    qed
  qed
  then show ?thesis using n by blast
qed

lemma chain_alloc:
  assumes c: "slab_chain n sl (i # c)" and n: "n \<le> 256"
  defines "ff \<equiv> ucast (first_free sl) :: u8"
  defines "nf \<equiv> free_list sl (unat ff)"
  shows "unat ff = i" "first_free sl \<noteq> - 1" "unat (used_cnt sl) < n"
    "slab_chain n (sl\<lparr>first_free := (if nf = ff then - 1 else ucast nf), used_cnt := used_cnt sl + 1\<rparr>) c"
proof -
  have i: "i < n" "first_free sl = of_nat i" "distinct (i # c)" "set c \<subseteq> {..<n}"
     "unat (used_cnt sl) + Suc (length c) = n" "chained (free_list sl) (i # c)"
    using c by (auto simp: slab_chain_def)
  have i256: "i < 256" using i(1) n by simp
  have ff: "ff = of_nat i" unfolding ff_def i(2) by (rule ucast_of_nat_u16 [OF i256])
  show u: "unat ff = i" unfolding ff by (rule u8_small [OF i256])
  show "first_free sl \<noteq> - 1" unfolding i(2) by (rule of_nat_not_minus1 [OF i256])
  show "unat (used_cnt sl) < n" using i(5) by simp
  have uc: "unat (used_cnt sl + 1) = Suc (unat (used_cnt sl))"
    using i(5) n by (subst unat_add_no_wrap) simp_all
  have nf: "(if nf = ff then - 1 else ucast nf) = (case c of [] \<Rightarrow> - 1 | j # _ \<Rightarrow> (of_nat j :: 16 word))"
  proof (cases c)
    case Nil
    then show ?thesis using i(6) ff u by (simp add: nf_def)
  next
    case (Cons j c')
    then have nfj: "nf = of_nat j" using i(6) u by (simp add: nf_def)
    have j: "j < 256" "j \<noteq> i" using i(3,4) Cons n by auto
    then have "nf \<noteq> ff" using i256 by (simp add: nfj ff u8_inj)
    then show ?thesis using Cons nfj ucast_of_nat_u8 [OF j(1)] by simp
  qed
  have "chained (free_list sl) c" using i(6) by (cases c) auto
  then show "slab_chain n (sl\<lparr>first_free := (if nf = ff then - 1 else ucast nf), used_cnt := used_cnt sl + 1\<rparr>) c"
    using i nf uc by (simp add: slab_chain_def)
qed

lemma chain_free:
  assumes c: "slab_chain n sl c" and n: "n \<le> 256" and i: "i < n" "i \<notin> set c"
  defines "v \<equiv> if first_free sl = - 1 then of_nat i else ucast (first_free sl) :: u8"
  shows "slab_chain n (sl\<lparr>free_list := (free_list sl)(i := v), first_free := of_nat i,
                         used_cnt := used_cnt sl - 1\<rparr>) (i # c)"
    "0 < unat (used_cnt sl)"
proof -
  have s: "distinct c" "set c \<subseteq> {..<n}" "unat (used_cnt sl) + length c = n"
    "first_free sl = (case c of [] \<Rightarrow> - 1 | i # _ \<Rightarrow> of_nat i)" "chained (free_list sl) c"
    using c by (auto simp: slab_chain_def)
  have "card (insert i (set c)) \<le> card {..<n}" using s(2) i by (intro card_mono) auto
  then have lc: "length c < n" using i s(1) by (simp add: distinct_card)
  then show u: "0 < unat (used_cnt sl)" using s(3) by simp
  then have "unat (used_cnt sl - 1) = unat (used_cnt sl) - 1"
    by (subst unat_sub_no_wrap) (simp_all add: word_le_nat_alt)
  moreover have "chained ((free_list sl)(i := v)) (i # c)"
  proof (cases c)
    case Nil
    then show ?thesis using s(4) by (simp add: v_def)
  next
    case (Cons j c')
    then have j: "first_free sl = of_nat j" "j < 256" using s(2,4) n by auto
    then have "v = of_nat j" using of_nat_not_minus1 ucast_of_nat_u16 by (simp add: v_def)
    moreover have "chained ((free_list sl)(i := v)) c"
      using s(5) i(2) by (subst chained_cong [of c _ "free_list sl"]) auto
    ultimately show ?thesis using Cons by simp
  qed
  ultimately show "slab_chain n (sl\<lparr>free_list := (free_list sl)(i := v), first_free := of_nat i,
                         used_cnt := used_cnt sl - 1\<rparr>) (i # c)"
    using s i u lc by (simp add: slab_chain_def)
qed

section \<open>Well-formed allocators\<close>

abbreviation (input) n_objs :: "SlabAlloc \<Rightarrow> nat" where "n_objs a \<equiv> unat (obj_n a)"
abbreviation (input) obj_bytes :: "SlabAlloc \<Rightarrow> nat" where "obj_bytes a \<equiv> unat (obj_sz a)"

text \<open>The layout of a slab fits into a page, whatever padding the random number gives.\<close>

definition alloc_ok :: "SlabAlloc \<Rightarrow> bool" where
  "alloc_ok a \<longleftrightarrow>
     pg_sft a = of_nat PG_SFT \<and> 0 < n_objs a \<and> n_objs a \<le> SLAB_OBJ_N_MAX \<and> 0 < obj_bytes a \<and>
     0 < unat (padding_align a) \<and> unat (padding_align a) \<le> 64 \<and>
     n_objs a + unat (padding_base a) + 64 + obj_bytes a * n_objs a \<le> 2 ^ PG_SFT"

definition slab_ok :: "SlabAlloc \<Rightarrow> nat \<Rightarrow> ptr \<Rightarrow> Slab \<Rightarrow> nat list \<Rightarrow> bool" where
  "slab_ok a k s sl c \<longleftrightarrow>
     take_bit PG_SFT s = 0 \<and> magic sl = slab_magic \<and> sl_alloc sl = k \<and> slab_chain (n_objs a) sl c \<and>
     (\<exists>d > 0. sl_data sl = s + of_nat d \<and> d + obj_bytes a * n_objs a \<le> 2 ^ PG_SFT)"

definition obj_ptr :: "SlabAlloc \<Rightarrow> Slab \<Rightarrow> nat \<Rightarrow> ptr" where
  "obj_ptr a sl i = sl_data sl + of_nat (obj_bytes a * i)"

lemma lists_irrelevant [simp]:
  "alloc_ok (a\<lparr>slabs := h\<rparr>) = alloc_ok a" "alloc_ok (a\<lparr>empty_slabs := h\<rparr>) = alloc_ok a"
  "slab_ok (a\<lparr>slabs := h\<rparr>) = slab_ok a" "slab_ok (a\<lparr>empty_slabs := h\<rparr>) = slab_ok a"
  "obj_ptr (a\<lparr>slabs := h\<rparr>) = obj_ptr a" "obj_ptr (a\<lparr>empty_slabs := h\<rparr>) = obj_ptr a"
  by (simp_all add: alloc_ok_def slab_ok_def obj_ptr_def fun_eq_iff)

text \<open>The objects in use.\<close>

definition objs_of :: "SlabAlloc \<Rightarrow> Slab \<Rightarrow> nat list \<Rightarrow> ptr set" where
  "objs_of a sl c = obj_ptr a sl ` ({..<n_objs a} - set c)"

lemma objs_of_lists [simp]:
  "objs_of (a\<lparr>slabs := h\<rparr>) = objs_of a" "objs_of (a\<lparr>empty_slabs := h\<rparr>) = objs_of a"
  by (simp_all add: objs_of_def fun_eq_iff)

definition slab_live :: "'p SlabMgr \<Rightarrow> nat \<Rightarrow> ptr list \<Rightarrow> (ptr \<Rightarrow> nat list) \<Rightarrow> ptr set" where
  "slab_live m k xs C = (\<Union>s\<in>set xs. objs_of (slab_alloc_arr m k) (slab_mem m s) (C s))"

text \<open>
  Allocator \<open>k\<close>: \<open>xs\<close> are the slabs in use, those with room first, \<open>ys\<close> the empty ones, \<open>C s\<close> the free
  objects of slab \<open>s\<close>.
\<close>

definition room_first :: "ptr list \<Rightarrow> (ptr \<Rightarrow> nat list) \<Rightarrow> bool" where
  "room_first xs C \<longleftrightarrow> (\<forall>s\<in>set (dropWhile (\<lambda>s. C s \<noteq> []) xs). C s = [])"

lemma room_first_Cons: "C s \<noteq> [] \<Longrightarrow> room_first (s # zs) C \<longleftrightarrow> room_first zs C"
  by (simp add: room_first_def)

lemma room_first_Cons_full: "C s = [] \<Longrightarrow> room_first (s # zs) C \<longleftrightarrow> (\<forall>t\<in>set zs. C t = [])"
  by (simp add: room_first_def)

lemma room_first_Nil: "room_first [] C"
  by (simp add: room_first_def)

lemma room_first_full: "\<forall>t\<in>set xs. C t = [] \<Longrightarrow> room_first xs C"
  by (cases xs) (simp_all add: room_first_Nil room_first_Cons_full)

lemma room_first_cong: "\<forall>t\<in>set zs. C t = D t \<Longrightarrow> room_first zs C \<longleftrightarrow> room_first zs D"
proof (induction zs)
  case (Cons z zs)
  then have "C z = D z" "room_first zs C \<longleftrightarrow> room_first zs D"
    "(\<forall>t\<in>set zs. C t = []) \<longleftrightarrow> (\<forall>t\<in>set zs. D t = [])" by auto
  then show ?case by (cases "C z = []") (simp_all add: room_first_Cons room_first_Cons_full)
qed (simp add: room_first_Nil)

lemma room_first_snoc: "room_first zs C \<Longrightarrow> C s = [] \<Longrightarrow> room_first (zs @ [s]) C"
proof (induction zs)
  case (Cons z zs)
  then show ?case by (cases "C z = []") (simp_all add: room_first_Cons room_first_Cons_full)
qed (simp add: room_first_Cons_full)

lemma room_first_remove1: "room_first zs C \<Longrightarrow> room_first (remove1 s zs) C"
proof (induction zs)
  case (Cons z zs)
  then show ?case
    by (cases "C z = []"; cases "z = s")
      (auto simp: room_first_Cons room_first_Cons_full intro: room_first_full dest: notin_set_remove1)
qed (simp add: room_first_Nil)

definition slab_base :: "'p SlabMgr \<Rightarrow> nat \<Rightarrow> ptr list \<Rightarrow> ptr list \<Rightarrow> (ptr \<Rightarrow> nat list) \<Rightarrow> bool" where
  "slab_base m k xs ys C \<longleftrightarrow>
     alloc_ok (slab_alloc_arr m k) \<and>
     two_lists (slab_links m) (slabs (slab_alloc_arr m k)) (empty_slabs (slab_alloc_arr m k)) xs ys \<and>
     (\<forall>s\<in>set xs \<union> set ys. slab_ok (slab_alloc_arr m k) k s (slab_mem m s) (C s))"

definition slab_used :: "'p SlabMgr \<Rightarrow> nat \<Rightarrow> ptr list \<Rightarrow> ptr list \<Rightarrow> (ptr \<Rightarrow> nat list) \<Rightarrow> bool" where
  "slab_used m k xs ys C \<longleftrightarrow>
     (\<forall>s\<in>set xs. length (C s) < n_objs (slab_alloc_arr m k)) \<and>
     (\<forall>s\<in>set ys. length (C s) = n_objs (slab_alloc_arr m k)) \<and> room_first xs C"

lemma page_off:
  fixes s :: ptr
  assumes "take_bit PG_SFT s = 0" "d < 2 ^ PG_SFT"
  shows "unat (s + of_nat d) = unat s + d" "ALIGN_DOWN (s + of_nat d) PG_SFT = s"
proof -
  obtain q where q: "unat s = 2 ^ PG_SFT * q" using aligned_unat [OF assms(1)] by blast
  have "2 ^ PG_SFT * q < 2 ^ PG_SFT * 2 ^ 44" using unat_lt_bounds(4) [of s] unfolding q by simp
  then have "Suc q \<le> 2 ^ 44" by simp
  then have "2 ^ PG_SFT * Suc q \<le> 2 ^ PG_SFT * 2 ^ 44" by (rule mult_le_mono2)
  then have lim: "unat s + d < 2 ^ 64" using assms(2) by (simp add: q)
  have "unat (of_nat d :: u64) = d" using assms(2) by (intro unat_of_nat_small) simp
  then show u: "unat (s + of_nat d) = unat s + d" using lim by (subst unat_add_no_wrap) simp_all
  have "(unat s + d) div 2 ^ PG_SFT = q" using assms(2) by (simp add: q)
  then have "unat (ALIGN_DOWN (s + of_nat d) PG_SFT) = unat s"
    by (simp only: unat_ALIGN_DOWN u q) simp
  then show "ALIGN_DOWN (s + of_nat d) PG_SFT = s" by (simp add: word_unat_eq_iff)
qed

lemma obj_ptr_facts:
  assumes ok: "slab_ok a k s sl c" and i: "i < n_objs a" and b: "0 < obj_bytes a"
  shows "ALIGN_DOWN (obj_ptr a sl i) PG_SFT = s" "obj_ptr a sl i \<noteq> NULL"
    "(obj_ptr a sl i - sl_data sl) div ucast (obj_sz a) = of_nat i"
    "j < n_objs a \<Longrightarrow> obj_ptr a sl i = obj_ptr a sl j \<Longrightarrow> i = j"
proof -
  obtain d where d: "0 < d" "sl_data sl = s + of_nat d" "d + obj_bytes a * n_objs a \<le> 2 ^ PG_SFT"
    and al: "take_bit PG_SFT s = 0" using ok by (auto simp: slab_ok_def)
  have off: "d + obj_bytes a * j < 2 ^ PG_SFT" if "j < n_objs a" for j
  proof -
    have "obj_bytes a * j < obj_bytes a * n_objs a" using that b by simp
    then show ?thesis using d(3) by linarith
  qed
  have p: "obj_ptr a sl j = s + of_nat (d + obj_bytes a * j)" for j by (simp add: obj_ptr_def d(2))
  note o = page_off [OF al off]
  show "ALIGN_DOWN (obj_ptr a sl i) PG_SFT = s" unfolding p by (rule o(2) [OF i])
  have "unat (obj_ptr a sl i) \<noteq> 0" unfolding p o(1) [OF i] using d(1) by simp
  then show "obj_ptr a sl i \<noteq> NULL" by (metis unat_0)
  show "j < n_objs a \<Longrightarrow> obj_ptr a sl i = obj_ptr a sl j \<Longrightarrow> i = j"
    using o(1) [OF i] o(1) [of j] b unfolding p by (metis add_left_cancel mult_cancel1 not_less_zero)
  have "unat (of_nat (obj_bytes a * i) :: u64) = obj_bytes a * i"
    using off [OF i] by (intro unat_of_nat_small) simp
  moreover have "unat (ucast (obj_sz a) :: u64) = obj_bytes a" by (rule unat_ucast_up) simp
  moreover have "i < 65536" by (rule less_trans [OF i]) (rule unat_lt_bounds)
  then have "unat (of_nat i :: u64) = i" by (intro unat_of_nat_small) simp
  ultimately show "(obj_ptr a sl i - sl_data sl) div ucast (obj_sz a) = of_nat i"
    using b by (simp add: obj_ptr_def word_unat_eq_iff unat_div del: of_nat_mult)
qed

text \<open>Objects of different slabs are different.\<close>

lemma objs_of_page:
  "slab_ok a k s sl c \<Longrightarrow> 0 < obj_bytes a \<Longrightarrow> p \<in> objs_of a sl c \<Longrightarrow> ALIGN_DOWN p PG_SFT = s"
  using obj_ptr_facts(1) by (auto simp: objs_of_def)

section \<open>One object\<close>

lemma slab_base_slab:
  "slab_base m k xs ys C \<Longrightarrow> s \<in> set xs \<union> set ys \<Longrightarrow> slab_ok (slab_alloc_arr m k) k s (slab_mem m s) (C s)"
  by (auto simp: slab_base_def)

lemma slab_base_alloc:
  assumes "slab_base m k xs ys C"
  shows "0 < obj_bytes (slab_alloc_arr m k)" "n_objs (slab_alloc_arr m k) \<le> 256"
    "0 < n_objs (slab_alloc_arr m k)" "alloc_ok (slab_alloc_arr m k)"
  using assms by (auto simp: slab_base_def alloc_ok_def)

text \<open>Changing the header of one slab.\<close>

lemma slab_base_upd:
  assumes b: "slab_base m k xs ys C" and ok: "slab_ok (slab_alloc_arr m k) k s (f (slab_mem m s)) c"
  shows "slab_base (upd_slab s f m) k xs ys (C(s := c))"
  using b ok by (auto simp: slab_base_def upd_slab_def)

lemma slab_live_upd:
  assumes s: "s \<in> set xs"
  shows "slab_live (upd_slab s f m) k xs (C(s := c)) =
    objs_of (slab_alloc_arr m k) (f (slab_mem m s)) c \<union> (\<Union>t\<in>set xs - {s}. objs_of (slab_alloc_arr m k) (slab_mem m t) (C t))"
  using s by (auto simp: slab_live_def upd_slab_def split: if_splits)

lemma slab_live_split:
  assumes s: "s \<in> set xs"
  shows "slab_live m k xs C =
    objs_of (slab_alloc_arr m k) (slab_mem m s) (C s) \<union> (\<Union>t\<in>set xs - {s}. objs_of (slab_alloc_arr m k) (slab_mem m t) (C t))"
  using s by (auto simp: slab_live_def)

lemma live_elsewhere:
  assumes b: "slab_base m k xs ys C" and s: "s \<in> set xs" and i: "i < n_objs (slab_alloc_arr m k)"
  shows "obj_ptr (slab_alloc_arr m k) (slab_mem m s) i \<notin>
    (\<Union>t\<in>set xs - {s}. objs_of (slab_alloc_arr m k) (slab_mem m t) (C t))"
proof
  let ?a = "slab_alloc_arr m k" and ?p = "obj_ptr (slab_alloc_arr m k) (slab_mem m s) i"
  assume "?p \<in> (\<Union>t\<in>set xs - {s}. objs_of ?a (slab_mem m t) (C t))"
  then obtain t where t: "t \<in> set xs" "t \<noteq> s" "?p \<in> objs_of ?a (slab_mem m t) (C t)" by blast
  have "ALIGN_DOWN ?p PG_SFT = t"
    using objs_of_page [OF slab_base_slab [OF b] slab_base_alloc(1) [OF b] t(3)] t(1) by simp
  moreover have "ALIGN_DOWN ?p PG_SFT = s"
    using obj_ptr_facts(1) [OF slab_base_slab [OF b] i slab_base_alloc(1) [OF b]] s by simp
  ultimately show False using t(2) by simp
qed

lemma objs_of_take:
  assumes ok: "slab_ok a k s sl (i # c)" and b: "0 < obj_bytes a" and d: "sl_data sl' = sl_data sl"
  shows "objs_of a sl' c = insert (obj_ptr a sl i) (objs_of a sl (i # c))" "obj_ptr a sl i \<notin> objs_of a sl (i # c)"
proof -
  have i: "i < n_objs a" "i \<notin> set c" using ok by (auto simp: slab_ok_def slab_chain_def)
  have p: "obj_ptr a sl' = obj_ptr a sl" using d by (intro ext) (simp add: obj_ptr_def)
  show "objs_of a sl' c = insert (obj_ptr a sl i) (objs_of a sl (i # c))"
    using i by (auto simp: objs_of_def p)
  show "obj_ptr a sl i \<notin> objs_of a sl (i # c)"
    using obj_ptr_facts(4) [OF ok i(1) b] by (auto simp: objs_of_def)
qed

lemma slab_slab_alloc_ok:
  assumes base: "slab_base m k xs ys C" and s: "s \<in> set xs" and c: "C s = i # c"
  shows "\<exists>m'. slab_slab_alloc s flag m = (m', obj_ptr (slab_alloc_arr m k) (slab_mem m s) i) \<and>
     slab_base m' k xs ys (C(s := c)) \<and> slab_alloc_arr m' = slab_alloc_arr m \<and> source m' = source m \<and>
     slab_live m' k xs (C(s := c)) =
       insert (obj_ptr (slab_alloc_arr m k) (slab_mem m s) i) (slab_live m k xs C) \<and>
     obj_ptr (slab_alloc_arr m k) (slab_mem m s) i \<notin> slab_live m k xs C \<and>
     (used_cnt (slab_mem m' s) = obj_n (slab_alloc_arr m' k) \<longleftrightarrow> c = [])"
proof -
  let ?a = "slab_alloc_arr m k" and ?sl = "slab_mem m s"
  have ok: "slab_ok ?a k s ?sl (i # c)" using slab_base_slab [OF base, of s] s c by simp
  have n: "n_objs ?a \<le> 256" and ob: "0 < obj_bytes ?a" using slab_base_alloc [OF base] by auto
  have ch: "slab_chain (n_objs ?a) ?sl (i # c)" and k: "sl_alloc ?sl = k" using ok by (auto simp: slab_ok_def)
  have i: "i < n_objs ?a" "first_free ?sl = of_nat i" using ch by (auto simp: slab_chain_def)
  obtain d where d: "d + obj_bytes ?a * n_objs ?a \<le> 2 ^ PG_SFT" using ok by (auto simp: slab_ok_def)
  note ca = chain_alloc [OF ch n]
  let ?ff = "ucast (first_free ?sl) :: u8"
  let ?f = "\<lambda>sl. sl\<lparr>first_free := (if free_list ?sl (unat ?ff) = ?ff then - 1 else ucast (free_list ?sl (unat ?ff))),
                    used_cnt := used_cnt sl + 1\<rparr>"
  have "ucast (obj_sz ?a * ucast (first_free ?sl)) = (of_nat (obj_bytes ?a * i) :: u64)"
  proof -
    have "obj_bytes ?a * i \<le> obj_bytes ?a * n_objs ?a" using i(1) by simp
    then have "obj_bytes ?a * i \<le> 2 ^ PG_SFT" using d by linarith
    then have lim: "obj_bytes ?a * i < 2 ^ 32" by simp
    have "unat (ucast (first_free ?sl) :: u32) = i"
      using i n by (subst unat_ucast_up) (simp_all add: unat_of_nat_small)
    then have "unat (obj_sz ?a * ucast (first_free ?sl)) = obj_bytes ?a * i"
      using lim by (simp add: unat_word_ariths)
    then have "unat (ucast (obj_sz ?a * ucast (first_free ?sl)) :: u64) = obj_bytes ?a * i"
      by (subst unat_ucast_up) simp_all
    moreover have "unat (of_nat (obj_bytes ?a * i) :: u64) = obj_bytes ?a * i"
      using lim by (intro unat_of_nat_small) simp
    ultimately show ?thesis by (simp only: word_unat_eq_iff)
  qed
  moreover have "\<not> used_cnt ?sl \<ge> obj_n ?a" using ca(3) by (simp add: word_le_nat_alt)
  ultimately have op: "slab_slab_alloc s flag m = (upd_slab s ?f m, obj_ptr ?a ?sl i)"
    using ca(2) k by (simp add: slab_slab_alloc_def Let_def obj_ptr_def del: of_nat_mult)
  have ok': "slab_ok ?a k s (?f ?sl) c" using ok ca(4) by (simp add: slab_ok_def)
  have base': "slab_base (upd_slab s ?f m) k xs ys (C(s := c))" by (rule slab_base_upd [where f = ?f, OF base ok'])
  have ot: "objs_of ?a (?f ?sl) c = insert (obj_ptr ?a ?sl i) (objs_of ?a ?sl (i # c))"
    "obj_ptr ?a ?sl i \<notin> objs_of ?a ?sl (i # c)" by (rule objs_of_take [OF ok ob]; simp)+
  have live: "slab_live (upd_slab s ?f m) k xs (C(s := c)) = insert (obj_ptr ?a ?sl i) (slab_live m k xs C)"
    unfolding slab_live_upd [OF s] slab_live_split [OF s, of m k C] ot(1) c by blast
  have new: "obj_ptr ?a ?sl i \<notin> slab_live m k xs C"
    unfolding slab_live_split [OF s, of m k C] using ot(2) live_elsewhere [OF base s i(1)] c by auto
  have "unat (used_cnt (?f ?sl)) + length c = n_objs ?a" using ok' by (simp add: slab_ok_def slab_chain_def)
  then have "used_cnt (?f ?sl) = obj_n ?a \<longleftrightarrow> c = []" by (auto simp: word_unat_eq_iff)
  then show ?thesis
    using op base' live new by (intro exI [of _ "upd_slab s ?f m"]) (simp add: upd_slab_def)
qed

lemma slab_slab_free_ok:
  assumes base: "slab_base m k xs ys C" and s: "s \<in> set xs" and p: "p \<in> objs_of (slab_alloc_arr m k) (slab_mem m s) (C s)"
  shows "\<exists>m' i. slab_slab_free s p m = Inr m' \<and> slab_base m' k xs ys (C(s := i # C s)) \<and>
     slab_alloc_arr m' = slab_alloc_arr m \<and> source m' = source m \<and>
     slab_live m' k xs (C(s := i # C s)) = slab_live m k xs C - {p} \<and>
     length (i # C s) \<le> n_objs (slab_alloc_arr m k)"
proof -
  let ?a = "slab_alloc_arr m k" and ?sl = "slab_mem m s"
  have ok: "slab_ok ?a k s ?sl (C s)" using slab_base_slab [OF base, of s] s by simp
  have n: "n_objs ?a \<le> 256" and ob: "0 < obj_bytes ?a" using slab_base_alloc [OF base] by auto
  have ch: "slab_chain (n_objs ?a) ?sl (C s)" and k: "sl_alloc ?sl = k" using ok by (auto simp: slab_ok_def)
  obtain i where i: "i < n_objs ?a" "i \<notin> set (C s)" "p = obj_ptr ?a ?sl i" using p by (auto simp: objs_of_def)
  let ?v = "if first_free ?sl = - 1 then of_nat i else ucast (first_free ?sl) :: u8"
  let ?f = "\<lambda>sl. sl\<lparr>free_list := (free_list sl)(i := ?v), first_free := of_nat i, used_cnt := used_cnt sl - 1\<rparr>"
  note cf = chain_free [OF ch n i(1,2)]
  have i256: "i < 256" using i(1) n by simp
  have "ucast ((p - sl_data ?sl) div ucast (obj_sz ?a)) = (of_nat i :: u8)"
    unfolding i(3) obj_ptr_facts(3) [OF ok i(1) ob] by (rule ucast_of_nat_u64 [OF i256])
  then have idx: "ucast ((p - sl_data ?sl) div ucast (obj_sz ?a)) = (of_nat i :: u8)" .
  have op: "slab_slab_free s p m = Inr (upd_slab s ?f m)"
    using ob k idx u8_small [OF i256] ucast_of_nat_u8 [OF i256]
    by (auto simp: slab_slab_free_def Let_def)
  have ok': "slab_ok ?a k s (?f ?sl) (i # C s)" using ok cf(1) by (simp add: slab_ok_def)
  have base': "slab_base (upd_slab s ?f m) k xs ys (C(s := i # C s))" by (rule slab_base_upd [where f = ?f, OF base ok'])
  have d: "sl_data ?sl = sl_data (?f ?sl)" by simp
  note ot = objs_of_take [OF ok' ob d]
  have pp: "obj_ptr ?a (?f ?sl) i = p" by (simp add: i(3) obj_ptr_def)
  have "p \<notin> (\<Union>t\<in>set xs - {s}. objs_of ?a (slab_mem m t) (C t))"
    unfolding i(3) by (rule live_elsewhere [OF base s i(1)])
  then have live: "slab_live (upd_slab s ?f m) k xs (C(s := i # C s)) = slab_live m k xs C - {p}"
    unfolding slab_live_upd [OF s] slab_live_split [OF s, of m k C] using ot pp by blast
  have "length (i # C s) \<le> n_objs ?a" using ok' by (simp add: slab_ok_def slab_chain_def)
  then show ?thesis
    using op base' live by (intro exI [of _ "upd_slab s ?f m"] exI [of _ i]) (simp add: upd_slab_def)
qed

section \<open>A new slab\<close>

text \<open>The random part of the padding stays below the end padding.\<close>

lemma padding_bound:
  fixes al :: u32
  assumes al: "0 < unat al" "unat al \<le> 64"
  shows "64 div al \<noteq> 0" "unat (rand mod (64 div al) * al) \<le> 64 - unat al"
proof -
  have q: "unat (64 div al) = 64 div unat al" by (simp add: unat_div)
  have q1: "1 \<le> 64 div unat al" using al by (simp add: Suc_leI div_greater_zero_iff)
  show "64 div al \<noteq> 0" using q q1 by (metis not_one_le_zero unat_0)
  have "unat (rand mod (64 div al)) < 64 div unat al" using q q1 by (simp add: unat_mod)
  then have "Suc (unat (rand mod (64 div al))) * unat al \<le> 64 div unat al * unat al"
    by (intro mult_le_mono1) simp
  also have "\<dots> \<le> 64" by (simp add: div_times_less_eq_dividend)
  finally have b: "unat (rand mod (64 div al)) * unat al + unat al \<le> 64" by simp
  then show "unat (rand mod (64 div al) * al) \<le> 64 - unat al" by (simp add: unat_word_ariths)
qed

lemma slab_slab_init_ok:
  assumes a: "alloc_ok (slab_alloc_arr m k)" and al: "take_bit PG_SFT s = 0"
  shows "\<exists>m'. slab_slab_init s k m = Inr m' \<and> slab_alloc_arr m' = slab_alloc_arr m \<and> source m' = source m \<and>
     (\<forall>t. t \<noteq> s \<longrightarrow> slab_mem m' t = slab_mem m t) \<and> agree (- {s}) (slab_links m) (slab_links m') \<and>
     slab_ok (slab_alloc_arr m k) k s (slab_mem m' s) [0..<n_objs (slab_alloc_arr m k)]"
proof -
  let ?a = "slab_alloc_arr m k"
  let ?al = "ucast (padding_align ?a) :: u32"
  obtain g rand where rng: "math_rand_u32 (slab_rng m) = (g, rand)" by (cases "math_rand_u32 (slab_rng m)")
  have n: "0 < n_objs ?a" "n_objs ?a \<le> 256"
    and pa: "0 < unat (padding_align ?a)" "unat (padding_align ?a) \<le> 64"
    and fit: "n_objs ?a + unat (padding_base ?a) + 64 + obj_bytes ?a * n_objs ?a \<le> 2 ^ PG_SFT"
    using a by (auto simp: alloc_ok_def)
  have ual: "unat ?al = unat (padding_align ?a)" by (rule unat_ucast_up) simp
  have al0: "?al \<noteq> 0" using ual pa(1) by (metis less_numeral_extra(3) unat_0)
  note pb = padding_bound(1) [of ?al, unfolded ual, OF pa] padding_bound(2) [of ?al rand, unfolded ual, OF pa]
  define pad where "pad = ucast (padding_base ?a) + rand mod (64 div ?al) * ?al"
  have up: "unat pad = unat (padding_base ?a) + unat (rand mod (64 div ?al) * ?al)"
  proof -
    have "unat (ucast (padding_base ?a) :: u32) = unat (padding_base ?a)" by (rule unat_ucast_up) simp
    moreover have "unat (padding_base ?a) < 256" by (rule unat_lt_bounds)
    then have "unat (padding_base ?a) + unat (rand mod (64 div ?al) * ?al) < 4294967296" using pb(2) by linarith
    ultimately show ?thesis unfolding pad_def by (subst unat_add_no_wrap) simp_all
  qed
  define data where "data = s + ucast (obj_n ?a) + ucast pad"
  have dd: "data = s + of_nat (n_objs ?a + unat pad)"
    unfolding data_def ucast_of_nat_unat [of "obj_n ?a"] ucast_of_nat_unat [of pad]
    by (simp only: of_nat_add add.assoc)
  define f where "f = (\<lambda>sl. (slab_slab_set_magic sl)\<lparr>sl_alloc := k, free_list := init_chain (n_objs ?a) (free_list sl),
                  first_free := 0, used_cnt := 0, sl_data := data\<rparr>)"
  define m' where "m' = upd_slab s f (m\<lparr>slab_links := set_next s None (set_prev s None (slab_links m)), slab_rng := g\<rparr>)"
  have op: "slab_slab_init s k m = Inr m'"
    using rng al0 pb(1)
    by (simp add: slab_slab_init_def Let_def upd_slab_def m'_def f_def data_def pad_def)
  have "slab_chain (n_objs ?a) (f (slab_mem m s)) [0..<n_objs ?a]"
    using n init_chain_chained [OF n(1)] by (simp add: slab_chain_def f_def upt_conv_Cons) auto
  moreover have "n_objs ?a + unat pad + obj_bytes ?a * n_objs ?a \<le> 2 ^ PG_SFT"
    using fit up pb(2) by linarith
  then have "\<exists>d>0. data = s + of_nat d \<and> d + obj_bytes ?a * n_objs ?a \<le> 2 ^ PG_SFT"
    using dd n(1) by (intro exI [of _ "n_objs ?a + unat pad"]) simp
  ultimately have "slab_ok ?a k s (slab_mem m' s) [0..<n_objs ?a]"
    using al by (simp add: slab_ok_def m'_def upd_slab_def f_def slab_slab_set_magic_def)
  then show ?thesis
    using op by (intro exI [of _ m']) (simp add: m'_def upd_slab_def agree_def)
qed

section \<open>The allocator over a source of pages\<close>

definition slab_inv ::
  "('p \<Rightarrow> ptr set \<Rightarrow> bool) \<Rightarrow> 'p SlabMgr \<Rightarrow> nat \<Rightarrow> ptr list \<Rightarrow> ptr list \<Rightarrow> (ptr \<Rightarrow> nat list) \<Rightarrow> bool" where
  "slab_inv owns m k xs ys C \<longleftrightarrow>
     slab_base m k xs ys C \<and> slab_used m k xs ys C \<and> (\<exists>H. owns (source m) H \<and> set xs \<union> set ys \<subseteq> H)"

text \<open>The state in the middle of \<open>slab_alloc\<close>: slab \<open>s\<close>, in front, has room and may be empty.\<close>

definition slab_ready ::
  "('p \<Rightarrow> ptr set \<Rightarrow> bool) \<Rightarrow> 'p SlabMgr \<Rightarrow> nat \<Rightarrow> ptr \<Rightarrow> ptr list \<Rightarrow> ptr list \<Rightarrow> (ptr \<Rightarrow> nat list) \<Rightarrow> bool" where
  "slab_ready owns m k s zs ys C \<longleftrightarrow>
     slab_base m k (s # zs) ys C \<and> C s \<noteq> [] \<and> room_first (s # zs) C \<and>
     (\<forall>t\<in>set zs. length (C t) < n_objs (slab_alloc_arr m k)) \<and>
     (\<forall>t\<in>set ys. length (C t) = n_objs (slab_alloc_arr m k)) \<and>
     (\<exists>H. owns (source m) H \<and> set (s # zs) \<union> set ys \<subseteq> H)"

lemma chain_counts:
  assumes "slab_base m k xs ys C" "s \<in> set xs \<union> set ys"
  shows "unat (used_cnt (slab_mem m s)) + length (C s) = n_objs (slab_alloc_arr m k)"
    "distinct (C s)" "set (C s) \<subseteq> {..<n_objs (slab_alloc_arr m k)}"
  using slab_base_slab [OF assms] by (auto simp: slab_ok_def slab_chain_def)

lemma objs_of_empty:
  assumes b: "slab_base m k xs ys C" and s: "s \<in> set xs \<union> set ys" and l: "length (C s) = n_objs (slab_alloc_arr m k)"
  shows "objs_of (slab_alloc_arr m k) sl (C s) = {}"
proof -
  note c = chain_counts [OF b s]
  have "card (set (C s)) = card {..<n_objs (slab_alloc_arr m k)}" using c(2) l by (simp add: distinct_card)
  then have "set (C s) = {..<n_objs (slab_alloc_arr m k)}" using c(3) by (intro card_subset_eq) auto
  then show ?thesis by (simp add: objs_of_def)
qed

lemma slab_heads:
  assumes "slab_base m k xs ys C"
  shows "slabs (slab_alloc_arr m k) = (case xs of [] \<Rightarrow> None | x # _ \<Rightarrow> Some x)"
    "empty_slabs (slab_alloc_arr m k) = (case ys of [] \<Rightarrow> None | y # _ \<Rightarrow> Some y)"
  using assms by (auto simp: slab_base_def two_lists_def dest: dlist_head)

text \<open>If the front slab is full, or there is none, every slab in use is full.\<close>

lemma all_full:
  assumes b: "slab_base m k xs ys C" and u: "slab_used m k xs ys C"
    and nr: "\<not> (case slabs (slab_alloc_arr m k) of None \<Rightarrow> False
               | Some s \<Rightarrow> used_cnt (slab_mem m s) \<noteq> obj_n (slab_alloc_arr m k))"
  shows "\<forall>t\<in>set xs. C t = []"
proof (cases xs)
  case (Cons s zs)
  then have "unat (used_cnt (slab_mem m s)) = n_objs (slab_alloc_arr m k)" using nr slab_heads(1) [OF b] by simp
  then have "C s = []" using chain_counts(1) [OF b, of s] Cons by simp
  moreover have "room_first xs C" using u by (simp add: slab_used_def)
  ultimately show ?thesis using Cons by (simp add: room_first_Cons_full)
qed simp

lemma add_slabs_ready:
  assumes tl: "two_lists (slab_links m) (slabs (slab_alloc_arr m k)) (empty_slabs (slab_alloc_arr m k)) xs ys"
    and ao: "alloc_ok (slab_alloc_arr m k)"
    and oks: "\<forall>t\<in>set (s # xs) \<union> set ys. slab_ok (slab_alloc_arr m k) k t (slab_mem m t) (C t)"
    and full: "\<forall>t\<in>set xs. C t = []" and emp: "\<forall>t\<in>set (s # ys). length (C t) = n_objs (slab_alloc_arr m k)"
    and s: "s \<notin> set xs" "s \<notin> set ys" and own: "owns (source m) H" "set (s # xs) \<union> set ys \<subseteq> H"
  shows "slab_ready owns (add_slabs k s m) k s xs ys C"
    "slab_live (add_slabs k s m) k (s # xs) C = slab_live m k xs C"
proof -
  obtain h l where pre: "dl_prepend (slabs (slab_alloc_arr m k)) s (slab_links m) = (h, l)"
    "two_lists l h (empty_slabs (slab_alloc_arr m k)) (s # xs) ys"
    using two_lists_prepend [OF tl s] by blast
  have n: "0 < n_objs (slab_alloc_arr m k)" using ao by (simp add: alloc_ok_def)
  have base: "slab_base (add_slabs k s m) k (s # xs) ys C"
    using pre ao oks by (auto simp: slab_base_def add_slabs_def upd_alloc_def alloc_ok_def slab_ok_def)
  have "C s \<noteq> []" using emp n by auto
  then have "room_first (s # xs) C" using room_first_full [OF full] by (simp add: room_first_Cons)
  then show "slab_ready owns (add_slabs k s m) k s xs ys C"
    using base emp full n own pre by (auto simp: slab_ready_def add_slabs_def upd_alloc_def)
  have mem: "slab_mem (add_slabs k s m) = slab_mem m" using pre(1) by (simp add: add_slabs_def upd_alloc_def)
  have "objs_of (slab_alloc_arr (add_slabs k s m) k) (slab_mem m s) (C s) = {}"
    by (rule objs_of_empty [OF base]) (use emp pre in \<open>auto simp: add_slabs_def upd_alloc_def\<close>)
  moreover have "objs_of (slab_alloc_arr (add_slabs k s m) k) = objs_of (slab_alloc_arr m k)"
    using pre(1) by (intro ext) (simp add: add_slabs_def upd_alloc_def objs_of_def obj_ptr_def)
  ultimately show "slab_live (add_slabs k s m) k (s # xs) C = slab_live m k xs C"
    by (simp add: slab_live_def mem)
qed

text \<open>A slab that has just become full moves to the end of its list.\<close>

lemma rotate_full:
  assumes base: "slab_base m k (s # zs) ys C"
  shows "\<exists>m'. bindR (del_slabs k s m) (\<lambda>m1. bindR (app_slabs k s m1) (\<lambda>m2. Inr (m2, p))) = Inr (m', p) \<and>
     slab_base m' k (zs @ [s]) ys C \<and> slab_live m' k (zs @ [s]) C = slab_live m k (s # zs) C \<and>
     source m' = source m \<and> n_objs (slab_alloc_arr m' k) = n_objs (slab_alloc_arr m k)"
proof -
  let ?a = "slab_alloc_arr m k"
  have tl: "two_lists (slab_links m) (slabs ?a) (empty_slabs ?a) (s # zs) ys"
    using base by (simp add: slab_base_def)
  have sz: "s \<notin> set zs" "s \<notin> set ys" using tl by (auto simp: two_lists_def dest: dlist_distinct)
  obtain h l where del: "dl_delete (slabs ?a) s (slab_links m) = Inr (h, l)"
    "two_lists l h (empty_slabs ?a) zs ys"
    using two_lists_delete [OF tl, of s] by auto
  obtain h' l' where app: "dl_append h s l = Inr (h', l')"
    "two_lists l' h' (empty_slabs ?a) (zs @ [s]) ys"
    using two_lists_append [OF del(2) sz] by auto
  define m' where "m' = upd_alloc k (\<lambda>a. a\<lparr>slabs := h'\<rparr>)
    (upd_alloc k (\<lambda>a. a\<lparr>slabs := h\<rparr>) (m\<lparr>slab_links := l\<rparr>)\<lparr>slab_links := l'\<rparr>)"
  have "bindR (del_slabs k s m) (\<lambda>m1. bindR (app_slabs k s m1) (\<lambda>m2. Inr (m2, p))) = Inr (m', p)"
    using del(1) app(1) by (simp add: del_slabs_def app_slabs_def m'_def upd_alloc_def)
  moreover have "slab_base m' k (zs @ [s]) ys C"
    using base app(2) by (auto simp: slab_base_def m'_def upd_alloc_def alloc_ok_def slab_ok_def)
  moreover have "slab_live m' k (zs @ [s]) C = slab_live m k (s # zs) C"
    by (simp add: slab_live_def m'_def upd_alloc_def objs_of_def obj_ptr_def Un_commute)
  ultimately show ?thesis by (intro exI [of _ m']) (simp add: m'_def upd_alloc_def)
qed

context page_source
begin

lemma room_ok:
  assumes inv: "slab_inv owns m k xs ys C"
  shows "\<exists>m' so. slab_with_room alloc_page k m = Inr (m', so) \<and>
     (case so of
        None \<Rightarrow> slab_inv owns m' k xs ys C \<and> slab_live m' k xs C = slab_live m k xs C \<and>
          ys = [] \<and> (\<forall>t\<in>set xs. C t = []) \<and> (\<exists>s'. alloc_page (of_nat PG_SFT) 0 (source m) = Inr (s', NULL))
      | Some s \<Rightarrow> \<exists>zs ys' C'. slab_ready owns m' k s zs ys' C' \<and> slab_live m' k (s # zs) C' = slab_live m k xs C)"
proof -
  let ?a = "slab_alloc_arr m k"
  define room where "room = (case slabs ?a of None \<Rightarrow> False | Some s \<Rightarrow> used_cnt (slab_mem m s) \<noteq> obj_n ?a)"
  obtain H where base: "slab_base m k xs ys C" and used: "slab_used m k xs ys C"
    and own: "owns (source m) H" "set xs \<union> set ys \<subseteq> H" using inv by (auto simp: slab_inv_def)
  have ao: "alloc_ok ?a" and tl: "two_lists (slab_links m) (slabs ?a) (empty_slabs ?a) xs ys"
    and oks: "\<forall>t\<in>set xs \<union> set ys. slab_ok ?a k t (slab_mem m t) (C t)" using base by (auto simp: slab_base_def)
  show ?thesis
  proof (cases room)
    case True
    then obtain s zs where xs: "xs = s # zs" "slabs ?a = Some s" "used_cnt (slab_mem m s) \<noteq> obj_n ?a"
      using slab_heads(1) [OF base] by (auto simp: room_def split: list.splits option.splits)
    then have "C s \<noteq> []" using chain_counts(1) [OF base, of s] by (auto simp: word_unat_eq_iff)
    then have "slab_ready owns m k s zs ys C"
      using base used own xs by (auto simp: slab_ready_def slab_used_def)
    moreover have "slab_with_room alloc_page k m = Inr (m, Some s)"
      using True xs by (simp add: slab_with_room_def Let_def room_def)
    ultimately show ?thesis using xs(1) by (intro exI [of _ m] exI [of _ "Some s"]) auto
  next
    case False
    have full: "\<forall>t\<in>set xs. C t = []" by (rule all_full [OF base used]) (use False in \<open>simp add: room_def\<close>)
    show ?thesis
    proof (cases ys)
      case (Cons s ys')
      then have hd: "empty_slabs ?a = Some s" using slab_heads(2) [OF base] by simp
      have dis: "s \<notin> set ys'" "s \<notin> set xs" using tl Cons by (auto simp: two_lists_def dest: dlist_distinct)
      obtain h l where del: "dl_delete (empty_slabs ?a) s (slab_links m) = Inr (h, l)"
        "two_lists l h (slabs ?a) (remove1 s ys) xs"
        using two_lists_delete [OF tl [THEN two_lists_sym [THEN iffD1]], of s] Cons by auto
      define m1 where "m1 = upd_alloc k (\<lambda>a. a\<lparr>empty_slabs := h\<rparr>) (m\<lparr>slab_links := l\<rparr>)"
      have d: "del_empty k s m = Inr m1" using del(1) by (simp add: del_empty_def m1_def)
      have tl1: "two_lists (slab_links m1) (slabs (slab_alloc_arr m1 k)) (empty_slabs (slab_alloc_arr m1 k)) xs ys'"
        using del(2) Cons by (simp add: m1_def upd_alloc_def two_lists_sym)
      have r: "slab_ready owns (add_slabs k s m1) k s xs ys' C"
        "slab_live (add_slabs k s m1) k (s # xs) C = slab_live m1 k xs C"
        by (rule add_slabs_ready [OF tl1 _ _ full _ dis(2,1), where H = H and owns = owns];
            use ao oks used own Cons in \<open>auto simp: m1_def upd_alloc_def alloc_ok_def slab_ok_def slab_used_def\<close>)+
      have "slab_live m1 k xs C = slab_live m k xs C"
        by (simp add: m1_def upd_alloc_def slab_live_def objs_of_def obj_ptr_def)
      moreover have "slab_with_room alloc_page k m = Inr (add_slabs k s m1, Some s)"
        using False hd d by (simp add: slab_with_room_def Let_def room_def)
      ultimately show ?thesis using r by (intro exI [of _ "add_slabs k s m1"] exI [of _ "Some s"]) auto
    next
      case Nil
      then have none: "empty_slabs ?a = None" using slab_heads(2) [OF base] by simp
      have "(ucast (pg_sft ?a) :: u8) = of_nat PG_SFT" using ao by (simp add: alloc_ok_def)
      then obtain p' s where pa: "alloc_page (ucast (pg_sft ?a)) 0 (source m) = Inr (p', s)"
        "s = NULL \<and> owns p' H \<or> s \<noteq> NULL \<and> s \<notin> H \<and> take_bit PG_SFT s = 0 \<and> owns p' (insert s H)"
        using page_alloc [OF own(1), of 0] by auto
      define m1 where "m1 = m\<lparr>source := p'\<rparr>"
      show ?thesis
      proof (cases "s = NULL")
        case True
        then have "slab_with_room alloc_page k m = Inr (m1, None)"
          using False none pa(1) by (simp add: slab_with_room_def Let_def room_def m1_def)
        moreover have "slab_inv owns m1 k xs ys C"
          using base used own pa(2) True by (auto simp: m1_def slab_inv_def slab_base_def slab_used_def)
        moreover have "slab_live m1 k xs C = slab_live m k xs C" by (simp add: m1_def slab_live_def)
        moreover have "alloc_page (of_nat PG_SFT) 0 (source m) = Inr (p', NULL)"
          using pa(1) True \<open>(ucast (pg_sft ?a) :: u8) = of_nat PG_SFT\<close> by simp
        ultimately show ?thesis using Nil full by (intro exI [of _ m1] exI [of _ None]) auto
      next
        case False
        then have s: "s \<notin> H" "take_bit PG_SFT s = 0" "owns p' (insert s H)" using pa(2) by auto
        have "alloc_ok (slab_alloc_arr m1 k)" using ao by (simp add: m1_def)
        from slab_slab_init_ok [OF this s(2)]
        obtain m2 where m2: "slab_slab_init s k m1 = Inr m2" "slab_alloc_arr m2 = slab_alloc_arr m1"
          "source m2 = source m1" "\<forall>t. t \<noteq> s \<longrightarrow> slab_mem m2 t = slab_mem m1 t"
          "agree (- {s}) (slab_links m1) (slab_links m2)"
          "slab_ok (slab_alloc_arr m1 k) k s (slab_mem m2 s) [0..<n_objs (slab_alloc_arr m1 k)]" by blast
        have sx: "s \<notin> set xs" using s(1) own(2) by blast
        let ?C = "C(s := [0..<n_objs ?a])"
        have tl2: "two_lists (slab_links m2) (slabs (slab_alloc_arr m2 k)) (empty_slabs (slab_alloc_arr m2 k)) xs []"
          using two_lists_frame [OF tl agree_mono [OF m2(5) [unfolded m1_def, simplified]]] sx Nil m2(2)
          by (simp add: m1_def)
        have ao2: "alloc_ok (slab_alloc_arr m2 k)" using ao m2(2) by (simp add: m1_def)
        have oks2: "\<forall>t\<in>set (s # xs) \<union> set []. slab_ok (slab_alloc_arr m2 k) k t (slab_mem m2 t) (?C t)"
          using oks m2(2,4,6) sx by (auto simp: m1_def)
        have full2: "\<forall>t\<in>set xs. ?C t = []" using full sx by auto
        have emp2: "\<forall>t\<in>set (s # []). length (?C t) = n_objs (slab_alloc_arr m2 k)" using m2(2) by (simp add: m1_def)
        have own2: "owns (source m2) (insert s H)" "set (s # xs) \<union> set [] \<subseteq> insert s H"
          using s(3) m2(3) own(2) by (auto simp: m1_def)
        have r: "slab_ready owns (add_slabs k s m2) k s xs [] ?C"
          "slab_live (add_slabs k s m2) k (s # xs) ?C = slab_live m2 k xs ?C"
          by (rule add_slabs_ready [where C = ?C and owns = owns and m = m2 and H = "insert s H", OF tl2 ao2 oks2 full2 emp2 sx _ own2]; simp)+
        have "slab_live m2 k xs ?C = slab_live m k xs C"
          unfolding slab_live_def by (intro SUP_cong) (use m2(2,4) sx in \<open>auto simp: m1_def\<close>)
        moreover have "slab_with_room alloc_page k m = Inr (add_slabs k s m2, Some s)"
          using \<open>\<not> room\<close> False none pa(1) m2(1) by (simp add: slab_with_room_def Let_def room_def m1_def)
        ultimately show ?thesis using r by (intro exI [of _ "add_slabs k s m2"] exI [of _ "Some s"]) auto
      qed
    qed
  qed
qed

text \<open>
  Allocation returns null only when no page is left; otherwise a fresh object, the only change to the
  set of objects in use.
\<close>

lemma slab_alloc_ok:
  assumes inv: "slab_inv owns m k xs ys C"
  shows "\<exists>m' p xs' ys' C'. slab_alloc alloc_page k flag m = Inr (m', p) \<and> slab_inv owns m' k xs' ys' C' \<and>
     (if p = NULL then slab_live m' k xs' C' = slab_live m k xs C \<and>
        ys = [] \<and> (\<forall>t\<in>set xs. C t = []) \<and> (\<exists>s'. alloc_page (of_nat PG_SFT) 0 (source m) = Inr (s', NULL))
      else p \<notin> slab_live m k xs C \<and> slab_live m' k xs' C' = insert p (slab_live m k xs C))"
proof -
  obtain m1 so where r: "slab_with_room alloc_page k m = Inr (m1, so)"
     "case so of
        None \<Rightarrow> slab_inv owns m1 k xs ys C \<and> slab_live m1 k xs C = slab_live m k xs C \<and>
          ys = [] \<and> (\<forall>t\<in>set xs. C t = []) \<and> (\<exists>s'. alloc_page (of_nat PG_SFT) 0 (source m) = Inr (s', NULL))
      | Some s \<Rightarrow> \<exists>zs ys' C'. slab_ready owns m1 k s zs ys' C' \<and> slab_live m1 k (s # zs) C' = slab_live m k xs C"
    using room_ok [OF inv] by blast
  show ?thesis
  proof (cases so)
    case None
    then have "slab_alloc alloc_page k flag m = Inr (m1, NULL)" using r(1) by (simp add: slab_alloc_def)
    then show ?thesis using r(2) None unfolding option.case
      by (intro exI [of _ m1]) (rule exI [of _ NULL], rule exI [of _ xs], rule exI [of _ ys], rule exI [of _ C], auto)
  next
    case (Some s)
    then obtain zs ys' C' where ready: "slab_ready owns m1 k s zs ys' C'"
      and live1: "slab_live m1 k (s # zs) C' = slab_live m k xs C" using r(2) by auto
    then obtain H where base: "slab_base m1 k (s # zs) ys' C'" and ne: "C' s \<noteq> []" and rf: "room_first (s # zs) C'"
      and u: "\<forall>t\<in>set zs. length (C' t) < n_objs (slab_alloc_arr m1 k)"
      and f: "\<forall>t\<in>set ys'. length (C' t) = n_objs (slab_alloc_arr m1 k)"
      and own: "owns (source m1) H" "set (s # zs) \<union> set ys' \<subseteq> H" by (auto simp: slab_ready_def)
    obtain i c where c: "C' s = i # c" using ne by (cases "C' s") auto
    let ?p = "obj_ptr (slab_alloc_arr m1 k) (slab_mem m1 s) i" and ?C = "C'(s := c)"
    obtain m2 where m2: "slab_slab_alloc s flag m1 = (m2, ?p)" "slab_base m2 k (s # zs) ys' ?C"
      "slab_alloc_arr m2 = slab_alloc_arr m1" "source m2 = source m1"
      "slab_live m2 k (s # zs) ?C = insert ?p (slab_live m1 k (s # zs) C')" "?p \<notin> slab_live m1 k (s # zs) C'"
      "used_cnt (slab_mem m2 s) = obj_n (slab_alloc_arr m2 k) \<longleftrightarrow> c = []"
      using slab_slab_alloc_ok [OF base _ c, of flag] by auto
    have ok: "slab_ok (slab_alloc_arr m1 k) k s (slab_mem m1 s) (i # c)" using slab_base_slab [OF base, of s] c by simp
    have "i < n_objs (slab_alloc_arr m1 k)" using ok by (auto simp: slab_ok_def slab_chain_def)
    then have pn: "?p \<noteq> NULL" using obj_ptr_facts(2) [OF ok _ slab_base_alloc(1) [OF base]] by blast
    have sz: "s \<notin> set zs" "s \<notin> set ys'" using base by (auto simp: slab_base_def two_lists_def dest: dlist_distinct)
    have lc: "length c < n_objs (slab_alloc_arr m1 k)" using chain_counts(1) [OF base, of s] c by simp
    have u2: "\<forall>t\<in>set (s # zs). length (?C t) < n_objs (slab_alloc_arr m2 k)"
      "\<forall>t\<in>set ys'. length (?C t) = n_objs (slab_alloc_arr m2 k)"
      using u f lc sz m2(3) by auto
    have "room_first zs C'" using rf ne by (simp add: room_first_Cons)
    then have rfz: "room_first zs ?C" using sz by (subst room_first_cong [of zs _ C']) auto
    show ?thesis
    proof (cases "c = []")
      case False
      then have op: "slab_alloc alloc_page k flag m = Inr (m2, ?p)"
        using r(1) Some m2(1,7) by (simp add: slab_alloc_def)
      have "room_first (s # zs) ?C" using rfz False by (simp add: room_first_Cons)
      then have "slab_inv owns m2 k (s # zs) ys' ?C"
        unfolding slab_inv_def slab_used_def using m2(2,4) u2 own by auto
      moreover have "slab_live m2 k (s # zs) ?C = insert ?p (slab_live m k xs C)" using m2(5) live1 by simp
      ultimately show ?thesis using op pn m2(6) live1
        by (intro exI [of _ m2] exI [of _ ?p] exI [of _ "s # zs"] exI [of _ ys'] exI [of _ ?C]) simp
    next
      case True
      obtain m3 where m3: "bindR (del_slabs k s m2) (\<lambda>m3. bindR (app_slabs k s m3) (\<lambda>m4. Inr (m4, ?p))) = Inr (m3, ?p)"
        "slab_base m3 k (zs @ [s]) ys' ?C" "slab_live m3 k (zs @ [s]) ?C = slab_live m2 k (s # zs) ?C"
        "source m3 = source m2" "n_objs (slab_alloc_arr m3 k) = n_objs (slab_alloc_arr m2 k)"
        using rotate_full [OF m2(2), of ?p] by (elim exE conjE) (rule that)
      have op: "slab_alloc alloc_page k flag m = Inr (m3, ?p)"
        using r(1) Some m2(1,7) True m3(1) by (simp add: slab_alloc_def)
      have "room_first (zs @ [s]) ?C" using rfz True by (simp add: room_first_snoc)
      then have "slab_inv owns m3 k (zs @ [s]) ys' ?C"
        unfolding slab_inv_def slab_used_def
        using m3(2,4,5) u2 own m2(4) by auto
      then show ?thesis using op pn m2(5,6) m3(3) live1
        by (intro exI [of _ m3] exI [of _ ?p] exI [of _ "zs @ [s]"] exI [of _ ys'] exI [of _ ?C]) simp
    qed
  qed
qed

text \<open>
  Freeing an object in use takes exactly that object out of the set; the slab goes to the empty list
  when it was the last one, else to the front.
\<close>

lemma slab_free_ok:
  assumes inv: "slab_inv owns m k xs ys C" and p: "p \<in> slab_live m k xs C"
  shows "\<exists>m' xs' ys' C'. slab_free k p m = Inr m' \<and> slab_inv owns m' k xs' ys' C' \<and>
     slab_live m' k xs' C' = slab_live m k xs C - {p}"
proof -
  obtain H where base: "slab_base m k xs ys C" and used: "slab_used m k xs ys C"
    and own: "owns (source m) H" "set xs \<union> set ys \<subseteq> H" using inv by (auto simp: slab_inv_def)
  let ?a = "slab_alloc_arr m k"
  obtain s where s: "s \<in> set xs" "p \<in> objs_of ?a (slab_mem m s) (C s)" using p by (auto simp: slab_live_def)
  have ok: "slab_ok ?a k s (slab_mem m s) (C s)" using slab_base_slab [OF base, of s] s(1) by simp
  have sft: "unat (pg_sft ?a) = PG_SFT" using slab_base_alloc(4) [OF base] by (simp add: alloc_ok_def)
  have pg: "ALIGN_DOWN p PG_SFT = s" by (rule objs_of_page [OF ok slab_base_alloc(1) [OF base] s(2)])
  have mg: "slab_slab_check_magic (slab_mem m s)" using ok by (simp add: slab_ok_def slab_slab_check_magic_def)
  obtain m1 i where m1: "slab_slab_free s p m = Inr m1" "slab_base m1 k xs ys (C(s := i # C s))"
    "slab_alloc_arr m1 = slab_alloc_arr m" "source m1 = source m"
    "slab_live m1 k xs (C(s := i # C s)) = slab_live m k xs C - {p}" "length (i # C s) \<le> n_objs ?a"
    using slab_slab_free_ok [OF base s] by blast
  let ?C = "C(s := i # C s)"
  have tl: "two_lists (slab_links m1) (slabs ?a) (empty_slabs ?a) xs ys" using m1(2,3) by (simp add: slab_base_def)
  have dis: "s \<notin> set ys" "distinct xs" using tl s(1) by (auto simp: two_lists_def dest: dlist_distinct)
  have cnt: "unat (used_cnt (slab_mem m1 s)) + length (i # C s) = n_objs ?a"
    using chain_counts(1) [OF m1(2), of s] s(1) m1(3) by simp
  have u2: "\<forall>t\<in>set (remove1 s xs). length (?C t) < n_objs ?a" "\<forall>t\<in>set ys. length (?C t) = n_objs ?a"
    using used dis by (auto simp: slab_used_def)
  have rf: "room_first xs C" using used by (simp add: slab_used_def)
  have rest: "room_first (remove1 s xs) ?C"
  proof -
    have "room_first (remove1 s xs) C" using room_first_remove1 [OF rf] .
    then show ?thesis using dis by (subst room_first_cong [of _ _ C]) auto
  qed
  obtain h l where del: "dl_delete (slabs ?a) s (slab_links m1) = Inr (h, l)"
    "two_lists l h (empty_slabs ?a) (remove1 s xs) ys" using two_lists_delete [OF tl s(1)] by blast
  have sr: "s \<notin> set (remove1 s xs)" using dis by simp
  define m2 where "m2 = upd_alloc k (\<lambda>a. a\<lparr>slabs := h\<rparr>) (m1\<lparr>slab_links := l\<rparr>)"
  have d: "del_slabs k s m1 = Inr m2" using del(1) m1(3) by (simp add: del_slabs_def m2_def)
  have oks: "\<forall>t\<in>set xs \<union> set ys. slab_ok ?a k t (slab_mem m1 t) (?C t)" and ao: "alloc_ok ?a"
    using m1(2,3) by (auto simp: slab_base_def)
  have sub: "set (remove1 s xs) \<subseteq> set xs" by (rule set_remove1_subset)
  have live_move: "slab_live m' k (s # remove1 s xs) ?C = slab_live m k xs C - {p}"
    if "slab_mem m' = slab_mem m1" "objs_of (slab_alloc_arr m' k) = objs_of ?a" for m' :: "'s SlabMgr"
  proof -
    have "set (s # remove1 s xs) = set xs" using s(1) dis(2) by auto
    then show ?thesis using that m1(3,5) by (simp only: slab_live_def)
  qed
  have free: "slab_free k p m = (if used_cnt (slab_mem m1 s) = 0 then Inr (add_empty k s m2)
      else if Some s \<noteq> slabs ?a then Inr (add_slabs k s m2) else Inr m1)"
    using m1(1,3) mg d by (simp add: slab_free_def Let_def sft pg)
  consider (empty) "used_cnt (slab_mem m1 s) = 0" | (front) "used_cnt (slab_mem m1 s) \<noteq> 0" "Some s = slabs ?a"
    | (move) "used_cnt (slab_mem m1 s) \<noteq> 0" "Some s \<noteq> slabs ?a" by blast
  then show ?thesis
  proof cases
    case empty
    then have lf: "length (i # C s) = n_objs ?a" using cnt by simp
    obtain h' l' where pre: "dl_prepend (empty_slabs ?a) s l = (h', l')" "two_lists l' h' h (s # ys) (remove1 s xs)"
      using two_lists_prepend [OF del(2) [THEN two_lists_sym [THEN iffD1]] dis(1) sr] by blast
    let ?m = "add_empty k s m2"
    have f: "slab_alloc_arr ?m k = ?a\<lparr>slabs := h, empty_slabs := h'\<rparr>" "slab_links ?m = l'" "slab_mem ?m = slab_mem m1"
      "source ?m = source m" using pre(1) m1(3,4) by (simp_all add: add_empty_def m2_def upd_alloc_def)
    have "slab_base ?m k (remove1 s xs) (s # ys) ?C"
    proof -
      have "set (remove1 s xs) \<union> set (s # ys) \<subseteq> set xs \<union> set ys" using sub s(1) by auto
      then have "\<forall>t\<in>set (remove1 s xs) \<union> set (s # ys). slab_ok ?a k t (slab_mem m1 t) (?C t)" using oks by blast
      then show ?thesis unfolding slab_base_def f using ao pre(2) by (simp add: two_lists_sym)
    qed
    moreover have "slab_used ?m k (remove1 s xs) (s # ys) ?C"
      unfolding slab_used_def f using u2 lf rest by simp
    ultimately have inv': "slab_inv owns ?m k (remove1 s xs) (s # ys) ?C"
      unfolding slab_inv_def f using own sub s(1) by auto
    have oo: "objs_of (slab_alloc_arr ?m k) = objs_of ?a" by (simp add: f)
    have "objs_of ?a (slab_mem m1 s) (?C s) = {}"
      using objs_of_empty [OF m1(2), of s] s(1) m1(3) lf by simp
    then have "slab_live ?m k (remove1 s xs) ?C = slab_live m k xs C - {p}"
      using live_move [OF f(3) oo] by (simp add: slab_live_def oo f(3))
    then show ?thesis using free empty inv' by auto
  next
    case front
    then obtain zs where xs: "xs = s # zs" using slab_heads(1) [OF base] by (cases xs) auto
    have "\<forall>t\<in>set xs. length (?C t) < n_objs ?a" using u2 front(1) cnt dis xs by (auto simp: word_unat_eq_iff)
    moreover have "room_first xs ?C" using rest xs by (simp add: room_first_Cons)
    ultimately have "slab_inv owns m1 k xs ys ?C"
      unfolding slab_inv_def slab_used_def using m1(2-4) u2 own by auto
    then show ?thesis using free front m1(5) by auto
  next
    case move
    obtain h' l' where pre: "dl_prepend h s l = (h', l')" "two_lists l' h' (empty_slabs ?a) (s # remove1 s xs) ys"
      using two_lists_prepend [OF del(2) sr dis(1)] by blast
    let ?m = "add_slabs k s m2"
    have f: "slab_alloc_arr ?m k = ?a\<lparr>slabs := h'\<rparr>" "slab_links ?m = l'" "slab_mem ?m = slab_mem m1"
      "source ?m = source m" using pre(1) m1(3,4) by (simp_all add: add_slabs_def m2_def upd_alloc_def)
    have "slab_base ?m k (s # remove1 s xs) ys ?C"
    proof -
      have "set (s # remove1 s xs) \<union> set ys \<subseteq> set xs \<union> set ys" using sub s(1) by auto
      then have "\<forall>t\<in>set (s # remove1 s xs) \<union> set ys. slab_ok ?a k t (slab_mem m1 t) (?C t)" using oks by blast
      then show ?thesis unfolding slab_base_def f using ao pre(2) by simp
    qed
    moreover have "slab_used ?m k (s # remove1 s xs) ys ?C"
      unfolding slab_used_def f using u2 rest cnt move(1) by (auto simp: room_first_Cons word_unat_eq_iff)
    ultimately have inv': "slab_inv owns ?m k (s # remove1 s xs) ys ?C"
      unfolding slab_inv_def f using own sub s(1) by auto
    have oo: "objs_of (slab_alloc_arr ?m k) = objs_of ?a" by (simp add: f)
    show ?thesis using free move inv' live_move [OF f(3) oo] by auto
  qed
qed

end

section \<open>Creating an allocator\<close>

lemma fit_step:
  fixes sz :: u32
  assumes n: "(1 + unat sz) * Suc n \<le> 1048528" and sft: "sft \<le> 6" and n256: "Suc n \<le> 256"
  defines "hdr \<equiv> sizeof_Slab + of_nat (Suc n)"
  defines "pad \<equiv> ALIGN_UP hdr sft - hdr"
  shows "unat pad < 2 ^ sft"
    "PG_SZ - sizeof_Slab - (1 + sz) * of_nat (Suc n) \<ge> pad + SLAB_END_PADDING_MIN \<longleftrightarrow>
     48 + (1 + unat sz) * Suc n + unat pad + 64 \<le> 1048576"
proof -
  have un: "unat (of_nat (Suc n) :: u32) = Suc n" using n256 by (intro unat_of_nat_small) simp
  have uh: "unat hdr = 48 + Suc n" unfolding hdr_def using n256 un by (subst unat_add_no_wrap) simp_all
  have s64: "(2::nat) ^ sft \<le> 2 ^ 6" using sft by (intro power_increasing) auto
  have nw: "unat hdr + (2 ^ sft - 1) < 2 ^ LENGTH(32)" using uh n256 s64 by simp
  note ab = ALIGN_UP_bounds [of sft hdr, OF _ nw]
  have "hdr \<le> ALIGN_UP hdr sft" using ab(1) sft by (simp add: word_le_nat_alt)
  then have up: "unat pad = unat (ALIGN_UP hdr sft) - unat hdr" unfolding pad_def by (rule unat_sub_no_wrap)
  then show p: "unat pad < 2 ^ sft" using ab(1,2) sft by simp
  have "Suc n \<le> (1 + unat sz) * Suc n" by simp
  have us: "unat (1 + sz) = 1 + unat sz"
  proof -
    have "unat sz * Suc n < 1048528" using n by (simp add: algebra_simps)
    then have "unat sz < 1048528" by (metis le_less_trans mult.right_neutral mult_le_mono2 le_add1 plus_1_eq_Suc)
    then show ?thesis by (subst unat_add_no_wrap) simp_all
  qed
  have um: "unat ((1 + sz) * of_nat (Suc n)) = (1 + unat sz) * Suc n"
  proof -
    have "unat (1 + sz) * unat (of_nat (Suc n) :: u32) < 2 ^ LENGTH(32)" using n unfolding us un by simp
    then have "unat ((1 + sz) * of_nat (Suc n)) = unat (1 + sz) * unat (of_nat (Suc n) :: u32)"
      by (rule unat_mult_lem [THEN iffD1])
    then show ?thesis unfolding us un .
  qed
  have ut: "unat (1048528 - (1 + sz) * of_nat (Suc n)) = 1048528 - (1 + unat sz) * Suc n"
  proof -
    have c: "unat (1048528 :: u32) = 1048528" by simp
    have "(1 + sz) * of_nat (Suc n) \<le> 1048528" unfolding word_le_nat_alt um c by (rule n)
    then show ?thesis using unat_sub_no_wrap [of "(1 + sz) * of_nat (Suc n)" 1048528] unfolding um c by blast
  qed
  have upp: "unat (pad + 64) = unat pad + 64" using p s64 by (subst unat_add_no_wrap) simp_all
  have "PG_SZ - sizeof_Slab = (1048528 :: u32)" by simp
  then show "PG_SZ - sizeof_Slab - (1 + sz) * of_nat (Suc n) \<ge> pad + SLAB_END_PADDING_MIN \<longleftrightarrow>
     48 + (1 + unat sz) * Suc n + unat pad + 64 \<le> 1048576"
    using n by (simp only: word_le_nat_alt upp ut) linarith
qed

lemma fit_objs_ok:
  fixes sz :: u32
  assumes sz: "unat sz < 2 ^ 19" and sft: "sft \<le> 6"
  shows "0 < n \<Longrightarrow> n \<le> 256 \<Longrightarrow> (1 + unat sz) * n \<le> 1048528 \<Longrightarrow>
    \<exists>k p. fit_objs sz sft n = Some (k, p) \<and> 0 < k \<and> k \<le> n \<and> unat p < 2 ^ sft \<and>
      48 + (1 + unat sz) * k + unat p + 64 \<le> 1048576"
proof (induction n)
  case 0
  then show ?case by simp
next
  case (Suc n)
  note st = fit_step [OF Suc.prems(3) sft Suc.prems(2)]
  let ?pad = "ALIGN_UP (sizeof_Slab + of_nat (Suc n)) sft - (sizeof_Slab + of_nat (Suc n))"
  show ?case
  proof (cases "48 + (1 + unat sz) * Suc n + unat ?pad + 64 \<le> 1048576")
    case True
    then have "fit_objs sz sft (Suc n) = Some (Suc n, ?pad)"
      using st(2) by (simp only: fit_objs.simps Let_def if_True)
    then show ?thesis using True st(1) by (intro exI [of _ "Suc n"] exI [of _ ?pad]) simp
  next
    case False
    have "(2::nat) ^ sft \<le> 2 ^ 6" using sft by (intro power_increasing) auto
    then have "n \<noteq> 0" using False st(1) sz by (cases n) auto
    moreover have "fit_objs sz sft (Suc n) = fit_objs sz sft n"
      using False st(2) by (simp only: fit_objs.simps Let_def if_False)
    moreover have "(1 + unat sz) * n \<le> 1048528" using Suc.prems(3) by simp
    ultimately obtain k p where "fit_objs sz sft (Suc n) = Some (k, p)" "0 < k" "k \<le> n" "unat p < 2 ^ sft"
      "48 + (1 + unat sz) * k + unat p + 64 \<le> 1048576" using Suc by auto
    then show ?thesis by (intro exI [of _ k] exI [of _ p]) simp
  qed
qed

lemma MSB_POS_pow2:
  assumes "j < 64"
  shows "unat (MSB_POS (2 ^ j)) = j"
proof -
  have p: "unat (2 ^ j :: u64) = 2 ^ j"
  proof -
    have "(2::u64) ^ j = of_nat (2 ^ j)" by simp
    moreover have "(2::nat) ^ j < 2 ^ 64" using assms by (intro power_strict_increasing) auto
    then have "unat (of_nat (2 ^ j) :: u64) = 2 ^ j" by (intro unat_of_nat_small) simp
    ultimately show ?thesis by metis
  qed
  then have nz: "(2::u64) ^ j \<noteq> 0" by (metis power_not_zero unat_0 zero_neq_numeral)
  note m = MSB_POS_correct [OF nz, unfolded p]
  have "unat (MSB_POS (2 ^ j)) \<le> j" using m(1) by (simp add: power_le_imp_le_exp)
  moreover have "j < Suc (unat (MSB_POS (2 ^ j)))" using m(2) by (rule power_less_imp_less_exp [rotated]) simp
  ultimately show ?thesis by simp
qed

text \<open>
  While the manager has a free slot, an allocator for objects of 16 bytes to half a megabyte, aligned
  to a power of two up to 64, can be created, and its layout fits into a page.
\<close>

lemma slab_create_ok:
  assumes n: "slab_alloc_n m < SLABMGR_CAP" and sz: "16 \<le> unat sz" "unat sz < 2 ^ 19" and al: "align = 2 ^ j" "j \<le> 6"
  shows "\<exists>m'. slab_create sz align m = (m', Some (unat (slab_alloc_n m))) \<and>
     alloc_ok (slab_alloc_arr m' (unat (slab_alloc_n m))) \<and> obj_sz (slab_alloc_arr m' (unat (slab_alloc_n m))) = sz \<and>
     slabs (slab_alloc_arr m' (unat (slab_alloc_n m))) = None \<and>
     empty_slabs (slab_alloc_arr m' (unat (slab_alloc_n m))) = None \<and> source m' = source m"
proof -
  define k where "k = unat (slab_alloc_n m)"
  have "unat (1 + sz) = 1 + unat sz" using sz(2) by (subst unat_add_no_wrap) simp_all
  define maxn where "maxn = 1048528 div (1 + unat sz)"
  define n0 where "n0 = (if maxn > SLAB_OBJ_N_MAX then SLAB_OBJ_N_MAX else maxn)"
  have mm: "(1 + unat sz) * maxn \<le> 1048528" unfolding maxn_def by (rule times_div_less_eq_dividend)
  have "1 \<le> maxn" unfolding maxn_def using sz(2) by (simp add: Suc_le_eq div_greater_zero_iff)
  then have n0: "0 < n0" "n0 \<le> 256" "n0 \<le> maxn" by (auto simp: n0_def)
  have "(1 + unat sz) * n0 \<le> 1048528" using n0(3) mm by (meson le_trans mult_le_mono2)
  from fit_objs_ok [OF sz(2) al(2) n0(1,2) this]
  obtain c p where f: "fit_objs sz j n0 = Some (c, p)" "0 < c" "c \<le> n0" "unat p < 2 ^ j"
    "48 + (1 + unat sz) * c + unat p + 64 \<le> 1048576" by blast
  have j64: "(2::nat) ^ j \<le> 2 ^ 6" using al(2) by (intro power_increasing) auto
  have p2: "(2::nat) ^ j < 2 ^ 32" using j64 by simp
  have ual: "unat align = 2 ^ j"
  proof -
    have "align = of_nat (2 ^ j)" by (simp add: al(1))
    moreover have "unat (of_nat (2 ^ j) :: u32) = 2 ^ j" using p2 by (intro unat_of_nat_small) simp
    ultimately show ?thesis by metis
  qed
  have msb: "unat (MSB_POS (ucast align)) = j"
  proof -
    have "(ucast align :: u64) = of_nat (unat align)" by (rule ucast_of_nat_unat)
    then have "(ucast align :: u64) = 2 ^ j" using ual by simp
    then show ?thesis using MSB_POS_pow2 [of j] al(2) by simp
  qed
  have u8a: "unat (ucast align :: u8) = 2 ^ j" and u8p: "unat (ucast p :: u8) = unat p"
    using ual f(4) j64 al(2) by (simp_all add: unsigned_ucast_eq take_bit_nat_eq_self)
  have uc: "unat (of_nat c :: u16) = c" using f(3) n0(2) by (intro unat_of_nat_small) simp
  have m48: "unat (ucast PG_SZ - ucast sizeof_Slab :: u64) div unat (1 + sz) = maxn"
    using \<open>unat (1 + sz) = 1 + unat sz\<close> by (simp add: maxn_def)
  let ?a = "slab_alloc_arr m k"
  define a where "a = ?a\<lparr>obj_sz := sz, pg_sft := of_nat PG_SFT, empty_slabs := None, slabs := None,
     obj_n := of_nat c, padding_align := ucast align, padding_base := ucast p\<rparr>"
  have init: "slab_alloc_init ?a sz align = (a, True)"
    unfolding slab_alloc_init_def Let_def m48 msb n0_def [symmetric] f(1)
    by (simp add: a_def slab_alloc_calc_page_sft_def)
  define m' where "m' = upd_alloc k (\<lambda>_. a) (m\<lparr>slab_alloc_n := slab_alloc_n m + 1\<rparr>)"
  have allow: "slab_create_allow sz align" using sz by (simp add: slab_create_allow_def word_le_nat_alt word_less_nat_alt)
  have "slab_create sz align m = (m', Some k)"
    using n allow init by (simp add: slab_create_def Let_def k_def [symmetric] m'_def)
  moreover have "alloc_ok a"
    using f u8a u8p uc n0(2) j64 sz(1) by (simp add: alloc_ok_def a_def algebra_simps)
  ultimately show ?thesis
    unfolding k_def [symmetric] by (intro exI [of _ m']) (simp add: m'_def upd_alloc_def a_def)
qed

lemma slab_inv_fresh:
  assumes "alloc_ok (slab_alloc_arr m k)" "slabs (slab_alloc_arr m k) = None" "empty_slabs (slab_alloc_arr m k) = None"
    "owns (source m) H"
  shows "slab_inv owns m k [] [] C" "slab_live m k [] C = {}"
  using assms by (auto simp: slab_inv_def slab_base_def slab_used_def two_lists_def room_first_Nil slab_live_def)

section \<open>The kernel's allocator\<close>

text \<open>\<open>slab_kernel_func_alloc_page\<close> asks the page manager.\<close>

definition slab_kernel_func_alloc_page :: "u8 \<Rightarrow> u16 \<Rightarrow> PgMgr \<Rightarrow> (PgMgr \<times> ptr) res" where
  "slab_kernel_func_alloc_page p flags m = pg_alloc_page p flags m"

interpretation ks: page_source slab_kernel_func_alloc_page mgr_owns
  by unfold_locales (unfold slab_kernel_func_alloc_page_def, rule mgr_alloc)

end
