(* ===== verification/BootMem.thy ===== *)
theory BootMem
  imports Slab PgInit
begin

text \<open>
  The memory managers at boot: a page manager fresh from \<open>pg_init\<close> can allocate a page, and an
  allocator created over it is in its invariant.
\<close>

section \<open>A booted allocator\<close>

lemma boot_manager:
  "\<exists>m fl. pm_ok m fl {} \<and> roots m = [\<lparr>pr_root = 0x40000070, pr_start = 0x40000000, pr_end = 0x40400000\<rparr>] \<and>
     (\<exists>m' fl' i. pg_alloc_page 20 0 m = Inr (m', 0x40000000 + push_bit PG_SFT (of_nat i)) \<and>
        0x40000000 + push_bit PG_SFT (of_nat i) \<noteq> (NULL :: ptr) \<and>
        pm_ok m' fl' {(0, i, 0)} \<and> roots m' = roots m)"
proof -
  obtain m fl where m: "pm_ok m fl {}" and c: "covered (fblocks fl) = run 0 1 4"
    and rs: "roots m = [\<lparr>pr_root = 0x40000070, pr_start = 0x40000000, pr_end = 0x40400000\<rparr>]"
    using four_pages_boot by blast
  have u: "unat (20 :: u8) - PG_SFT = 0" by simp
  have "\<not> (\<forall>q. 0 \<le> q \<and> q \<le> PGMGR_MAXLVL \<longrightarrow> fl ! q = [])"
  proof
    assume "\<forall>q. 0 \<le> q \<and> q \<le> PGMGR_MAXLVL \<longrightarrow> fl ! q = []"
    then have "fblocks fl = {}" using pm_inv_length [of m fl "{}"] m by (auto simp: fblocks_def pm_ok_def)
    then have "run 0 1 4 = {}" using c by (simp add: covered_def)
    moreover have "(0, 1) \<in> run 0 1 4" by (simp add: run_def)
    ultimately show False by simp
  qed
  then obtain m' fl' r i where a: "pg_alloc_page 20 0 m = Inr (m', pr_start (roots m ! r) + push_bit PG_SFT (of_nat i))"
    "pm_ok m' fl' {(r, i, 0)}" "roots m' = roots m"
    using pg_alloc_page_spec [OF m, of 20 0] unfolding u by blast
  have inv: "pm_inv m' fl' {(r, i, 0)}" using a(2) by (simp add: pm_ok_def)
  have v: "(r, i) \<in> valid_pages (roots m)" using pm_inv_valid_head(2) [OF inv, of "(r, i, 0)"] a(3) by simp
  then have r: "r = 0" using rs by (simp add: valid_pages_def)
  have rok: "roots_ok (roots m) (dsps m)" using m by (simp add: pm_ok_def pm_inv_def)
  have "first_page (roots m ! 0) = 1024" by (simp add: rs first_page_def unat_drop)
  moreover have "unat (pr_start (roots m ! 0) + push_bit PG_SFT (of_nat i)) = 2 ^ PG_SFT * (first_page (roots m ! 0) + i)"
    using v r by (intro unat_page_start [OF rok]) (auto simp: valid_pages_def)
  ultimately have "unat (pr_start (roots m ! 0) + push_bit PG_SFT (of_nat i) :: ptr) \<noteq> 0" by simp
  then have "pr_start (roots m ! 0) + push_bit PG_SFT (of_nat i) \<noteq> (NULL :: ptr)" by (simp only: unat_eq_zero not_False_eq_True)
  moreover have "pr_start (roots m ! r) = 0x40000000" "pr_start (roots m ! 0) = 0x40000000" using rs r by simp_all
  ultimately show ?thesis using m a rs r by metis
qed

lemma boot_slab:
  "\<exists>sm. slab_inv mgr_owns sm 0 [] [] C \<and> slab_live sm 0 [] C = {} \<and>
     \<not> (\<exists>pm. slab_kernel_func_alloc_page (of_nat PG_SFT) 0 (source sm) = Inr (pm, NULL))"
proof -
  obtain m fl where m: "pm_ok m fl {}" "roots m = [\<lparr>pr_root = 0x40000070, pr_start = 0x40000000, pr_end = 0x40400000\<rparr>]"
    and al: "\<exists>m' a. pg_alloc_page 20 0 m = Inr (m', a) \<and> a \<noteq> NULL" using boot_manager by blast
  define sm0 :: "PgMgr SlabMgr" where "sm0 = \<lparr>slab_alloc_arr = (\<lambda>_. \<lparr>obj_sz = 0, pg_sft = 0, obj_n = 0, padding_base = 0,
     padding_align = 0, slabs = None, empty_slabs = None\<rparr>), slab_alloc_n = 0, slab_mem = (\<lambda>_. \<lparr>magic = [], sl_data = 0, sl_alloc = 0, used_cnt = 0,
     first_free = 0, free_list = (\<lambda>_. 0)\<rparr>), slab_links = \<lparr>lnext = (\<lambda>_. None), lprev = (\<lambda>_. None)\<rparr>, slab_rng = rng_init, source = m\<rparr>"
  have n0: "unat (slab_alloc_n sm0) = 0" and src: "source sm0 = m" by (simp_all add: sm0_def)
  have "slab_alloc_n sm0 < SLABMGR_CAP" by (simp add: sm0_def)
  note cr = slab_create_ok [OF this, of 200 16 4, unfolded n0 src]
  obtain sm :: "PgMgr SlabMgr" where "alloc_ok (slab_alloc_arr sm 0)" "slabs (slab_alloc_arr sm 0) = None"
    "empty_slabs (slab_alloc_arr sm 0) = None" and src': "source sm = m"
    using cr [simplified] by blast
  moreover have "mgr_owns m {}" using m by (auto simp: mgr_owns_def)
  ultimately have "slab_inv mgr_owns sm 0 [] [] C" "slab_live sm 0 [] C = {}"
    using src' slab_inv_fresh [of sm 0 mgr_owns "{}" C] by auto
  then show ?thesis using al src' by (auto simp: slab_kernel_func_alloc_page_def)
qed

section \<open>A buddy that is free only in part\<close>

definition blank_dsps :: "ptr \<Rightarrow> PgDsp" where
  "blank_dsps = (\<lambda>_. \<lparr>pd_addr = 0, pd_flags = 0, pd_lvl = 0\<rparr>)"

definition no_links :: "ptr links" where
  "no_links = \<lparr>lnext = (\<lambda>_. None), lprev = (\<lambda>_. None)\<rparr>"

lemma seven_pages_run:
  "case pg_init [\<lparr>seg_start = 0x40000000, seg_end = 0x40700000, seg_flag = 0\<rparr>] blank_dsps no_links of
     Some (Inr (Some (s, m))) \<Rightarrow>
       (case pg_alloc_page 21 0 m of Inr (m1, a) \<Rightarrow>
         (case pg_alloc_page 21 0 m1 of Inr (m2, b) \<Rightarrow> a = 0x40200000 \<and> b = 0x40400000 \<and> pg_free_page b m2 = Inl Assert_fail
          | _ \<Rightarrow> False) | _ \<Rightarrow> False)
   | _ \<Rightarrow> False"
  by code_simp

lemma case_res: "(case x of Inl e \<Rightarrow> False | Inr (a, b) \<Rightarrow> P a b) \<Longrightarrow> \<exists>a b. x = Inr (a, b) \<and> P a b"
  by (auto split: sum.splits)

lemma case_init:
  "(case x of Some (Inr (Some (a, b))) \<Rightarrow> P a b | _ \<Rightarrow> False) \<Longrightarrow> \<exists>a b. x = Some (Inr (Some (a, b))) \<and> P a b"
  by (auto split: option.splits sum.splits)

lemma seven_pages:
  "\<exists>s m m1 m2. pg_init [\<lparr>seg_start = 0x40000000, seg_end = 0x40700000, seg_flag = 0\<rparr>] blank_dsps no_links = Some (Inr (Some (s, m))) \<and>
     pg_alloc_page 21 0 m = Inr (m1, 0x40200000) \<and> pg_alloc_page 21 0 m1 = Inr (m2, 0x40400000) \<and>
     pg_free_page 0x40400000 m2 = Inl Assert_fail"
  using case_init [OF seven_pages_run] by (blast dest!: case_res)

end
