(* ===== verification/Util.thy ===== *)
theory Util
  imports Prelude "HOL-Library.Sublist"
begin

text \<open>
  The memory and string functions of lib/include/util.h and lib/libbase/util.c, over byte-addressed
  memory. A \<open>char\<close> is unsigned on this target. Loops that run until they find a byte are partial
  functions: \<open>None\<close> is a call that does not return. The index \<open>size_t i\<close> wraps at 64 bits.
\<close>

section \<open>util.h\<close>

partial_function (option) strlen_loop :: "memory \<Rightarrow> ptr \<Rightarrow> u64 \<Rightarrow> u64 option" where
  "strlen_loop m str idx =
     (if str \<noteq> NULL \<and> m (str + idx) \<noteq> 0 then strlen_loop m str (idx + 1) else Some idx)"

declare strlen_loop.simps [code]

definition util_strlen :: "memory \<Rightarrow> ptr \<Rightarrow> u64 option" where
  "util_strlen m str = strlen_loop m str 0"

text \<open>The loop of \<open>util_strnlen\<close>; \<open>k\<close> is \<open>max_cnt - idx\<close>, so it ends.\<close>

fun strnlen_loop :: "memory \<Rightarrow> ptr \<Rightarrow> u64 \<Rightarrow> nat \<Rightarrow> u64" where
  "strnlen_loop m str idx 0 = idx"
| "strnlen_loop m str idx (Suc k) =
     (if str \<noteq> NULL \<and> m (str + idx) \<noteq> 0 then strnlen_loop m str (idx + 1) k else idx)"

definition util_strnlen :: "memory \<Rightarrow> ptr \<Rightarrow> u64 \<Rightarrow> u64" where
  "util_strnlen m str max_cnt = strnlen_loop m str 0 (unat max_cnt)"

fun memset_loop :: "ptr \<Rightarrow> u8 \<Rightarrow> nat \<Rightarrow> memory \<Rightarrow> memory" where
  "memset_loop it c 0 m = m"
| "memset_loop it c (Suc n) m = memset_loop (it + 1) c n (m(it := c))"

definition util_memset :: "ptr \<Rightarrow> u32 \<Rightarrow> u64 \<Rightarrow> memory \<Rightarrow> memory" where
  "util_memset s c n m = memset_loop s (ucast c) (unat n) m"

fun memcpy_loop :: "ptr \<Rightarrow> ptr \<Rightarrow> nat \<Rightarrow> memory \<Rightarrow> memory" where
  "memcpy_loop cdest sit 0 m = m"
| "memcpy_loop cdest sit (Suc n) m = memcpy_loop (cdest + 1) (sit + 1) n (m(cdest := m sit))"

definition util_memcpy :: "ptr \<Rightarrow> ptr \<Rightarrow> u64 \<Rightarrow> memory \<Rightarrow> memory" where
  "util_memcpy dest src n m = memcpy_loop dest src (unat n) m"

fun memmove_back :: "ptr \<Rightarrow> ptr \<Rightarrow> nat \<Rightarrow> memory \<Rightarrow> memory" where
  "memmove_back cdest sit 0 m = m"
| "memmove_back cdest sit (Suc n) m =
     memmove_back (cdest - 1) (sit - 1) n (m(cdest - 1 := m (sit - 1)))"

definition util_memmove :: "ptr \<Rightarrow> ptr \<Rightarrow> u64 \<Rightarrow> memory \<Rightarrow> memory" where
  "util_memmove dest src n m =
     (if dest \<le> src then memcpy_loop dest src (unat n) m
      else memmove_back (dest + n) (src + n) (unat n) m)"

section \<open>util.c\<close>

partial_function (option) strcmp_loop :: "memory \<Rightarrow> ptr \<Rightarrow> ptr \<Rightarrow> u64 \<Rightarrow> bool option" where
  "strcmp_loop m s1 s2 i =
     (if m (s1 + i) \<noteq> m (s2 + i) then Some False
      else if m (s1 + i) = 0 then Some True
      else strcmp_loop m s1 s2 (i + 1))"

declare strcmp_loop.simps [code]

definition util_strcmp :: "memory \<Rightarrow> ptr \<Rightarrow> ptr \<Rightarrow> bool option" where
  "util_strcmp m s1 s2 =
     (if s1 = NULL \<and> s2 = NULL then Some True
      else if s1 = NULL \<or> s2 = NULL then Some False
      else strcmp_loop m s1 s2 0)"

partial_function (option) strbegin_loop :: "memory \<Rightarrow> ptr \<Rightarrow> ptr \<Rightarrow> u64 \<Rightarrow> bool option" where
  "strbegin_loop m s p i =
     (if m (p + i) = 0 then Some True
      else if m (s + i) \<noteq> m (p + i) then Some False
      else strbegin_loop m s p (i + 1))"

declare strbegin_loop.simps [code]

definition util_strbegin :: "memory \<Rightarrow> ptr \<Rightarrow> ptr \<Rightarrow> bool option" where
  "util_strbegin m s p =
     (if s = NULL \<or> p = NULL then Some False else strbegin_loop m s p 0)"

definition util_strcpy :: "ptr \<Rightarrow> ptr \<Rightarrow> memory \<Rightarrow> memory option" where
  "util_strcpy s1 s2 m = map_option (\<lambda>l. util_memcpy s1 s2 (l + 1) m) (util_strlen m s2)"

definition util_strncpy :: "ptr \<Rightarrow> u64 \<Rightarrow> ptr \<Rightarrow> memory \<Rightarrow> memory option" where
  "util_strncpy s1 n s2 m =
     map_option (\<lambda>l. let l2 = (if l > n - 1 then n - 1 else l)
                     in (util_memcpy s1 s2 l2 m)(s1 + l2 := 0))
       (util_strlen m s2)"

fun memcmp_loop :: "memory \<Rightarrow> ptr \<Rightarrow> ptr \<Rightarrow> nat \<Rightarrow> int" where
  "memcmp_loop m p1 p2 0 = 0"
| "memcmp_loop m p1 p2 (Suc k) =
     (if m p1 < m p2 then - 1 else if m p1 > m p2 then 1
      else memcmp_loop m (p1 + 1) (p2 + 1) k)"

definition util_memcmp :: "memory \<Rightarrow> ptr \<Rightarrow> ptr \<Rightarrow> u64 \<Rightarrow> int" where
  "util_memcmp m ptr1 ptr2 num = memcmp_loop m ptr1 ptr2 (unat num)"

fun memchr_loop :: "memory \<Rightarrow> ptr \<Rightarrow> u8 \<Rightarrow> nat \<Rightarrow> ptr" where
  "memchr_loop m p v 0 = NULL"
| "memchr_loop m p v (Suc k) = (if m p = v then p else memchr_loop m (p + 1) v k)"

definition util_memchr :: "memory \<Rightarrow> ptr \<Rightarrow> u32 \<Rightarrow> u64 \<Rightarrow> ptr" where
  "util_memchr m p value num = memchr_loop m p (ucast value) (unat num)"

partial_function (option) strchr_loop :: "memory \<Rightarrow> ptr \<Rightarrow> u8 \<Rightarrow> u64 \<Rightarrow> ptr option" where
  "strchr_loop m str c i =
     (if str \<noteq> NULL \<and> m (str + i) \<noteq> 0
      then if m (str + i) = c then Some (str + i) else strchr_loop m str c (i + 1)
      else Some NULL)"

declare strchr_loop.simps [code]

definition util_strchr :: "memory \<Rightarrow> ptr \<Rightarrow> u32 \<Rightarrow> ptr option" where
  "util_strchr m str c = strchr_loop m str (ucast c) 0"

partial_function (option) strrchr_loop :: "memory \<Rightarrow> ptr \<Rightarrow> u8 \<Rightarrow> ptr \<Rightarrow> u64 \<Rightarrow> ptr option" where
  "strrchr_loop m str c x i =
     (if str \<noteq> NULL \<and> m (str + i) \<noteq> 0
      then strrchr_loop m str c (if m (str + i) = c then str + i else x) (i + 1)
      else Some x)"

declare strrchr_loop.simps [code]

definition util_strrchr :: "memory \<Rightarrow> ptr \<Rightarrow> u32 \<Rightarrow> ptr option" where
  "util_strrchr m str c = strrchr_loop m str (ucast c) NULL 0"

definition digits_map :: "int list" where
  "digits_map =
     [-1, -2, -2, 0, 1, 2, 3, 4, 5, 6, 7, 8, 9] @ replicate 7 (- 2) @ [10, 11, 12, 13, 14, 15] @
     replicate 20 (- 2) @ replicate 6 (- 2) @ [10, 11, 12, 13, 14, 15]"

definition calc_digit :: "u8 \<Rightarrow> int" where
  "calc_digit c = (if c < 45 \<or> c > 102 then - 2 else digits_map ! unat (c - 45))"

text \<open>
  \<open>util_strtoul\<close>: the loop reads \<open>*str\<close> and never advances \<open>str\<close>. The result is the value and
  \<open>*endptr\<close>; \<open>base\<close> is converted to \<open>unsigned long\<close> in the division and the product.
\<close>

partial_function (option) strtoul_loop :: "memory \<Rightarrow> ptr \<Rightarrow> u64 \<Rightarrow> u64 \<Rightarrow> (u64 \<times> ptr) res option" where
  "strtoul_loop m str base ans =
     (let c = m str; digit = calc_digit c in
      if c = 0 \<or> digit < 0 then Some (Inr (ans, str))
      else if base = 0 then Some (Inl Div_by_zero)
      else if (- 1 - of_int digit) div base < ans then Some (Inr (0x7FFFFFFFFFFFFFFF, NULL))
      else strtoul_loop m str base (ans * base + of_int digit))"

declare strtoul_loop.simps [code]

definition util_strtoul :: "memory \<Rightarrow> ptr \<Rightarrow> u32 \<Rightarrow> (u64 \<times> ptr) res option" where
  "util_strtoul m str base = strtoul_loop m str (scast base) 0"

declare strlen_loop.simps [simp del] strcmp_loop.simps [simp del] strbegin_loop.simps [simp del]
  strchr_loop.simps [simp del] strrchr_loop.simps [simp del] strtoul_loop.simps [simp del]

section \<open>Regions of memory and strings\<close>

text \<open>The \<open>n\<close> addresses from \<open>p\<close>; the address space is a ring.\<close>

definition region :: "ptr \<Rightarrow> nat \<Rightarrow> ptr set" where
  "region p n = {a. unat (a - p) < n}"

definition bytes :: "memory \<Rightarrow> ptr \<Rightarrow> nat \<Rightarrow> u8 list" where
  "bytes m p n = map (\<lambda>i. m (p + of_nat i)) [0..<n]"

text \<open>A null-terminated string \<open>s\<close> is stored at \<open>p\<close>.\<close>

definition cstr :: "memory \<Rightarrow> ptr \<Rightarrow> u8 list \<Rightarrow> bool" where
  "cstr m p s \<longleftrightarrow> p \<noteq> NULL \<and> length s < 2 ^ 64 \<and> 0 \<notin> set s \<and> bytes m p (length s) = s \<and>
     m (p + of_nat (length s)) = 0"

lemma region_first [simp]: "p \<in> region p (Suc n)"
  by (simp add: region_def)

lemma region_0 [simp]: "region p 0 = {}"
  by (simp add: region_def)

lemma region_offset: "i < n \<Longrightarrow> n \<le> 2 ^ 64 \<Longrightarrow> p + of_nat i \<in> region p n"
  by (simp add: region_def unat_of_nat_small)

lemma region_offset_unat: "unat o' < n \<Longrightarrow> p + o' \<in> region p n"
  by (simp add: region_def)

lemma region_Suc:
  assumes "Suc n \<le> 2 ^ 64"
  shows "a \<in> region p (Suc n) \<longleftrightarrow> a = p \<or> a \<in> region (p + 1) n" "p \<notin> region (p + 1) n"
proof -
  have "unat (- 1 :: u64) = 2 ^ 64 - 1" by (simp add: unsigned_minus_1_eq_mask mask_eq_exp_minus_1)
  then show "p \<notin> region (p + 1) n" using assms by (simp add: region_def)
  show "a \<in> region p (Suc n) \<longleftrightarrow> a = p \<or> a \<in> region (p + 1) n"
  proof (cases "a = p")
    case False
    then have nz: "a - p \<noteq> 0" by simp
    have e: "a - (p + 1) = (a - p) - 1" by simp
    have "unat (a - (p + 1)) = unat (a - p) - 1" unfolding e by (rule unat_minus_one [OF nz])
    moreover have "0 < unat (a - p)" using nz by (simp add: unat_gt_0)
    ultimately have "unat (a - (p + 1)) < n \<longleftrightarrow> unat (a - p) < Suc n" by linarith
    then show ?thesis using False by (simp add: region_def)
  qed (simp add: region_def)
qed

lemma region_mono: "n \<le> k \<Longrightarrow> region p n \<subseteq> region p k"
  by (auto simp: region_def)

lemma length_bytes [simp]: "length (bytes m p n) = n"
  by (simp add: bytes_def)

lemma nth_bytes [simp]: "i < n \<Longrightarrow> bytes m p n ! i = m (p + of_nat i)"
  by (simp add: bytes_def)

lemma bytes_eq_iff: "bytes m p n = bytes m' q n \<longleftrightarrow> (\<forall>i<n. m (p + of_nat i) = m' (q + of_nat i))"
  by (simp add: list_eq_iff_nth_eq)

lemma bytes_Suc: "bytes m p (Suc n) = m p # bytes m (p + 1) n"
  by (rule nth_equalityI) (auto simp: nth_Cons algebra_simps split: nat.splits)

lemma bytes_cong: "\<forall>a\<in>region p n. m a = m' a \<Longrightarrow> n \<le> 2 ^ 64 \<Longrightarrow> bytes m p n = bytes m' p n"
  by (simp add: bytes_eq_iff region_offset)

lemma memset_loop_eq:
  "n \<le> 2 ^ 64 \<Longrightarrow> memset_loop p c n m = (\<lambda>a. if a \<in> region p n then c else m a)"
proof (induction n arbitrary: p m)
  case (Suc n)
  then show ?case using region_Suc [OF Suc.prems] by (auto simp: fun_eq_iff)
qed simp

lemma unat_le_2_64: "unat (n :: u64) \<le> 2 ^ 64"
proof -
  have e: "(2::nat) ^ 64 = 18446744073709551616" by simp
  show ?thesis unfolding e by (rule less_imp_le [OF unat_lt_bounds(4)])
qed

lemma util_memset_eq: "util_memset p c n m = (\<lambda>a. if a \<in> region p (unat n) then ucast c else m a)"
  unfolding util_memset_def by (rule memset_loop_eq [OF unat_le_2_64])

lemma memcpy_loop_eq:
  "n \<le> 2 ^ 64 \<Longrightarrow> region d n \<inter> region s n = {} \<Longrightarrow>
   memcpy_loop d s n m = (\<lambda>a. if a \<in> region d n then m (s + (a - d)) else m a)"
proof (induction n arbitrary: d s m)
  case (Suc n)
  note rd = region_Suc [OF Suc.prems(1)]
  have "region (d + 1) n \<inter> region (s + 1) n = {}" using Suc.prems(2) rd(1) by blast
  then have ih: "memcpy_loop (d + 1) (s + 1) n (m(d := m s)) =
      (\<lambda>a. if a \<in> region (d + 1) n then (m(d := m s)) (s + 1 + (a - (d + 1))) else (m(d := m s)) a)"
    using Suc.prems(1) by (intro Suc.IH) simp_all
  have "s + (a - d) \<noteq> d" if "a \<in> region d (Suc n)" for a
  proof
    assume e: "s + (a - d) = d"
    have "s + (a - d) \<in> region s (Suc n)"
      using that by (intro region_offset_unat) (simp add: region_def)
    then show False using Suc.prems(2) region_first [of d n] unfolding e by blast
  qed
  then show ?case using rd by (auto simp: fun_eq_iff ih)
qed simp

text \<open>\<open>util_memcpy\<close> between disjoint regions copies the bytes and changes nothing else.\<close>

lemma util_memcpy_eq:
  "region d (unat n) \<inter> region s (unat n) = {} \<Longrightarrow>
   util_memcpy d s n m = (\<lambda>a. if a \<in> region d (unat n) then m (s + (a - d)) else m a)"
  unfolding util_memcpy_def by (rule memcpy_loop_eq [OF unat_le_2_64])

lemma util_memcpy_bytes:
  assumes "region d (unat n) \<inter> region s (unat n) = {}"
  shows "bytes (util_memcpy d s n m) d (unat n) = bytes m s (unat n)"
    "a \<notin> region d (unat n) \<Longrightarrow> util_memcpy d s n m a = m a"
  using region_offset [OF _ unat_le_2_64, of _ n d] by (auto simp: util_memcpy_eq [OF assms] bytes_eq_iff)


text \<open>\<open>util_memmove\<close> copies between regions that do not wrap, even when they overlap.\<close>

lemma unat_in_region:
  assumes "unat p + n \<le> 2 ^ 64"
  shows "a \<in> region p n \<longleftrightarrow> unat p \<le> unat a \<and> unat a < unat p + n"
proof (cases "p \<le> a")
  case True
  then show ?thesis by (auto simp: region_def unat_sub_no_wrap word_le_nat_alt)
next
  case False
  then have lt: "unat a < unat p" by (simp add: word_le_nat_alt)
  have "unat (a - p) = 2 ^ 64 - (unat p - unat a)"
    using lt by (simp add: unat_sub_if_size word_size)
  then show ?thesis using lt assms by (simp add: region_def)
qed

lemma memcpy_loop_down:
  "d \<le> s \<Longrightarrow> unat s + n \<le> 2 ^ 64 \<Longrightarrow>
   memcpy_loop d s n m = (\<lambda>a. if a \<in> region d n then m (s + (a - d)) else m a)"
proof (induction n arbitrary: d s m)
  case (Suc n)
  have nn: "Suc n \<le> 2 ^ 64" using Suc.prems(2) by simp
  note rd = region_Suc [OF nn]
  show ?case
  proof (cases n)
    case 0
    then show ?thesis by (auto simp: fun_eq_iff region_def unat_eq_zero)
  next
    case (Suc j)
    have s1: "unat (s + 1) = unat s + 1" using Suc.prems(2) Suc by (subst unat_add_no_wrap) simp_all
    have d1: "unat (d + 1) = unat d + 1"
      using Suc.prems Suc by (subst unat_add_no_wrap) (simp_all add: word_le_nat_alt)
    have le: "d + 1 \<le> s + 1" using Suc.prems(1) s1 d1 by (simp add: word_le_nat_alt)
    have ih: "memcpy_loop (d + 1) (s + 1) n (m(d := m s)) =
        (\<lambda>a. if a \<in> region (d + 1) n then (m(d := m s)) (s + 1 + (a - (d + 1))) else (m(d := m s)) a)"
      using le s1 Suc.prems(2) by (intro Suc.IH) simp_all
    have "s + (a - d) \<noteq> d" if "a \<in> region (d + 1) n" for a
    proof -
      have a: "unat (d + 1) \<le> unat a" "unat a < unat (d + 1) + n"
        using that Suc.prems d1 by (auto simp: unat_in_region word_le_nat_alt)
      have ad: "unat (a - d) = unat a - unat d" using a(1) d1 by (intro unat_sub_no_wrap) (simp add: word_le_nat_alt)
      have "unat (s + (a - d)) = unat s + (unat a - unat d)"
        using a d1 ad Suc.prems by (subst unat_add_no_wrap) (simp_all add: word_le_nat_alt)
      then have "unat d < unat (s + (a - d))" using a d1 Suc.prems(1) by (simp add: word_le_nat_alt)
      then show ?thesis by (metis less_irrefl)
    qed
    then show ?thesis using rd by (auto simp: fun_eq_iff ih)
  qed
qed simp

lemma memmove_back_eq:
  "s \<le> d \<Longrightarrow> unat d + n \<le> 2 ^ 64 \<Longrightarrow>
   memmove_back (d + of_nat n) (s + of_nat n) n m = (\<lambda>a. if a \<in> region d n then m (s + (a - d)) else m a)"
proof (induction n arbitrary: m)
  case (Suc n)
  let ?x = "d + of_nat n" and ?m = "m(d + of_nat n := m (s + of_nat n))"
  have n64: "n < 2 ^ 64" using Suc.prems(2) by simp
  have ih: "memmove_back (d + of_nat n) (s + of_nat n) n ?m = (\<lambda>a. if a \<in> region d n then ?m (s + (a - d)) else ?m a)"
    using Suc.prems by (intro Suc.IH) simp_all
  have xa: "a \<in> region d (Suc n) \<longleftrightarrow> a = ?x \<or> a \<in> region d n" for a
  proof -
    have "a = ?x \<longleftrightarrow> a - d = of_nat n" by (auto simp: algebra_simps)
    then have "a = ?x \<longleftrightarrow> unat (a - d) = n"
      using n64 by (simp only: word_unat_eq_iff) (simp add: unat_of_nat_small)
    then show ?thesis by (auto simp: region_def)
  qed
  have xn: "?x \<notin> region d n" using n64 by (simp add: region_def unat_of_nat_small)
  have "s + (a - d) \<noteq> ?x" if "a \<in> region d n" for a
  proof
    assume "s + (a - d) = ?x"
    then have e: "s + (a - d) = d + of_nat n" .
    have ad: "unat (a - d) < n" using that by (simp add: region_def)
    have sn: "unat s \<le> unat d" using Suc.prems(1) by (simp add: word_le_nat_alt)
    have "unat (s + (a - d)) = unat s + unat (a - d)"
      using ad sn Suc.prems(2) by (subst unat_add_no_wrap) simp_all
    moreover have "unat (d + of_nat n) = unat d + n"
      using Suc.prems(2) n64 by (subst unat_add_no_wrap) (simp_all add: unat_of_nat_small)
    ultimately show False using e ad sn by simp
  qed
  then show ?case using xa xn by (auto simp: fun_eq_iff ih algebra_simps)
qed simp

lemma util_memmove_eq:
  assumes "unat d + unat n \<le> 2 ^ 64" "unat s + unat n \<le> 2 ^ 64"
  shows "util_memmove d s n m = (\<lambda>a. if a \<in> region d (unat n) then m (s + (a - d)) else m a)"
  using memcpy_loop_down [of d s "unat n" m] memmove_back_eq [of s d "unat n" m] assms
  by (auto simp: util_memmove_def)


section \<open>Strings\<close>

lemma cstr_nth: "cstr m p s \<Longrightarrow> i \<le> length s \<Longrightarrow> m (p + of_nat i) = (if i < length s then s ! i else 0)"
  unfolding cstr_def by (metis le_neq_implies_less nth_bytes)

lemma cstr_nonzero: "cstr m p s \<Longrightarrow> i < length s \<Longrightarrow> s ! i \<noteq> 0"
  unfolding cstr_def by (metis nth_mem)

lemma cstr_cong:
  assumes "cstr m p s" "\<forall>a\<in>region p (Suc (length s)). m' a = m a"
  shows "cstr m' p s"
proof -
  have l: "Suc (length s) \<le> 2 ^ 64" using assms(1) by (simp add: cstr_def)
  have "m' (p + of_nat i) = m (p + of_nat i)" if "i \<le> length s" for i
    using assms(2) region_offset [OF _ l, of i p] that by simp
  then have "bytes m' p (length s) = bytes m p (length s)" "m' (p + of_nat (length s)) = m (p + of_nat (length s))"
    by (simp_all add: bytes_eq_iff)
  then show ?thesis using assms(1) by (simp add: cstr_def)
qed

lemma strlen_loop_cstr:
  assumes c: "cstr m p s"
  shows "i \<le> length s \<Longrightarrow> strlen_loop m p (of_nat i) = Some (of_nat (length s))"
proof (induction "length s - i" arbitrary: i)
  case 0
  then show ?case using cstr_nth [OF c, of i] by (subst strlen_loop.simps) simp
next
  case (Suc k)
  then have i: "i < length s" by simp
  have "strlen_loop m p (of_nat i + 1) = Some (of_nat (length s))"
    using Suc.hyps(1) [of "Suc i"] Suc.hyps(2) i by (simp add: add.commute)
  then show ?case
    using cstr_nth [OF c, of i] cstr_nonzero [OF c i] i c by (subst strlen_loop.simps) (simp add: cstr_def)
qed

lemma util_strlen_cstr: "cstr m p s \<Longrightarrow> util_strlen m p = Some (of_nat (length s))"
  using strlen_loop_cstr [of m p s 0] by (simp add: util_strlen_def)

lemma util_strlen_null: "util_strlen m NULL = Some 0"
  unfolding util_strlen_def by (subst strlen_loop.simps) simp

lemma strnlen_loop_cstr:
  assumes c: "cstr m p s"
  shows "i \<le> length s \<Longrightarrow> strnlen_loop m p (of_nat i) k = of_nat (min (length s) (i + k))"
proof (induction k arbitrary: i)
  case (Suc k)
  show ?case
  proof (cases "i = length s")
    case True
    then show ?thesis using cstr_nth [OF c, of i] by simp
  next
    case False
    then have i: "i < length s" using Suc.prems by simp
    then have "strnlen_loop m p (of_nat i + 1) k = of_nat (min (length s) (Suc i + k))"
      using Suc.IH [of "Suc i"] by (simp add: add.commute)
    then show ?thesis using cstr_nth [OF c, of i] cstr_nonzero [OF c i] i c by (simp add: cstr_def)
  qed
qed simp

lemma util_strnlen_cstr:
  "cstr m p s \<Longrightarrow> util_strnlen m p n = of_nat (min (length s) (unat n))"
  using strnlen_loop_cstr [of m p s 0 "unat n"] by (simp add: util_strnlen_def)

text \<open>Comparison: equality of strings, and prefixes.\<close>

lemma strcmp_loop_cstr:
  assumes c: "cstr m p s" "cstr m q t"
  shows "i \<le> length s \<Longrightarrow> i \<le> length t \<Longrightarrow> strcmp_loop m p q (of_nat i) = Some (drop i s = drop i t)"
proof (induction "length s - i" arbitrary: i)
  case 0
  then have i: "i = length s" by simp
  show ?case
    using cstr_nth [OF c(1), of i] cstr_nth [OF c(2), of i] cstr_nonzero [OF c(2), of i] 0 i
    by (subst strcmp_loop.simps) (auto split: if_splits)
next
  case (Suc k)
  then have i: "i < length s" by simp
  note n = cstr_nth [OF c(1), of i] cstr_nth [OF c(2), of i] cstr_nonzero [OF c(1) i]
  show ?case
  proof (cases "i < length t")
    case False
    then have "drop i s \<noteq> drop i t" using i by (metis drop_eq_Nil leD not_less)
    then show ?thesis using n False Suc.prems i by (subst strcmp_loop.simps) simp
  next
    case True
    have ih: "strcmp_loop m p q (of_nat i + 1) = Some (drop (Suc i) s = drop (Suc i) t)"
      using Suc.hyps(1) [of "Suc i"] Suc.hyps(2) i True by (simp add: add.commute)
    have d: "drop i s = s ! i # drop (Suc i) s" "drop i t = t ! i # drop (Suc i) t"
      using i True by (simp_all add: Cons_nth_drop_Suc)
    show ?thesis using n True i ih by (subst strcmp_loop.simps) (simp add: d)
  qed
qed

lemma util_strcmp_cstr: "cstr m p s \<Longrightarrow> cstr m q t \<Longrightarrow> util_strcmp m p q = Some (s = t)"
  using strcmp_loop_cstr [of m p s q t 0] by (auto simp: util_strcmp_def cstr_def)

lemma strbegin_loop_cstr:
  assumes c: "cstr m p s" "cstr m q t"
  shows "i \<le> length s \<Longrightarrow> i \<le> length t \<Longrightarrow> strbegin_loop m p q (of_nat i) = Some (prefix (drop i t) (drop i s))"
proof (induction "length t - i" arbitrary: i)
  case 0
  then show ?case using cstr_nth [OF c(2), of i] by (subst strbegin_loop.simps) simp
next
  case (Suc k)
  then have i: "i < length t" by simp
  note n = cstr_nth [OF c(1), of i] cstr_nth [OF c(2), of i] cstr_nonzero [OF c(2) i]
  have dt: "drop i t = t ! i # drop (Suc i) t" using i by (simp add: Cons_nth_drop_Suc)
  show ?case
  proof (cases "i < length s")
    case False
    then show ?thesis using n Suc.prems i dt by (subst strbegin_loop.simps) auto
  next
    case True
    have ih: "strbegin_loop m p q (of_nat i + 1) = Some (prefix (drop (Suc i) t) (drop (Suc i) s))"
      using Suc.hyps(1) [of "Suc i"] Suc.hyps(2) i True by (simp add: add.commute)
    have ds: "drop i s = s ! i # drop (Suc i) s" using True by (simp add: Cons_nth_drop_Suc)
    show ?thesis using n True i ih by (subst strbegin_loop.simps) (auto simp: dt ds)
  qed
qed

lemma util_strbegin_cstr: "cstr m p s \<Longrightarrow> cstr m q t \<Longrightarrow> util_strbegin m p q = Some (prefix t s)"
  using strbegin_loop_cstr [of m p s q t 0] by (auto simp: util_strbegin_def cstr_def)


text \<open>Copies of strings. A copy of at most \<open>n - 1\<close> bytes is always terminated.\<close>

lemma cstr_take_copy:
  assumes c: "cstr m p s" and k: "k \<le> length s" and d: "d \<noteq> NULL"
    and m': "\<forall>i<k. m' (d + of_nat i) = m (p + of_nat i)" "m' (d + of_nat k) = 0"
  shows "cstr m' d (take k s)"
proof -
  have "bytes m' d k = take k s"
  proof (rule nth_equalityI)
    fix i assume "i < length (bytes m' d k)"
    then show "bytes m' d k ! i = take k s ! i" using m'(1) k cstr_nth [OF c, of i] by simp
  qed (use k in simp)
  moreover have "0 \<notin> set (take k s)" using c in_set_takeD [of 0 k s] by (auto simp: cstr_def)
  ultimately show ?thesis using c k d m'(2) by (simp add: cstr_def min_def)
qed

lemma util_strcpy_cstr:
  assumes c: "cstr m p s" and d: "d \<noteq> NULL"
    and dj: "region d (Suc (length s)) \<inter> region p (Suc (length s)) = {}" and l: "Suc (length s) < 2 ^ 64"
  shows "\<exists>m'. util_strcpy d p m = Some m' \<and> cstr m' d s \<and> (\<forall>a. a \<notin> region d (Suc (length s)) \<longrightarrow> m' a = m a)"
proof -
  let ?n = "of_nat (length s) + 1 :: u64"
  have en: "?n = of_nat (Suc (length s))" by (simp add: add.commute)
  have n: "unat ?n = Suc (length s)" unfolding en using l by (intro unat_of_nat_small) simp
  let ?m' = "util_memcpy d p ?n m"
  have e: "?m' = (\<lambda>a. if a \<in> region d (Suc (length s)) then m (p + (a - d)) else m a)"
    using util_memcpy_eq [of d ?n p m] dj unfolding n by blast
  have at: "?m' (d + of_nat i) = m (p + of_nat i)" if "i \<le> length s" for i
    using that l region_offset [of i "Suc (length s)" d] by (simp add: e)
  have "cstr ?m' d (take (length s) s)"
    by (rule cstr_take_copy [OF c _ d]) (use at cstr_nth [OF c, of "length s"] in auto)
  then show ?thesis using c by (auto simp: util_strcpy_def util_strlen_cstr e)
qed

lemma util_strncpy_cstr:
  assumes c: "cstr m p s" and d: "d \<noteq> NULL" and n: "0 < unat n"
    and dj: "region d (unat n) \<inter> region p (unat n) = {}"
  shows "\<exists>m'. util_strncpy d n p m = Some m' \<and> cstr m' d (take (unat n - 1) s) \<and>
     (\<forall>a. a \<notin> region d (unat n) \<longrightarrow> m' a = m a)"
proof -
  define k where "k = min (unat n - 1) (length s)"
  have ls: "unat (of_nat (length s) :: u64) = length s" using c by (intro unat_of_nat_small) (simp add: cstr_def)
  have n1: "unat (n - 1) = unat n - 1" using n by (intro unat_minus_one) (auto simp: unat_gt_0)
  define l2 where "l2 = (if of_nat (length s) > n - 1 then n - 1 else of_nat (length s) :: u64)"
  have l2: "unat l2 = k" by (simp add: l2_def k_def word_less_nat_alt ls n1 min_def)
  have kn: "k < unat n" using n by (simp add: k_def)
  define m1 where "m1 = util_memcpy d p l2 m"
  have "region d (unat l2) \<inter> region p (unat l2) = {}"
    unfolding l2 using dj region_mono [of k "unat n"] kn by (meson disjoint_iff less_imp_le subsetD)
  then have m1: "m1 = (\<lambda>a. if a \<in> region d k then m (p + (a - d)) else m a)"
    unfolding m1_def l2 [symmetric] by (rule util_memcpy_eq)
  have dk: "d + l2 = d + of_nat k" using l2 by (metis of_nat_unat ucast_id)
  let ?m' = "m1(d + l2 := 0)"
  have k64: "k < 2 ^ 64" using kn unat_le_2_64 [of n] by (rule less_le_trans)
  have ne: "d + of_nat i \<noteq> d + l2" if "i < k" for i
    using that k64 unat_of_nat_small [of i, where 'a = 64] unat_of_nat_small [of k, where 'a = 64] dk by auto
  have "?m' (d + of_nat i) = m (p + of_nat i)" if "i < k" for i
    using that ne [OF that] k64 region_offset [of i k d] by (simp add: m1)
  then have "cstr ?m' d (take k s)"
    by (intro cstr_take_copy [OF c _ d]) (simp_all add: k_def [symmetric] dk, simp add: k_def)
  moreover have "take k s = take (unat n - 1) s" by (simp add: k_def min_def)
  moreover have "?m' a = m a" if "a \<notin> region d (unat n)" for a
  proof -
    have "d + l2 \<in> region d (unat n)" using kn l2 by (intro region_offset_unat) simp
    then show ?thesis using that region_mono [of k "unat n" d] kn by (auto simp: m1)
  qed
  moreover have "util_strncpy d n p m = Some ?m'"
    by (simp add: util_strncpy_def util_strlen_cstr [OF c] Let_def l2_def [symmetric] m1_def)
  ultimately show ?thesis by (intro exI [of _ ?m']) simp
qed

text \<open>\<open>util_memcmp\<close> compares lexicographically.\<close>

lemma memcmp_loop_lex:
  "memcmp_loop m p q n =
     (if bytes m p n = bytes m q n then 0 else if ord_class.lexordp (bytes m p n) (bytes m q n) then - 1 else 1)"
  by (induction n arbitrary: p q) (auto simp: bytes_Suc bytes_def [of _ _ 0])

lemma strtoul_digit_0:
  assumes c: "calc_digit (m p) = 0" "m p \<noteq> 0" and b: "base \<noteq> 0"
  shows "strtoul_loop m p base 0 = None"
proof -
  define P where "P = (\<lambda>(m' :: memory) (p' :: ptr) (b :: u64) (a :: u64) (y :: (u64 \<times> ptr) res).
     \<not> (m' p' = m p \<and> a = 0 \<and> b = base))"
  have "P m p base 0 y" if "strtoul_loop m p base 0 = Some y" for y
  proof (rule strtoul_loop.raw_induct [where P = P, OF _ that])
    fix loop m' p' b a y
    assume ih: "\<And>m' p' b a y. loop m' p' b a = Some y \<Longrightarrow> P m' p' b a y"
      and st: "(let c = m' p'; digit = calc_digit c
        in if c = 0 \<or> digit < 0 then Some (Inr (a, p'))
           else if b = 0 then Some (Inl Div_by_zero)
           else if (- 1 - of_int digit) div b < a then Some (Inr (0x7FFFFFFFFFFFFFFF, NULL))
           else loop m' p' b (a * b + of_int digit)) = Some y"
    show "P m' p' b a y" unfolding P_def
    proof
      assume e: "m' p' = m p \<and> a = 0 \<and> b = base"
      then have "loop m' p' b 0 = Some y" using st c b by (simp add: Let_def)
      then show False using ih e unfolding P_def by blast
    qed
  qed
  then have "strtoul_loop m p base 0 \<noteq> Some y" for y unfolding P_def by blast
  then show ?thesis by (cases "strtoul_loop m p base 0") auto
qed


lemma calc_digit_le: "calc_digit c \<le> 15"
proof (cases "c < 45 \<or> c > 102")
  case False
  then have "unat (c - 45) < length digits_map"
    by (simp add: word_less_nat_alt not_less word_le_nat_alt unat_sub_no_wrap digits_map_def) linarith
  moreover have "\<forall>d\<in>set digits_map. d \<le> 15" by (simp add: digits_map_def)
  ultimately show ?thesis using False by (simp add: calc_digit_def)
qed (simp add: calc_digit_def)

lemma strtoul_digit_pos:
  assumes c: "0 < calc_digit (m p)" "m p \<noteq> 0" and b: "2 \<le> unat base"
  shows "strtoul_loop m p base ans = Some (Inr (0x7FFFFFFFFFFFFFFF, NULL))"
proof (induction "2 ^ 64 - unat ans" arbitrary: ans rule: less_induct)
  case less
  define k where "k = nat (calc_digit (m p))"
  have k: "calc_digit (m p) = int k" "0 < k" "k \<le> 15" using c(1) calc_digit_le [of "m p"] by (auto simp: k_def)
  have uk: "unat (of_nat k :: u64) = k" using k(3) by (intro unat_of_nat_small) simp
  have b0: "base \<noteq> 0" using b by auto
  show ?case
  proof (cases "(- 1 - of_int (calc_digit (m p))) div base < ans")
    case True
    then show ?thesis using c b0 by (subst strtoul_loop.simps) (simp add: Let_def)
  next
    case False
    have "of_nat k \<le> (- 1 :: u64)" by (rule word_le_nat_alt [THEN iffD2]) (use k(3) uk in \<open>simp add: unsigned_minus_1_eq_mask mask_eq_exp_minus_1\<close>)
    then have "unat (- 1 - of_nat k :: u64) = 2 ^ 64 - 1 - k"
      by (subst unat_sub_no_wrap) (simp_all add: uk unsigned_minus_1_eq_mask mask_eq_exp_minus_1)
    then have "unat ans \<le> (2 ^ 64 - 1 - k) div unat base"
      using False k(1) by (simp add: not_less word_le_nat_alt unat_div_distrib)
    then have "unat ans * unat base \<le> 2 ^ 64 - 1 - k"
      using b by (simp add: less_eq_div_iff_mult_less_eq)
    then have nw: "unat ans * unat base + k < 2 ^ 64" using k(3) by simp
    have "unat (ans * base) = unat ans * unat base" using nw by (intro unat_mult_lem [THEN iffD1]) simp
    then have u: "unat (ans * base + of_nat k) = unat ans * unat base + k"
      using nw uk by (subst unat_add_no_wrap) simp_all
    have "unat ans < unat ans * unat base + k"
      using b k(2) by (cases "unat base") (auto simp: add_increasing)
    then have "2 ^ 64 - unat (ans * base + of_nat k) < 2 ^ 64 - unat ans" using u nw by simp
    then have "strtoul_loop m p base (ans * base + of_nat k) = Some (Inr (0x7FFFFFFFFFFFFFFF, NULL))"
      by (rule less)
    then show ?thesis using c b0 False k(1) by (subst strtoul_loop.simps) (simp add: Let_def)
  qed
qed

end
