(* ===== verification/LeMem.thy ===== *)
theory LeMem
  imports Util
begin

text \<open>
  Loads and stores of integers through pointers: AArch64 runs little-endian, so an object of \<open>n\<close> bytes at
  \<open>p\<close> has its least significant byte at \<open>p\<close>.
\<close>

fun store_le :: "nat \<Rightarrow> ptr \<Rightarrow> u64 \<Rightarrow> memory \<Rightarrow> memory" where
  "store_le 0 p v m = m"
| "store_le (Suc n) p v m = store_le n (p + 1) (drop_bit 8 v) (m(p := ucast v))"

fun load_le :: "nat \<Rightarrow> ptr \<Rightarrow> memory \<Rightarrow> u64" where
  "load_le 0 p m = 0"
| "load_le (Suc n) p m = ucast (m p) OR push_bit 8 (load_le n (p + 1) m)"

definition store64 :: "ptr \<Rightarrow> u64 \<Rightarrow> memory \<Rightarrow> memory" where
  "store64 = store_le 8"

definition load64 :: "ptr \<Rightarrow> memory \<Rightarrow> u64" where
  "load64 = load_le 8"

definition store32 :: "ptr \<Rightarrow> u32 \<Rightarrow> memory \<Rightarrow> memory" where
  "store32 p v = store_le 4 p (ucast v)"

definition load32 :: "ptr \<Rightarrow> memory \<Rightarrow> u32" where
  "load32 p m = ucast (load_le 4 p m)"

definition load16 :: "ptr \<Rightarrow> memory \<Rightarrow> u16" where
  "load16 p m = ucast (load_le 2 p m)"

lemma store_le_frame: "Suc n \<le> 2 ^ 64 \<Longrightarrow> a \<notin> region p n \<Longrightarrow> store_le n p v m a = m a"
proof (induction n arbitrary: p v m)
  case (Suc n)
  have "Suc n \<le> 2 ^ 64" using Suc.prems(1) by simp
  note r = region_Suc [OF this]
  have "a \<noteq> p" "a \<notin> region (p + 1) n" using Suc.prems(2) r(1) by blast+
  then show ?case using Suc.IH [of "p + 1"] Suc.prems(1) by simp
qed simp

lemma load_le_cong: "Suc n \<le> 2 ^ 64 \<Longrightarrow> \<forall>a\<in>region p n. m a = m' a \<Longrightarrow> load_le n p m = load_le n p m'"
proof (induction n arbitrary: p)
  case (Suc n)
  have "Suc n \<le> 2 ^ 64" using Suc.prems(1) by simp
  note r = region_Suc [OF this]
  have "m p = m' p" "\<forall>a\<in>region (p + 1) n. m a = m' a" using Suc.prems(2) r(1) by blast+
  then show ?case using Suc.IH [of "p + 1"] Suc.prems(1) by simp
qed simp

lemma load_store_le: "n \<le> 8 \<Longrightarrow> load_le n p (store_le n p v m) = take_bit (8 * n) v"
proof (induction n arbitrary: p v m)
  case (Suc n)
  have n64: "Suc n \<le> 2 ^ 64" using Suc.prems by simp
  have "store_le n (p + 1) (drop_bit 8 v) (m(p := ucast v)) p = ucast v"
    using n64 region_Suc(2) [OF n64, of p] by (subst store_le_frame) auto
  then have "load_le (Suc n) p (store_le (Suc n) p v m) = ucast (ucast v :: u8) OR push_bit 8 (take_bit (8 * n) (drop_bit 8 v))"
    using Suc by simp
  also have "\<dots> = take_bit (8 * Suc n) v"
    by (rule bit_word_eqI) (use Suc.prems in \<open>auto simp: bit_simps\<close>)
  finally show ?case .
qed simp

lemma load64_store64 [simp]: "load64 p (store64 p v m) = v"
proof -
  have "take_bit 64 v = v" using take_bit_length_eq [of v] by simp
  then show ?thesis by (simp add: load64_def store64_def load_store_le)
qed

lemma load32_store32 [simp]: "load32 p (store32 p v m) = v"
proof -
  have "ucast (take_bit 32 (ucast v :: u64)) = v"
    by (rule bit_word_eqI) (auto simp: bit_simps dest: bit_imp_le_length)
  then show ?thesis by (simp add: load32_def store32_def load_store_le)
qed

lemma store64_frame: "a \<notin> region p 8 \<Longrightarrow> store64 p v m a = m a"
  by (simp add: store64_def store_le_frame)

lemma store32_frame: "a \<notin> region p 4 \<Longrightarrow> store32 p v m a = m a"
  by (simp add: store32_def store_le_frame)

lemma load64_other: "region p 8 \<inter> region q 8 = {} \<Longrightarrow> load64 q (store64 p v m) = load64 q m"
  unfolding load64_def by (rule load_le_cong) (auto intro!: store64_frame)

end
