(* ===== verification/Timer.thy ===== *)
theory Timer
  imports Util
begin

text \<open>
  Times and durations: lib/include/timer.h and lib/libbase/timer.c. The timer's registers are state of
  the device; a read of the 64-bit counter is two reads of 32 bits, passed in as \<open>lo\<close> and \<open>hi\<close>.
\<close>

record PiTime =
  ts :: u64
  tstr :: "u8 list"
  mmsec :: u16
  msec :: u16
  sec :: u16
  mins :: u16
  hr :: u16

record PiDuration =
  d_msec :: u16
  d_mmsec :: u16

record PiTimer =
  control_status :: u32
  cmp_1 :: u32

definition get_current_time_u64 :: "u32 \<Rightarrow> u32 \<Rightarrow> u64" where
  "get_current_time_u64 lo hi = ucast lo OR push_bit 32 (ucast hi)"

definition time_intr_set :: "u64 \<Rightarrow> PiTimer \<Rightarrow> PiTimer" where
  "time_intr_set t d = d\<lparr>cmp_1 := ucast t\<rparr>"

definition time_intr_reset :: "PiTimer \<Rightarrow> PiTimer" where
  "time_intr_reset d = d\<lparr>control_status := control_status d OR 2, cmp_1 := 0\<rparr>"

definition parse_time :: "PiTime \<Rightarrow> PiTime" where
  "parse_time t =
     (let cur0 = ts t; cur1 = cur0 div 1000; cur2 = cur1 div 1000; cur3 = cur2 div 60; cur4 = cur3 div 60
      in t\<lparr>mmsec := ucast (cur0 mod 1000), msec := ucast (cur1 mod 1000), sec := ucast (cur2 mod 60),
           mins := ucast (cur3 mod 60), hr := ucast cur4\<rparr>)"

text \<open>\<open>MM:SS.T\<close> and the terminating null fill the eight characters.\<close>

definition format_current_time :: "PiTime \<Rightarrow> PiTime" where
  "format_current_time t0 =
     (let t = parse_time t0; digit = (\<lambda>d :: u16. ucast d + 48 :: u8)
      in t\<lparr>tstr := [digit (mins t div 10), digit (mins t mod 10), 58, digit (sec t div 10),
                    digit (sec t mod 10), 46, digit (msec t div 100), 0]\<rparr>)"

definition get_current_time :: "u64 \<Rightarrow> PiTime \<Rightarrow> PiTime" where
  "get_current_time now t = format_current_time (parse_time (t\<lparr>ts := now\<rparr>))"

definition time_equal_approx :: "PiTime \<Rightarrow> PiTime \<Rightarrow> bool" where
  "time_equal_approx t1 t2 \<longleftrightarrow> sec t1 = sec t2 \<and> msec t1 div 100 = msec t2 div 100"

definition time_is_before :: "PiTime \<Rightarrow> PiTime \<Rightarrow> bool" where
  "time_is_before t1 t2 \<longleftrightarrow> ts t1 < ts t2"

text \<open>The sum \<open>d->msec * 1000 + d->mmsec\<close> is computed in \<open>int\<close>.\<close>

definition time_add :: "PiTime \<Rightarrow> PiDuration \<Rightarrow> PiTime" where
  "time_add t d =
     format_current_time (parse_time (t\<lparr>ts := ts t + (ucast (d_msec d) * 1000 + ucast (d_mmsec d))\<rparr>))"

definition duration_tmp :: "u32 \<Rightarrow> PiDuration" where
  "duration_tmp ms = \<lparr>d_msec = ucast ms, d_mmsec = 0\<rparr>"

definition time_diff :: "PiTime \<Rightarrow> PiTime \<Rightarrow> PiDuration" where
  "time_diff t1 t2 =
     \<lparr>d_msec = ucast ((ts t1 - ts t2) div 1000), d_mmsec = ucast ((ts t1 - ts t2) mod 1000)\<rparr>"

definition duration_max :: "PiDuration \<Rightarrow> PiDuration \<Rightarrow> PiDuration" where
  "duration_max d1 d2 =
     (if d_msec d1 = d_msec d2 \<and> d_mmsec d1 > d_mmsec d2 then d1
      else if d_msec d1 > d_msec d2 then d1 else d2)"

section \<open>What the fields mean\<close>

definition micros :: "PiTime \<Rightarrow> nat" where
  "micros t = unat (mmsec t) + 1000 * (unat (msec t) + 1000 * (unat (sec t) + 60 * (unat (mins t) + 60 * unat (hr t))))"

definition duration_micros :: "PiDuration \<Rightarrow> nat" where
  "duration_micros d = 1000 * unat (d_msec d) + unat (d_mmsec d)"

lemma unat_ucast_small: "unat (a :: u64) < 2 ^ LENGTH('b::len) \<Longrightarrow> unat (ucast a :: 'b word) = unat a"
  by (simp add: unsigned_ucast_eq take_bit_nat_eq_self)

lemma unat_div_u64: "unat ((a :: u64) div b) = unat a div unat b" "unat (a mod b) = unat a mod unat b"
  by (rule unat_div_distrib, rule unat_mod_distrib)

lemma parse_time_micros:
  assumes "unat (ts t) < 65536 * 3600000000"
  shows "micros (parse_time t) = unat (ts t)"
    "unat (mmsec (parse_time t)) < 1000" "unat (msec (parse_time t)) < 1000"
    "unat (sec (parse_time t)) < 60" "unat (mins (parse_time t)) < 60"
proof -
  let ?n = "unat (ts t)"
  have f: "unat (mmsec (parse_time t)) = ?n mod 1000" "unat (msec (parse_time t)) = ?n div 1000 mod 1000"
    "unat (sec (parse_time t)) = ?n div 1000 div 1000 mod 60"
    "unat (mins (parse_time t)) = ?n div 1000 div 1000 div 60 mod 60"
    by (simp_all add: parse_time_def Let_def unat_ucast_small unat_div_u64 less_trans [of _ 60 65536] less_trans [of _ 1000 65536])
  have h: "unat (hr (parse_time t)) = ?n div 1000 div 1000 div 60 div 60"
    using assms by (simp add: parse_time_def Let_def unat_ucast_small unat_div_u64 div_mult2_eq [symmetric] less_mult_imp_div_less)
  show "micros (parse_time t) = unat (ts t)"
    unfolding micros_def f h using mod_mult_div_eq [of ?n 1000] by (simp add: mult.commute)
  show "unat (mmsec (parse_time t)) < 1000" "unat (msec (parse_time t)) < 1000"
    "unat (sec (parse_time t)) < 60" "unat (mins (parse_time t)) < 60" unfolding f by simp_all
qed

lemma get_current_time_u64_value: "unat (get_current_time_u64 lo hi) = unat lo + 2 ^ 32 * unat hi"
proof -
  have "unat (push_bit 32 (ucast hi) :: u64) = 2 ^ 32 * unat hi"
  proof -
    have "unat hi * 4294967296 < 4294967296 * 4294967296" by simp
    moreover have "unat (ucast hi :: u64) = unat hi" by (rule unat_ucast_up) simp
    ultimately have "unat (ucast hi * 4294967296 :: u64) = unat hi * 4294967296"
      by (subst unat_mult_lem [THEN iffD1]) simp_all
    then show ?thesis by (simp add: push_bit_eq_mult)
  qed
  moreover have "(ucast lo :: u64) AND push_bit 32 (ucast hi) = 0"
    by (rule bit_eqI) (auto simp: bit_simps dest: bit_imp_le_length)
  then have "get_current_time_u64 lo hi = ucast lo + push_bit 32 (ucast hi)"
    unfolding get_current_time_u64_def by (simp add: disjunctive_add_eq_or)
  moreover have "unat (ucast lo :: u64) = unat lo" by (rule unat_ucast_up) simp
  moreover have "unat lo + 2 ^ 32 * unat hi < 2 ^ LENGTH(64)"
  proof -
    obtain a b where "unat lo = a" "unat hi = b" "a < 4294967296" "b < 4294967296"
      using unat_lt_bounds(3) by blast
    then show ?thesis by simp
  qed
  ultimately show ?thesis by (simp only: unat_add_no_wrap)
qed

lemma format_ts [simp]:
  "ts (format_current_time t) = ts t" "ts (parse_time t) = ts t"
  "micros (format_current_time t) = micros (parse_time t)" "parse_time (parse_time t) = parse_time t"
  by (simp_all add: format_current_time_def parse_time_def Let_def micros_def)

lemma unat_u16_up [simp]: "unat (ucast (a :: u16) :: u64) = unat a" "unat (ucast (c :: u8) :: u64) = unat c"
  by (rule unat_ucast_up; simp)+

lemma duration_word: "unat (ucast (d_msec d) * 1000 + ucast (d_mmsec d) :: u64) = duration_micros d"
proof -
  obtain a b where ab: "unat (d_msec d) = a" "unat (d_mmsec d) = b" "a < 65536" "b < 65536"
    using unat_lt_bounds(2) by blast
  have m: "unat (ucast (d_msec d) * 1000 :: u64) = a * 1000"
    using ab by (subst unat_mult_lem [THEN iffD1]) simp_all
  show ?thesis using m ab by (subst unat_add_no_wrap) (simp_all add: duration_micros_def)
qed

lemma time_add_micros:
  assumes "unat (ts t) + duration_micros d < 65536 * 3600000000"
  shows "unat (ts (time_add t d)) = unat (ts t) + duration_micros d" "micros (time_add t d) = unat (ts t) + duration_micros d"
proof -
  have e: "unat (ts t + (ucast (d_msec d) * 1000 + ucast (d_mmsec d))) = unat (ts t) + duration_micros d"
    using assms duration_word [of d] by (subst unat_add_no_wrap) simp_all
  show t1: "unat (ts (time_add t d)) = unat (ts t) + duration_micros d" using e by (simp add: time_add_def)
  show "micros (time_add t d) = unat (ts t) + duration_micros d"
    using parse_time_micros(1) [of "t\<lparr>ts := ts t + (ucast (d_msec d) * 1000 + ucast (d_mmsec d))\<rparr>"] assms e
    by (simp add: time_add_def)
qed

lemma time_diff_micros:
  assumes "ts t2 \<le> ts t1" "unat (ts t1) - unat (ts t2) < 65536 * 1000"
  shows "duration_micros (time_diff t1 t2) = unat (ts t1) - unat (ts t2)"
proof -
  have "unat (ts t1 - ts t2) = unat (ts t1) - unat (ts t2)" using assms(1) by (rule unat_sub_no_wrap)
  moreover have "(unat (ts t1) - unat (ts t2)) div 1000 < 65536" using assms(2) by (simp add: less_mult_imp_div_less)
  moreover have "(unat (ts t1) - unat (ts t2)) mod 1000 < 65536" by (rule less_trans [of _ 1000]) simp_all
  ultimately show ?thesis
    by (simp add: duration_micros_def time_diff_def unat_ucast_small unat_div_u64)
qed

text \<open>Adding the difference leads back to the later time.\<close>

lemma time_add_diff:
  assumes "ts t2 \<le> ts t1" "unat (ts t1) - unat (ts t2) < 65536 * 1000" "unat (ts t1) < 65536 * 3600000000"
  shows "ts (time_add t2 (time_diff t1 t2)) = ts t1"
  using time_add_micros(1) [of t2 "time_diff t1 t2"] time_diff_micros [OF assms(1,2)] assms
  by (simp add: word_unat_eq_iff word_le_nat_alt)

text \<open>A difference of 65.536 seconds or more loses its upper part.\<close>

lemma time_diff_wraps:
  "ts t2 = 0 \<Longrightarrow> ts t1 = 65536000 \<Longrightarrow> time_diff t1 t2 = \<lparr>d_msec = 0, d_mmsec = 0\<rparr>"
  by (simp add: time_diff_def)

lemma duration_max_micros:
  assumes "unat (d_mmsec d1) < 1000" "unat (d_mmsec d2) < 1000"
  shows "duration_micros (duration_max d1 d2) = max (duration_micros d1) (duration_micros d2)"
  using assms by (auto simp: duration_max_def duration_micros_def word_less_nat_alt word_unat_eq_iff max_def)

end
