(* ===== verification/Gpio.thy ===== *)
theory Gpio
  imports Prelude
begin

text \<open>
  The GPIO block and the PL011 UARTs of lib/include/rpi.h, lib/libbase/rpi_gpio.c and
  lib/libbase/rpi_uart.c. Registers are fields of records; an array of registers is a list and an index
  past its end is out of bounds. Values the hardware changes (pin levels, status flags) are read from
  the record as they are at that moment; a loop that polls a status register takes the list of values
  it reads.
\<close>

section \<open>GPIO\<close>

record GPIO =
  GPFSEL :: "u32 list"
  GPSET :: "u32 list"
  GPCLR :: "u32 list"
  GPLEV :: "u32 list"
  GPEDS :: "u32 list"
  GPREN :: "u32 list"
  GPFEN :: "u32 list"
  GPLEN0 :: u32
  PUP_PDN_CNTRL_REG :: "u32 list"

definition gpio_ok :: "GPIO \<Rightarrow> bool" where
  "gpio_ok g \<longleftrightarrow> length (GPFSEL g) = 6 \<and> length (GPSET g) = 2 \<and> length (GPCLR g) = 2 \<and> length (GPLEV g) = 2 \<and>
     length (GPEDS g) = 2 \<and> length (GPREN g) = 2 \<and> length (GPFEN g) = 2 \<and> length (PUP_PDN_CNTRL_REG g) = 4"

text \<open>Reading and changing one register of an array.\<close>

definition reg_modify :: "u32 list \<Rightarrow> nat \<Rightarrow> (u32 \<Rightarrow> u32) \<Rightarrow> u32 list res" where
  "reg_modify rs i f = (if i < length rs then Inr (rs[i := f (rs ! i)]) else Inl Out_of_bounds)"

definition GPIO_INPUT :: u32 where "GPIO_INPUT = 0"
definition GPIO_ALTFN4 :: u32 where "GPIO_ALTFN4 = 3"
definition GPIO_ALTFN0 :: u32 where "GPIO_ALTFN0 = 4"
definition GPIO_NONE :: u32 where "GPIO_NONE = 0"
definition GPIO_PDP :: u32 where "GPIO_PDP = 2"

definition setup_gpio :: "u32 \<Rightarrow> u32 \<Rightarrow> u32 \<Rightarrow> GPIO \<Rightarrow> GPIO res" where
  "setup_gpio pin setting resistor g =
     (let shift = unat ((pin mod 10) * 3) in
      bindR (reg_modify (GPFSEL g) (unat (pin div 10))
        (\<lambda>status. (status AND NOT (push_bit shift 7)) OR push_bit shift setting)) (\<lambda>sel.
      let shift2 = unat ((pin mod 16) * 2) in
      bindR (reg_modify (PUP_PDN_CNTRL_REG g) (unat (pin div 16))
        (\<lambda>status. (status AND NOT (push_bit shift2 3)) OR push_bit shift2 resistor)) (\<lambda>pup.
      Inr (g\<lparr>GPFSEL := sel, PUP_PDN_CNTRL_REG := pup\<rparr>))))"

definition set_outpin_gpio :: "u32 \<Rightarrow> GPIO \<Rightarrow> GPIO res" where
  "set_outpin_gpio pin g =
     bindR (reg_modify (GPSET g) (unat (pin div 32)) (\<lambda>_. push_bit (unat (pin mod 32)) 1)) (\<lambda>r. Inr (g\<lparr>GPSET := r\<rparr>))"

definition clear_outpin_gpio :: "u32 \<Rightarrow> GPIO \<Rightarrow> GPIO res" where
  "clear_outpin_gpio pin g =
     bindR (reg_modify (GPCLR g) (unat (pin div 32)) (\<lambda>_. push_bit (unat (pin mod 32)) 1)) (\<lambda>r. Inr (g\<lparr>GPCLR := r\<rparr>))"

definition gpio_set_edge_trigger :: "u32 \<Rightarrow> bool \<Rightarrow> bool \<Rightarrow> GPIO \<Rightarrow> GPIO res" where
  "gpio_set_edge_trigger pin rising falling g =
     (let reg = unat (pin div 32); b = push_bit (unat (pin mod 32)) 1 in
      bindR (if rising then reg_modify (GPREN g) reg (\<lambda>r. r OR b) else Inr (GPREN g)) (\<lambda>ren.
      bindR (if falling then reg_modify (GPFEN g) reg (\<lambda>r. r OR b) else Inr (GPFEN g)) (\<lambda>fen.
      Inr (g\<lparr>GPREN := ren, GPFEN := fen\<rparr>))))"

definition gpio_get_triggered :: "GPIO \<Rightarrow> u64" where
  "gpio_get_triggered g = push_bit 32 (ucast (GPEDS g ! 1)) OR ucast (GPEDS g ! 0)"

text \<open>
  Writing a 1 to a bit of \<open>GPEDS\<close> clears that event (BCM2711 manual), so the register after the write
  of \<open>v\<close> is \<open>old AND NOT v\<close>. The code writes \<open>GPEDS[0] | (reg && 0xffffffff)\<close>: the \<open>&&\<close> is 0 or 1.
\<close>

definition gpeds_write :: "nat \<Rightarrow> u32 \<Rightarrow> GPIO \<Rightarrow> GPIO" where
  "gpeds_write i v g = g\<lparr>GPEDS := (GPEDS g)[i := GPEDS g ! i AND NOT v]\<rparr>"

definition gpio_clear_triggered :: "u32 \<Rightarrow> u32 \<Rightarrow> GPIO \<Rightarrow> GPIO" where
  "gpio_clear_triggered start_pin end_pin g =
     (let reg = push_bit (unat end_pin) 1 - push_bit (unat start_pin) 1 :: u64;
          g1 = gpeds_write 0 (GPEDS g ! 0 OR (if reg \<noteq> 0 then 1 else 0)) g
      in gpeds_write 1 (GPEDS g1 ! 1 OR ucast (drop_bit 32 reg)) g1)"

definition gpio_read :: "GPIO \<Rightarrow> u64" where
  "gpio_read g = push_bit 32 (ucast (GPLEV g ! 1)) OR ucast (GPLEV g ! 0)"

definition init_gpio :: "GPIO \<Rightarrow> GPIO res" where
  "init_gpio g =
     bindR (setup_gpio 18 GPIO_ALTFN4 GPIO_NONE g) (\<lambda>g. bindR (setup_gpio 19 GPIO_ALTFN4 GPIO_NONE g) (\<lambda>g.
     bindR (setup_gpio 20 GPIO_ALTFN4 GPIO_NONE g) (\<lambda>g. bindR (setup_gpio 21 GPIO_ALTFN4 GPIO_NONE g) (\<lambda>g.
     bindR (setup_gpio 24 GPIO_INPUT GPIO_NONE g) (\<lambda>g. Inr (g\<lparr>GPLEN0 := GPLEN0 g OR push_bit 24 1\<rparr>))))))"

section \<open>UART\<close>

record UART =
  DR :: u8
  FR :: u32
  IBRD :: u32
  FBRD :: u32
  LCRH :: u32
  CR :: u32
  IMSC :: u32
  MIS :: u32
  ICR :: u32

record UART_PINS =
  upin_setting :: u32
  upin_resistor :: u32
  upin_TX :: u32
  upin_RX :: u32

definition uart_pins_arr :: "UART_PINS list" where
  "uart_pins_arr =
     [\<lparr>upin_setting = GPIO_ALTFN0, upin_resistor = GPIO_NONE, upin_TX = 14, upin_RX = 15\<rparr>,
      \<lparr>upin_setting = 0, upin_resistor = 0, upin_TX = 0, upin_RX = 0\<rparr>,
      \<lparr>upin_setting = GPIO_ALTFN4, upin_resistor = GPIO_NONE, upin_TX = 0, upin_RX = 1\<rparr>,
      \<lparr>upin_setting = GPIO_ALTFN4, upin_resistor = GPIO_NONE, upin_TX = 4, upin_RX = 5\<rparr>,
      \<lparr>upin_setting = GPIO_ALTFN4, upin_resistor = GPIO_NONE, upin_TX = 8, upin_RX = 9\<rparr>,
      \<lparr>upin_setting = GPIO_ALTFN4, upin_resistor = GPIO_NONE, upin_TX = 12, upin_RX = 13\<rparr>]"

text \<open>The device at \<open>uart_from_id uid\<close>; the registers of all UARTs, by address.\<close>

definition uart_from_id :: "u32 \<Rightarrow> ptr" where
  "uart_from_id uid = ucast (0xfe201000 + 0x200 * uid)"

type_synonym uarts = "ptr \<Rightarrow> UART"

definition upd_uart :: "u32 \<Rightarrow> (UART \<Rightarrow> UART) \<Rightarrow> uarts \<Rightarrow> uarts" where
  "upd_uart uid f us = us(uart_from_id uid := f (us (uart_from_id uid)))"

definition uart_setup_gpio :: "u32 \<Rightarrow> GPIO \<Rightarrow> GPIO res" where
  "uart_setup_gpio uid g =
     (if unat uid < length uart_pins_arr then
        let pins = uart_pins_arr ! unat uid in
        bindR (setup_gpio (upin_TX pins) (upin_setting pins) (upin_resistor pins) g)
          (setup_gpio (upin_RX pins) (upin_setting pins) (upin_resistor pins))
      else Inl Out_of_bounds)"

definition uart_init :: "u32 \<Rightarrow> u32 \<Rightarrow> GPIO \<times> uarts \<Rightarrow> (GPIO \<times> uarts) res" where
  "uart_init uid baudrate = (\<lambda>(g, us).
     bindR (uart_setup_gpio uid g) (\<lambda>g'.
     if baudrate = 0 then Inl Div_by_zero
     else
       let baud_divisor = ucast (48000000 * 4 div (ucast baudrate :: u64)) :: u32
       in Inr (g', upd_uart uid (\<lambda>u. u\<lparr>ICR := 0, LCRH := 0x40 OR 0x20 OR 0x10, IBRD := drop_bit 6 baud_divisor,
            FBRD := baud_divisor AND 0x3f, CR := CR u OR 1 OR 0x100 OR 0x200\<rparr>) us)))"

text \<open>
  \<open>uart_putc\<close> and \<open>uart_getc\<close> poll the flag register: \<open>frs\<close> are the values read from it, one per
  iteration; \<open>None\<close> when they do not suffice.
\<close>

fun poll :: "u32 \<Rightarrow> u32 list \<Rightarrow> u32 list option" where
  "poll msk [] = None"
| "poll msk (fr # frs) = (if fr AND msk \<noteq> 0 then poll msk frs else Some frs)"

definition uart_putc :: "u32 \<Rightarrow> u8 \<Rightarrow> u32 list \<Rightarrow> uarts \<Rightarrow> (uarts \<times> u32 list) option" where
  "uart_putc uid c frs us = map_option (\<lambda>rest. (upd_uart uid (\<lambda>u. u\<lparr>DR := c\<rparr>) us, rest)) (poll 0x20 frs)"

definition uart_getc :: "u32 \<Rightarrow> u32 list \<Rightarrow> uarts \<Rightarrow> (u8 \<times> u32 list) option" where
  "uart_getc uid frs us =
     map_option (\<lambda>rest. (let r = DR (us (uart_from_id uid)) in if r = 13 then 10 else r, rest)) (poll 0x10 frs)"

definition uart_intr_arm :: "u32 \<Rightarrow> uarts \<Rightarrow> uarts" where
  "uart_intr_arm uid = upd_uart uid (\<lambda>u. u\<lparr>IMSC := 0x7F2\<rparr>)"

definition uart_intr_unarm :: "u32 \<Rightarrow> uarts \<Rightarrow> uarts" where
  "uart_intr_unarm uid = upd_uart uid (\<lambda>u. u\<lparr>ICR := 0, IMSC := 0\<rparr>)"

definition uart_intr_status :: "u32 \<Rightarrow> uarts \<Rightarrow> u32" where
  "uart_intr_status uid us = MIS (us (uart_from_id uid))"

section \<open>Fields of registers\<close>

text \<open>The field of \<open>w\<close> bits at position \<open>s\<close>.\<close>

definition field :: "nat \<Rightarrow> nat \<Rightarrow> u32 \<Rightarrow> u32" where
  "field s w r = take_bit w (drop_bit s r)"


lemma field_written:
  fixes r v :: u32
  assumes v: "take_bit w v = v" and s: "s + w \<le> 32"
  shows "field s w ((r AND NOT (push_bit s (mask w))) OR push_bit s v) = v"
proof (rule bit_word_eqI)
  fix n assume n: "n < LENGTH(32)"
  have "bit v n \<longleftrightarrow> n < w \<and> bit v n" using v by (metis bit_take_bit_iff)
  then show "bit (field s w ((r AND NOT (push_bit s (mask w))) OR push_bit s v)) n = bit v n"
    using s n by (auto simp: field_def bit_simps)
qed

lemma field_other:
  fixes r v :: u32
  assumes v: "take_bit w v = v" and d: "s' + w' \<le> s \<or> s + w \<le> s'"
  shows "field s' w' ((r AND NOT (push_bit s (mask w))) OR push_bit s v) = field s' w' r"
proof (rule bit_word_eqI)
  fix n assume n: "n < LENGTH(32)"
  have bv: "\<not> bit v k" if "w \<le> k" for k using v that by (metis bit_take_bit_iff leD)
  show "bit (field s' w' ((r AND NOT (push_bit s (mask w))) OR push_bit s v)) n = bit (field s' w' r) n"
    using d n by (auto simp: field_def bit_simps bv dest: bit_imp_le_length)
qed

text \<open>\<open>setup_gpio\<close> sets the function and the resistor of its pin and leaves every other pin as it was.\<close>

definition pin_function :: "GPIO \<Rightarrow> nat \<Rightarrow> u32" where
  "pin_function g p = field ((p mod 10) * 3) 3 (GPFSEL g ! (p div 10))"

definition pin_resistor :: "GPIO \<Rightarrow> nat \<Rightarrow> u32" where
  "pin_resistor g p = field ((p mod 16) * 2) 2 (PUP_PDN_CNTRL_REG g ! (p div 16))"

lemma setup_gpio_correct:
  assumes g: "gpio_ok g" and pin: "unat pin < 58" and v: "unat setting < 8" "unat resistor < 4"
  shows "\<exists>g'. setup_gpio pin setting resistor g = Inr g' \<and> gpio_ok g' \<and>
     pin_function g' (unat pin) = setting \<and> pin_resistor g' (unat pin) = resistor \<and>
     (\<forall>p. p < 58 \<and> p \<noteq> unat pin \<longrightarrow> pin_function g' p = pin_function g p \<and> pin_resistor g' p = pin_resistor g p)"
proof -
  let ?p = "unat pin"
  have s1: "unat ((pin mod 10) * 3) = (?p mod 10) * 3"
  proof -
    have "unat (pin mod 10) = ?p mod 10" by (simp add: unat_mod_distrib)
    moreover have "?p mod 10 * 3 < 30" by simp
    ultimately show ?thesis by (subst unat_mult_lem [THEN iffD1]) simp_all
  qed
  have s2: "unat ((pin mod 16) * 2) = (?p mod 16) * 2"
  proof -
    have "unat (pin mod 16) = ?p mod 16" by (simp add: unat_mod_distrib)
    moreover have "?p mod 16 * 2 < 32" by simp
    ultimately show ?thesis by (subst unat_mult_lem [THEN iffD1]) simp_all
  qed
  have d: "unat (pin div 10) = ?p div 10" "unat (pin div 16) = ?p div 16" by (simp_all add: unat_div_distrib)
  have i: "?p div 10 < 6" "?p div 16 < 4" using pin by simp_all
  have m: "(7 :: u32) = mask 3" "(3 :: u32) = mask 2" by (simp_all add: mask_eq_exp_minus_1)
  have t: "take_bit 3 setting = setting" "take_bit 2 resistor = resistor"
    using v by (simp_all add: word_unat_eq_iff unsigned_take_bit_eq take_bit_nat_eq_self)
  note fw = field_written [where w = 3, folded m(1)] field_written [where w = 2, folded m(2)]
    and fo = field_other [where w = 3, folded m(1)] field_other [where w = 2, folded m(2)]
  define g' where "g' = g\<lparr>GPFSEL := (GPFSEL g)[?p div 10 := (GPFSEL g ! (?p div 10) AND NOT (push_bit ((?p mod 10) * 3) 7)) OR push_bit ((?p mod 10) * 3) setting],
      PUP_PDN_CNTRL_REG := (PUP_PDN_CNTRL_REG g)[?p div 16 := (PUP_PDN_CNTRL_REG g ! (?p div 16) AND NOT (push_bit ((?p mod 16) * 2) 3)) OR push_bit ((?p mod 16) * 2) resistor]\<rparr>"
  have op: "setup_gpio pin setting resistor g = Inr g'"
    using g i unfolding setup_gpio_def reg_modify_def s1 s2 d by (simp add: gpio_ok_def Let_def g'_def)
  have ok: "gpio_ok g'" using g by (simp add: gpio_ok_def g'_def)
  have "(?p mod 10) * 3 + 3 \<le> 32" "(?p mod 16) * 2 + 2 \<le> 32"
    using mod_less_divisor [of 10 ?p] mod_less_divisor [of 16 ?p] by linarith+
  then have own: "pin_function g' ?p = setting" "pin_resistor g' ?p = resistor"
    using g i t by (simp_all add: pin_function_def pin_resistor_def g'_def gpio_ok_def fw)
  have "pin_function g' p = pin_function g p" if "p \<noteq> ?p" for p
  proof (cases "p div 10 = ?p div 10")
    case True
    then have "p mod 10 \<noteq> ?p mod 10" using that by (metis div_mult_mod_eq)
    then have "p mod 10 * 3 + 3 \<le> ?p mod 10 * 3 \<or> ?p mod 10 * 3 + 3 \<le> p mod 10 * 3" by linarith
    then show ?thesis using g i t True by (simp add: pin_function_def g'_def gpio_ok_def fo)
  qed (simp add: pin_function_def g'_def)
  moreover have "pin_resistor g' p = pin_resistor g p" if "p \<noteq> ?p" for p
  proof (cases "p div 16 = ?p div 16")
    case True
    then have "p mod 16 \<noteq> ?p mod 16" using that by (metis div_mult_mod_eq)
    then have "p mod 16 * 2 + 2 \<le> ?p mod 16 * 2 \<or> ?p mod 16 * 2 + 2 \<le> p mod 16 * 2" by linarith
    then show ?thesis using g i t True by (simp add: pin_resistor_def g'_def gpio_ok_def fo)
  qed (simp add: pin_resistor_def g'_def)
  ultimately show ?thesis using op ok own by blast
qed

text \<open>
  The read-modify-write on the write-1-to-clear registers clears every pending event of both banks,
  whatever range of pins is asked for.
\<close>

lemma gpio_clear_triggered_all:
  assumes "gpio_ok g"
  shows "gpio_get_triggered (gpio_clear_triggered a b g) = 0"
proof -
  have z: "x AND NOT (x OR y) = 0" for x y :: u32 by (rule bit_word_eqI) (simp add: bit_simps)
  obtain e0 e1 where "GPEDS g = [e0, e1]"
    using assms by (auto simp: gpio_ok_def length_Suc_conv numeral_2_eq_2)
  then show ?thesis
    by (simp add: gpio_get_triggered_def gpio_clear_triggered_def gpeds_write_def Let_def z del: bit.de_Morgan_disj)
qed

text \<open>The divisor of the baud rate, in 64ths, is split over the two registers.\<close>

lemma uart_init_divisor:
  assumes "gpio_ok g" "unat uid < 6" "0 < unat baud"
  shows "\<exists>g' us'. uart_init uid baud (g, us) = Inr (g', us') \<and>
    64 * unat (IBRD (us' (uart_from_id uid))) + unat (FBRD (us' (uart_from_id uid))) = 192000000 div unat baud \<and>
    (\<forall>a. a \<noteq> uart_from_id uid \<longrightarrow> us' a = us a)"
proof -
  have pins: "\<forall>p\<in>set uart_pins_arr. unat (upin_TX p) < 58 \<and> unat (upin_RX p) < 58 \<and> unat (upin_setting p) < 8 \<and> unat (upin_resistor p) < 4"
    by (simp add: uart_pins_arr_def GPIO_ALTFN0_def GPIO_ALTFN4_def GPIO_NONE_def)
  have len: "unat uid < length uart_pins_arr" using assms(2) by (simp add: uart_pins_arr_def)
  let ?p = "uart_pins_arr ! unat uid"
  have p: "unat (upin_TX ?p) < 58" "unat (upin_RX ?p) < 58" "unat (upin_setting ?p) < 8" "unat (upin_resistor ?p) < 4"
    using pins nth_mem [OF len] by blast+
  obtain g1 where g1: "setup_gpio (upin_TX ?p) (upin_setting ?p) (upin_resistor ?p) g = Inr g1" "gpio_ok g1"
    using setup_gpio_correct [OF assms(1) p(1,3,4)] by blast
  obtain g2 where g2: "setup_gpio (upin_RX ?p) (upin_setting ?p) (upin_resistor ?p) g1 = Inr g2"
    using setup_gpio_correct [OF g1(2) p(2-4)] by blast
  have su: "uart_setup_gpio uid g = Inr g2" using len g1 g2 by (simp add: uart_setup_gpio_def Let_def)
  define dv :: u32 where "dv = ucast (48000000 * 4 div (ucast baud :: u64))"
  have ub: "unat (ucast baud :: u64) = unat baud" by (rule unat_ucast_up) simp
  have lt: "192000000 div unat baud < 2 ^ 32" by (rule le_less_trans [OF div_le_dividend]) simp
  moreover have "unat (48000000 * 4 div (ucast baud :: u64)) = 192000000 div unat baud"
    unfolding unat_div_distrib ub by simp
  ultimately have dv: "unat dv = 192000000 div unat baud"
    unfolding dv_def unsigned_ucast_eq by (simp only:) (simp add: take_bit_nat_eq_self [OF lt])
  have f: "unat (dv AND 0x3f) = unat dv mod 64"
  proof -
    have m: "(0x3f :: u32) = mask 6" by (simp add: mask_eq_exp_minus_1)
    show ?thesis unfolding m by (simp only: take_bit_eq_mask [symmetric] unsigned_take_bit_eq) (simp add: take_bit_eq_mod)
  qed
  have b0: "baud \<noteq> 0" using assms(3) by auto
  have sum: "64 * unat (drop_bit 6 dv) + unat (dv AND 0x3f) = 192000000 div unat baud"
    unfolding f unat_drop dv by simp
  have op: "uart_init uid baud (g, us) = Inr (g2, upd_uart uid (\<lambda>u. u\<lparr>ICR := 0, LCRH := 0x40 OR 0x20 OR 0x10, IBRD := drop_bit 6 dv,
            FBRD := dv AND 0x3f, CR := CR u OR 1 OR 0x100 OR 0x200\<rparr>) us)"
    using su b0 by (simp add: uart_init_def Let_def dv_def)
  show ?thesis
    by (intro exI conjI, rule op) (use sum in \<open>simp_all add: upd_uart_def\<close>)
qed

end
