(* ===== verification/Encoder.thy ===== *)
theory Encoder
  imports Gpio
begin

text \<open>
  Quadrature encoders: kernel/include/encoder.h and kernel/src/encoder.c. The static table
  \<open>change_lookup\<close> is part of the manager's state here.
\<close>

record keQuadEncoderStat =
  forward_cnt :: u64
  backward_cnt :: u64
  invalid_1_cnt :: u64
  invalid_2_cnt :: u64
  stat_debug :: u64

record kQuadEncoder =
  pin_a :: u32
  pin_b :: u32
  last_a :: u8
  last_b :: u8
  stat :: keQuadEncoderStat

record kQuadEncoderMgr =
  encoders :: "kQuadEncoder list"
  encoders_n :: nat
  pin_lookup :: "int list"
  change_lookup :: "int list"

abbreviation (input) ENCODER_MAX :: nat where "ENCODER_MAX \<equiv> 2"

definition ke_quad_encoder_stat_clear :: keQuadEncoderStat where
  "ke_quad_encoder_stat_clear =
     \<lparr>forward_cnt = 0, backward_cnt = 0, invalid_1_cnt = 0, invalid_2_cnt = 0, stat_debug = 0\<rparr>"

definition encoder_mgr_init :: "kQuadEncoderMgr \<Rightarrow> kQuadEncoderMgr" where
  "encoder_mgr_init mgr =
     mgr\<lparr>encoders_n := 0, pin_lookup := replicate 64 (- 1),
         change_lookup := (replicate 16 0)[2 := 1, 11 := 1, 13 := 1, 4 := 1, 1 := - 1, 7 := - 1, 14 := - 1, 8 := - 1]\<rparr>"

text \<open>The result of \<open>encoder_init\<close> is the new id, or \<open>- 1\<close>.\<close>

definition encoder_init ::
  "u32 \<Rightarrow> u32 \<Rightarrow> kQuadEncoderMgr \<times> GPIO \<Rightarrow> ((kQuadEncoderMgr \<times> GPIO) \<times> int) res" where
  "encoder_init pa pb = (\<lambda>(mgr, g).
     if encoders_n mgr \<ge> ENCODER_MAX then Inr ((mgr, g), - 1)
     else
       let idx = encoders_n mgr;
           gpio_status = gpio_read g;
           lvl = (\<lambda>p :: u32. if gpio_status AND push_bit (unat p) 1 \<noteq> 0 then 1 else 0 :: u8);
           e = \<lparr>pin_a = pa, pin_b = pb, last_a = lvl pa, last_b = lvl pb, stat = ke_quad_encoder_stat_clear\<rparr>
       in if unat pa \<ge> length (pin_lookup mgr) \<or> unat pb \<ge> length (pin_lookup mgr) then Inl Out_of_bounds
          else
            let m' = mgr\<lparr>encoders_n := idx + 1, encoders := (encoders mgr)[idx := e],
                         pin_lookup := (pin_lookup mgr)[unat pa := int idx, unat pb := int idx]\<rparr>
            in bindR (setup_gpio pa GPIO_INPUT GPIO_PDP g) (\<lambda>g.
               bindR (setup_gpio pb GPIO_INPUT GPIO_PDP g) (\<lambda>g.
               bindR (gpio_set_edge_trigger pa True True g) (\<lambda>g.
               bindR (gpio_set_edge_trigger pb True True g) (\<lambda>g. Inr ((m', g), int idx))))))"

text \<open>Pointers to encoders are indices into the array.\<close>

definition get_encoder :: "kQuadEncoderMgr \<Rightarrow> int \<Rightarrow> nat option" where
  "get_encoder mgr i = (if 0 \<le> i \<and> i < int (encoders_n mgr) then Some (nat i) else None)"

definition get_encoder_by_pin :: "kQuadEncoderMgr \<Rightarrow> u32 \<Rightarrow> nat option res" where
  "get_encoder_by_pin mgr pin =
     (if unat pin < length (pin_lookup mgr) then
        let i = pin_lookup mgr ! unat pin in Inr (if i = - 1 then None else get_encoder mgr i)
      else Inl Out_of_bounds)"

definition encoder_update :: "int list \<Rightarrow> u8 \<Rightarrow> u8 \<Rightarrow> kQuadEncoder \<Rightarrow> kQuadEncoder res" where
  "encoder_update tbl a b e =
     (let change = push_bit 3 (last_a e) OR push_bit 2 (last_b e) OR push_bit 1 a OR b in
      if unat change \<ge> length tbl then Inl Out_of_bounds
      else
        let r = tbl ! unat change; s = stat e;
            s' = (if r = 1 then s\<lparr>forward_cnt := forward_cnt s + 1\<rparr>
                  else if r = - 1 then s\<lparr>backward_cnt := backward_cnt s + 1\<rparr>
                  else if last_a e = a \<and> last_b e = b then s\<lparr>invalid_1_cnt := invalid_1_cnt s + 1\<rparr>
                  else s\<lparr>invalid_2_cnt := invalid_2_cnt s + 1\<rparr>)
        in Inr (e\<lparr>stat := s', last_a := a, last_b := b\<rparr>))"

section \<open>Well-formed managers\<close>

definition enc_table :: "int list" where
  "enc_table = [0, - 1, 1, 0, 1, 0, 0, - 1, - 1, 0, 0, 1, 0, 1, - 1, 0]"

definition encoder_ok :: "kQuadEncoder \<Rightarrow> bool" where
  "encoder_ok e \<longleftrightarrow> last_a e \<in> {0, 1} \<and> last_b e \<in> {0, 1}"

definition encoder_mgr_ok :: "kQuadEncoderMgr \<Rightarrow> bool" where
  "encoder_mgr_ok mgr \<longleftrightarrow> length (encoders mgr) = ENCODER_MAX \<and> encoders_n mgr \<le> ENCODER_MAX \<and>
     length (pin_lookup mgr) = 64 \<and> change_lookup mgr = enc_table \<and>
     (\<forall>i\<in>set (pin_lookup mgr). i = - 1 \<or> 0 \<le> i \<and> i < int (encoders_n mgr)) \<and>
     (\<forall>k<encoders_n mgr. encoder_ok (encoders mgr ! k))"

lemma encoder_mgr_init_ok: "length (encoders mgr) = ENCODER_MAX \<Longrightarrow> encoder_mgr_ok (encoder_mgr_init mgr)"
  by (simp add: encoder_mgr_ok_def encoder_mgr_init_def enc_table_def numeral_eq_Suc)

lemma gpio_set_edge_trigger_ok:
  assumes "gpio_ok g" "unat pin < 64"
  shows "\<exists>g'. gpio_set_edge_trigger pin r f g = Inr g' \<and> gpio_ok g'"
proof -
  have "unat (pin div 32) < 2" using assms(2) by (simp add: unat_div_distrib)
  then show ?thesis using assms(1)
    by (cases r; cases f) (simp_all add: gpio_set_edge_trigger_def reg_modify_def gpio_ok_def Let_def)
qed

text \<open>
  \<open>encoder_init\<close> on two pins of the first two banks: the next id while there is room, registered for
  both pins; else \<open>- 1\<close> and nothing changes.
\<close>

lemma encoder_init_ok:
  assumes m: "encoder_mgr_ok mgr" and g: "gpio_ok g" and p: "unat pa < 58" "unat pb < 58"
  shows "if encoders_n mgr = ENCODER_MAX then encoder_init pa pb (mgr, g) = Inr ((mgr, g), - 1)
     else \<exists>mgr' g'. encoder_init pa pb (mgr, g) = Inr ((mgr', g'), int (encoders_n mgr)) \<and>
       encoder_mgr_ok mgr' \<and> gpio_ok g' \<and> encoders_n mgr' = encoders_n mgr + 1 \<and>
       get_encoder_by_pin mgr' pa = Inr (Some (encoders_n mgr)) \<and> get_encoder_by_pin mgr' pb = Inr (Some (encoders_n mgr)) \<and>
       stat (encoders mgr' ! encoders_n mgr) = ke_quad_encoder_stat_clear"
proof (cases "encoders_n mgr = ENCODER_MAX")
  case False
  then have n: "encoders_n mgr < ENCODER_MAX" using m by (simp add: encoder_mgr_ok_def)
  have v: "unat GPIO_INPUT < 8" "unat GPIO_PDP < 4" by (simp_all add: GPIO_INPUT_def GPIO_PDP_def)
  obtain g1 where g1: "setup_gpio pa GPIO_INPUT GPIO_PDP g = Inr g1" "gpio_ok g1"
    using setup_gpio_correct [OF g p(1) v] by blast
  obtain g2 where g2: "setup_gpio pb GPIO_INPUT GPIO_PDP g1 = Inr g2" "gpio_ok g2"
    using setup_gpio_correct [OF g1(2) p(2) v] by blast
  obtain g3 where g3: "gpio_set_edge_trigger pa True True g2 = Inr g3" "gpio_ok g3"
    using gpio_set_edge_trigger_ok [OF g2(2), of pa] p by auto
  obtain g4 where g4: "gpio_set_edge_trigger pb True True g3 = Inr g4" "gpio_ok g4"
    using gpio_set_edge_trigger_ok [OF g3(2), of pb] p by auto
  define lvl where "lvl = (\<lambda>q :: u32. if gpio_read g AND push_bit (unat q) 1 \<noteq> 0 then 1 else 0 :: u8)"
  define e where "e = \<lparr>pin_a = pa, pin_b = pb, last_a = lvl pa, last_b = lvl pb, stat = ke_quad_encoder_stat_clear\<rparr>"
  define mgr' where "mgr' = mgr\<lparr>encoders_n := encoders_n mgr + 1, encoders := (encoders mgr)[encoders_n mgr := e],
      pin_lookup := (pin_lookup mgr)[unat pa := int (encoders_n mgr), unat pb := int (encoders_n mgr)]\<rparr>"
  have l: "length (pin_lookup mgr) = 64" "length (encoders mgr) = ENCODER_MAX" using m by (simp_all add: encoder_mgr_ok_def)
  have op: "encoder_init pa pb (mgr, g) = Inr ((mgr', g4), int (encoders_n mgr))"
    using n p l g1 g2 g3 g4 by (simp add: encoder_init_def Let_def mgr'_def e_def lvl_def)
  have "encoder_mgr_ok mgr'"
    using m n by (auto simp: encoder_mgr_ok_def mgr'_def e_def lvl_def encoder_ok_def less_Suc_eq nth_list_update
        dest!: set_update_subset_insert [THEN subsetD])
  moreover have "get_encoder_by_pin mgr' pa = Inr (Some (encoders_n mgr))" "get_encoder_by_pin mgr' pb = Inr (Some (encoders_n mgr))"
    using p l by (auto simp: get_encoder_by_pin_def mgr'_def get_encoder_def nth_list_update)
  moreover have "stat (encoders mgr' ! encoders_n mgr) = ke_quad_encoder_stat_clear"
    using n l by (simp add: mgr'_def e_def)
  ultimately show ?thesis using False op g4(2) by (simp add: mgr'_def)
qed (simp add: encoder_init_def)

section \<open>Counting\<close>

text \<open>The phase of the two signals; turning forward goes through 00, 10, 11, 01.\<close>

definition phase :: "u8 \<Rightarrow> u8 \<Rightarrow> int" where
  "phase a b = (if a = 0 then if b = 0 then 0 else 3 else if b = 0 then 1 else 2)"

definition net :: "kQuadEncoder \<Rightarrow> u64" where
  "net e = forward_cnt (stat e) - backward_cnt (stat e)"

lemma encoder_update_ok:
  assumes e: "encoder_ok e" and ab: "a \<in> {0, 1}" "b \<in> {0, 1}"
  shows "\<exists>e'. encoder_update enc_table a b e = Inr e' \<and> encoder_ok e' \<and> last_a e' = a \<and> last_b e' = b \<and>
     (let d = (phase a b - phase (last_a e) (last_b e)) mod 4 in
       net e' = net e + (if d = 1 then 1 else if d = 3 then - 1 else 0) \<and>
       invalid_1_cnt (stat e') = invalid_1_cnt (stat e) + (if d = 0 then 1 else 0) \<and>
       invalid_2_cnt (stat e') = invalid_2_cnt (stat e) + (if d = 2 then 1 else 0))"
proof -
  have "last_a e \<in> {0, 1}" "last_b e \<in> {0, 1}" using e by (simp_all add: encoder_ok_def)
  with ab show ?thesis
    by (elim insertE emptyE)
      (simp_all add: encoder_update_def enc_table_def encoder_ok_def phase_def net_def Let_def push_bit_eq_mult)
qed

text \<open>
  A shaft that moves at most one phase between two updates: the net count is the distance.
\<close>

fun enc_run :: "kQuadEncoder \<Rightarrow> (u8 \<times> u8) list \<Rightarrow> kQuadEncoder res" where
  "enc_run e [] = Inr e"
| "enc_run e ((a, b) # xs) = bindR (encoder_update enc_table a b e) (\<lambda>e'. enc_run e' xs)"

fun small_steps :: "int \<Rightarrow> int list \<Rightarrow> bool" where
  "small_steps p [] = True"
| "small_steps p (q # qs) = (\<bar>q - p\<bar> \<le> 1 \<and> small_steps q qs)"

definition at_pos :: "int \<Rightarrow> u8 \<times> u8 \<Rightarrow> bool" where
  "at_pos p ab \<longleftrightarrow> fst ab \<in> {0, 1} \<and> snd ab \<in> {0, 1} \<and> phase (fst ab) (snd ab) = p mod 4"

lemma enc_run_net:
  "encoder_ok e \<Longrightarrow> at_pos p (last_a e, last_b e) \<Longrightarrow> list_all2 at_pos ps xs \<Longrightarrow> small_steps p ps \<Longrightarrow>
   \<exists>e'. enc_run e xs = Inr e' \<and> encoder_ok e' \<and> net e' = net e + of_int (last (p # ps) - p) \<and>
     invalid_2_cnt (stat e') = invalid_2_cnt (stat e)"
proof (induction ps arbitrary: p e xs)
  case (Cons q qs)
  then obtain a b xs' where xs: "xs = (a, b) # xs'" "at_pos q (a, b)" "list_all2 at_pos qs xs'"
    by (auto simp: list_all2_Cons1)
  have st: "\<bar>q - p\<bar> \<le> 1" "small_steps q qs" using Cons.prems(4) by auto
  have ab: "a \<in> {0, 1}" "b \<in> {0, 1}" "phase a b = q mod 4" "phase (last_a e) (last_b e) = p mod 4"
    using xs(2) Cons.prems(2) by (simp_all add: at_pos_def)
  define d where "d = (phase a b - phase (last_a e) (last_b e)) mod 4"
  obtain e1 where e1: "encoder_update enc_table a b e = Inr e1" "encoder_ok e1" "last_a e1 = a" "last_b e1 = b"
    "net e1 = net e + (if d = 1 then 1 else if d = 3 then - 1 else 0)"
    "invalid_2_cnt (stat e1) = invalid_2_cnt (stat e) + (if d = 2 then 1 else 0)"
    using encoder_update_ok [OF Cons.prems(1) ab(1,2)] unfolding Let_def d_def [symmetric] by blast
  have d: "d = (q - p) mod 4" unfolding d_def ab(3,4) by (rule mod_diff_eq)
  consider "q - p = 0" | "q - p = 1" | "q - p = - 1" using st(1) by linarith
  then have n: "net e1 = net e + of_int (q - p)" "invalid_2_cnt (stat e1) = invalid_2_cnt (stat e)"
    by (cases; use e1(5,6) d in simp)+
  obtain e' where "enc_run e1 xs' = Inr e'" "encoder_ok e'" "net e' = net e1 + of_int (last (q # qs) - q)"
    "invalid_2_cnt (stat e') = invalid_2_cnt (stat e1)"
    using Cons.IH [OF e1(2) _ xs(3) st(2)] xs(2) e1(3,4) by auto
  then show ?case using xs(1) e1(1) n by (intro exI [of _ e']) simp
qed simp

end
