(* ===== verification/Kernel.thy ===== *)
theory Kernel
  imports DList RingBuf PrioHeap BootMem LeMem Timer Encoder
begin

text \<open>
  The kernel's state and the operations on tasks, mailboxes and the scheduler: kernel/include/task.h,
  kernel/src/task.c, kernel/include/mailbox.h, kernel/include/scheduler.h, kernel/src/scheduler.c and
  kernel/src/global_state.c.

  A task is the address of its descriptor (\<open>struct kTaskDsp\<close>); \<open>tds\<close> holds the descriptors and
  \<open>sched_links\<close> their \<open>next_sched\<close> and \<open>prev_sched\<close> fields. The red-black tree \<open>map_tid\<close> is
  represented by its contents, the map from task ids to descriptors.
\<close>

section \<open>Task descriptors\<close>

abbreviation (input) KE_INTR_ID_RANGE_MIN :: u32 where "KE_INTR_ID_RANGE_MIN \<equiv> 16"
abbreviation (input) USER_STACK_ARRAY_CNT :: u64 where "USER_STACK_ARRAY_CNT \<equiv> 64"
abbreviation (input) K_TID_INVALID :: u64 where "K_TID_INVALID \<equiv> - 1"
abbreviation (input) K_SCHED_HEAP_CAPACITY :: nat where "K_SCHED_HEAP_CAPACITY \<equiv> 200"
abbreviation (input) sizeof_kTaskDsp :: u32 where "sizeof_kTaskDsp \<equiv> 712"

text \<open>
  \<open>enum kTaskState\<close>; the values from \<open>EVENT_BLOCKED_RANGE\<close> on are the ids of interrupts waited for.
\<close>

abbreviation (input) READY :: u32 where "READY \<equiv> 1"
abbreviation (input) SEND_BLOCKED :: u32 where "SEND_BLOCKED \<equiv> 3"
abbreviation (input) RECEIVE_BLOCKED :: u32 where "RECEIVE_BLOCKED \<equiv> 4"
abbreviation (input) REPLY_BLOCKED :: u32 where "REPLY_BLOCKED \<equiv> 5"

definition IS_EVENT_BLOCKED :: "u32 \<Rightarrow> bool" where
  "IS_EVENT_BLOCKED s \<longleftrightarrow> s \<ge> KE_INTR_ID_RANGE_MIN"

record kPriorityKey =
  priority :: u64
  insert_val :: u64

record kMailbox =
  sender_waitqueue :: "ptr ring"
  out_msg :: ptr
  out_msg_len :: u64
  in_tid :: ptr
  in_buf :: ptr
  in_buf_len :: u64

record kTaskDsp =
  td_pc :: u64
  td_sp :: u64
  td_pstate :: u64
  esr_el1 :: u64
  syscall_retval :: u64
  stack_addr :: ptr
  stack_sz :: u32
  td_tid :: u64
  priority_key :: kPriorityKey
  td_state :: u32
  parent_tid :: u64
  mailbox :: kMailbox

section \<open>The global state\<close>

text \<open>
  \<open>struct kGlobalState\<close> with the structures it points to: user memory, the descriptors, the slab
  manager (over the page manager), the devices; \<open>kg_current_td\<close>; and three addresses the linker fixes.
\<close>

record kState =
  mem :: memory
  tds :: "ptr \<Rightarrow> kTaskDsp"
  sched_links :: "ptr links"
  slabmgr :: "PgMgr SlabMgr"
  task_alloc :: nat
  idle_task :: ptr
  next_tid :: u64
  map_tid :: "u64 \<Rightarrow> ptr option"
  task_heap :: "ptr heap"
  recv_blocked :: "ptr option"
  send_blocked :: "ptr option"
  reply_blocked :: "ptr option"
  event_blocked :: "ptr option"
  encoder_mgr :: kQuadEncoderMgr
  idle_track_start_time :: u64
  idle_duration :: u64
  next_intr_time :: u64
  kg_current_td :: "ptr option"
  pi_timer :: PiTimer
  gpio :: GPIO
  uart_regs :: uarts
  ke_exit_addr :: u64
  load_elf_addr :: u64
  idle_task_addr :: u64

definition upd_td :: "ptr \<Rightarrow> (kTaskDsp \<Rightarrow> kTaskDsp) \<Rightarrow> kState \<Rightarrow> kState" where
  "upd_td p f s = s\<lparr>tds := (tds s)(p := f (tds s p))\<rparr>"

definition set_state :: "u32 \<Rightarrow> ptr \<Rightarrow> kState \<Rightarrow> kState" where
  "set_state v p = upd_td p (\<lambda>t. t\<lparr>td_state := v\<rparr>)"

definition set_retval :: "u64 \<Rightarrow> ptr \<Rightarrow> kState \<Rightarrow> kState" where
  "set_retval v p = upd_td p (\<lambda>t. t\<lparr>syscall_retval := v\<rparr>)"

definition upd_mbox :: "(kMailbox \<Rightarrow> kMailbox) \<Rightarrow> ptr \<Rightarrow> kState \<Rightarrow> kState" where
  "upd_mbox f p = upd_td p (\<lambda>t. t\<lparr>mailbox := f (mailbox t)\<rparr>)"

text \<open>\<open>SYSADDR.pgmgr\<close> is the manager the slab allocator draws pages from.\<close>

definition pgmgr :: "kState \<Rightarrow> PgMgr" where
  "pgmgr s = source (slabmgr s)"

definition set_pgmgr :: "PgMgr \<Rightarrow> kState \<Rightarrow> kState" where
  "set_pgmgr m s = s\<lparr>slabmgr := (slabmgr s)\<lparr>source := m\<rparr>\<rparr>"

text \<open>\<open>kg_current_td->...\<close>.\<close>

definition current_td :: "kState \<Rightarrow> ptr res" where
  "current_td s = deref (kg_current_td s)"

section \<open>Mailboxes\<close>

definition k_mbox_init :: kMailbox where
  "k_mbox_init =
     \<lparr>sender_waitqueue = rb_init NULL USER_STACK_ARRAY_CNT, out_msg = NULL, out_msg_len = 0, in_tid = NULL,
      in_buf = NULL, in_buf_len = 0\<rparr>"

definition k_mbox_send_init :: "ptr \<Rightarrow> u64 \<Rightarrow> ptr \<Rightarrow> u64 \<Rightarrow> kMailbox \<Rightarrow> kMailbox" where
  "k_mbox_send_init msg msglen reply rplen b =
     b\<lparr>out_msg := msg, out_msg_len := msglen, in_buf := reply, in_buf_len := rplen\<rparr>"

definition k_mbox_recv_init :: "ptr \<Rightarrow> u64 \<Rightarrow> ptr \<Rightarrow> kMailbox \<Rightarrow> kMailbox" where
  "k_mbox_recv_init msg msglen tid b = b\<lparr>in_buf := msg, in_buf_len := msglen, in_tid := tid\<rparr>"

text \<open>
  There is no check for the \<open>NULL\<close> slot of a full queue before the store through it.
\<close>

definition k_mbox_add_send_queue :: "ptr \<Rightarrow> kMailbox \<Rightarrow> kMailbox res" where
  "k_mbox_add_send_queue sender b =
     (let (q, slot) = rb_push_pre (sender_waitqueue b) in
      bindR (deref slot) (\<lambda>i. Inr (b\<lparr>sender_waitqueue := rb_store i sender q\<rparr>)))"

definition k_mbox_pop_send_queue :: "kMailbox \<Rightarrow> ptr option \<times> kMailbox" where
  "k_mbox_pop_send_queue b =
     (case rb_peek (sender_waitqueue b) of
        None \<Rightarrow> (None, b)
      | Some i \<Rightarrow> (Some (rb_array (sender_waitqueue b) ! unat i),
                   b\<lparr>sender_waitqueue := rb_pop (sender_waitqueue b)\<rparr>))"

definition k_mbox_copy_msg :: "kMailbox \<Rightarrow> kMailbox \<Rightarrow> memory \<Rightarrow> memory" where
  "k_mbox_copy_msg dst src m =
     util_memcpy (in_buf dst) (out_msg src) (min (in_buf_len dst) (out_msg_len src)) m"

section \<open>The scheduler\<close>

definition cmp_keys_task_dsp :: "kPriorityKey \<Rightarrow> kPriorityKey \<Rightarrow> bool" where
  "cmp_keys_task_dsp key1 key2 =
     (if priority key1 = priority key2 then insert_val key1 < insert_val key2
      else priority key1 < priority key2)"

text \<open>The instance of the heap macros: the key field of a descriptor, and writing its \<open>insert_val\<close>.\<close>

definition task_key :: "(ptr \<Rightarrow> kTaskDsp) \<Rightarrow> ptr \<Rightarrow> kPriorityKey" where
  "task_key d p = priority_key (d p)"

definition task_set_insert_val :: "u64 \<Rightarrow> ptr \<Rightarrow> (ptr \<Rightarrow> kTaskDsp) \<Rightarrow> ptr \<Rightarrow> kTaskDsp" where
  "task_set_insert_val v p d = d(p := (d p)\<lparr>priority_key := (priority_key (d p))\<lparr>insert_val := v\<rparr>\<rparr>)"

definition k_sched_init :: "kState \<Rightarrow> kState" where
  "k_sched_init s =
     s\<lparr>task_heap := heap_init (heap_array (task_heap s)) K_SCHED_HEAP_CAPACITY, recv_blocked := None,
       send_blocked := None, reply_blocked := None, event_blocked := None\<rparr>"

definition k_sched_len :: "kState \<Rightarrow> nat" where
  "k_sched_len s = hcount (task_heap s)"

definition k_sched_priority_is_valid :: "u32 \<Rightarrow> bool" where
  "k_sched_priority_is_valid p \<longleftrightarrow> 0 \<le> sint p \<and> sint p \<le> 20"

definition k_sched_get_next :: "kState \<Rightarrow> ptr option \<times> kState" where
  "k_sched_get_next s =
     (let (td, h) = heap_pop (task_key (tds s)) cmp_keys_task_dsp (task_heap s)
      in (td, s\<lparr>task_heap := h\<rparr>))"

definition k_sched_add_ready :: "ptr \<Rightarrow> kState \<Rightarrow> kState res" where
  "k_sched_add_ready td s0 =
     (let s = set_state READY td s0 in
      bindR (returns (heap_insert task_key task_set_insert_val cmp_keys_task_dsp td (task_heap s, tds s)))
        (\<lambda>(h, d). Inr (s\<lparr>task_heap := h, tds := d\<rparr>)))"

definition k_sched_add_reply_wait :: "ptr \<Rightarrow> kState \<Rightarrow> kState res" where
  "k_sched_add_reply_wait td s =
     bindR (dl_append (reply_blocked s) td (sched_links s)) (\<lambda>(h, l).
     Inr (set_state REPLY_BLOCKED td (s\<lparr>reply_blocked := h, sched_links := l\<rparr>)))"

definition k_sched_remove_reply_wait :: "ptr \<Rightarrow> kState \<Rightarrow> kState res" where
  "k_sched_remove_reply_wait td s =
     bindR (c_assert (td_state (tds s td) = REPLY_BLOCKED)) (\<lambda>_.
     bindR (dl_delete (reply_blocked s) td (sched_links s)) (\<lambda>(h, l).
     Inr (s\<lparr>reply_blocked := h, sched_links := l\<rparr>)))"

definition k_sched_add_send_wait :: "ptr \<Rightarrow> kState \<Rightarrow> kState res" where
  "k_sched_add_send_wait td s =
     bindR (dl_append (send_blocked s) td (sched_links s)) (\<lambda>(h, l).
     Inr (set_state SEND_BLOCKED td (s\<lparr>send_blocked := h, sched_links := l\<rparr>)))"

definition k_sched_remove_send_wait :: "ptr \<Rightarrow> kState \<Rightarrow> kState res" where
  "k_sched_remove_send_wait td s =
     bindR (c_assert (td_state (tds s td) = SEND_BLOCKED)) (\<lambda>_.
     bindR (dl_delete (send_blocked s) td (sched_links s)) (\<lambda>(h, l).
     Inr (s\<lparr>send_blocked := h, sched_links := l\<rparr>)))"

definition k_sched_add_recv_wait :: "ptr \<Rightarrow> kState \<Rightarrow> kState res" where
  "k_sched_add_recv_wait td s =
     bindR (dl_append (recv_blocked s) td (sched_links s)) (\<lambda>(h, l).
     Inr (set_state RECEIVE_BLOCKED td (s\<lparr>recv_blocked := h, sched_links := l\<rparr>)))"

definition k_sched_remove_recv_wait :: "ptr \<Rightarrow> kState \<Rightarrow> kState res" where
  "k_sched_remove_recv_wait td s =
     bindR (c_assert (td_state (tds s td) = RECEIVE_BLOCKED)) (\<lambda>_.
     bindR (dl_delete (recv_blocked s) td (sched_links s)) (\<lambda>(h, l).
     Inr (s\<lparr>recv_blocked := h, sched_links := l\<rparr>)))"

definition k_sched_add_event_wait :: "ptr \<Rightarrow> u32 \<Rightarrow> kState \<Rightarrow> kState res" where
  "k_sched_add_event_wait td intr_id s =
     bindR (dl_append (event_blocked s) td (sched_links s)) (\<lambda>(h, l).
     Inr (set_state intr_id td (s\<lparr>event_blocked := h, sched_links := l\<rparr>)))"

definition k_sched_remove_event_wait :: "ptr \<Rightarrow> kState \<Rightarrow> kState res" where
  "k_sched_remove_event_wait td s =
     bindR (c_assert (IS_EVENT_BLOCKED (td_state (tds s td)))) (\<lambda>_.
     bindR (dl_delete (event_blocked s) td (sched_links s)) (\<lambda>(h, l).
     Inr (s\<lparr>event_blocked := h, sched_links := l\<rparr>)))"

section \<open>The task manager\<close>

definition k_tmgr_init :: "kState \<Rightarrow> kState res" where
  "k_tmgr_init s =
     (let (m, a) = slab_create sizeof_kTaskDsp 8 (slabmgr s) in
      bindR (c_assert (a \<noteq> None)) (\<lambda>_.
      Inr (s\<lparr>slabmgr := m, task_alloc := the a, map_tid := (\<lambda>_. None), next_tid := 0\<rparr>)))"

text \<open>\<open>rb_find_add\<close> on \<open>map_tid\<close>: the old entry, or the new one is added.\<close>

definition tid_find_add :: "ptr \<Rightarrow> kState \<Rightarrow> kState \<times> ptr option" where
  "tid_find_add td s =
     (let t = td_tid (tds s td) in
      case map_tid s t of
        Some p \<Rightarrow> (s, Some p)
      | None \<Rightarrow> (s\<lparr>map_tid := (map_tid s)(t := Some td)\<rparr>, None))"

definition k_task_mgr_get_task_dsp :: "kState \<Rightarrow> u64 \<Rightarrow> ptr option" where
  "k_task_mgr_get_task_dsp s t = map_tid s t"

definition k_tmgr_get_free_task :: "u8 \<Rightarrow> kState \<Rightarrow> (kState \<times> ptr option) res" where
  "k_tmgr_get_free_task sz s =
     bindR (slab_alloc slab_kernel_func_alloc_page (task_alloc s) 0 (slabmgr s)) (\<lambda>(m, free_task).
     let s1 = s\<lparr>slabmgr := m\<rparr> in
     if free_task = NULL then Inr (s1, None)
     else
       bindR (pg_alloc_page sz 0 (pgmgr s1)) (\<lambda>(pm, stack).
       let s2 = set_pgmgr pm s1 in
       if stack = NULL then
         bindR (slab_free (task_alloc s2) free_task (slabmgr s2)) (\<lambda>m. Inr (s2\<lparr>slabmgr := m\<rparr>, None))
       else
         let s3 = upd_td free_task (\<lambda>t. t\<lparr>stack_addr := stack, stack_sz := push_bit (unat sz) 1,
                                          td_tid := next_tid s2\<rparr>) s2;
             s4 = s3\<lparr>next_tid := next_tid s3 + 1\<rparr>;
             (s5, node) = tid_find_add free_task s4
         in case node of
              Some _ \<Rightarrow> bindR (slab_free (task_alloc s5) free_task (slabmgr s5)) (\<lambda>m. Inr (s5\<lparr>slabmgr := m\<rparr>, None))
            | None \<Rightarrow> Inr (s5, Some free_task)))"

definition k_tmgr_destroy_task :: "ptr \<Rightarrow> kState \<Rightarrow> kState res" where
  "k_tmgr_destroy_task td s =
     (let s1 = s\<lparr>map_tid := (map_tid s)(td_tid (tds s td) := None)\<rparr> in
      bindR (pg_free_page (stack_addr (tds s1 td)) (pgmgr s1)) (\<lambda>pm.
      let s2 = set_pgmgr pm s1 in
      bindR (slab_free (task_alloc s2) td (slabmgr s2)) (\<lambda>m. Inr (s2\<lparr>slabmgr := m\<rparr>))))"

text \<open>
  \<open>k_td_init_user_task\<close>. For a null \<open>parent_td\<close>, as \<open>k_main\<close> passes it, \<open>parent_td->tid\<close> is a load
  from address 56, the offset of the field, which the kernel's page tables map.
\<close>

definition k_td_init_user_task :: "ptr \<Rightarrow> ptr option \<Rightarrow> u64 \<Rightarrow> u64 \<Rightarrow> ptr \<Rightarrow> u64 \<Rightarrow> kState \<Rightarrow> kState" where
  "k_td_init_user_task td parent_td prio user_func_addr args args_len s =
     (let ptid = (case parent_td of Some q \<Rightarrow> td_tid (tds s q) | None \<Rightarrow> load64 56 (mem s));
          alloc_len = (args_len AND NOT 0xF) + (if args_len AND 0xF \<noteq> 0 then 0x10 else 0);
          top = stack_addr (tds s td) + ucast (stack_sz (tds s td));
          sp1 = (if args_len \<noteq> 0 then top - alloc_len else top);
          m1 = (if args_len \<noteq> 0 then util_memcpy sp1 args args_len (mem s) else mem s);
          regs = sp1 - 240;
          m2 = util_memset regs 0x5A 240 m1;
          m3 = store64 (regs + 224) args_len m2;
          m4 = store64 (regs + 8) (ke_exit_addr s) m3
      in upd_td td (\<lambda>t. t\<lparr>td_pc := user_func_addr, td_pstate := 0,
           priority_key := (priority_key t)\<lparr>priority := prio\<rparr>, parent_tid := ptid, td_state := READY,
           esr_el1 := 0, syscall_retval := sp1, td_sp := regs, mailbox := k_mbox_init\<rparr>) (s\<lparr>mem := m4\<rparr>))"

definition k_td_get_syscall_no :: "kTaskDsp \<Rightarrow> u32" where
  "k_td_get_syscall_no t = (if esr_el1 t = 0 then - 1 else ucast (esr_el1 t AND 0x1FFFFFF))"

definition k_gs_init :: "u64 \<Rightarrow> kState \<Rightarrow> kState res" where
  "k_gs_init now s =
     bindR (k_tmgr_init s) (\<lambda>s1.
     let s2 = k_sched_init s1;
         s3 = s2\<lparr>encoder_mgr := encoder_mgr_init (encoder_mgr s2)\<rparr>
     in Inr (s3\<lparr>idle_track_start_time := now, idle_duration := 0, next_intr_time := 0\<rparr>))"

end
