(* ===== verification/Syscalls.thy ===== *)
theory Syscalls
  imports Kernel
begin

text \<open>
  The system call handlers of kernel/src/syscall_handler.c, and the dispatch of a call. A handler acts
  on \<open>kg_current_td\<close>, the calling task; \<open>int\<close> arguments are 32-bit words, sign-extended where the code
  converts them.
\<close>

section \<open>Tasks\<close>

definition k_create_handler :: "u32 \<Rightarrow> ptr \<Rightarrow> u64 \<Rightarrow> kState \<Rightarrow> kState res" where
  "k_create_handler prio args args_len s =
     bindR (current_td s) (\<lambda>cur.
     bindR (k_tmgr_get_free_task (of_nat PG_SFT) s) (\<lambda>(s1, td).
     case td of
       None \<Rightarrow> Inr (set_retval (- 2) cur s1)
     | Some td \<Rightarrow>
         if \<not> k_sched_priority_is_valid prio then Inr (set_retval (- 1) cur s1)
         else
           let s2 = k_td_init_user_task td (Some cur) (scast prio) (load_elf_addr s1) args args_len s1 in
           bindR (k_sched_add_ready td s2) (\<lambda>s3. Inr (set_retval (td_tid (tds s3 td)) cur s3))))"

definition k_exit_handler :: "kState \<Rightarrow> kState res" where
  "k_exit_handler s =
     bindR (current_td s) (\<lambda>cur.
     bindR (k_tmgr_destroy_task cur s) (\<lambda>s1. Inr (s1\<lparr>kg_current_td := None\<rparr>)))"

definition k_my_tid_handler :: "kState \<Rightarrow> kState res" where
  "k_my_tid_handler s =
     bindR (c_assert (kg_current_td s \<noteq> None)) (\<lambda>_.
     bindR (current_td s) (\<lambda>cur. Inr (set_retval (td_tid (tds s cur)) cur s)))"

definition k_my_parent_tid_handler :: "kState \<Rightarrow> kState res" where
  "k_my_parent_tid_handler s =
     bindR (c_assert (kg_current_td s \<noteq> None)) (\<lambda>_.
     bindR (current_td s) (\<lambda>cur.
     let s1 = (if parent_tid (tds s cur) \<noteq> K_TID_INVALID \<and>
                  k_task_mgr_get_task_dsp s (parent_tid (tds s cur)) = None
               then upd_td cur (\<lambda>t. t\<lparr>parent_tid := K_TID_INVALID\<rparr>) s else s)
     in Inr (set_retval (parent_tid (tds s1 cur)) cur s1)))"

section \<open>Messages\<close>

text \<open>\<open>*mailbox.in_tid = tid\<close>, a store of an \<open>int\<close>.\<close>

definition store_in_tid :: "ptr \<Rightarrow> u64 \<Rightarrow> kState \<Rightarrow> kState" where
  "store_in_tid td t s = s\<lparr>mem := store32 (in_tid (mailbox (tds s td))) (ucast t) (mem s)\<rparr>"

text \<open>What both \<open>Send\<close> and \<open>Receive\<close> do when the message changes hands.\<close>

definition deliver :: "ptr \<Rightarrow> ptr \<Rightarrow> kState \<Rightarrow> kState" where
  "deliver receiver_td sender_td s =
     (let s1 = s\<lparr>mem := k_mbox_copy_msg (mailbox (tds s receiver_td)) (mailbox (tds s sender_td)) (mem s)\<rparr>;
          s2 = store_in_tid receiver_td (td_tid (tds s1 sender_td)) s1
      in set_retval (out_msg_len (mailbox (tds s2 sender_td))) receiver_td s2)"

definition k_send_handler :: "u32 \<Rightarrow> ptr \<Rightarrow> u64 \<Rightarrow> ptr \<Rightarrow> u64 \<Rightarrow> kState \<Rightarrow> kState res" where
  "k_send_handler tid msg msglen reply rplen s =
     bindR (c_assert (kg_current_td s \<noteq> None)) (\<lambda>_.
     bindR (current_td s) (\<lambda>sender_td.
     case k_task_mgr_get_task_dsp s (scast tid) of
       None \<Rightarrow> Inr (set_retval (- 1) sender_td s)
     | Some receiver_td \<Rightarrow>
         let s1 = upd_mbox (k_mbox_send_init msg msglen reply rplen) sender_td s in
         bindR
           (if td_state (tds s1 receiver_td) = RECEIVE_BLOCKED then
              let s2 = deliver receiver_td sender_td s1 in
              bindR (k_sched_add_reply_wait sender_td s2) (\<lambda>s3.
              bindR (k_sched_remove_recv_wait receiver_td s3) (\<lambda>s4.
              k_sched_add_ready receiver_td s4))
            else
              bindR (k_mbox_add_send_queue sender_td (mailbox (tds s1 receiver_td))) (\<lambda>b.
              k_sched_add_send_wait sender_td (upd_mbox (\<lambda>_. b) receiver_td s1)))
           (\<lambda>s5. Inr (s5\<lparr>kg_current_td := None\<rparr>))))"

definition k_recv_handler :: "ptr \<Rightarrow> ptr \<Rightarrow> u64 \<Rightarrow> kState \<Rightarrow> kState res" where
  "k_recv_handler tid msg msglen s =
     bindR (c_assert (kg_current_td s \<noteq> None)) (\<lambda>_.
     bindR (current_td s) (\<lambda>receiver_td.
     let (sender, b) = k_mbox_pop_send_queue (mailbox (tds s receiver_td));
         s1 = upd_mbox (\<lambda>_. k_mbox_recv_init msg msglen tid b) receiver_td s
     in bindR
          (case sender of
             None \<Rightarrow> k_sched_add_recv_wait receiver_td s1
           | Some sender_td \<Rightarrow>
               let s2 = deliver receiver_td sender_td s1 in
               bindR (k_sched_remove_send_wait sender_td s2) (\<lambda>s3.
               bindR (k_sched_add_reply_wait sender_td s3) (\<lambda>s4.
               k_sched_add_ready receiver_td s4)))
          (\<lambda>s5. Inr (s5\<lparr>kg_current_td := None\<rparr>))))"

definition k_reply_handler :: "u32 \<Rightarrow> ptr \<Rightarrow> u64 \<Rightarrow> kState \<Rightarrow> kState res" where
  "k_reply_handler tid reply rplen s =
     bindR (c_assert (kg_current_td s \<noteq> None)) (\<lambda>_.
     bindR (current_td s) (\<lambda>receiver_td.
     case k_task_mgr_get_task_dsp s (scast tid) of
       None \<Rightarrow> Inr (set_retval (- 1) receiver_td s)
     | Some sender_td \<Rightarrow>
         if td_state (tds s sender_td) \<noteq> REPLY_BLOCKED then Inr (set_retval (- 2) receiver_td s)
         else
           let s1 = set_retval rplen sender_td s;
               n = min rplen (in_buf_len (mailbox (tds s1 sender_td)));
               s2 = set_retval n receiver_td s1;
               s3 = s2\<lparr>mem := util_memcpy (in_buf (mailbox (tds s2 sender_td))) reply n (mem s2)\<rparr>
           in bindR (k_sched_remove_reply_wait sender_td s3) (k_sched_add_ready sender_td)))"

section \<open>Events and services\<close>

definition k_await_event_handler :: "u32 \<Rightarrow> kState \<Rightarrow> kState res" where
  "k_await_event_handler intr_id s =
     bindR (current_td s) (\<lambda>cur.
     bindR (k_sched_add_event_wait cur intr_id s) (\<lambda>s1. Inr (s1\<lparr>kg_current_td := None\<rparr>)))"

definition k_mmap_handler :: "ptr \<Rightarrow> u64 \<Rightarrow> kState \<Rightarrow> kState res" where
  "k_mmap_handler target mem_sz s =
     (let mem_sz_sft = MSB_POS (NEXT_POW2 mem_sz) in
      bindR (pg_alloc_page mem_sz_sft 0 (pgmgr s)) (\<lambda>(pm, a).
      let s1 = set_pgmgr pm s; s2 = s1\<lparr>mem := store64 target a (mem s1)\<rparr> in
      bindR (current_td s2) (\<lambda>cur. Inr (set_retval 0 cur s2))))"

definition k_sys_health :: "u64 \<Rightarrow> ptr \<Rightarrow> kState \<Rightarrow> kState res" where
  "k_sys_health curtime health s =
     (if curtime - idle_track_start_time s = 0 then Inl Div_by_zero
      else
        let pct = idle_duration s * 100 * 100 div (curtime - idle_track_start_time s);
            s1 = s\<lparr>mem := store32 health (ucast pct) (mem s), idle_duration := 0, idle_track_start_time := curtime\<rparr>
        in bindR (current_td s1) (\<lambda>cur. Inr (set_retval 0 cur s1)))"

definition k_quadrature_encoder_init :: "u32 \<Rightarrow> u32 \<Rightarrow> kState \<Rightarrow> kState res" where
  "k_quadrature_encoder_init pa pb s =
     bindR (encoder_init pa pb (encoder_mgr s, gpio s)) (\<lambda>((em, g), i).
     let s1 = s\<lparr>encoder_mgr := em, gpio := g\<rparr> in
     bindR (current_td s1) (\<lambda>cur. Inr (set_retval (of_int i) cur s1)))"

definition store_stat :: "ptr \<Rightarrow> keQuadEncoderStat \<Rightarrow> memory \<Rightarrow> memory" where
  "store_stat p st m =
     store64 (p + 32) (stat_debug st) (store64 (p + 24) (invalid_2_cnt st) (store64 (p + 16) (invalid_1_cnt st)
       (store64 (p + 8) (backward_cnt st) (store64 p (forward_cnt st) m))))"

definition k_quadrature_encoder_get :: "u32 \<Rightarrow> ptr \<Rightarrow> kState \<Rightarrow> kState res" where
  "k_quadrature_encoder_get i p s =
     bindR (current_td s) (\<lambda>cur.
     case get_encoder (encoder_mgr s) (sint i) of
       None \<Rightarrow> Inr (set_retval 0 cur s)
     | Some k \<Rightarrow>
         let em = encoder_mgr s; e = encoders em ! k; s1 = set_retval 0 cur s in
         Inr (s1\<lparr>mem := store_stat p (stat e) (mem s1),
                 encoder_mgr := em\<lparr>encoders := (encoders em)[k := e\<lparr>stat := ke_quad_encoder_stat_clear\<rparr>]\<rparr>\<rparr>))"

text \<open>The loop over the message; \<open>frs\<close> are the values polled from the UART's flag register.\<close>

fun print_loop :: "ptr \<Rightarrow> nat \<Rightarrow> u32 list \<Rightarrow> kState \<Rightarrow> kState option" where
  "print_loop p 0 frs s = Some s"
| "print_loop p (Suc n) frs s =
     (case uart_putc 2 (mem s p) frs (uart_regs s) of
        None \<Rightarrow> None
      | Some (us, rest) \<Rightarrow> print_loop (p + 1) n rest (s\<lparr>uart_regs := us\<rparr>))"

definition k_print_raw :: "ptr \<Rightarrow> u32 \<Rightarrow> u32 list \<Rightarrow> kState \<Rightarrow> kState res option" where
  "k_print_raw msg len frs s =
     map_option (\<lambda>s1. bindR (current_td s1) (\<lambda>cur. Inr (set_retval 0 cur s1)))
       (if msg \<noteq> NULL then print_loop msg (nat (sint len)) frs s else Some s)"

section \<open>Dispatch\<close>

text \<open>
  The calls a task can make, with their arguments; the numbers are those of the stubs in lib/libsyscall
  and of the table in kernel/src/exception.S. \<open>SysHealth\<close> carries the value of the clock that its
  handler reads.
\<close>

datatype syscall =
    Exit
  | Yield
  | Create u32 ptr u64
  | MyTid
  | MyParentTid
  | Send u32 ptr u64 ptr u64
  | Recv ptr ptr u64
  | Reply u32 ptr u64
  | AwaitEvent u32
  | Mmap ptr u64
  | SysHealth u64 ptr
  | EncoderInit u32 u32
  | EncoderGet u32 ptr

fun do_syscall :: "syscall \<Rightarrow> kState \<Rightarrow> kState res" where
  "do_syscall Exit s = k_exit_handler s"
| "do_syscall Yield s = Inr s"
| "do_syscall (Create p a l) s = k_create_handler p a l s"
| "do_syscall MyTid s = k_my_tid_handler s"
| "do_syscall MyParentTid s = k_my_parent_tid_handler s"
| "do_syscall (Send t m l r rl) s = k_send_handler t m l r rl s"
| "do_syscall (Recv t m l) s = k_recv_handler t m l s"
| "do_syscall (Reply t r l) s = k_reply_handler t r l s"
| "do_syscall (AwaitEvent i) s = k_await_event_handler i s"
| "do_syscall (Mmap p l) s = k_mmap_handler p l s"
| "do_syscall (SysHealth t p) s = k_sys_health t p s"
| "do_syscall (EncoderInit a b) s = k_quadrature_encoder_init a b s"
| "do_syscall (EncoderGet i p) s = k_quadrature_encoder_get i p s"

end
