(* ===== verification/KLoop.thy ===== *)
theory KLoop
  imports Syscalls
begin

text \<open>
  Interrupts, the kernel's main loop and its start: kernel/include/interrupt.h, kernel/src/interrupt.c,
  kernel/src/loop.c, kernel/src/bootstrap.c and kernel/src/main.c. Values of the clock that the code
  reads are arguments.
\<close>

section \<open>The interrupt controller\<close>

record PiGicD =
  GICD_CTLR :: u32
  GICD_ISENABLERn :: "u32 list"
  GICD_ITARGETSRn :: "u8 list"

record PiGicC =
  GICC_CTLR :: u32

abbreviation (input) GIC_INTR_ID_TIMER :: nat where "GIC_INTR_ID_TIMER \<equiv> 97"
abbreviation (input) GIC_INTR_ID_GPIO_0 :: nat where "GIC_INTR_ID_GPIO_0 \<equiv> 145"
abbreviation (input) GIC_INTR_ID_UART :: nat where "GIC_INTR_ID_UART \<equiv> 153"
abbreviation (input) GIC_INTR_ID_NONE :: nat where "GIC_INTR_ID_NONE \<equiv> 1023"

definition INTR_ID_TIMER :: u32 where "INTR_ID_TIMER = push_bit 16 97"
definition INTR_ID_UART :: "u32 \<Rightarrow> u32" where "INTR_ID_UART i = push_bit 16 153 + i"
definition INTR_ID_GIC :: "u32 \<Rightarrow> u32" where "INTR_ID_GIC i = drop_bit 16 i"
definition INTR_ID_SUB :: "u32 \<Rightarrow> u32" where "INTR_ID_SUB i = i AND 0xFFFF"

text \<open>Enabling interrupt \<open>i\<close> at the distributor, and targeting it to core 0.\<close>

definition gicd_enable :: "nat \<Rightarrow> PiGicD \<Rightarrow> PiGicD" where
  "gicd_enable i d =
     d\<lparr>GICD_ISENABLERn := (GICD_ISENABLERn d)[i div 32 := GICD_ISENABLERn d ! (i div 32) OR push_bit (i mod 32) 1]\<rparr>"

definition gicd_target :: "nat \<Rightarrow> PiGicD \<Rightarrow> PiGicD" where
  "gicd_target i d = d\<lparr>GICD_ITARGETSRn := (GICD_ITARGETSRn d)[i := GICD_ITARGETSRn d ! i OR 1]\<rparr>"

definition k_gic_enable :: "PiGicD \<times> PiGicC \<Rightarrow> PiGicD \<times> PiGicC" where
  "k_gic_enable = (\<lambda>(d, c).
     ((gicd_target GIC_INTR_ID_GPIO_0 (gicd_target GIC_INTR_ID_UART (gicd_target GIC_INTR_ID_TIMER
        (gicd_enable GIC_INTR_ID_GPIO_0 (gicd_enable GIC_INTR_ID_UART (gicd_enable GIC_INTR_ID_TIMER d))))))
      \<lparr>GICD_CTLR := 1\<rparr>, c\<lparr>GICC_CTLR := 1\<rparr>))"

section \<open>Waking tasks up\<close>

text \<open>The \<open>DL_FOREACH_SAFE2\<close> loop: \<open>tmp\<close> is read before the element may be unlinked.\<close>

partial_function (option) wakeup_loop ::
  "u32 \<Rightarrow> u32 \<Rightarrow> ptr option \<Rightarrow> kState \<Rightarrow> u8 \<Rightarrow> (kState \<times> u8) res option" where
  "wakeup_loop intr_id retval td s n =
     (case td of
        None \<Rightarrow> Some (Inr (s, n))
      | Some p \<Rightarrow>
          let tmp = lnext (sched_links s) p in
          if td_state (tds s p) = intr_id then
            (case bindR (k_sched_remove_event_wait p s)
                    (\<lambda>s1. k_sched_add_ready p (set_retval (ucast retval) p s1)) of
               Inl e \<Rightarrow> Some (Inl e)
             | Inr s2 \<Rightarrow> wakeup_loop intr_id retval tmp s2 (n + 1))
          else wakeup_loop intr_id retval tmp s n)"

declare wakeup_loop.simps [code]

definition k_intr_wakeup_tasks :: "u32 \<Rightarrow> u32 \<Rightarrow> kState \<Rightarrow> (kState \<times> u8) res" where
  "k_intr_wakeup_tasks intr_id retval s = bindR (returns (wakeup_loop intr_id retval (event_blocked s) s 0)) (\<lambda>r. r)"

definition k_intr_timer_arm :: "u64 \<Rightarrow> kState \<Rightarrow> kState" where
  "k_intr_timer_arm now s =
     (if next_intr_time s = 0 then
        let t = now + 10 * 1000 in s\<lparr>next_intr_time := t, pi_timer := time_intr_set t (time_intr_reset (pi_timer s))\<rparr>
      else
        let t = next_intr_time s + 10 * 1000 in s\<lparr>next_intr_time := t, pi_timer := time_intr_set t (pi_timer s)\<rparr>)"

definition process_intr_timer :: "kState \<Rightarrow> kState res" where
  "process_intr_timer s =
     bindR (k_intr_wakeup_tasks INTR_ID_TIMER 0 (s\<lparr>pi_timer := time_intr_reset (pi_timer s)\<rparr>)) (\<lambda>(s1, _). Inr s1)"

definition process_intr_uart_id :: "u32 \<Rightarrow> kState \<Rightarrow> kState res" where
  "process_intr_uart_id u s =
     (let status = uart_intr_status u (uart_regs s) in
      if status \<noteq> 0 then
        bindR (k_intr_wakeup_tasks (INTR_ID_UART u) status (s\<lparr>uart_regs := uart_intr_unarm u (uart_regs s)\<rparr>))
          (\<lambda>(s1, _). Inr s1)
      else Inr s)"

definition process_intr_uart :: "kState \<Rightarrow> kState res" where
  "process_intr_uart s =
     bindR (process_intr_uart_id 0 s) (\<lambda>s. bindR (process_intr_uart_id 2 s) (\<lambda>s.
     bindR (process_intr_uart_id 3 s) (\<lambda>s. bindR (process_intr_uart_id 4 s) (process_intr_uart_id 5))))"

text \<open>\<open>1 << pin\<close> is an \<open>int\<close>, converted to 64 bits with its sign.\<close>

definition pin_mask :: "u32 \<Rightarrow> u64" where
  "pin_mask pin = scast (push_bit (unat pin) 1 :: u32)"

definition process_intr_gpio_pin :: "u32 \<Rightarrow> kState \<Rightarrow> kState res" where
  "process_intr_gpio_pin pin s =
     bindR (get_encoder_by_pin (encoder_mgr s) pin) (\<lambda>eo.
     case eo of
       None \<Rightarrow> Inr s
     | Some k \<Rightarrow>
         let em = encoder_mgr s; e = encoders em ! k; pin_lvl = gpio_read (gpio s);
             a_state = (if pin_lvl AND pin_mask (pin_a e) \<noteq> 0 then 1 else 0);
             b_state = (if pin_lvl AND pin_mask (pin_b e) \<noteq> 0 then 1 else 0)
         in bindR (encoder_update (change_lookup em) a_state b_state e) (\<lambda>e'.
            Inr (s\<lparr>encoder_mgr := em\<lparr>encoders := (encoders em)[k := e']\<rparr>\<rparr>)))"

fun gpio_pins :: "u64 \<Rightarrow> u32 list \<Rightarrow> kState \<Rightarrow> kState res" where
  "gpio_pins triggered [] s = Inr s"
| "gpio_pins triggered (pin # pins) s =
     bindR (if triggered AND pin_mask pin \<noteq> 0 then process_intr_gpio_pin pin s else Inr s)
       (gpio_pins triggered pins)"

definition gpio_banks :: "nat list" where
  "gpio_banks = [0, 28, 46, 58]"

definition process_intr_gpio_bank :: "nat \<Rightarrow> kState \<Rightarrow> kState res" where
  "process_intr_gpio_bank bank_id s =
     (if bank_id + 1 < length gpio_banks then
        let start = gpio_banks ! bank_id; stop = gpio_banks ! (bank_id + 1); triggered = gpio_get_triggered (gpio s) in
        bindR (gpio_pins triggered (map of_nat [start..<stop]) s) (\<lambda>s1.
        Inr (s1\<lparr>gpio := gpio_clear_triggered (of_nat start) (of_nat stop) (gpio s1)\<rparr>))
      else Inl Out_of_bounds)"

text \<open>
  \<open>k_intr_handler\<close>: the list holds the values read from \<open>GICC_IAR\<close>; the result carries the ids written
  to \<open>GICC_EOIR\<close>. \<open>None\<close> when the list ends before a spurious interrupt id is read.
\<close>

fun k_intr_handler :: "u32 list \<Rightarrow> kState \<Rightarrow> (kState \<times> u32 list) res option" where
  "k_intr_handler [] s = None"
| "k_intr_handler (i # iars) s =
     (if unat i = GIC_INTR_ID_NONE then Some (Inr (s, []))
      else
        case (if unat i = GIC_INTR_ID_TIMER then process_intr_timer s
              else if unat i = GIC_INTR_ID_UART then process_intr_uart s
              else if unat i = GIC_INTR_ID_GPIO_0 then process_intr_gpio_bank 0 s
              else Inl Assert_fail) of
          Inl e \<Rightarrow> Some (Inl e)
        | Inr s1 \<Rightarrow> map_option (\<lambda>r. bindR r (\<lambda>(s2, eois). Inr (s2, i # eois))) (k_intr_handler iars s1))"

section \<open>The loop\<close>

text \<open>Why user mode was left: a system call, or interrupts with the ids that are read.\<close>

datatype event = Syscall syscall | Interrupt "u32 list"

definition handle_event :: "event \<Rightarrow> kState \<Rightarrow> kState res" where
  "handle_event ev s =
     (case ev of
        Syscall c \<Rightarrow> do_syscall c s
      | Interrupt iars \<Rightarrow> bindR (returns (k_intr_handler iars s)) (\<lambda>r. bindR r (\<lambda>(s1, _). Inr s1)))"

text \<open>
  One iteration of \<open>k_loop\<close>, before and after \<open>kernel_into_user\<close>; \<open>idle_ts\<close> is the local variable.
\<close>

definition k_loop_enter :: "u64 \<Rightarrow> u64 \<times> kState \<Rightarrow> u64 \<times> kState" where
  "k_loop_enter now = (\<lambda>(idle_ts, s).
     case k_sched_get_next s of
       (Some td, s1) \<Rightarrow> (idle_ts, s1\<lparr>kg_current_td := Some td\<rparr>)
     | (None, s1) \<Rightarrow> (now, s1\<lparr>kg_current_td := Some (idle_task s1)\<rparr>))"

definition k_loop_leave :: "u64 \<Rightarrow> u64 \<times> kState \<Rightarrow> (u64 \<times> kState) res" where
  "k_loop_leave now = (\<lambda>(idle_ts, s).
     if kg_current_td s = Some (idle_task s) then
       Inr (idle_ts, s\<lparr>idle_duration := idle_duration s + (now - idle_ts)\<rparr>)
     else
       case kg_current_td s of
         None \<Rightarrow> Inr (idle_ts, s)
       | Some td \<Rightarrow> bindR (k_sched_add_ready td s) (\<lambda>s1. Inr (idle_ts, s1)))"

definition k_loop_step :: "u64 \<Rightarrow> event \<Rightarrow> u64 \<Rightarrow> u64 \<times> kState \<Rightarrow> (u64 \<times> kState) res" where
  "k_loop_step now ev now' t =
     (let (idle_ts, s) = k_loop_enter now t in
      bindR (handle_event ev s) (\<lambda>s1. k_loop_leave now' (idle_ts, s1)))"

section \<open>The start of the kernel\<close>

abbreviation (input) FREE_START :: u64 where "FREE_START \<equiv> 0x40000000"
abbreviation (input) FREE_END :: u64 where "FREE_END \<equiv> 0x7E000000"

definition boot_segs :: "u64 \<Rightarrow> PgInitSeg list" where
  "boot_segs code_start =
     [pg_init_seg_ctor 0 code_start PGINIT_SEG_DSP_READ_ONLY, pg_init_seg_ctor FREE_START FREE_END 0]"

definition k_bootstrap_pgmgr ::
  "u64 \<Rightarrow> (ptr \<Rightarrow> PgDsp) \<Rightarrow> ptr links \<Rightarrow> (ptr \<times> PgMgr) option res option" where
  "k_bootstrap_pgmgr code_start ds l = pg_init (boot_segs code_start) ds l"

definition k_bootstrap_slab :: "kState \<Rightarrow> kState res" where
  "k_bootstrap_slab s =
     bindR (pg_alloc_page 12 0 (pgmgr s)) (\<lambda>(pm, a).
     let s1 = set_pgmgr pm s in
     if a = NULL then Inl Null_deref
     else Inr (s1\<lparr>slabmgr := (slabmgr s1)\<lparr>slab_alloc_n := 0\<rparr>\<rparr>))"

text \<open>
  \<open>k_main\<close> up to the loop: \<open>None\<close> where it returns because a task could not be created. \<open>a1\<close> and \<open>a2\<close>
  are the addresses of the two argument blocks.
\<close>

definition spawn :: "u64 \<Rightarrow> (kState \<Rightarrow> u64) \<Rightarrow> ptr \<Rightarrow> u64 \<Rightarrow> kState \<Rightarrow> (kState \<times> ptr option) res" where
  "spawn prio func args len s =
     bindR (k_tmgr_get_free_task (of_nat PG_SFT) s) (\<lambda>(s1, td).
     case td of
       None \<Rightarrow> Inr (s1, None)
     | Some td \<Rightarrow> Inr (k_td_init_user_task td None prio (func s1) args len s1, Some td))"

definition k_main :: "u64 \<Rightarrow> ptr \<Rightarrow> ptr \<Rightarrow> kState \<Rightarrow> kState option res" where
  "k_main now a1 a2 s =
     bindR (k_bootstrap_slab s) (\<lambda>s.
     bindR (uart_init 2 115200 (gpio s, uart_regs s)) (\<lambda>(g, us).
     bindR (k_gs_init now (s\<lparr>gpio := g, uart_regs := us\<rparr>)) (\<lambda>s.
     bindR (spawn 20 idle_task_addr NULL 0 s) (\<lambda>(s, i).
     case i of None \<Rightarrow> Inr None | Some i \<Rightarrow>
     bindR (spawn 0 load_elf_addr a1 19 (s\<lparr>idle_task := i\<rparr>)) (\<lambda>(s, u).
     case u of None \<Rightarrow> Inr None | Some u \<Rightarrow>
     bindR (k_sched_add_ready u s) (\<lambda>s.
     bindR (spawn 0 load_elf_addr a2 20 s) (\<lambda>(s, n).
     case n of None \<Rightarrow> Inr None | Some n \<Rightarrow>
     bindR (k_sched_add_ready n s) (\<lambda>s. Inr (Some s)))))))))"

end
