(* ===== verification/SchedInv.thy ===== *)
theory SchedInv
  imports KLoop
begin

text \<open>
  The invariant of the scheduler: every task is in exactly one place - the ready heap, one of the four
  lists of blocked tasks, in the hands of the kernel, or the idle task - and its state says which. The
  lemmas say what each scheduler operation does to the places and that it touches nothing else.
\<close>

section \<open>The order of keys\<close>

interpretation tk: key_order cmp_keys_task_dsp
  by unfold_locales (auto simp: cmp_keys_task_dsp_def split: if_splits)

text \<open>Keys as pairs: the comparison is the lexicographic order, priority first.\<close>

lemma cmp_keys_lex:
  "cmp_keys_task_dsp k k' \<longleftrightarrow>
     priority k < priority k' \<or> priority k = priority k' \<and> insert_val k < insert_val k'"
  by (auto simp: cmp_keys_task_dsp_def)

section \<open>Places\<close>

definition tasks :: "kState \<Rightarrow> ptr set" where
  "tasks s = ran (map_tid s)"

definition ready :: "kState \<Rightarrow> ptr list" where
  "ready s = heap_elems (task_heap s)"

definition sched_heads :: "kState \<Rightarrow> ptr option list" where
  "sched_heads s = [recv_blocked s, send_blocked s, reply_blocked s, event_blocked s]"

definition with_heads :: "ptr option list \<Rightarrow> kState \<Rightarrow> kState" where
  "with_heads hs s =
     s\<lparr>recv_blocked := hs ! 0, send_blocked := hs ! 1, reply_blocked := hs ! 2, event_blocked := hs ! 3\<rparr>"

text \<open>The states that belong to list \<open>q\<close>.\<close>

definition st_ok :: "nat \<Rightarrow> u32 \<Rightarrow> bool" where
  "st_ok q v \<longleftrightarrow> (if q = 0 then v = RECEIVE_BLOCKED else if q = 1 then v = SEND_BLOCKED
                    else if q = 2 then v = REPLY_BLOCKED else IS_EVENT_BLOCKED v)"

text \<open>\<open>bl\<close> are the four lists, \<open>L\<close> the tasks in the hands of the kernel.\<close>

definition sched_inv :: "kState \<Rightarrow> ptr list list \<Rightarrow> ptr multiset \<Rightarrow> bool" where
  "sched_inv s bl L \<longleftrightarrow>
     length bl = 4 \<and> dlists (sched_links s) (sched_heads s) bl \<and>
     is_heap (task_key (tds s)) cmp_keys_task_dsp (task_heap s) \<and> hcapacity (task_heap s) = K_SCHED_HEAP_CAPACITY \<and>
     finite (tasks s) \<and>
     mset (ready s) + mset (concat bl) + L + {#idle_task s#} = mset_set (tasks s) \<and>
     (\<forall>p\<in>set (ready s). td_state (tds s p) = READY) \<and> td_state (tds s (idle_task s)) = READY \<and>
     (\<forall>q<4. \<forall>p\<in>set (bl ! q). st_ok q (td_state (tds s p)))"

text \<open>What scheduler operations leave alone: everything but states, insertion stamps and places.\<close>

definition strip :: "kState \<Rightarrow> kState" where
  "strip s = s\<lparr>tds := (\<lambda>p. (tds s p)\<lparr>td_state := 0, priority_key := (priority_key (tds s p))\<lparr>insert_val := 0\<rparr>\<rparr>),
     sched_links := \<lparr>lnext = (\<lambda>_. None), lprev = (\<lambda>_. None)\<rparr>, task_heap := heap_init [] 0, recv_blocked := None,
     send_blocked := None, reply_blocked := None, event_blocked := None\<rparr>"

definition sched_frame :: "kState \<Rightarrow> kState \<Rightarrow> bool" where
  "sched_frame s s' \<longleftrightarrow> strip s' = strip s"

lemma sched_frame_refl [simp]: "sched_frame s s"
  by (simp add: sched_frame_def)

lemma sched_frame_trans: "sched_frame s t \<Longrightarrow> sched_frame t u \<Longrightarrow> sched_frame s u"
  by (simp add: sched_frame_def)

lemma sched_frameD:
  assumes "sched_frame s s'"
  shows "mem s' = mem s" "slabmgr s' = slabmgr s" "task_alloc s' = task_alloc s" "idle_task s' = idle_task s"
    "next_tid s' = next_tid s" "map_tid s' = map_tid s" "encoder_mgr s' = encoder_mgr s"
    "idle_track_start_time s' = idle_track_start_time s" "idle_duration s' = idle_duration s"
    "next_intr_time s' = next_intr_time s" "kg_current_td s' = kg_current_td s" "pi_timer s' = pi_timer s"
    "gpio s' = gpio s" "uart_regs s' = uart_regs s" "tasks s' = tasks s"
    "ke_exit_addr s' = ke_exit_addr s" "load_elf_addr s' = load_elf_addr s"
proof -
  have e: "strip s' = strip s" using assms by (simp add: sched_frame_def)
  show "mem s' = mem s" using arg_cong [OF e, of mem] by (simp add: strip_def)
  show "slabmgr s' = slabmgr s" using arg_cong [OF e, of slabmgr] by (simp add: strip_def)
  show "task_alloc s' = task_alloc s" using arg_cong [OF e, of task_alloc] by (simp add: strip_def)
  show "idle_task s' = idle_task s" using arg_cong [OF e, of idle_task] by (simp add: strip_def)
  show "next_tid s' = next_tid s" using arg_cong [OF e, of next_tid] by (simp add: strip_def)
  show "map_tid s' = map_tid s" using arg_cong [OF e, of map_tid] by (simp add: strip_def)
  then show "tasks s' = tasks s" by (simp add: tasks_def)
  show "encoder_mgr s' = encoder_mgr s" using arg_cong [OF e, of encoder_mgr] by (simp add: strip_def)
  show "idle_track_start_time s' = idle_track_start_time s" using arg_cong [OF e, of idle_track_start_time] by (simp add: strip_def)
  show "idle_duration s' = idle_duration s" using arg_cong [OF e, of idle_duration] by (simp add: strip_def)
  show "next_intr_time s' = next_intr_time s" using arg_cong [OF e, of next_intr_time] by (simp add: strip_def)
  show "kg_current_td s' = kg_current_td s" using arg_cong [OF e, of kg_current_td] by (simp add: strip_def)
  show "pi_timer s' = pi_timer s" using arg_cong [OF e, of pi_timer] by (simp add: strip_def)
  show "gpio s' = gpio s" using arg_cong [OF e, of gpio] by (simp add: strip_def)
  show "uart_regs s' = uart_regs s" using arg_cong [OF e, of uart_regs] by (simp add: strip_def)
  show "ke_exit_addr s' = ke_exit_addr s" using arg_cong [OF e, of ke_exit_addr] by (simp add: strip_def)
  show "load_elf_addr s' = load_elf_addr s" using arg_cong [OF e, of load_elf_addr] by (simp add: strip_def)
qed

lemma sched_frame_tdD:
  assumes "sched_frame s s'"
  shows "td_pc (tds s' p) = td_pc (tds s p)" "td_sp (tds s' p) = td_sp (tds s p)"
    "syscall_retval (tds s' p) = syscall_retval (tds s p)" "stack_addr (tds s' p) = stack_addr (tds s p)"
    "td_tid (tds s' p) = td_tid (tds s p)" "parent_tid (tds s' p) = parent_tid (tds s p)"
    "mailbox (tds s' p) = mailbox (tds s p)" "priority (priority_key (tds s' p)) = priority (priority_key (tds s p))"
    "esr_el1 (tds s' p) = esr_el1 (tds s p)" "stack_sz (tds s' p) = stack_sz (tds s p)"
proof -
  have "tds (strip s') p = tds (strip s) p" using assms by (simp add: sched_frame_def)
  then have e: "(tds s' p)\<lparr>td_state := 0, priority_key := (priority_key (tds s' p))\<lparr>insert_val := 0\<rparr>\<rparr> =
      (tds s p)\<lparr>td_state := 0, priority_key := (priority_key (tds s p))\<lparr>insert_val := 0\<rparr>\<rparr>" by (simp add: strip_def)
  show "td_pc (tds s' p) = td_pc (tds s p)" using arg_cong [OF e, of td_pc] by simp
  show "td_sp (tds s' p) = td_sp (tds s p)" using arg_cong [OF e, of td_sp] by simp
  show "syscall_retval (tds s' p) = syscall_retval (tds s p)" using arg_cong [OF e, of syscall_retval] by simp
  show "stack_addr (tds s' p) = stack_addr (tds s p)" using arg_cong [OF e, of stack_addr] by simp
  show "td_tid (tds s' p) = td_tid (tds s p)" using arg_cong [OF e, of td_tid] by simp
  show "parent_tid (tds s' p) = parent_tid (tds s p)" using arg_cong [OF e, of parent_tid] by simp
  show "mailbox (tds s' p) = mailbox (tds s p)" using arg_cong [OF e, of mailbox] by simp
  show "esr_el1 (tds s' p) = esr_el1 (tds s p)" using arg_cong [OF e, of esr_el1] by simp
  show "stack_sz (tds s' p) = stack_sz (tds s p)" using arg_cong [OF e, of stack_sz] by simp
  show "priority (priority_key (tds s' p)) = priority (priority_key (tds s p))"
    using arg_cong [OF e, of "\<lambda>t. priority (priority_key t)"] by simp
qed

lemma mset_place:
  fixes xs ys :: "'a list"
  assumes e: "mset xs + mset ys + L + {#i#} = mset_set T" and fin: "finite T"
  shows "p \<in># L \<Longrightarrow> p \<notin> set xs \<and> p \<notin> set ys \<and> p \<noteq> i \<and> p \<in> T"
    "p \<in> set ys \<Longrightarrow> p \<notin> set xs \<and> p \<notin># L \<and> p \<noteq> i \<and> p \<in> T"
    "p \<in> set xs \<Longrightarrow> p \<notin> set ys \<and> p \<notin># L \<and> p \<noteq> i \<and> p \<in> T"
    "i \<notin> set xs \<and> i \<notin> set ys \<and> i \<notin># L \<and> i \<in> T"
    "length xs + length ys + size L + 1 = card T" "distinct ys" "distinct xs"
    "p \<in> T \<Longrightarrow> p \<in> set xs \<or> p \<in> set ys \<or> p \<in># L \<or> p = i"
proof -
  have c: "count (mset xs) x + count (mset ys) x + count L x + (if x = i then 1 else 0) = (if x \<in> T then 1 else 0)" for x
  proof -
    have "count (mset xs + mset ys + L + {#i#}) x = count (mset_set T) x" by (simp only: e)
    then show ?thesis using fin by (cases "x = i"; cases "x \<in> T") (simp_all del: count_mset_0_iff)
  qed
  have pos: "x \<in> set xs \<Longrightarrow> 1 \<le> count (mset xs) x" "x \<in> set ys \<Longrightarrow> 1 \<le> count (mset ys) x" "x \<in># L \<Longrightarrow> 1 \<le> count L x" for x
    by (simp_all add: Suc_le_eq)
  have one: "count (mset xs) x + count (mset ys) x + count L x + (if x = i then 1 else 0) \<le> 1" for x
    unfolding c by simp
  have onei: "count (mset xs) i + count (mset ys) i + count L i = 0" using one [of i] by (simp del: count_mset_0_iff)
  have out: "count (mset xs) x + count (mset ys) x + count L x = 0" if "x \<notin> T" for x
    using c [of x] that by (simp del: count_mset_0_iff)
  show i: "i \<notin> set xs \<and> i \<notin> set ys \<and> i \<notin># L \<and> i \<in> T"
    using onei c [of i] by (auto simp: not_in_iff split: if_splits)
  show "p \<in># L \<Longrightarrow> p \<notin> set xs \<and> p \<notin> set ys \<and> p \<noteq> i \<and> p \<in> T"
  proof -
    assume "p \<in># L"
    note l = pos(3) [OF this]
    have "p \<notin> set xs" "p \<notin> set ys" using l one [of p] pos(1,2) [of p] by linarith+
    moreover have "p \<noteq> i" using i \<open>p \<in># L\<close> by blast
    moreover have "p \<in> T" using l out [of p] by linarith
    ultimately show ?thesis by blast
  qed
  show "p \<in> set ys \<Longrightarrow> p \<notin> set xs \<and> p \<notin># L \<and> p \<noteq> i \<and> p \<in> T"
  proof -
    assume "p \<in> set ys"
    note l = pos(2) [OF this]
    have "p \<notin> set xs" "p \<notin># L" using l one [of p] pos(1,3) [of p] by linarith+
    moreover have "p \<noteq> i" using i \<open>p \<in> set ys\<close> by blast
    moreover have "p \<in> T" using l out [of p] by linarith
    ultimately show ?thesis by blast
  qed
  show "p \<in> set xs \<Longrightarrow> p \<notin> set ys \<and> p \<notin># L \<and> p \<noteq> i \<and> p \<in> T"
  proof -
    assume "p \<in> set xs"
    note l = pos(1) [OF this]
    have "p \<notin> set ys" "p \<notin># L" using l one [of p] pos(2,3) [of p] by linarith+
    moreover have "p \<noteq> i" using i \<open>p \<in> set xs\<close> by blast
    moreover have "p \<in> T" using l out [of p] by linarith
    ultimately show ?thesis by blast
  qed
  show "p \<in> T \<Longrightarrow> p \<in> set xs \<or> p \<in> set ys \<or> p \<in># L \<or> p = i"
  proof (rule ccontr)
    assume "p \<in> T" "\<not> (p \<in> set xs \<or> p \<in> set ys \<or> p \<in># L \<or> p = i)"
    then have "count (mset xs) p = 0" "count (mset ys) p = 0" "count L p = 0" "p \<noteq> i" "p \<in> T" by (simp_all add: not_in_iff)
    then show False using c [of p] by (simp del: count_mset_0_iff)
  qed
  show "length xs + length ys + size L + 1 = card T"
    using arg_cong [OF e, of size] by simp
  have le: "count (mset ys) x \<le> 1" "count (mset xs) x \<le> 1" for x using one [of x] by linarith+
  have "distinct zs" if "\<And>x. count (mset zs) x \<le> 1" for zs :: "'a list"
    unfolding distinct_count_atmost_1
  proof
    fix a
    have "0 < count (mset zs) a \<longleftrightarrow> a \<in> set zs" by simp
    then show "count (mset zs) a = (if a \<in> set zs then 1 else 0)"
      using that [of a] by (auto simp del: count_mset_0_iff count_greater_zero_iff simp: le_Suc_eq)
  qed
  then show "distinct ys" "distinct xs" using le by blast+
qed


lemma dls_elems_concat: "dls_elems bl = set (concat bl)"
  by (auto simp: dls_elems_def in_set_conv_nth [of _ bl] intro: nth_mem bexI)

lemma sched_places:
  assumes "sched_inv s bl L"
  shows "mset (ready s) + mset (concat bl) + L + {#idle_task s#} = mset_set (tasks s)" "finite (tasks s)"
    "length bl = 4"
  using assms by (simp_all add: sched_inv_def)

lemmas sched_place = mset_place [OF sched_places(1) sched_places(2)]

lemma mset_concat_update:
  "q < length bl \<Longrightarrow> mset (concat (bl[q := ys])) + mset (bl ! q) = mset (concat bl) + mset ys"
proof (induction bl arbitrary: q)
  case (Cons xs bl)
  then show ?case by (cases q) (simp_all add: ac_simps)
qed simp

section \<open>Making a task ready\<close>

text \<open>
  The bound on the number of tasks is what keeps the heap from being full: when it is full,
  \<open>HEAP_INSERT\<close> drops the task.
\<close>

lemma add_ready_ok:
  assumes inv: "sched_inv s bl (add_mset p L)" and n: "card (tasks s) \<le> 201"
  shows "\<exists>s'. k_sched_add_ready p s = Inr s' \<and> sched_inv s' bl L \<and> sched_frame s s' \<and>
     (\<forall>q. q \<noteq> p \<longrightarrow> tds s' q = tds s q) \<and> td_state (tds s' p) = READY \<and>
     mset (ready s') = add_mset p (mset (ready s)) \<and> sched_links s' = sched_links s \<and> sched_heads s' = sched_heads s \<and>
     insert_val (priority_key (tds s' p)) = global_insertion_count (task_heap s) \<and>
     global_insertion_count (task_heap s') = global_insertion_count (task_heap s) + 1"
proof -
  let ?h = "task_heap s"
  have p: "p \<notin> set (ready s)" "p \<notin> set (concat bl)" "p \<noteq> idle_task s" "p \<in> tasks s"
    using sched_place(1) [OF inv inv, of p] by simp_all
  have heap: "is_heap (task_key (tds s)) cmp_keys_task_dsp ?h" "hcapacity ?h = K_SCHED_HEAP_CAPACITY"
    using inv by (simp_all add: sched_inv_def)
  define s0 where "s0 = set_state READY p s"
  have k0: "task_key (tds s0) q = task_key (tds s) q" for q by (simp add: s0_def set_state_def upd_td_def task_key_def)
  have "hcount ?h = length (ready s)" using heap by (simp add: ready_def is_heap_def heap_count_elems)
  then have room: "hcount ?h < hcapacity ?h" using sched_place(5) [OF inv inv] n heap(2) by simp
  have h0: "is_heap (task_key (tds s0)) cmp_keys_task_dsp ?h"
    using heap(1) by (subst is_heap_cong [where key' = "task_key (tds s)"]) (simp_all add: k0)
  define d where "d = task_set_insert_val (global_insertion_count ?h) p (tds s0)"
  have same: "task_key d q = task_key (tds s0) q" if "q \<in> set (heap_elems ?h)" for q
    using that p(1) by (auto simp: d_def task_set_insert_val_def task_key_def ready_def)
  obtain h' where h': "heap_insert task_key task_set_insert_val cmp_keys_task_dsp p (?h, tds s0) = Some (h', d)"
    "is_heap (task_key d) cmp_keys_task_dsp h'" "mset (heap_elems h') = add_mset p (mset (heap_elems ?h))"
    "hcapacity h' = hcapacity ?h" "global_insertion_count h' = global_insertion_count ?h + 1"
    using tk.heap_insert_correct [where key = task_key and set_insert_val = task_set_insert_val and st = "tds s0" and st' = d,
        OF h0 room d_def same] by blast
  define s' where "s' = s0\<lparr>task_heap := h', tds := d\<rparr>"
  have op: "k_sched_add_ready p s = Inr s'"
    using h'(1) by (simp add: k_sched_add_ready_def s0_def [symmetric] s'_def)
      (simp add: s0_def set_state_def upd_td_def)
  have fields: "sched_links s' = sched_links s" "sched_heads s' = sched_heads s" "idle_task s' = idle_task s"
    "tasks s' = tasks s" "task_heap s' = h'" "tds s' = d"
    by (simp_all add: s'_def s0_def set_state_def upd_td_def sched_heads_def tasks_def)
  have oth: "tds s' q = tds s q" if "q \<noteq> p" for q
    using that by (simp add: fields d_def task_set_insert_val_def s0_def set_state_def upd_td_def)
  have st: "td_state (tds s' p) = READY" "insert_val (priority_key (tds s' p)) = global_insertion_count ?h"
    by (simp_all add: fields d_def task_set_insert_val_def s0_def set_state_def upd_td_def)
  have frame: "sched_frame s s'"
    by (simp add: sched_frame_def strip_def s'_def s0_def set_state_def upd_td_def d_def task_set_insert_val_def fun_eq_iff)
  have rd: "mset (ready s') = add_mset p (mset (ready s))" using h'(3) by (simp add: ready_def fields)
  have srd: "set (ready s') = insert p (set (ready s))" using rd by (metis set_mset_add_mset_insert set_mset_mset)
  have "td_state (tds s' q) = READY" if "q \<in> set (ready s')" for q
    using that st(1) oth inv srd by (cases "q = p") (auto simp: sched_inv_def)
  moreover have "st_ok q (td_state (tds s' r))" if "q < 4" "r \<in> set (bl ! q)" for q r
  proof -
    have "r \<in> set (concat bl)" using that sched_places(3) [OF inv] dls_elems_mem [of q bl r] by (simp add: dls_elems_concat)
    then have "r \<noteq> p" using p(2) by blast
    then show ?thesis using oth that inv by (simp add: sched_inv_def)
  qed
  ultimately have "sched_inv s' bl L"
    using inv h'(2,4) rd p(3) oth by (simp add: sched_inv_def fields)
  then show ?thesis using op frame oth st rd fields h'(5) by blast
qed

section \<open>Blocking a task, unblocking it\<close>

text \<open>The four pairs of operations are one pair over the array of list heads.\<close>

definition wait_add :: "nat \<Rightarrow> u32 \<Rightarrow> ptr \<Rightarrow> kState \<Rightarrow> kState res" where
  "wait_add q v td s =
     bindR (dls_append (sched_heads s) q td (sched_links s)) (\<lambda>(hs, l).
     Inr (set_state v td (with_heads hs (s\<lparr>sched_links := l\<rparr>))))"

definition wait_remove :: "nat \<Rightarrow> ptr \<Rightarrow> kState \<Rightarrow> kState res" where
  "wait_remove q td s =
     bindR (dls_delete (sched_heads s) q td (sched_links s)) (\<lambda>(hs, l).
     Inr (with_heads hs (s\<lparr>sched_links := l\<rparr>)))"

lemma wait_add_eqs:
  "k_sched_add_recv_wait p s = wait_add 0 RECEIVE_BLOCKED p s"
  "k_sched_add_send_wait p s = wait_add 1 SEND_BLOCKED p s"
  "k_sched_add_reply_wait p s = wait_add 2 REPLY_BLOCKED p s"
  "k_sched_add_event_wait p i s = wait_add 3 i p s"
  by (auto simp: wait_add_def k_sched_add_recv_wait_def k_sched_add_send_wait_def k_sched_add_reply_wait_def
      k_sched_add_event_wait_def dls_append_def sched_heads_def with_heads_def bindR_def split: sum.splits
      intro!: arg_cong [where f = "set_state _ _"])

lemma wait_remove_eqs:
  "td_state (tds s p) = RECEIVE_BLOCKED \<Longrightarrow> k_sched_remove_recv_wait p s = wait_remove 0 p s"
  "td_state (tds s p) = SEND_BLOCKED \<Longrightarrow> k_sched_remove_send_wait p s = wait_remove 1 p s"
  "td_state (tds s p) = REPLY_BLOCKED \<Longrightarrow> k_sched_remove_reply_wait p s = wait_remove 2 p s"
  "IS_EVENT_BLOCKED (td_state (tds s p)) \<Longrightarrow> k_sched_remove_event_wait p s = wait_remove 3 p s"
  by (auto simp: wait_remove_def k_sched_remove_recv_wait_def k_sched_remove_send_wait_def
      k_sched_remove_reply_wait_def k_sched_remove_event_wait_def dls_delete_def sched_heads_def with_heads_def
      bindR_def split: sum.splits)

lemma with_heads_simps [simp]:
  "tds (with_heads hs s) = tds s" "sched_links (with_heads hs s) = sched_links s" "task_heap (with_heads hs s) = task_heap s"
  "idle_task (with_heads hs s) = idle_task s" "tasks (with_heads hs s) = tasks s" "strip (with_heads hs s) = strip s"
  "length hs = 4 \<Longrightarrow> sched_heads (with_heads hs s) = hs"
  by (auto simp: with_heads_def tasks_def sched_heads_def strip_def numeral_eq_Suc length_Suc_conv)

lemma set_state_simps [simp]:
  "tds (set_state v p s) = (tds s)(p := (tds s p)\<lparr>td_state := v\<rparr>)" "sched_links (set_state v p s) = sched_links s"
  "task_heap (set_state v p s) = task_heap s" "idle_task (set_state v p s) = idle_task s"
  "tasks (set_state v p s) = tasks s" "sched_heads (set_state v p s) = sched_heads s" "strip (set_state v p s) = strip s"
  by (auto simp: set_state_def upd_td_def tasks_def sched_heads_def strip_def fun_eq_iff)

lemma heap_state_cong:
  "(\<And>p. priority_key (d' p) = priority_key (d p)) \<Longrightarrow> task_key d' = task_key d"
  by (simp add: task_key_def fun_eq_iff)

lemma wait_add_ok:
  assumes inv: "sched_inv s bl (add_mset p L)" and q: "q < 4" and v: "st_ok q v"
  shows "\<exists>s'. wait_add q v p s = Inr s' \<and> sched_inv s' (bl[q := bl ! q @ [p]]) L \<and> sched_frame s s' \<and>
     tds s' = (tds s)(p := (tds s p)\<lparr>td_state := v\<rparr>) \<and> task_heap s' = task_heap s"
proof -
  have p: "p \<notin> set (ready s)" "p \<notin> set (concat bl)" "p \<noteq> idle_task s" "p \<in> tasks s"
    using sched_place(1) [OF inv inv, of p] by simp_all
  have d: "dlists (sched_links s) (sched_heads s) bl" "q < length bl" "p \<notin> dls_elems bl"
    using inv q p(2) by (simp_all add: sched_inv_def dls_elems_concat)
  obtain hs l where a: "dls_append (sched_heads s) q p (sched_links s) = Inr (hs, l)" "dlists l hs (bl[q := bl ! q @ [p]])"
    using dls_append_dlists [OF d] by blast
  define s' where "s' = set_state v p (with_heads hs (s\<lparr>sched_links := l\<rparr>))"
  have op: "wait_add q v p s = Inr s'" by (simp add: wait_add_def a(1) s'_def)
  have hs: "length hs = 4" using a(2) inv by (simp add: dlists_def sched_inv_def)
  have f: "tds s' = (tds s)(p := (tds s p)\<lparr>td_state := v\<rparr>)" "task_heap s' = task_heap s" "idle_task s' = idle_task s"
    "tasks s' = tasks s" "sched_links s' = l" "sched_heads s' = hs" "ready s' = ready s"
    using hs by (simp_all add: s'_def ready_def) (simp add: tasks_def)
  have frame: "sched_frame s s'" by (simp add: sched_frame_def s'_def) (simp add: strip_def)
  have key: "task_key ((tds s)(p := (tds s p)\<lparr>td_state := v\<rparr>)) = task_key (tds s)"
    by (rule heap_state_cong) simp
  have "mset (concat (bl[q := bl ! q @ [p]])) = add_mset p (mset (concat bl))"
    using mset_concat_update [OF d(2), of "bl ! q @ [p]"] by simp
  moreover have "st_ok i (td_state (tds s' r))" if "i < 4" "r \<in> set (bl[q := bl ! q @ [p]] ! i)" for i r
  proof (cases "r = p")
    case True
    then have "i = q" using that d(3) dls_elems_mem [of i bl p] sched_places(3) [OF inv]
      by (cases "i = q") auto
    then show ?thesis using True v by (simp add: f)
  next
    case False
    then have "r \<in> set (bl ! i)" using that q sched_places(3) [OF inv] by (auto simp: nth_list_update split: if_splits)
    then show ?thesis using False that(1) inv by (simp add: f sched_inv_def)
  qed
  ultimately have "sched_inv s' (bl[q := bl ! q @ [p]]) L"
    using inv a(2) p by (auto simp: sched_inv_def f key)
  then show ?thesis using op frame f by blast
qed

lemma wait_remove_ok:
  assumes inv: "sched_inv s bl L" and q: "q < 4" and p: "p \<in> set (bl ! q)"
  shows "\<exists>s'. wait_remove q p s = Inr s' \<and> sched_inv s' (bl[q := remove1 p (bl ! q)]) (add_mset p L) \<and>
     sched_frame s s' \<and> tds s' = tds s \<and> task_heap s' = task_heap s"
proof -
  have d: "dlists (sched_links s) (sched_heads s) bl" "q < length bl" using inv q by (simp_all add: sched_inv_def)
  obtain hs l where a: "dls_delete (sched_heads s) q p (sched_links s) = Inr (hs, l)"
    "dlists l hs (bl[q := remove1 p (bl ! q)])"
    using dls_delete_dlists [OF d p] by blast
  define s' where "s' = with_heads hs (s\<lparr>sched_links := l\<rparr>)"
  have op: "wait_remove q p s = Inr s'" by (simp add: wait_remove_def a(1) s'_def)
  have hs: "length hs = 4" using a(2) inv by (simp add: dlists_def sched_inv_def)
  have f: "tds s' = tds s" "task_heap s' = task_heap s" "idle_task s' = idle_task s"
    "tasks s' = tasks s" "sched_links s' = l" "sched_heads s' = hs" "ready s' = ready s"
    using hs by (simp_all add: s'_def ready_def) (simp add: tasks_def)
  have frame: "sched_frame s s'" by (simp add: sched_frame_def s'_def) (simp add: strip_def)
  have m: "mset (concat (bl[q := remove1 p (bl ! q)])) + {#p#} = mset (concat bl)"
  proof -
    have "mset (bl ! q) = add_mset p (mset (remove1 p (bl ! q)))" using p by simp
    then show ?thesis using mset_concat_update [OF d(2), of "remove1 p (bl ! q)"] by (simp del: mset_remove1)
  qed
  have m': "mset (ready s) + mset (concat (bl[q := remove1 p (bl ! q)])) + add_mset p L + {#idle_task s#} = mset_set (tasks s)"
    using sched_places(1) [OF inv] unfolding m [symmetric] by (simp only: add_mset_add_single [of p L] ac_simps)
  have "st_ok i (td_state (tds s' r))" if "i < 4" "r \<in> set (bl[q := remove1 p (bl ! q)] ! i)" for i r
  proof -
    have "r \<in> set (bl ! i)" using that d(2) set_remove1_subset [of p "bl ! q"] by (cases "i = q") auto
    then show ?thesis using that(1) inv by (simp add: f sched_inv_def)
  qed
  then have "sched_inv s' (bl[q := remove1 p (bl ! q)]) (add_mset p L)"
    using inv a(2) m' by (simp add: sched_inv_def f)
  then show ?thesis using op frame f by blast
qed

section \<open>Choosing the next task\<close>

text \<open>
  The task chosen has a key that no other ready task goes before; \<open>NULL\<close> is returned exactly when no task
  is ready.
\<close>

lemma get_next_ok:
  assumes inv: "sched_inv s bl L"
  shows "(ready s = [] \<and> k_sched_get_next s = (None, s)) \<or>
     (\<exists>p s'. k_sched_get_next s = (Some p, s') \<and> sched_inv s' bl (add_mset p L) \<and> sched_frame s s' \<and> tds s' = tds s \<and>
        mset (ready s) = add_mset p (mset (ready s')) \<and>
        (\<forall>r\<in>set (ready s). \<not> cmp_keys_task_dsp (priority_key (tds s r)) (priority_key (tds s p))))"
proof (cases "hcount (task_heap s) = 0")
  case True
  then show ?thesis by (auto simp: k_sched_get_next_def heap_pop_empty ready_def heap_elems_def)
next
  case False
  have heap: "is_heap (task_key (tds s)) cmp_keys_task_dsp (task_heap s)" using inv by (simp add: sched_inv_def)
  obtain p h where a: "heap_pop (task_key (tds s)) cmp_keys_task_dsp (task_heap s) = (Some p, h)"
    "is_heap (task_key (tds s)) cmp_keys_task_dsp h" "mset (ready s) = add_mset p (mset (heap_elems h))"
    "\<forall>r\<in>set (ready s). \<not> cmp_keys_task_dsp (task_key (tds s) r) (task_key (tds s) p)"
    "hcapacity h = hcapacity (task_heap s)"
    using tk.heap_pop_correct [OF heap False] unfolding ready_def by blast
  define s' where "s' = s\<lparr>task_heap := h\<rparr>"
  have f: "tds s' = tds s" "task_heap s' = h" "idle_task s' = idle_task s" "tasks s' = tasks s"
    "sched_links s' = sched_links s" "sched_heads s' = sched_heads s" "ready s' = heap_elems h"
    by (simp_all add: s'_def ready_def tasks_def sched_heads_def)
  have op: "k_sched_get_next s = (Some p, s')" by (simp add: k_sched_get_next_def a(1) s'_def)
  have "set (ready s') \<subseteq> set (ready s)"
    using a(3) by (metis f(7) mset_subset_eq_add_right add_mset_add_single set_mset_mono set_mset_mset union_commute)
  then have "sched_inv s' bl (add_mset p L)"
    using inv a(2,3,5) by (auto simp: sched_inv_def f)
  moreover have "sched_frame s s'" by (simp add: sched_frame_def strip_def s'_def)
  ultimately show ?thesis using op a(3,4) f by (auto simp: task_key_def)
qed

end
