(* ===== verification/KMem.thy ===== *)
theory KMem
  imports SchedInv
begin

text \<open>
  The kernel's use of memory: the descriptors of the tasks are exactly the objects in use of
  \<open>task_alloc\<close>, every task has a stack of its own from the page manager, and the pages of the slabs, the
  stacks and the pages given to \<open>Mmap\<close> are different pages.
\<close>

section \<open>Pages shared between the slabs and the rest\<close>

text \<open>The page manager as the page source of the slabs, when the blocks at \<open>F\<close> are used for something else.\<close>

definition owns_with :: "ptr set \<Rightarrow> PgMgr \<Rightarrow> ptr set \<Rightarrow> bool" where
  "owns_with F m H \<longleftrightarrow> mgr_owns m (H \<union> F) \<and> H \<inter> F = {}"

interpretation kf: page_source slab_kernel_func_alloc_page "owns_with F" for F
proof unfold_locales
  fix s :: PgMgr and H flg
  assume o: "owns_with F s H"
  then have "mgr_owns s (H \<union> F)" by (simp add: owns_with_def)
  then obtain s' a where a: "pg_alloc_page (of_nat PG_SFT) flg s = Inr (s', a)"
    "a = NULL \<and> mgr_owns s' (H \<union> F) \<or> a \<noteq> NULL \<and> a \<notin> H \<union> F \<and> take_bit PG_SFT a = 0 \<and> mgr_owns s' (insert a (H \<union> F))"
    using mgr_alloc by blast
  then show "\<exists>s' a. slab_kernel_func_alloc_page (of_nat PG_SFT) flg s = Inr (s', a) \<and>
       (a = NULL \<and> owns_with F s' H \<or> a \<noteq> NULL \<and> a \<notin> H \<and> take_bit PG_SFT a = 0 \<and> owns_with F s' (insert a H))"
    using o by (auto simp: slab_kernel_func_alloc_page_def owns_with_def)
qed

text \<open>The allocator \<open>k\<close> has exactly the objects \<open>T\<close> in use, beside the blocks \<open>F\<close>.\<close>

definition kslab :: "PgMgr SlabMgr \<Rightarrow> nat \<Rightarrow> ptr set \<Rightarrow> ptr set \<Rightarrow> bool" where
  "kslab m k T F \<longleftrightarrow> (\<exists>xs ys C. slab_inv (owns_with F) m k xs ys C \<and> slab_live m k xs C = T)"

lemma kslab_alloc:
  assumes "kslab m k T F"
  shows "\<exists>m' p. slab_alloc slab_kernel_func_alloc_page k flag m = Inr (m', p) \<and>
     (p = NULL \<and> kslab m' k T F \<or> p \<noteq> NULL \<and> p \<notin> T \<and> kslab m' k (insert p T) F)"
proof -
  obtain xs ys C where i: "slab_inv (owns_with F) m k xs ys C" "slab_live m k xs C = T"
    using assms unfolding kslab_def by blast
  obtain m' p xs' ys' C' where a: "slab_alloc slab_kernel_func_alloc_page k flag m = Inr (m', p)"
    "slab_inv (owns_with F) m' k xs' ys' C'"
    "if p = NULL then slab_live m' k xs' C' = slab_live m k xs C
     else p \<notin> slab_live m k xs C \<and> slab_live m' k xs' C' = insert p (slab_live m k xs C)"
    using kf.slab_alloc_ok [OF i(1), of flag] by meson
  then show ?thesis using i(2) unfolding kslab_def by (cases "p = NULL") auto
qed

lemma kslab_free:
  assumes "kslab m k T F" and "p \<in> T"
  shows "\<exists>m'. slab_free k p m = Inr m' \<and> kslab m' k (T - {p}) F"
proof -
  obtain xs ys C where i: "slab_inv (owns_with F) m k xs ys C" "slab_live m k xs C = T"
    using assms(1) unfolding kslab_def by blast
  show ?thesis using kf.slab_free_ok [OF i(1), of p] assms(2) i(2) unfolding kslab_def by blast
qed

text \<open>The slabs do not look at the page manager.\<close>

lemma slab_inv_source:
  "slab_inv owns m k xs ys C \<Longrightarrow> owns' x H \<Longrightarrow> set xs \<union> set ys \<subseteq> H \<Longrightarrow> slab_inv owns' (m\<lparr>source := x\<rparr>) k xs ys C"
  unfolding slab_inv_def slab_base_def slab_used_def by auto

lemma slab_live_source [simp]: "slab_live (m\<lparr>source := x\<rparr>) k xs C = slab_live m k xs C"
  by (simp add: slab_live_def)

lemma kslab_owned:
  assumes "kslab m k T F"
  obtains H where "mgr_owns (source m) (H \<union> F)" "H \<inter> F = {}"
    "\<And>pm F'. mgr_owns pm (H \<union> F') \<Longrightarrow> H \<inter> F' = {} \<Longrightarrow> kslab (m\<lparr>source := pm\<rparr>) k T F'"
proof -
  obtain xs ys C where i: "slab_inv (owns_with F) m k xs ys C" "slab_live m k xs C = T"
    using assms unfolding kslab_def by blast
  obtain H where H: "owns_with F (source m) H" "set xs \<union> set ys \<subseteq> H" using i(1) by (auto simp: slab_inv_def)
  have "kslab (m\<lparr>source := pm\<rparr>) k T F'" if "mgr_owns pm (H \<union> F')" "H \<inter> F' = {}" for pm F'
  proof -
    have "owns_with F' pm H" using that by (simp add: owns_with_def)
    then have "slab_inv (owns_with F') (m\<lparr>source := pm\<rparr>) k xs ys C" using slab_inv_source [OF i(1) _ H(2)] by blast
    then show ?thesis using i(2) unfolding kslab_def by auto
  qed
  moreover have "mgr_owns (source m) (H \<union> F)" "H \<inter> F = {}" using H(1) by (simp_all add: owns_with_def)
  ultimately show thesis using that by blast
qed

lemma kslab_take:
  assumes "kslab m k T F"
  shows "\<exists>pm a. pg_alloc_page sz flg (source m) = Inr (pm, a) \<and>
     (a = NULL \<and> kslab (m\<lparr>source := pm\<rparr>) k T F \<or>
      a \<noteq> NULL \<and> a \<notin> F \<and> kslab (m\<lparr>source := pm\<rparr>) k T (insert a F))"
proof -
  obtain H where H: "mgr_owns (source m) (H \<union> F)" "H \<inter> F = {}"
    "\<And>pm F'. mgr_owns pm (H \<union> F') \<Longrightarrow> H \<inter> F' = {} \<Longrightarrow> kslab (m\<lparr>source := pm\<rparr>) k T F'"
    using kslab_owned [OF assms] by blast
  obtain pm a where a: "pg_alloc_page sz flg (source m) = Inr (pm, a)"
    "a = NULL \<and> mgr_owns pm (H \<union> F) \<or> a \<noteq> NULL \<and> a \<notin> H \<union> F \<and> mgr_owns pm (insert a (H \<union> F))"
    using mgr_alloc_any [OF H(1)] by blast
  then show ?thesis using H(2) H(3) [of pm F] H(3) [of pm "insert a F"] by auto
qed

lemma kslab_give:
  assumes "kslab m k T F" and a: "a \<in> F"
  shows "\<exists>pm. pg_free_page a (source m) = Inr pm \<and> kslab (m\<lparr>source := pm\<rparr>) k T (F - {a})"
proof -
  obtain H where H: "mgr_owns (source m) (H \<union> F)" "H \<inter> F = {}"
    "\<And>pm F'. mgr_owns pm (H \<union> F') \<Longrightarrow> H \<inter> F' = {} \<Longrightarrow> kslab (m\<lparr>source := pm\<rparr>) k T F'"
    using kslab_owned [OF assms(1)] by blast
  obtain pm where pm: "pg_free_page a (source m) = Inr pm" "mgr_owns pm (H \<union> F - {a})"
    using mgr_free [OF H(1), of a] a by blast
  have "H \<union> F - {a} = H \<union> (F - {a})" using a H(2) by blast
  then show ?thesis using pm H(2) H(3) [of pm "F - {a}"] by (metis Diff_disjoint Int_Diff empty_Diff)
qed

section \<open>The invariant\<close>

definition stacks :: "kState \<Rightarrow> ptr set" where
  "stacks s = (\<lambda>p. stack_addr (tds s p)) ` tasks s"

definition tids_ok :: "kState \<Rightarrow> bool" where
  "tids_ok s \<longleftrightarrow> (\<forall>t p. map_tid s t = Some p \<longrightarrow> td_tid (tds s p) = t \<and> t < next_tid s)"

text \<open>\<open>E\<close> are the blocks taken from the page manager for other uses.\<close>

definition kmem :: "kState \<Rightarrow> ptr set \<Rightarrow> bool" where
  "kmem s E \<longleftrightarrow>
     kslab (slabmgr s) (task_alloc s) (tasks s) (stacks s \<union> E) \<and>
     inj_on (\<lambda>p. stack_addr (tds s p)) (tasks s) \<and> stacks s \<inter> E = {}"

lemma tids_inj: "tids_ok s \<Longrightarrow> map_tid s t = Some p \<Longrightarrow> map_tid s u = Some p \<Longrightarrow> t = u"
  by (metis tids_ok_def)

lemma tids_next: "tids_ok s \<Longrightarrow> map_tid s (next_tid s) = None"
  by (cases "map_tid s (next_tid s)") (auto simp: tids_ok_def)

lemma kmem_cong:
  assumes "slabmgr s' = slabmgr s" "task_alloc s' = task_alloc s" "tasks s' = tasks s"
    "\<And>p. p \<in> tasks s \<Longrightarrow> stack_addr (tds s' p) = stack_addr (tds s p)"
  shows "kmem s' E = kmem s E"
proof -
  have "stacks s' = stacks s" using assms by (simp add: stacks_def)
  moreover have "inj_on (\<lambda>p. stack_addr (tds s' p)) (tasks s) = inj_on (\<lambda>p. stack_addr (tds s p)) (tasks s)"
    using assms(4) by (rule inj_on_cong)
  ultimately show ?thesis using assms by (simp add: kmem_def)
qed

lemma kmem_frame: "sched_frame s s' \<Longrightarrow> kmem s' E = kmem s E"
  by (rule kmem_cong) (auto dest: sched_frameD sched_frame_tdD)

lemma tids_cong:
  "\<lbrakk>map_tid s' = map_tid s; next_tid s' = next_tid s; \<And>p. td_tid (tds s' p) = td_tid (tds s p)\<rbrakk> \<Longrightarrow> tids_ok s' = tids_ok s"
  by (simp add: tids_ok_def)

lemma tids_frame: "sched_frame s s' \<Longrightarrow> tids_ok s' = tids_ok s"
  by (rule tids_cong) (auto dest: sched_frameD sched_frame_tdD)

section \<open>Operations\<close>

text \<open>A block for another use, as \<open>Mmap\<close> takes one.\<close>

lemma kmem_take:
  assumes k: "kmem s E"
  shows "\<exists>pm a. pg_alloc_page sz flg (pgmgr s) = Inr (pm, a) \<and>
     (a = NULL \<and> kmem (set_pgmgr pm s) E \<or>
      a \<noteq> NULL \<and> a \<notin> stacks s \<union> E \<and> kmem (set_pgmgr pm s) (insert a E))"
proof -
  have st: "stacks (set_pgmgr pm s) = stacks s" "tasks (set_pgmgr pm s) = tasks s" "tds (set_pgmgr pm s) = tds s"
    "slabmgr (set_pgmgr pm s) = (slabmgr s)\<lparr>source := pm\<rparr>" "task_alloc (set_pgmgr pm s) = task_alloc s" for pm
    by (simp_all add: stacks_def set_pgmgr_def tasks_def)
  have ks: "kslab (slabmgr s) (task_alloc s) (tasks s) (stacks s \<union> E)" using k by (simp add: kmem_def)
  obtain pm a where a: "pg_alloc_page sz flg (pgmgr s) = Inr (pm, a)"
    "a = NULL \<and> kslab ((slabmgr s)\<lparr>source := pm\<rparr>) (task_alloc s) (tasks s) (stacks s \<union> E) \<or>
     a \<noteq> NULL \<and> a \<notin> stacks s \<union> E \<and> kslab ((slabmgr s)\<lparr>source := pm\<rparr>) (task_alloc s) (tasks s) (insert a (stacks s \<union> E))"
    using kslab_take [OF ks, of sz flg] unfolding pgmgr_def by blast
  then show ?thesis using k by (auto simp: kmem_def st intro!: exI [of _ pm])
qed

text \<open>A new task: descriptor, stack and task id.\<close>

definition new_task :: "ptr \<Rightarrow> ptr \<Rightarrow> u8 \<Rightarrow> PgMgr SlabMgr \<Rightarrow> kState \<Rightarrow> kState" where
  "new_task p a sz m s =
     (upd_td p (\<lambda>t. t\<lparr>stack_addr := a, stack_sz := push_bit (unat sz) 1, td_tid := next_tid s\<rparr>) s)
       \<lparr>slabmgr := m, next_tid := next_tid s + 1, map_tid := (map_tid s)(next_tid s := Some p)\<rparr>"

lemma new_task_ok:
  assumes "kslab m (task_alloc s) (insert p (tasks s)) (insert a (stacks s \<union> E))" "p \<notin> tasks s" "a \<notin> stacks s \<union> E"
    "kmem s E" "tids_ok s" "next_tid s \<noteq> - 1"
  shows "kmem (new_task p a sz m s) E" "tids_ok (new_task p a sz m s)" "tasks (new_task p a sz m s) = insert p (tasks s)"
proof -
  let ?s = "new_task p a sz m s"
  show T: "tasks ?s = insert p (tasks s)"
    using tids_next [OF assms(5)] by (simp add: tasks_def new_task_def upd_td_def)
  have st: "stack_addr (tds ?s q) = (if q = p then a else stack_addr (tds s q))" for q
    by (simp add: new_task_def upd_td_def)
  have S: "stacks ?s = insert a (stacks s)" using assms(2) by (auto simp: stacks_def T st)
  have "inj_on (\<lambda>q. stack_addr (tds ?s q)) (insert p (tasks s))"
    using assms(2,3,4) by (auto simp: kmem_def inj_on_def st stacks_def)
  moreover have "slabmgr ?s = m" "task_alloc ?s = task_alloc s" by (simp_all add: new_task_def upd_td_def)
  ultimately show "kmem ?s E" using assms(1,3,4) by (auto simp: kmem_def T S)
  have "1 + next_tid s \<noteq> 0" using assms(6) by (metis add.commute eq_neg_iff_add_eq_0)
  then have lt: "next_tid s < next_tid s + 1" by (simp add: word_less_nat_alt unatSuc add.commute [of _ 1])
  have fresh: "q \<noteq> p" if "map_tid s t = Some q" for t q using that assms(2) by (auto simp: tasks_def ran_def)
  have old: "td_tid (tds s q) = t \<and> t < next_tid s + 1" if "map_tid s t = Some q" for t q
    using that assms(5) lt unfolding tids_ok_def by (meson less_trans)
  show "tids_ok ?s" using lt old fresh by (auto simp: tids_ok_def new_task_def upd_td_def)
qed

lemma get_free_task_ok:
  assumes k: "kmem s E" and t: "tids_ok s"
  shows "(\<exists>m. k_tmgr_get_free_task sz s = Inr (s\<lparr>slabmgr := m\<rparr>, None) \<and> kmem (s\<lparr>slabmgr := m\<rparr>) E) \<or>
     (\<exists>m p a. k_tmgr_get_free_task sz s = Inr (new_task p a sz m s, Some p) \<and> p \<noteq> NULL \<and> p \<notin> tasks s \<and>
        a \<noteq> NULL \<and> a \<notin> stacks s \<union> E \<and> kslab m (task_alloc s) (insert p (tasks s)) (insert a (stacks s \<union> E)))"
proof -
  let ?k = "task_alloc s" and ?F = "stacks s \<union> E"
  have ks: "kslab (slabmgr s) ?k (tasks s) ?F" using k by (simp add: kmem_def)
  have upd: "kmem (s\<lparr>slabmgr := m\<rparr>) E" if "kslab m ?k (tasks s) ?F" for m
  proof -
    have "stacks (s\<lparr>slabmgr := m\<rparr>) = stacks s" "tasks (s\<lparr>slabmgr := m\<rparr>) = tasks s" by (simp_all add: stacks_def tasks_def)
    then show ?thesis using that k by (simp add: kmem_def)
  qed
  obtain m p where a: "slab_alloc slab_kernel_func_alloc_page ?k 0 (slabmgr s) = Inr (m, p)"
    "p = NULL \<and> kslab m ?k (tasks s) ?F \<or> p \<noteq> NULL \<and> p \<notin> tasks s \<and> kslab m ?k (insert p (tasks s)) ?F"
    using kslab_alloc [OF ks] by blast
  show ?thesis
  proof (cases "p = NULL")
    case True
    then show ?thesis using a upd by (simp add: k_tmgr_get_free_task_def) blast
  next
    case False
    then have p: "p \<notin> tasks s" "kslab m ?k (insert p (tasks s)) ?F" using a(2) by blast+
    obtain pm b where b: "pg_alloc_page sz 0 (source m) = Inr (pm, b)"
      "b = NULL \<and> kslab (m\<lparr>source := pm\<rparr>) ?k (insert p (tasks s)) ?F \<or>
       b \<noteq> NULL \<and> b \<notin> ?F \<and> kslab (m\<lparr>source := pm\<rparr>) ?k (insert p (tasks s)) (insert b ?F)"
      using kslab_take [OF p(2)] by blast
    show ?thesis
    proof (cases "b = NULL")
      case True
      then have "kslab (m\<lparr>source := pm\<rparr>) ?k (insert p (tasks s)) ?F" using b(2) by blast
      then obtain m' where f: "slab_free ?k p (m\<lparr>source := pm\<rparr>) = Inr m'" "kslab m' ?k (tasks s) ?F"
        using kslab_free [of _ _ "insert p (tasks s)" _ p] p(1) by fastforce
      have "k_tmgr_get_free_task sz s = Inr (s\<lparr>slabmgr := m'\<rparr>, None)"
        using a(1) False b(1) True f(1) by (simp add: k_tmgr_get_free_task_def pgmgr_def set_pgmgr_def)
      then show ?thesis using upd [OF f(2)] by blast
    next
      case ne: False
      have "k_tmgr_get_free_task sz s = Inr (new_task p b sz (m\<lparr>source := pm\<rparr>) s, Some p)"
        using a(1) False b(1) ne tids_next [OF t]
        by (simp add: k_tmgr_get_free_task_def pgmgr_def set_pgmgr_def tid_find_add_def upd_td_def new_task_def Let_def)
      then show ?thesis using False p(1) ne b(2) by blast
    qed
  qed
qed

text \<open>The end of a task.\<close>

definition drop_task :: "ptr \<Rightarrow> PgMgr SlabMgr \<Rightarrow> kState \<Rightarrow> kState" where
  "drop_task p m s = s\<lparr>slabmgr := m, map_tid := (map_tid s)(td_tid (tds s p) := None)\<rparr>"

lemma destroy_task_ok:
  assumes k: "kmem s E" and t: "tids_ok s" and p: "p \<in> tasks s"
  shows "\<exists>m. k_tmgr_destroy_task p s = Inr (drop_task p m s) \<and> kmem (drop_task p m s) E \<and> tids_ok (drop_task p m s) \<and>
     tasks (drop_task p m s) = tasks s - {p}"
proof -
  let ?k = "task_alloc s" and ?a = "stack_addr (tds s p)"
  have ks: "kslab (slabmgr s) ?k (tasks s) (stacks s \<union> E)" and inj: "inj_on (\<lambda>p. stack_addr (tds s p)) (tasks s)"
    and dj: "stacks s \<inter> E = {}" using k by (simp_all add: kmem_def)
  have as: "?a \<in> stacks s" using p by (auto simp: stacks_def)
  then obtain pm where f: "pg_free_page ?a (source (slabmgr s)) = Inr pm"
    "kslab ((slabmgr s)\<lparr>source := pm\<rparr>) ?k (tasks s) (stacks s \<union> E - {?a})"
    using kslab_give [OF ks, of ?a] by blast
  obtain m where m: "slab_free ?k p ((slabmgr s)\<lparr>source := pm\<rparr>) = Inr m" "kslab m ?k (tasks s - {p}) (stacks s \<union> E - {?a})"
    using kslab_free [OF f(2) p] by blast
  let ?s = "drop_task p m s"
  have op: "k_tmgr_destroy_task p s = Inr ?s"
    using f(1) m(1) by (simp add: k_tmgr_destroy_task_def pgmgr_def set_pgmgr_def drop_task_def Let_def)
  obtain u where u: "map_tid s u = Some p" using p by (auto simp: tasks_def ran_def)
  have ut: "td_tid (tds s p) = u" using t u by (simp add: tids_ok_def)
  have T: "tasks ?s = tasks s - {p}"
  proof -
    have only: "map_tid s v = Some p \<longleftrightarrow> v = u" for v using tids_inj [OF t u, of v] u by auto
    have "tasks ?s = {x. \<exists>v. v \<noteq> u \<and> map_tid s v = Some x}" by (auto simp: tasks_def ran_def drop_task_def ut)
    also have "\<dots> = tasks s - {p}"
    proof (intro set_eqI iffI)
      fix x assume "x \<in> tasks s - {p}"
      then obtain v where v: "map_tid s v = Some x" "x \<noteq> p" by (auto simp: tasks_def ran_def)
      then have "v \<noteq> u" using u by auto
      then show "x \<in> {x. \<exists>v. v \<noteq> u \<and> map_tid s v = Some x}" using v by blast
    qed (use only in \<open>auto simp: tasks_def ran_def\<close>)
    finally show ?thesis .
  qed
  have S: "stacks ?s = stacks s - {?a}"
    using inj p unfolding stacks_def T by (auto simp: drop_task_def inj_on_def)
  have "stacks s - {?a} \<union> E = stacks s \<union> E - {?a}" using as dj by blast
  moreover have "inj_on (\<lambda>q. stack_addr (tds ?s q)) (tasks s - {p})"
    using inj by (auto simp: drop_task_def intro: inj_on_diff)
  moreover have "slabmgr ?s = m" "task_alloc ?s = ?k" by (simp_all add: drop_task_def)
  ultimately have "kmem ?s E" using m(2) dj by (auto simp: kmem_def T S)
  moreover have "tids_ok ?s" using t by (auto simp: tids_ok_def drop_task_def)
  ultimately show ?thesis using op T by blast
qed

end
