(* ===== verification/IpcInv.thy ===== *)
theory IpcInv
  imports KMem
begin

text \<open>
  The invariant of the kernel: the scheduler's places, the mailboxes' queues of senders, task ids, memory
  and devices; and what changes that do not touch them preserve.
\<close>

section \<open>Mailboxes\<close>

definition mbox_ok :: "kMailbox \<Rightarrow> bool" where
  "mbox_ok b \<longleftrightarrow> rb_ok (sender_waitqueue b) \<and> rb_capacity (sender_waitqueue b) = USER_STACK_ARRAY_CNT"

definition mbox_queue :: "kMailbox \<Rightarrow> ptr list" where
  "mbox_queue b = rb_list (sender_waitqueue b)"

text \<open>
  A mailbox is a bounded queue of senders; the store through the missing slot of a full one is a null
  dereference.
\<close>

lemma mbox_init: "mbox_ok k_mbox_init" "mbox_queue k_mbox_init = []"
  by (simp_all add: mbox_ok_def mbox_queue_def k_mbox_init_def rb_init_ok) (simp add: rb_init_def)

lemma add_send_queue_push:
  "k_mbox_add_send_queue p b =
     (case rb_push p (sender_waitqueue b) of None \<Rightarrow> Inl Null_deref | Some q \<Rightarrow> Inr (b\<lparr>sender_waitqueue := q\<rparr>))"
  by (auto simp: k_mbox_add_send_queue_def rb_push_def deref_def split: prod.splits option.splits)

lemma add_send_queue_ok:
  assumes "mbox_ok b" "length (mbox_queue b) < 64"
  shows "\<exists>q. k_mbox_add_send_queue p b = Inr (b\<lparr>sender_waitqueue := q\<rparr>) \<and> mbox_ok (b\<lparr>sender_waitqueue := q\<rparr>) \<and>
     rb_list q = mbox_queue b @ [p]"
proof -
  have ok: "rb_ok (sender_waitqueue b)" "unat (rb_capacity (sender_waitqueue b)) = 64" using assms(1) by (simp_all add: mbox_ok_def)
  then obtain q where q: "rb_push p (sender_waitqueue b) = Some q"
    using rb.push_full [OF ok(1), of p] assms(2) by (cases "rb_push p (sender_waitqueue b)") (auto simp: mbox_queue_def)
  then show ?thesis using rb_push_Some [OF ok(1) q] assms(1)
    by (intro exI [of _ q]) (simp add: add_send_queue_push mbox_ok_def mbox_queue_def)
qed

lemma add_send_queue_full:
  assumes "mbox_ok b" "length (mbox_queue b) = 64"
  shows "k_mbox_add_send_queue p b = Inl Null_deref"
  using assms rb.push_full [of "sender_waitqueue b" p] by (simp add: add_send_queue_push mbox_ok_def mbox_queue_def)

lemma mbox_queue_le: "mbox_ok b \<Longrightarrow> length (mbox_queue b) \<le> 64"
  using rb_ok_nat [of "sender_waitqueue b"] by (auto simp: mbox_ok_def mbox_queue_def)

lemma pop_send_queue_ok:
  assumes "mbox_ok b"
  shows "mbox_queue b = [] \<Longrightarrow> k_mbox_pop_send_queue b = (None, b)"
    "mbox_queue b = x # xs \<Longrightarrow> \<exists>q. k_mbox_pop_send_queue b = (Some x, b\<lparr>sender_waitqueue := q\<rparr>) \<and>
       mbox_ok (b\<lparr>sender_waitqueue := q\<rparr>) \<and> rb_list q = xs"
proof -
  have ok: "rb_ok (sender_waitqueue b)" using assms by (simp add: mbox_ok_def)
  have f: "rb_front (sender_waitqueue b) = (case mbox_queue b of [] \<Rightarrow> None | x # _ \<Rightarrow> Some x)"
    using rb_front_list [OF ok] by (simp add: mbox_queue_def)
  show "mbox_queue b = [] \<Longrightarrow> k_mbox_pop_send_queue b = (None, b)"
    using f by (auto simp: k_mbox_pop_send_queue_def rb_front_def split: option.splits)
  assume x: "mbox_queue b = x # xs"
  then obtain i where i: "rb_peek (sender_waitqueue b) = Some i" "rb_array (sender_waitqueue b) ! unat i = x"
    using f by (auto simp: rb_front_def)
  have "rb_size (sender_waitqueue b) \<noteq> 0" using x length_rb_list [of "sender_waitqueue b"] by (auto simp: mbox_queue_def)
  note p = rb_pop_list [OF ok this]
  show "\<exists>q. k_mbox_pop_send_queue b = (Some x, b\<lparr>sender_waitqueue := q\<rparr>) \<and> mbox_ok (b\<lparr>sender_waitqueue := q\<rparr>) \<and> rb_list q = xs"
    using i p x assms by (auto simp: k_mbox_pop_send_queue_def mbox_ok_def mbox_queue_def rb_pop_def)
qed

lemma mbox_inits [simp]:
  "mbox_ok (k_mbox_send_init m l r rl b) = mbox_ok b" "mbox_queue (k_mbox_send_init m l r rl b) = mbox_queue b"
  "mbox_ok (k_mbox_recv_init m l t b) = mbox_ok b" "mbox_queue (k_mbox_recv_init m l t b) = mbox_queue b"
  "sender_waitqueue (k_mbox_send_init m l r rl b) = sender_waitqueue b"
  "sender_waitqueue (k_mbox_recv_init m l t b) = sender_waitqueue b"
  by (simp_all add: mbox_ok_def mbox_queue_def k_mbox_send_init_def k_mbox_recv_init_def)

section \<open>The invariant\<close>

definition queue :: "kState \<Rightarrow> ptr \<Rightarrow> ptr list" where
  "queue s p = mbox_queue (mailbox (tds s p))"

text \<open>
  A sender waits in one queue at most and is on the list of blocked senders; a task that waits for a
  message has none waiting for it. A sender on the list may be in no queue: its receiver has exited.
\<close>

definition ipc_inv :: "kState \<Rightarrow> ptr list list \<Rightarrow> bool" where
  "ipc_inv s bl \<longleftrightarrow>
     (\<forall>p\<in>tasks s. mbox_ok (mailbox (tds s p)) \<and> distinct (queue s p) \<and> set (queue s p) \<subseteq> set (bl ! 1)) \<and>
     (\<forall>p\<in>tasks s. \<forall>q\<in>tasks s. p \<noteq> q \<longrightarrow> set (queue s p) \<inter> set (queue s q) = {}) \<and>
     (\<forall>p\<in>set (bl ! 0). queue s p = [])"

definition dev_ok :: "kState \<Rightarrow> bool" where
  "dev_ok s \<longleftrightarrow> encoder_mgr_ok (encoder_mgr s) \<and> gpio_ok (gpio s)"

definition kinv :: "kState \<Rightarrow> ptr list list \<Rightarrow> ptr multiset \<Rightarrow> ptr set \<Rightarrow> bool" where
  "kinv s bl L E \<longleftrightarrow> sched_inv s bl L \<and> ipc_inv s bl \<and> tids_ok s \<and> kmem s E \<and> dev_ok s"

text \<open>What the invariant looks at, apart from the devices.\<close>

definition td_core :: "kTaskDsp \<Rightarrow> u32 \<times> kPriorityKey \<times> ptr \<times> u64 \<times> ptr ring" where
  "td_core t = (td_state t, priority_key t, stack_addr t, td_tid t, sender_waitqueue (mailbox t))"

definition same_core :: "kState \<Rightarrow> kState \<Rightarrow> bool" where
  "same_core s s' \<longleftrightarrow>
     (\<lambda>p. td_core (tds s' p)) = (\<lambda>p. td_core (tds s p)) \<and> map_tid s' = map_tid s \<and> sched_links s' = sched_links s \<and>
     sched_heads s' = sched_heads s \<and> task_heap s' = task_heap s \<and> idle_task s' = idle_task s \<and>
     slabmgr s' = slabmgr s \<and> task_alloc s' = task_alloc s \<and> next_tid s' = next_tid s"

lemma same_core_refl [simp]: "same_core s s"
  by (simp add: same_core_def)

lemma same_core_trans: "same_core s t \<Longrightarrow> same_core t u \<Longrightarrow> same_core s u"
  by (simp add: same_core_def)

lemma same_coreD:
  assumes "same_core s s'"
  shows "tasks s' = tasks s" "queue s' p = queue s p" "mbox_ok (mailbox (tds s' p)) = mbox_ok (mailbox (tds s p))"
    "td_state (tds s' p) = td_state (tds s p)" "task_key (tds s') = task_key (tds s)"
    "stack_addr (tds s' p) = stack_addr (tds s p)" "td_tid (tds s' p) = td_tid (tds s p)" "ready s' = ready s"
    "map_tid s' = map_tid s" "idle_task s' = idle_task s" "priority_key (tds s' p) = priority_key (tds s p)"
proof -
  have c: "td_core (tds s' q) = td_core (tds s q)" for q using assms by (auto simp: same_core_def dest: fun_cong)
  show "tasks s' = tasks s" "ready s' = ready s" "map_tid s' = map_tid s" "idle_task s' = idle_task s"
    using assms by (simp_all add: same_core_def tasks_def ready_def)
  show "queue s' p = queue s p" "mbox_ok (mailbox (tds s' p)) = mbox_ok (mailbox (tds s p))"
    "td_state (tds s' p) = td_state (tds s p)" "task_key (tds s') = task_key (tds s)"
    "stack_addr (tds s' p) = stack_addr (tds s p)" "td_tid (tds s' p) = td_tid (tds s p)"
    "priority_key (tds s' p) = priority_key (tds s p)"
    using c by (simp_all add: td_core_def queue_def mbox_queue_def mbox_ok_def task_key_def fun_eq_iff)
qed

lemma sched_inv_core: "same_core s s' \<Longrightarrow> sched_inv s bl L \<Longrightarrow> sched_inv s' bl L"
  unfolding sched_inv_def by (simp add: same_coreD) (simp add: same_core_def)

lemma ipc_inv_core: "same_core s s' \<Longrightarrow> ipc_inv s bl \<Longrightarrow> ipc_inv s' bl"
  unfolding ipc_inv_def by (simp add: same_coreD)

lemma kinv_core:
  assumes c: "same_core s s'" and k: "kinv s bl L E" and d: "dev_ok s'"
  shows "kinv s' bl L E"
proof -
  have "tids_ok s' = tids_ok s" by (rule tids_cong) (use c in \<open>auto simp: same_coreD\<close>, simp add: same_core_def)
  moreover have "kmem s' E = kmem s E" by (rule kmem_cong) (use c in \<open>auto simp: same_coreD\<close>, simp_all add: same_core_def)
  ultimately show ?thesis using k d sched_inv_core [OF c] ipc_inv_core [OF c] by (simp add: kinv_def)
qed

text \<open>Changes of what the invariant does not look at.\<close>

lemma same_core_simps [simp]:
  "same_core s (set_retval v p s)" "same_core s (s\<lparr>mem := m\<rparr>)" "same_core s (s\<lparr>kg_current_td := c\<rparr>)"
  "same_core s (upd_mbox (k_mbox_send_init a l r rl) p s)" "same_core s (upd_td p (\<lambda>t. t\<lparr>parent_tid := v\<rparr>) s)"
  "same_core s (s\<lparr>idle_duration := d\<rparr>)" "same_core s (s\<lparr>idle_track_start_time := d\<rparr>)"
  "same_core s (s\<lparr>encoder_mgr := em\<rparr>)" "same_core s (s\<lparr>gpio := g\<rparr>)" "same_core s (s\<lparr>uart_regs := us\<rparr>)"
  "same_core s (s\<lparr>pi_timer := pt\<rparr>)" "same_core s (s\<lparr>next_intr_time := nt\<rparr>)"
  by (auto simp: same_core_def td_core_def set_retval_def upd_mbox_def upd_td_def sched_heads_def)

lemma dev_ok_simps [simp]:
  "dev_ok (set_retval v p s) = dev_ok s" "dev_ok (s\<lparr>mem := m\<rparr>) = dev_ok s" "dev_ok (s\<lparr>kg_current_td := c\<rparr>) = dev_ok s"
  "dev_ok (upd_mbox f p s) = dev_ok s" "dev_ok (upd_td p g s) = dev_ok s"
  "dev_ok (s\<lparr>idle_duration := d\<rparr>) = dev_ok s" "dev_ok (s\<lparr>idle_track_start_time := d\<rparr>) = dev_ok s"
  "dev_ok (s\<lparr>uart_regs := us\<rparr>) = dev_ok s" "dev_ok (s\<lparr>pi_timer := pt\<rparr>) = dev_ok s" "dev_ok (s\<lparr>next_intr_time := nt\<rparr>) = dev_ok s"
  by (simp_all add: dev_ok_def set_retval_def upd_mbox_def upd_td_def)

lemma dev_frame: "sched_frame s s' \<Longrightarrow> dev_ok s' = dev_ok s"
  by (simp add: dev_ok_def sched_frameD)

lemma queue_frame: "sched_frame s s' \<Longrightarrow> queue s' p = queue s p"
  by (simp add: queue_def sched_frame_tdD)

text \<open>
  What remains to be shown of a scheduler operation: a task that begins to wait for messages has an empty
  queue, and a sender that is no longer blocked is in no queue.
\<close>

lemma kinv_frame:
  assumes k: "kinv s bl L E" and f: "sched_frame s s'" and i: "sched_inv s' bl' L'"
    and r: "set (bl' ! 0) \<subseteq> set (bl ! 0) \<union> {p. queue s p = []}"
    and w: "set (bl ! 1) \<subseteq> set (bl' ! 1) \<union> {p. \<forall>q\<in>tasks s. p \<notin> set (queue s q)}"
  shows "kinv s' bl' L' E"
proof -
  have t: "tasks s' = tasks s" "mailbox (tds s' p) = mailbox (tds s p)" for p using sched_frameD(15) [OF f] sched_frame_tdD(7) [OF f] by simp_all
  have "ipc_inv s' bl'"
    using k r w unfolding kinv_def ipc_inv_def queue_frame [OF f] t by blast
  then show ?thesis
    using k i dev_frame [OF f] kmem_frame [OF f] tids_frame [OF f] by (simp add: kinv_def)
qed

section \<open>States and places\<close>

lemma list_place:
  assumes i: "sched_inv s bl L" and p: "p \<in> tasks s" "p \<notin># L" and v: "td_state (tds s p) \<noteq> READY"
  shows "\<exists>q<4. p \<in> set (bl ! q)"
proof -
  have "p \<notin> set (ready s)" "p \<noteq> idle_task s" using i v by (auto simp: sched_inv_def)
  then have "p \<in> dls_elems bl" using sched_place(8) [OF i i p(1)] p(2) by (auto simp: dls_elems_concat)
  then show ?thesis using i by (auto simp: dls_elems_def sched_inv_def)
qed

lemma state_by_place:
  assumes i: "sched_inv s bl L"
  shows "p \<in> set (bl ! 0) \<Longrightarrow> td_state (tds s p) = RECEIVE_BLOCKED" "p \<in> set (bl ! 1) \<Longrightarrow> td_state (tds s p) = SEND_BLOCKED"
    "p \<in> set (bl ! 2) \<Longrightarrow> td_state (tds s p) = REPLY_BLOCKED" "p \<in> set (bl ! 3) \<Longrightarrow> IS_EVENT_BLOCKED (td_state (tds s p))"
proof -
  have st: "st_ok q (td_state (tds s p))" if "q < 4" "p \<in> set (bl ! q)" for q using i that by (simp add: sched_inv_def)
  show "p \<in> set (bl ! 0) \<Longrightarrow> td_state (tds s p) = RECEIVE_BLOCKED" "p \<in> set (bl ! 1) \<Longrightarrow> td_state (tds s p) = SEND_BLOCKED"
    "p \<in> set (bl ! 2) \<Longrightarrow> td_state (tds s p) = REPLY_BLOCKED" "p \<in> set (bl ! 3) \<Longrightarrow> IS_EVENT_BLOCKED (td_state (tds s p))"
    using st [of 0] st [of 1] st [of 2] st [of 3] by (simp_all add: st_ok_def)
qed

lemma not_event [simp]:
  "\<not> IS_EVENT_BLOCKED READY" "\<not> IS_EVENT_BLOCKED SEND_BLOCKED" "\<not> IS_EVENT_BLOCKED RECEIVE_BLOCKED"
  "\<not> IS_EVENT_BLOCKED REPLY_BLOCKED"
  by (simp_all add: IS_EVENT_BLOCKED_def word_le_nat_alt)

lemma place_by_state:
  assumes i: "sched_inv s bl L" and p: "p \<in> tasks s" "p \<notin># L"
  shows "td_state (tds s p) = RECEIVE_BLOCKED \<Longrightarrow> p \<in> set (bl ! 0)"
    "td_state (tds s p) = SEND_BLOCKED \<Longrightarrow> p \<in> set (bl ! 1)"
    "td_state (tds s p) = REPLY_BLOCKED \<Longrightarrow> p \<in> set (bl ! 2)"
    "IS_EVENT_BLOCKED (td_state (tds s p)) \<Longrightarrow> p \<in> set (bl ! 3)"
proof -
  have l: "p \<in> set (bl ! 0) \<or> p \<in> set (bl ! 1) \<or> p \<in> set (bl ! 2) \<or> p \<in> set (bl ! 3)"
    if v: "td_state (tds s p) \<noteq> READY"
  proof -
    obtain q where "q < 4" "p \<in> set (bl ! q)" using list_place [OF i p v] by blast
    moreover from \<open>q < 4\<close> have "q = 0 \<or> q = 1 \<or> q = 2 \<or> q = 3" by auto
    ultimately show ?thesis by blast
  qed
  note st = state_by_place [OF i, of p]
  show "td_state (tds s p) = RECEIVE_BLOCKED \<Longrightarrow> p \<in> set (bl ! 0)" using l st(2-4) by (force simp: IS_EVENT_BLOCKED_def)
  show "td_state (tds s p) = SEND_BLOCKED \<Longrightarrow> p \<in> set (bl ! 1)" using l st(1,3,4) by (force simp: IS_EVENT_BLOCKED_def)
  show "td_state (tds s p) = REPLY_BLOCKED \<Longrightarrow> p \<in> set (bl ! 2)" using l st(1,2,4) by (force simp: IS_EVENT_BLOCKED_def)
  show "IS_EVENT_BLOCKED (td_state (tds s p)) \<Longrightarrow> p \<in> set (bl ! 3)"
  proof (rule ccontr)
    assume e: "IS_EVENT_BLOCKED (td_state (tds s p))" and n: "p \<notin> set (bl ! 3)"
    from e have "td_state (tds s p) \<noteq> READY" by auto
    then have "td_state (tds s p) \<in> {3, 4, 5}" using l n st(1-3) by blast
    then show False using e by auto
  qed
qed


end
