(* ===== verification/Ipc.thy ===== *)
theory Ipc
  imports IpcInv
begin

text \<open>
  Send, Receive, Reply and AwaitEvent: each handler preserves the kernel's invariant and does to memory,
  states and queues what its callers rely on. \<open>cur\<close> is the running task, alone in the kernel's hands.
\<close>

section \<open>The scheduler's operations under the invariant\<close>

lemma k_add_ready:
  assumes k: "kinv s bl (add_mset p L) E" and n: "card (tasks s) \<le> 201"
  shows "\<exists>s'. k_sched_add_ready p s = Inr s' \<and> kinv s' bl L E \<and> sched_frame s s' \<and>
     (\<forall>q. q \<noteq> p \<longrightarrow> tds s' q = tds s q) \<and> td_state (tds s' p) = READY \<and> mset (ready s') = add_mset p (mset (ready s))"
proof -
  have i: "sched_inv s bl (add_mset p L)" using k by (simp add: kinv_def)
  obtain s' where s': "k_sched_add_ready p s = Inr s'" "sched_inv s' bl L" "sched_frame s s'"
    "\<forall>q. q \<noteq> p \<longrightarrow> tds s' q = tds s q" "td_state (tds s' p) = READY" "mset (ready s') = add_mset p (mset (ready s))"
    using add_ready_ok [OF i n] by blast
  have "kinv s' bl L E" by (rule kinv_frame [OF k s'(3,2)]) auto
  then show ?thesis using s' by blast
qed

lemma k_wait_add:
  assumes k: "kinv s bl (add_mset p L) E" and q: "q < 4" "st_ok q v" and e: "q = 0 \<Longrightarrow> queue s p = []"
  shows "\<exists>s'. wait_add q v p s = Inr s' \<and> kinv s' (bl[q := bl ! q @ [p]]) L E \<and> sched_frame s s' \<and>
     tds s' = (tds s)(p := (tds s p)\<lparr>td_state := v\<rparr>) \<and> ready s' = ready s"
proof -
  have i: "sched_inv s bl (add_mset p L)" using k by (simp add: kinv_def)
  obtain s' where s': "wait_add q v p s = Inr s'" "sched_inv s' (bl[q := bl ! q @ [p]]) L" "sched_frame s s'"
    "tds s' = (tds s)(p := (tds s p)\<lparr>td_state := v\<rparr>)" "task_heap s' = task_heap s"
    using wait_add_ok [OF i q] by blast
  have len: "length bl = 4" using i by (simp add: sched_inv_def)
  have "kinv s' (bl[q := bl ! q @ [p]]) L E"
    by (rule kinv_frame [OF k s'(3,2)]) (use len q e in \<open>auto simp: nth_list_update\<close>)
  then show ?thesis using s' by (auto simp: ready_def)
qed

lemma k_wait_remove:
  assumes k: "kinv s bl L E" and q: "q < 4" "p \<in> set (bl ! q)"
    and e: "q = 1 \<Longrightarrow> \<forall>r\<in>tasks s. p \<notin> set (queue s r)"
  shows "\<exists>s'. wait_remove q p s = Inr s' \<and> kinv s' (bl[q := remove1 p (bl ! q)]) (add_mset p L) E \<and> sched_frame s s' \<and>
     tds s' = tds s \<and> ready s' = ready s"
proof -
  have i: "sched_inv s bl L" using k by (simp add: kinv_def)
  obtain s' where s': "wait_remove q p s = Inr s'" "sched_inv s' (bl[q := remove1 p (bl ! q)]) (add_mset p L)" "sched_frame s s'"
    "tds s' = tds s" "task_heap s' = task_heap s"
    using wait_remove_ok [OF i q] by blast
  have len: "length bl = 4" using i by (simp add: sched_inv_def)
  have sub: "set (remove1 p (bl ! q)) \<subseteq> set (bl ! q)" "x \<in> set (bl ! q) \<Longrightarrow> x \<noteq> p \<Longrightarrow> x \<in> set (remove1 p (bl ! q))" for x
    using set_remove1_subset [of p "bl ! q"] by auto
  have "kinv s' (bl[q := remove1 p (bl ! q)]) (add_mset p L) E"
  proof (rule kinv_frame [OF k s'(3,2)])
    show "set (bl[q := remove1 p (bl ! q)] ! 0) \<subseteq> set (bl ! 0) \<union> {p. queue s p = []}"
      using sub(1) len q(1) by (auto simp: nth_list_update)
    show "set (bl ! 1) \<subseteq> set (bl[q := remove1 p (bl ! q)] ! 1) \<union> {p. \<forall>q\<in>tasks s. p \<notin> set (queue s q)}"
    proof (cases "q = 1")
      case True
      then have "set (bl ! 1) \<subseteq> insert p (set (remove1 p (bl ! 1)))" using sub(2) by blast
      then show ?thesis using True e len by auto
    qed auto
  qed
  then show ?thesis using s' by (auto simp: ready_def)
qed

section \<open>Send\<close>

text \<open>The message changes hands: bytes, sender id and length.\<close>

lemma deliver_core: "same_core s (deliver r q s)"
  by (auto simp: deliver_def store_in_tid_def same_core_def td_core_def set_retval_def upd_td_def sched_heads_def)

lemma deliver_effect:
  "mem (deliver r q s) =
     store32 (in_tid (mailbox (tds s r))) (ucast (td_tid (tds s q)))
       (util_memcpy (in_buf (mailbox (tds s r))) (out_msg (mailbox (tds s q)))
         (min (in_buf_len (mailbox (tds s r))) (out_msg_len (mailbox (tds s q)))) (mem s))"
  "tds (deliver r q s) = (tds s)(r := (tds s r)\<lparr>syscall_retval := out_msg_len (mailbox (tds s q))\<rparr>)"
  "kg_current_td (deliver r q s) = kg_current_td s"
  "dev_ok (deliver r q s) = dev_ok s"
  by (simp_all add: deliver_def store_in_tid_def k_mbox_copy_msg_def set_retval_def upd_td_def dev_ok_def)

lemma running:
  assumes "kinv s bl (add_mset cur L) E"
  shows "cur \<in> tasks s" "cur \<notin> set (bl ! 0)" "cur \<notin> set (bl ! 1)" "cur \<notin> set (bl ! 2)" "cur \<notin> set (bl ! 3)" "cur \<noteq> idle_task s"
proof -
  have i: "sched_inv s bl (add_mset cur L)" using assms by (simp add: kinv_def)
  then have p: "cur \<notin> dls_elems bl" "cur \<in> tasks s" "cur \<noteq> idle_task s" and l: "length bl = 4"
    using sched_place(1) [OF i i, of cur] by (auto simp: dls_elems_concat sched_inv_def)
  show "cur \<in> tasks s" "cur \<noteq> idle_task s" using p by blast+
  show "cur \<notin> set (bl ! 0)" "cur \<notin> set (bl ! 1)" "cur \<notin> set (bl ! 2)" "cur \<notin> set (bl ! 3)"
    using p(1) l by (auto simp: dls_elems_def)
qed

lemma tid_task: "map_tid s t = Some p \<Longrightarrow> p \<in> tasks s"
  by (auto simp: tasks_def intro: ranI)

lemma send_no_task:
  assumes "kg_current_td s = Some cur" "map_tid s (scast tid) = None"
  shows "k_send_handler tid msg len rep rl s = Inr (set_retval (- 1) cur s)"
  using assms by (simp add: k_send_handler_def current_td_def deref_def k_task_mgr_get_task_dsp_def)

lemma send_delivers:
  assumes k: "kinv s bl {#cur#} E" and c: "kg_current_td s = Some cur" and run: "td_state (tds s cur) = READY"
    and n: "card (tasks s) \<le> 201" and r: "map_tid s (scast tid) = Some r" and st: "td_state (tds s r) = RECEIVE_BLOCKED"
  shows "\<exists>s'. k_send_handler tid msg len rep rl s = Inr s' \<and>
     kinv s' (bl[2 := bl ! 2 @ [cur], 0 := remove1 r (bl ! 0)]) {#} E \<and> kg_current_td s' = None \<and> map_tid s' = map_tid s \<and>
     mem s' = store32 (in_tid (mailbox (tds s r))) (ucast (td_tid (tds s cur)))
       (util_memcpy (in_buf (mailbox (tds s r))) msg (min (in_buf_len (mailbox (tds s r))) len) (mem s)) \<and>
     syscall_retval (tds s' r) = len \<and> mset (ready s') = add_mset r (mset (ready s)) \<and> td_state (tds s' r) = READY \<and>
     td_state (tds s' cur) = REPLY_BLOCKED \<and> in_buf (mailbox (tds s' cur)) = rep \<and> in_buf_len (mailbox (tds s' cur)) = rl \<and>
     (\<forall>p. p \<noteq> r \<and> p \<noteq> cur \<longrightarrow> tds s' p = tds s p)"
proof -
  have i: "sched_inv s bl {#cur#}" using k by (simp add: kinv_def)
  have rc: "r \<noteq> cur" using st run by auto
  have r0: "r \<in> set (bl ! 0)" using place_by_state(1) [OF i tid_task [OF r] _ st] rc by simp
  define s1 where "s1 = upd_mbox (k_mbox_send_init msg len rep rl) cur s"
  have t1: "tds s1 = (tds s)(cur := (tds s cur)\<lparr>mailbox := k_mbox_send_init msg len rep rl (mailbox (tds s cur))\<rparr>)"
    "kg_current_td s1 = Some cur" "mem s1 = mem s" "map_tid s1 = map_tid s"
    using c by (simp_all add: s1_def upd_mbox_def upd_td_def)
  define s2 where "s2 = deliver r cur s1"
  note e2 = deliver_effect [of r cur s1, folded s2_def]
  have c2: "same_core s s2" unfolding s2_def s1_def by (rule same_core_trans [OF same_core_simps(4) deliver_core])
  have k2: "kinv s2 bl {#cur#} E" by (rule kinv_core [OF c2 k]) (use k e2(4) in \<open>simp add: kinv_def s1_def\<close>)
  have R2: "ready s2 = ready s" "tasks s2 = tasks s" using same_coreD [OF c2] by simp_all
  obtain s3 where s3: "wait_add 2 REPLY_BLOCKED cur s2 = Inr s3" "kinv s3 (bl[2 := bl ! 2 @ [cur]]) {#} E" "sched_frame s2 s3"
    "tds s3 = (tds s2)(cur := (tds s2 cur)\<lparr>td_state := REPLY_BLOCKED\<rparr>)" "ready s3 = ready s2"
    using k_wait_add [OF k2, of 2 REPLY_BLOCKED] by (auto simp: st_ok_def)
  have st3: "td_state (tds s3 r) = RECEIVE_BLOCKED" using st rc by (simp add: s3(4) e2(2) t1)
  have "r \<in> set (bl[2 := bl ! 2 @ [cur]] ! 0)" using r0 by simp
  then obtain s4 where s4: "wait_remove 0 r s3 = Inr s4" "kinv s4 (bl[2 := bl ! 2 @ [cur], 0 := remove1 r (bl ! 0)]) {#r#} E"
    "sched_frame s3 s4" "tds s4 = tds s3" "ready s4 = ready s3"
    using k_wait_remove [OF s3(2), of 0 r] by auto
  have n4: "card (tasks s4) \<le> 201" using n sched_frameD(15) [OF s4(3)] sched_frameD(15) [OF s3(3)] R2(2) by simp
  obtain s5 where s5: "k_sched_add_ready r s4 = Inr s5" "kinv s5 (bl[2 := bl ! 2 @ [cur], 0 := remove1 r (bl ! 0)]) {#} E"
    "sched_frame s4 s5" "\<forall>q. q \<noteq> r \<longrightarrow> tds s5 q = tds s4 q" "td_state (tds s5 r) = READY"
    "mset (ready s5) = add_mset r (mset (ready s4))"
    using k_add_ready [OF s4(2) n4] by blast
  have fr: "sched_frame s2 s5" using s3(3) s4(3) s5(3) by (blast intro: sched_frame_trans)
  define s' where "s' = s5\<lparr>kg_current_td := None\<rparr>"
  have f': "tds s' = tds s5" "mem s' = mem s5" "kg_current_td s' = None" "ready s' = ready s5"
    by (simp_all add: s'_def ready_def)
  have op: "k_send_handler tid msg len rep rl s = Inr s'"
    using c r st rc s3(1) s4(1) s5(1) st3
    by (simp add: k_send_handler_def current_td_def deref_def k_task_mgr_get_task_dsp_def Let_def s1_def [symmetric] t1
        s2_def [symmetric] wait_add_eqs wait_remove_eqs s'_def)
  have "kinv s' (bl[2 := bl ! 2 @ [cur], 0 := remove1 r (bl ! 0)]) {#} E"
    unfolding s'_def by (rule kinv_core [OF same_core_simps(3) s5(2)]) (use s5(2) in \<open>simp add: kinv_def\<close>)
  moreover have "mem s' = mem s2" "map_tid s' = map_tid s"
    using sched_frameD(1,6) [OF fr] f' same_coreD(9) [OF c2] by (simp_all add: s'_def)
  moreover have "syscall_retval (tds s' r) = len" using sched_frame_tdD(3) [OF fr, of r] f' rc by (simp add: e2(2) t1 k_mbox_send_init_def)
  moreover have "tds s' cur = (tds s2 cur)\<lparr>td_state := REPLY_BLOCKED\<rparr>" using s5(4) s4(4) s3(4) rc f' by simp
  moreover have "tds s' p = tds s p" if "p \<noteq> r" "p \<noteq> cur" for p using that s5(4) by (simp add: f' s4(4) s3(4) e2(2) t1)
  ultimately show ?thesis
    using op f' s5(5,6) s4(5) s3(5) R2 rc by (intro exI [of _ s']) (simp add: e2 t1 k_mbox_send_init_def)
qed

lemma send_queues:
  assumes k: "kinv s bl {#cur#} E" and c: "kg_current_td s = Some cur" and run: "td_state (tds s cur) = READY"
    and r: "map_tid s (scast tid) = Some r" and st: "td_state (tds s r) \<noteq> RECEIVE_BLOCKED"
  shows "length (queue s r) = 64 \<Longrightarrow> k_send_handler tid msg len rep rl s = Inl Null_deref"
    "length (queue s r) < 64 \<Longrightarrow> \<exists>s'. k_send_handler tid msg len rep rl s = Inr s' \<and>
     kinv s' (bl[1 := bl ! 1 @ [cur]]) {#} E \<and> kg_current_td s' = None \<and> map_tid s' = map_tid s \<and> mem s' = mem s \<and> ready s' = ready s \<and>
     queue s' r = queue s r @ [cur] \<and> (\<forall>p. p \<noteq> r \<longrightarrow> queue s' p = queue s p) \<and>
     td_state (tds s' cur) = SEND_BLOCKED \<and> out_msg (mailbox (tds s' cur)) = msg \<and> out_msg_len (mailbox (tds s' cur)) = len \<and>
     in_buf (mailbox (tds s' cur)) = rep \<and> in_buf_len (mailbox (tds s' cur)) = rl \<and>
     (\<forall>p. p \<noteq> r \<and> p \<noteq> cur \<longrightarrow> tds s' p = tds s p)"
proof -
  have rt: "r \<in> tasks s" by (rule tid_task [OF r])
  define s1 where "s1 = upd_mbox (k_mbox_send_init msg len rep rl) cur s"
  have t1: "tds s1 = (tds s)(cur := (tds s cur)\<lparr>mailbox := k_mbox_send_init msg len rep rl (mailbox (tds s cur))\<rparr>)"
    "kg_current_td s1 = Some cur" "mem s1 = mem s" "map_tid s1 = map_tid s" "ready s1 = ready s"
    using c by (simp_all add: s1_def upd_mbox_def upd_td_def ready_def)
  have c1: "same_core s s1" unfolding s1_def by simp
  have k1: "kinv s1 bl {#cur#} E" by (rule kinv_core [OF c1 k]) (use k in \<open>simp add: kinv_def s1_def\<close>)
  note q1 = same_coreD(2) [OF c1]
  have st1: "td_state (tds s1 r) \<noteq> RECEIVE_BLOCKED" using same_coreD(4) [OF c1, of r] st by simp
  have mb: "mbox_ok (mailbox (tds s1 r))" using k1 rt same_coreD(1) [OF c1] by (simp add: kinv_def ipc_inv_def)
  have run_h: "k_send_handler tid msg len rep rl s =
      bindR (bindR (k_mbox_add_send_queue cur (mailbox (tds s1 r))) (\<lambda>b. wait_add 1 SEND_BLOCKED cur (upd_mbox (\<lambda>_. b) r s1)))
       (\<lambda>s5. Inr (s5\<lparr>kg_current_td := None\<rparr>))"
    using c r st1 by (simp add: k_send_handler_def current_td_def deref_def k_task_mgr_get_task_dsp_def Let_def s1_def [symmetric] t1(2) wait_add_eqs)
  show "length (queue s r) = 64 \<Longrightarrow> k_send_handler tid msg len rep rl s = Inl Null_deref"
    using add_send_queue_full [OF mb] q1 [of r] by (simp add: run_h queue_def)
  assume len: "length (queue s r) < 64"
  then have len1: "length (mbox_queue (mailbox (tds s1 r))) < 64" using q1 [of r] by (simp add: queue_def)
  obtain q where q: "k_mbox_add_send_queue cur (mailbox (tds s1 r)) = Inr ((mailbox (tds s1 r))\<lparr>sender_waitqueue := q\<rparr>)"
    "mbox_ok ((mailbox (tds s1 r))\<lparr>sender_waitqueue := q\<rparr>)" "rb_list q = queue s r @ [cur]"
    using add_send_queue_ok [OF mb len1, of cur] q1 [of r] by (auto simp: queue_def)
  define s2 where "s2 = upd_mbox (\<lambda>_. (mailbox (tds s1 r))\<lparr>sender_waitqueue := q\<rparr>) r s1"
  have f2: "tds s2 = (tds s1)(r := (tds s1 r)\<lparr>mailbox := (mailbox (tds s1 r))\<lparr>sender_waitqueue := q\<rparr>\<rparr>)"
    "mem s2 = mem s" "ready s2 = ready s" "tasks s2 = tasks s" "map_tid s2 = map_tid s" "next_tid s2 = next_tid s"
    "slabmgr s2 = slabmgr s" "task_alloc s2 = task_alloc s" "sched_links s2 = sched_links s" "sched_heads s2 = sched_heads s"
    "task_heap s2 = task_heap s" "idle_task s2 = idle_task s" "dev_ok s2 = dev_ok s"
    by (simp_all add: s2_def s1_def upd_mbox_def upd_td_def ready_def tasks_def sched_heads_def dev_ok_def)
  have q2: "queue s2 p = (if p = r then queue s r @ [cur] else queue s p)" for p
    using q1 [of p] q(3) by (simp add: f2 queue_def mbox_queue_def)
  have same: "td_state (tds s2 p) = td_state (tds s p)" "priority_key (tds s2 p) = priority_key (tds s p)"
    "stack_addr (tds s2 p) = stack_addr (tds s p)" "td_tid (tds s2 p) = td_tid (tds s p)" for p
    by (auto simp: f2 t1)
  have i2: "sched_inv s2 bl {#cur#}"
  proof -
    have "task_key (tds s2) = task_key (tds s)" by (rule heap_state_cong) (rule same)
    then show ?thesis using k by (simp add: kinv_def sched_inv_def f2(2-) same)
  qed
  have d2: "tids_ok s2" "kmem s2 E" "dev_ok s2"
    using k tids_cong [of s2 s] kmem_cong [of s2 s E] by (simp_all add: f2(4-) same kinv_def)
  obtain s3 where s3: "wait_add 1 SEND_BLOCKED cur s2 = Inr s3" "sched_inv s3 (bl[1 := bl ! 1 @ [cur]]) {#}" "sched_frame s2 s3"
    "tds s3 = (tds s2)(cur := (tds s2 cur)\<lparr>td_state := SEND_BLOCKED\<rparr>)" "task_heap s3 = task_heap s2"
    using wait_add_ok [OF i2, of 1 SEND_BLOCKED] by (auto simp: st_ok_def)
  have cur: "cur \<notin> set (queue s p)" if "p \<in> tasks s" for p
    using k that running(3) [OF k] by (auto simp: kinv_def ipc_inv_def)
  have len4: "length bl = 4" using i2 by (simp add: sched_inv_def)
  have q3: "queue s3 p = queue s2 p" "tasks s3 = tasks s" for p using queue_frame [OF s3(3)] sched_frameD(15) [OF s3(3)] f2 by simp_all
  have r0: "r \<notin> set (bl ! 0)" using state_by_place(1) [of s bl "{#cur#}" r] k st by (auto simp: kinv_def)
  have mb3: "mbox_ok (mailbox (tds s3 p))" if "p \<in> tasks s" for p
  proof -
    have "mbox_ok (mailbox (tds s1 p))" using k1 that same_coreD(1) [OF c1] by (simp add: kinv_def ipc_inv_def)
    then show ?thesis using q(2) sched_frame_tdD(7) [OF s3(3), of p] by (simp add: f2)
  qed
  have ii: "ipc_inv s bl" using k by (simp add: kinv_def)
  have "ipc_inv s3 (bl[1 := bl ! 1 @ [cur]])"
    unfolding ipc_inv_def
  proof (intro conjI ballI impI)
    fix p assume p: "p \<in> tasks s3"
    then have p': "p \<in> tasks s" by (simp add: q3)
    show "mbox_ok (mailbox (tds s3 p))" by (rule mb3 [OF p'])
    show "distinct (queue s3 p)" using ii p' rt cur by (auto simp: q3 q2 ipc_inv_def)
    show "set (queue s3 p) \<subseteq> set (bl[1 := bl ! 1 @ [cur]] ! 1)" using ii p' len4 by (auto simp: q3 q2 ipc_inv_def)
    fix x assume x: "x \<in> tasks s3" "p \<noteq> x"
    then have "set (queue s p) \<inter> set (queue s x) = {}" using ii p' by (simp add: q3 ipc_inv_def)
    then show "set (queue s3 p) \<inter> set (queue s3 x) = {}" using x p' cur by (auto simp: q3 q2)
  next
    fix p assume "p \<in> set (bl[1 := bl ! 1 @ [cur]] ! 0)"
    then show "queue s3 p = []" using ii r0 by (auto simp: q3 q2 ipc_inv_def)
  qed
  then have k3: "kinv s3 (bl[1 := bl ! 1 @ [cur]]) {#} E"
    using s3(2) d2 kmem_frame [OF s3(3)] tids_frame [OF s3(3)] dev_frame [OF s3(3)] by (simp add: kinv_def)
  define s' where "s' = s3\<lparr>kg_current_td := None\<rparr>"
  have c': "same_core s3 s'" by (simp add: s'_def)
  have "kinv s' (bl[1 := bl ! 1 @ [cur]]) {#} E"
    by (rule kinv_core [OF c' k3]) (use k3 in \<open>simp add: s'_def kinv_def\<close>)
  moreover have "k_send_handler tid msg len rep rl s = Inr s'" using q(1) s3(1) by (simp add: run_h s2_def s'_def)
  moreover have "mem s' = mem s" "map_tid s' = map_tid s" using sched_frameD(1,6) [OF s3(3)] by (simp_all add: s'_def f2)
  moreover have "ready s' = ready s" using s3(5) by (simp add: s'_def ready_def f2)
  moreover have "queue s' p = queue s2 p" for p using q3(1) same_coreD(2) [OF c'] by simp
  ultimately show "\<exists>s'. k_send_handler tid msg len rep rl s = Inr s' \<and>
     kinv s' (bl[1 := bl ! 1 @ [cur]]) {#} E \<and> kg_current_td s' = None \<and> map_tid s' = map_tid s \<and> mem s' = mem s \<and> ready s' = ready s \<and>
     queue s' r = queue s r @ [cur] \<and> (\<forall>p. p \<noteq> r \<longrightarrow> queue s' p = queue s p) \<and>
     td_state (tds s' cur) = SEND_BLOCKED \<and> out_msg (mailbox (tds s' cur)) = msg \<and> out_msg_len (mailbox (tds s' cur)) = len \<and>
     in_buf (mailbox (tds s' cur)) = rep \<and> in_buf_len (mailbox (tds s' cur)) = rl \<and>
     (\<forall>p. p \<noteq> r \<and> p \<noteq> cur \<longrightarrow> tds s' p = tds s p)"
    by (intro exI [of _ s']) (auto simp: s'_def s3(4) f2(1) t1(1) k_mbox_send_init_def q2)
qed

section \<open>Receive\<close>

text \<open>Replacing the queue of one mailbox.\<close>

lemma kinv_set_queue:
  assumes k: "kinv s bl L E" and r: "r \<in> tasks s" and b: "mbox_ok b" "distinct (mbox_queue b)" "set (mbox_queue b) \<subseteq> set (queue s r)"
  shows "kinv (upd_mbox (\<lambda>_. b) r s) bl L E"
proof -
  let ?s = "upd_mbox (\<lambda>_. b) r s"
  have same: "td_state (tds ?s p) = td_state (tds s p)" "priority_key (tds ?s p) = priority_key (tds s p)"
    "stack_addr (tds ?s p) = stack_addr (tds s p)" "td_tid (tds ?s p) = td_tid (tds s p)" for p
    by (auto simp: upd_mbox_def upd_td_def)
  have f: "ready ?s = ready s" "tasks ?s = tasks s" "map_tid ?s = map_tid s" "next_tid ?s = next_tid s"
    "slabmgr ?s = slabmgr s" "task_alloc ?s = task_alloc s" "sched_links ?s = sched_links s" "sched_heads ?s = sched_heads s"
    "task_heap ?s = task_heap s" "idle_task ?s = idle_task s"
    by (simp_all add: upd_mbox_def upd_td_def ready_def tasks_def sched_heads_def)
  have q: "queue ?s p = (if p = r then mbox_queue b else queue s p)"
    "mailbox (tds ?s p) = (if p = r then b else mailbox (tds s p))" for p by (simp_all add: queue_def upd_mbox_def upd_td_def)
  have "task_key (tds ?s) = task_key (tds s)" by (rule heap_state_cong) (rule same)
  then have "sched_inv ?s bl L" using k by (simp add: kinv_def sched_inv_def f same)
  moreover have "tids_ok ?s" "kmem ?s E" "dev_ok ?s"
    using k tids_cong [of ?s s] kmem_cong [of ?s s E] by (simp_all add: f same kinv_def)
  moreover have "ipc_inv ?s bl"
  proof -
    have i: "ipc_inv s bl" using k by (simp add: kinv_def)
    have 1: "mbox_ok (mailbox (tds ?s p)) \<and> distinct (queue ?s p) \<and> set (queue ?s p) \<subseteq> set (bl ! 1)" if "p \<in> tasks s" for p
      using i that b r unfolding q by (cases "p = r") (auto simp: ipc_inv_def)
    have sub: "set (queue ?s p) \<subseteq> set (queue s p)" for p using b(3) by (simp add: q)
    have 2: "set (queue ?s p) \<inter> set (queue ?s p') = {}" if "p \<in> tasks s" "p' \<in> tasks s" "p \<noteq> p'" for p p'
    proof -
      have "set (queue s p) \<inter> set (queue s p') = {}" using i that by (simp add: ipc_inv_def)
      then show ?thesis using sub [of p] sub [of p'] by blast
    qed
    have 3: "queue ?s p = []" if "p \<in> set (bl ! 0)" for p
    proof -
      have "queue s p = []" using i that by (simp add: ipc_inv_def)
      then show ?thesis using sub [of p] by simp
    qed
    show ?thesis using 1 2 3 by (simp add: ipc_inv_def f)
  qed
  ultimately show ?thesis by (simp add: kinv_def)
qed

lemma recv_blocks:
  assumes k: "kinv s bl {#cur#} E" and c: "kg_current_td s = Some cur" and q: "queue s cur = []"
  shows "\<exists>s'. k_recv_handler tid msg len s = Inr s' \<and> kinv s' (bl[0 := bl ! 0 @ [cur]]) {#} E \<and> kg_current_td s' = None \<and>
     map_tid s' = map_tid s \<and> mem s' = mem s \<and> ready s' = ready s \<and> td_state (tds s' cur) = RECEIVE_BLOCKED \<and> in_buf (mailbox (tds s' cur)) = msg \<and>
     in_buf_len (mailbox (tds s' cur)) = len \<and> in_tid (mailbox (tds s' cur)) = tid \<and> (\<forall>p. p \<noteq> cur \<longrightarrow> tds s' p = tds s p)"
proof -
  note run = running [OF k]
  let ?b = "mailbox (tds s cur)"
  have mb: "mbox_ok ?b" using k run(1) by (simp add: kinv_def ipc_inv_def)
  have pop: "k_mbox_pop_send_queue ?b = (None, ?b)" using pop_send_queue_ok(1) [OF mb] q by (simp add: queue_def)
  define s1 where "s1 = upd_mbox (\<lambda>_. k_mbox_recv_init msg len tid ?b) cur s"
  have k1: "kinv s1 bl {#cur#} E" unfolding s1_def by (rule kinv_set_queue [OF k run(1)]) (use mb q in \<open>simp_all add: queue_def\<close>)
  have t1: "tds s1 = (tds s)(cur := (tds s cur)\<lparr>mailbox := k_mbox_recv_init msg len tid ?b\<rparr>)" "mem s1 = mem s" "ready s1 = ready s"
    by (simp_all add: s1_def upd_mbox_def upd_td_def ready_def)
  have q1: "queue s1 cur = []" using q by (simp add: queue_def t1)
  obtain s2 where s2: "wait_add 0 RECEIVE_BLOCKED cur s1 = Inr s2" "kinv s2 (bl[0 := bl ! 0 @ [cur]]) {#} E" "sched_frame s1 s2"
    "tds s2 = (tds s1)(cur := (tds s1 cur)\<lparr>td_state := RECEIVE_BLOCKED\<rparr>)" "ready s2 = ready s1"
    using k_wait_add [OF k1, of 0 RECEIVE_BLOCKED] q1 by (auto simp: st_ok_def)
  define s' where "s' = s2\<lparr>kg_current_td := None\<rparr>"
  have "k_recv_handler tid msg len s = Inr s'"
    using c pop s2(1) by (simp add: k_recv_handler_def current_td_def deref_def s1_def wait_add_eqs s'_def)
  moreover have "kinv s' (bl[0 := bl ! 0 @ [cur]]) {#} E"
    unfolding s'_def by (rule kinv_core [OF same_core_simps(3) s2(2)]) (use s2(2) in \<open>simp add: kinv_def\<close>)
  moreover have "ready s' = ready s2" by (simp add: s'_def ready_def)
  moreover have "map_tid s' = map_tid s" using sched_frameD(6) [OF s2(3)] by (simp add: s'_def s1_def upd_mbox_def upd_td_def)
  ultimately show ?thesis
    using s2(4,5) sched_frameD(1) [OF s2(3)] by (intro exI [of _ s']) (simp add: s'_def t1 k_mbox_recv_init_def)
qed

lemma recv_takes:
  assumes k: "kinv s bl {#cur#} E" and c: "kg_current_td s = Some cur" and q: "queue s cur = x # xs" and n: "card (tasks s) \<le> 201"
  shows "\<exists>s'. k_recv_handler tid msg len s = Inr s' \<and> kinv s' (bl[1 := remove1 x (bl ! 1), 2 := bl ! 2 @ [x]]) {#} E \<and>
     kg_current_td s' = None \<and> map_tid s' = map_tid s \<and> queue s' cur = xs \<and>
     mem s' = store32 tid (ucast (td_tid (tds s x)))
       (util_memcpy msg (out_msg (mailbox (tds s x))) (min len (out_msg_len (mailbox (tds s x)))) (mem s)) \<and>
     syscall_retval (tds s' cur) = out_msg_len (mailbox (tds s x)) \<and> td_state (tds s' cur) = READY \<and>
     mset (ready s') = add_mset cur (mset (ready s)) \<and> td_state (tds s' x) = REPLY_BLOCKED \<and> mailbox (tds s' x) = mailbox (tds s x) \<and>
     (\<forall>p. p \<noteq> cur \<and> p \<noteq> x \<longrightarrow> tds s' p = tds s p)"
proof -
  note run = running [OF k]
  let ?b = "mailbox (tds s cur)"
  have ii: "ipc_inv s bl" using k by (simp add: kinv_def)
  have mb: "mbox_ok ?b" using ii run(1) by (simp add: ipc_inv_def)
  obtain qq where pop: "k_mbox_pop_send_queue ?b = (Some x, ?b\<lparr>sender_waitqueue := qq\<rparr>)"
    "mbox_ok (?b\<lparr>sender_waitqueue := qq\<rparr>)" "rb_list qq = xs"
    using pop_send_queue_ok(2) [OF mb, of x xs] q by (auto simp: queue_def)
  define b where "b = k_mbox_recv_init msg len tid (?b\<lparr>sender_waitqueue := qq\<rparr>)"
  have b: "mbox_ok b" "mbox_queue b = xs" using pop(2,3) by (simp_all add: b_def) (simp add: mbox_queue_def)
  have dq: "distinct (x # xs)" "set (x # xs) \<subseteq> set (bl ! 1)" using ii run(1) q unfolding ipc_inv_def by metis+
  have x1: "x \<in> set (bl ! 1)" using dq by simp
  then have xc: "x \<noteq> cur" using run(3) by blast
  define s1 where "s1 = upd_mbox (\<lambda>_. b) cur s"
  have k1: "kinv s1 bl {#cur#} E" unfolding s1_def by (rule kinv_set_queue [OF k run(1)]) (use b dq q in \<open>auto simp: queue_def\<close>)
  have t1: "tds s1 = (tds s)(cur := (tds s cur)\<lparr>mailbox := b\<rparr>)" "mem s1 = mem s" "ready s1 = ready s" "tasks s1 = tasks s"
    by (simp_all add: s1_def upd_mbox_def upd_td_def ready_def tasks_def)
  define s2 where "s2 = deliver cur x s1"
  note e2 = deliver_effect [of cur x s1, folded s2_def]
  have c2: "same_core s1 s2" unfolding s2_def by (rule deliver_core)
  have k2: "kinv s2 bl {#cur#} E" by (rule kinv_core [OF c2 k1]) (use k1 e2(4) in \<open>simp add: kinv_def\<close>)
  have free: "x \<notin> set (queue s2 p)" if "p \<in> tasks s" for p
  proof (cases "p = cur")
    case True
    then show ?thesis using dq(1) b(2) same_coreD(2) [OF c2, of cur] by (simp add: queue_def t1)
  next
    case False
    have "set (queue s p) \<inter> set (queue s cur) = {}" using ii that run(1) False by (simp add: ipc_inv_def)
    then have "x \<notin> set (queue s p)" using q by auto
    then show ?thesis using False same_coreD(2) [OF c2, of p] by (simp add: queue_def t1)
  qed
  have R2: "ready s2 = ready s" "tasks s2 = tasks s" using same_coreD [OF c2] t1 by simp_all
  obtain s3 where s3: "wait_remove 1 x s2 = Inr s3" "kinv s3 (bl[1 := remove1 x (bl ! 1)]) {#x, cur#} E" "sched_frame s2 s3"
    "tds s3 = tds s2" "ready s3 = ready s2"
    using k_wait_remove [OF k2, of 1 x] x1 free R2 by auto
  obtain s4 where s4: "wait_add 2 REPLY_BLOCKED x s3 = Inr s4" "kinv s4 (bl[1 := remove1 x (bl ! 1), 2 := bl ! 2 @ [x]]) {#cur#} E"
    "sched_frame s3 s4" "tds s4 = (tds s3)(x := (tds s3 x)\<lparr>td_state := REPLY_BLOCKED\<rparr>)" "ready s4 = ready s3"
    using k_wait_add [OF s3(2), of 2 REPLY_BLOCKED] by (auto simp: st_ok_def)
  have n4: "card (tasks s4) \<le> 201" using n sched_frameD(15) [OF s4(3)] sched_frameD(15) [OF s3(3)] R2(2) by simp
  obtain s5 where s5: "k_sched_add_ready cur s4 = Inr s5" "kinv s5 (bl[1 := remove1 x (bl ! 1), 2 := bl ! 2 @ [x]]) {#} E"
    "sched_frame s4 s5" "\<forall>q. q \<noteq> cur \<longrightarrow> tds s5 q = tds s4 q" "td_state (tds s5 cur) = READY"
    "mset (ready s5) = add_mset cur (mset (ready s4))"
    using k_add_ready [OF s4(2) n4] by blast
  have fr: "sched_frame s2 s5" using s3(3) s4(3) s5(3) by (blast intro: sched_frame_trans)
  have sx: "td_state (tds s2 x) = SEND_BLOCKED" using state_by_place(2) [of s bl "{#cur#}" x] k x1 xc by (simp add: kinv_def e2 t1)
  define s' where "s' = s5\<lparr>kg_current_td := None\<rparr>"
  have op: "k_recv_handler tid msg len s = Inr s'"
    using c pop(1) sx s3(1) s4(1) s5(1)
    by (simp add: k_recv_handler_def current_td_def deref_def b_def [symmetric] s1_def [symmetric] s2_def [symmetric]
        wait_add_eqs wait_remove_eqs s'_def)
  have "kinv s' (bl[1 := remove1 x (bl ! 1), 2 := bl ! 2 @ [x]]) {#} E"
    unfolding s'_def by (rule kinv_core [OF same_core_simps(3) s5(2)]) (use s5(2) in \<open>simp add: kinv_def\<close>)
  moreover have "queue s' cur = xs"
    using queue_frame [OF fr, of cur] b(2) by (simp add: s'_def queue_def e2(2) t1)
  moreover have "mem s' = mem s2" "map_tid s' = map_tid s"
    using sched_frameD(1,6) [OF fr] same_coreD(9) [OF c2] by (simp_all add: s'_def) (simp add: s1_def upd_mbox_def upd_td_def)
  moreover have "syscall_retval (tds s' cur) = out_msg_len (mailbox (tds s x))"
    using sched_frame_tdD(3) [OF fr, of cur] xc by (simp add: s'_def e2(2) t1)
  moreover have "tds s' x = (tds s x)\<lparr>td_state := REPLY_BLOCKED\<rparr>"
    using s5(4) xc by (simp add: s'_def s4(4) s3(4) e2(2) t1)
  moreover have "tds s' p = tds s p" if "p \<noteq> cur" "p \<noteq> x" for p using that s5(4) by (simp add: s'_def s4(4) s3(4) e2(2) t1)
  moreover have "in_tid b = tid" "in_buf b = msg" "in_buf_len b = len" by (simp_all add: b_def k_mbox_recv_init_def)
  ultimately show ?thesis
    using op s5(5,6) s4(5) s3(5) R2 xc by (intro exI [of _ s']) (simp add: s'_def ready_def e2(1) t1)
qed

section \<open>Reply and AwaitEvent\<close>

lemma reply_errors:
  assumes "kg_current_td s = Some cur"
  shows "map_tid s (scast tid) = None \<Longrightarrow> k_reply_handler tid rep rl s = Inr (set_retval (- 1) cur s)"
    "map_tid s (scast tid) = Some x \<Longrightarrow> td_state (tds s x) \<noteq> REPLY_BLOCKED \<Longrightarrow>
     k_reply_handler tid rep rl s = Inr (set_retval (- 2) cur s)"
  using assms by (simp_all add: k_reply_handler_def current_td_def deref_def k_task_mgr_get_task_dsp_def)

lemma reply_ok:
  assumes k: "kinv s bl {#cur#} E" and c: "kg_current_td s = Some cur" and run: "td_state (tds s cur) = READY"
    and n: "card (tasks s) \<le> 201" and x: "map_tid s (scast tid) = Some x" and st: "td_state (tds s x) = REPLY_BLOCKED"
  shows "\<exists>s'. k_reply_handler tid rep rl s = Inr s' \<and> kinv s' (bl[2 := remove1 x (bl ! 2)]) {#cur#} E \<and> kg_current_td s' = Some cur \<and> map_tid s' = map_tid s \<and>
     mem s' = util_memcpy (in_buf (mailbox (tds s x))) rep (min rl (in_buf_len (mailbox (tds s x)))) (mem s) \<and>
     syscall_retval (tds s' x) = rl \<and> syscall_retval (tds s' cur) = min rl (in_buf_len (mailbox (tds s x))) \<and>
     td_state (tds s' x) = READY \<and> td_state (tds s' cur) = READY \<and> mset (ready s') = add_mset x (mset (ready s)) \<and>
     (\<forall>p. p \<noteq> cur \<and> p \<noteq> x \<longrightarrow> tds s' p = tds s p)"
proof -
  have i: "sched_inv s bl {#cur#}" using k by (simp add: kinv_def)
  have xc: "x \<noteq> cur" using st run by auto
  have x2: "x \<in> set (bl ! 2)" using place_by_state(3) [OF i tid_task [OF x] _ st] xc by simp
  let ?n = "min rl (in_buf_len (mailbox (tds s x)))"
  define s3 where "s3 = (set_retval ?n cur (set_retval rl x s))
     \<lparr>mem := util_memcpy (in_buf (mailbox (tds s x))) rep ?n (mem s)\<rparr>"
  have c3: "same_core s s3"
    unfolding s3_def by (rule same_core_trans [OF same_core_trans [OF same_core_simps(1) same_core_simps(1)] same_core_simps(2)])
  have t3: "tds s3 = (tds s)(x := (tds s x)\<lparr>syscall_retval := rl\<rparr>, cur := (tds s cur)\<lparr>syscall_retval := ?n\<rparr>)"
    "mem s3 = util_memcpy (in_buf (mailbox (tds s x))) rep ?n (mem s)" "kg_current_td s3 = Some cur" "dev_ok s3 = dev_ok s"
    using c xc by (auto simp: s3_def set_retval_def upd_td_def dev_ok_def)
  have k3: "kinv s3 bl {#cur#} E" by (rule kinv_core [OF c3 k]) (use k t3(4) in \<open>simp add: kinv_def\<close>)
  have st3: "td_state (tds s3 x) = REPLY_BLOCKED" using same_coreD(4) [OF c3] st by simp
  obtain s4 where s4: "wait_remove 2 x s3 = Inr s4" "kinv s4 (bl[2 := remove1 x (bl ! 2)]) {#x, cur#} E" "sched_frame s3 s4"
    "tds s4 = tds s3" "ready s4 = ready s3"
    using k_wait_remove [OF k3, of 2 x] x2 by auto
  have n4: "card (tasks s4) \<le> 201" using n sched_frameD(15) [OF s4(3)] same_coreD(1) [OF c3] by simp
  obtain s5 where s5: "k_sched_add_ready x s4 = Inr s5" "kinv s5 (bl[2 := remove1 x (bl ! 2)]) {#cur#} E"
    "sched_frame s4 s5" "\<forall>q. q \<noteq> x \<longrightarrow> tds s5 q = tds s4 q" "td_state (tds s5 x) = READY"
    "mset (ready s5) = add_mset x (mset (ready s4))"
    using k_add_ready [OF s4(2) n4] by blast
  have fr: "sched_frame s3 s5" by (rule sched_frame_trans [OF s4(3) s5(3)])
  have op: "k_reply_handler tid rep rl s = Inr s5"
  proof -
    have "in_buf_len (mailbox (tds (set_retval rl x s) x)) = in_buf_len (mailbox (tds s x))"
      "in_buf (mailbox (tds (set_retval ?n cur (set_retval rl x s)) x)) = in_buf (mailbox (tds s x))"
      "mem (set_retval ?n cur (set_retval rl x s)) = mem s"
      using xc by (simp_all add: set_retval_def upd_td_def)
    then show ?thesis
      using c x st st3 s4(1) s5(1)
      by (simp add: k_reply_handler_def current_td_def deref_def k_task_mgr_get_task_dsp_def Let_def s3_def [symmetric] wait_remove_eqs)
  qed
  show ?thesis
    using op s5(2,4,5,6) s4(4,5) sched_frameD(1,6,11) [OF fr] sched_frame_tdD(3) [OF fr] same_coreD(8,9) [OF c3] xc run
    by (intro exI [of _ s5]) (simp add: t3)
qed

lemma await_ok:
  assumes k: "kinv s bl {#cur#} E" and c: "kg_current_td s = Some cur" and v: "IS_EVENT_BLOCKED i"
  shows "\<exists>s'. k_await_event_handler i s = Inr s' \<and> kinv s' (bl[3 := bl ! 3 @ [cur]]) {#} E \<and> kg_current_td s' = None \<and>
     map_tid s' = map_tid s \<and> mem s' = mem s \<and> ready s' = ready s \<and> tds s' = (tds s)(cur := (tds s cur)\<lparr>td_state := i\<rparr>)"
proof -
  obtain s2 where s2: "wait_add 3 i cur s = Inr s2" "kinv s2 (bl[3 := bl ! 3 @ [cur]]) {#} E" "sched_frame s s2"
    "tds s2 = (tds s)(cur := (tds s cur)\<lparr>td_state := i\<rparr>)" "ready s2 = ready s"
    using k_wait_add [of s bl cur "{#}" E 3 i] k v by (auto simp: st_ok_def)
  define s' where "s' = s2\<lparr>kg_current_td := None\<rparr>"
  have "k_await_event_handler i s = Inr s'"
    using c s2(1) by (simp add: k_await_event_handler_def current_td_def deref_def wait_add_eqs s'_def)
  moreover have "kinv s' (bl[3 := bl ! 3 @ [cur]]) {#} E"
    unfolding s'_def by (rule kinv_core [OF same_core_simps(3) s2(2)]) (use s2(2) in \<open>simp add: kinv_def\<close>)
  ultimately show ?thesis
    using s2(4,5) sched_frameD(1,6) [OF s2(3)] by (intro exI [of _ s']) (simp add: s'_def ready_def)
qed

end
