(* ===== verification/Proc.thy ===== *)
theory Proc
  imports Ipc
begin

text \<open>
  Creating and ending tasks, and the calls that change no task's place: the handlers under the kernel's
  invariant.
\<close>

section \<open>The invariant without an idle task\<close>

text \<open>While the kernel starts there is no idle task yet.\<close>

definition places :: "kState \<Rightarrow> ptr list list \<Rightarrow> ptr multiset \<Rightarrow> bool" where
  "places s bl L \<longleftrightarrow>
     length bl = 4 \<and> dlists (sched_links s) (sched_heads s) bl \<and>
     is_heap (task_key (tds s)) cmp_keys_task_dsp (task_heap s) \<and> hcapacity (task_heap s) = K_SCHED_HEAP_CAPACITY \<and>
     finite (tasks s) \<and> mset (ready s) + mset (concat bl) + L = mset_set (tasks s) \<and>
     (\<forall>p\<in>set (ready s). td_state (tds s p) = READY) \<and>
     (\<forall>q<4. \<forall>p\<in>set (bl ! q). st_ok q (td_state (tds s p)))"

lemma sched_inv_places:
  "sched_inv s bl L \<longleftrightarrow> places s bl (add_mset (idle_task s) L) \<and> td_state (tds s (idle_task s)) = READY"
  by (auto simp: sched_inv_def places_def)

definition kinv0 :: "kState \<Rightarrow> ptr list list \<Rightarrow> ptr multiset \<Rightarrow> ptr set \<Rightarrow> bool" where
  "kinv0 s bl L E \<longleftrightarrow> places s bl L \<and> ipc_inv s bl \<and> tids_ok s \<and> kmem s E \<and> dev_ok s"

lemma kinv_kinv0:
  "kinv s bl L E \<longleftrightarrow> kinv0 s bl (add_mset (idle_task s) L) E \<and> td_state (tds s (idle_task s)) = READY"
  by (auto simp: kinv_def kinv0_def sched_inv_places)

lemma places_mem:
  assumes "places s bl L"
  shows "set (ready s) \<subseteq> tasks s" "set (concat bl) \<subseteq> tasks s" "set_mset L \<subseteq> tasks s"
proof -
  have e: "mset (ready s) + mset (concat bl) + L = mset_set (tasks s)" "finite (tasks s)" using assms by (simp_all add: places_def)
  have "set_mset (mset (ready s) + mset (concat bl) + L) = tasks s" using e by simp
  then show "set (ready s) \<subseteq> tasks s" "set (concat bl) \<subseteq> tasks s" "set_mset L \<subseteq> tasks s" by auto
qed

section \<open>A new task\<close>

text \<open>The descriptor that \<open>k_td_init_user_task\<close> leaves behind.\<close>

lemma init_user_task_effect:
  "\<exists>m' sp r. k_td_init_user_task p q prio f args len s =
     (upd_td p (\<lambda>t. t\<lparr>td_pc := f, td_pstate := 0, priority_key := (priority_key t)\<lparr>priority := prio\<rparr>,
        parent_tid := (case q of Some q \<Rightarrow> td_tid (tds s q) | None \<Rightarrow> load64 56 (mem s)), td_state := READY,
        esr_el1 := 0, syscall_retval := r, td_sp := sp, mailbox := k_mbox_init\<rparr>) s)\<lparr>mem := m'\<rparr>"
  by (rule exI [of _ "mem (k_td_init_user_task p q prio f args len s)"],
      rule exI [of _ "td_sp (tds (k_td_init_user_task p q prio f args len s) p)"],
      rule exI [of _ "syscall_retval (tds (k_td_init_user_task p q prio f args len s) p)"])
    (simp add: k_td_init_user_task_def Let_def upd_td_def)

lemma new_user_task:
  assumes k: "kinv0 s bl L E" and p: "p \<notin> tasks s" "a \<notin> stacks s \<union> E" "next_tid s \<noteq> - 1"
    and m: "kslab m (task_alloc s) (insert p (tasks s)) (insert a (stacks s \<union> E))"
    and q: "q \<noteq> Some p"
  shows "\<exists>s'. k_td_init_user_task p q prio f args len (new_task p a sz m s) = s' \<and> kinv0 s' bl (add_mset p L) E \<and>
     tasks s' = insert p (tasks s) \<and> map_tid s' = (map_tid s)(next_tid s := Some p) \<and> next_tid s' = next_tid s + 1 \<and>
     ready s' = ready s \<and> (\<forall>r. r \<noteq> p \<longrightarrow> tds s' r = tds s r) \<and> td_tid (tds s' p) = next_tid s \<and>
     td_state (tds s' p) = READY \<and> priority (priority_key (tds s' p)) = prio \<and> td_pc (tds s' p) = f \<and>
     (case q of None \<Rightarrow> True | Some q \<Rightarrow> parent_tid (tds s' p) = td_tid (tds s q)) \<and>
     kg_current_td s' = kg_current_td s \<and> idle_task s' = idle_task s \<and>
     load_elf_addr s' = load_elf_addr s \<and> idle_task_addr s' = idle_task_addr s \<and> queue s' p = []"
proof -
  let ?n = "new_task p a sz m s"
  have k': "places s bl L" "ipc_inv s bl" "tids_ok s" "kmem s E" "dev_ok s" using k by (simp_all add: kinv0_def)
  note n = new_task_ok [OF m p(1,2) k'(4,3) p(3), of sz]
  obtain m' sp r where e: "k_td_init_user_task p q prio f args len ?n =
     (upd_td p (\<lambda>t. t\<lparr>td_pc := f, td_pstate := 0, priority_key := (priority_key t)\<lparr>priority := prio\<rparr>,
        parent_tid := (case q of Some q \<Rightarrow> td_tid (tds ?n q) | None \<Rightarrow> load64 56 (mem ?n)), td_state := READY,
        esr_el1 := 0, syscall_retval := r, td_sp := sp, mailbox := k_mbox_init\<rparr>) ?n)\<lparr>mem := m'\<rparr>"
    using init_user_task_effect by blast
  define s' where "s' = k_td_init_user_task p q prio f args len ?n"
  have f: "tasks s' = tasks ?n" "map_tid s' = (map_tid s)(next_tid s := Some p)" "next_tid s' = next_tid s + 1" "slabmgr s' = m"
    "task_alloc s' = task_alloc s" "sched_links s' = sched_links s" "sched_heads s' = sched_heads s" "task_heap s' = task_heap s"
    "idle_task s' = idle_task s" "kg_current_td s' = kg_current_td s" "load_elf_addr s' = load_elf_addr s"
    "idle_task_addr s' = idle_task_addr s" "dev_ok s' = dev_ok s"
    unfolding s'_def e by (simp_all add: new_task_def upd_td_def tasks_def sched_heads_def dev_ok_def)
  have rd: "ready s' = ready s" by (simp add: ready_def f)
  have oth: "tds s' r = tds s r" if "r \<noteq> p" for r using that unfolding s'_def e by (simp add: new_task_def upd_td_def)
  have tp: "td_tid (tds s' p) = next_tid s" "td_state (tds s' p) = READY" "priority (priority_key (tds s' p)) = prio"
    "mailbox (tds s' p) = k_mbox_init" "stack_addr (tds s' p) = a" "td_pc (tds s' p) = f"
    unfolding s'_def e by (simp_all add: new_task_def upd_td_def)
  have par: "case q of None \<Rightarrow> True | Some q \<Rightarrow> parent_tid (tds s' p) = td_tid (tds s q)"
    using assms(6) unfolding s'_def e by (auto simp: new_task_def upd_td_def split: option.splits)
  have T: "tasks s' = insert p (tasks s)" using f(1) n(3) by simp
  have stk: "stack_addr (tds ?n r) = stack_addr (tds s' r)" "td_tid (tds ?n r) = td_tid (tds s' r)" for r
    unfolding s'_def e by (simp_all add: new_task_def upd_td_def)
  have "kmem s' E"
    by (subst kmem_cong [of s' ?n E]) (use n(1) f stk in \<open>simp_all add: new_task_def upd_td_def\<close>)
  moreover have "tids_ok s'"
    by (subst tids_cong [of s' ?n]) (use n(2) f stk in \<open>simp_all add: new_task_def upd_td_def\<close>)
  moreover have pm: "p \<notin> set (ready s)" "p \<notin> set (concat bl)" using places_mem [OF k'(1)] p(1) by blast+
  have pbl: "p \<notin> set (bl ! i)" if "i < 4" for i
    using pm(2) dls_elems_mem [of i bl p] that k'(1) by (auto simp: dls_elems_concat places_def)
  have "is_heap (task_key (tds s')) cmp_keys_task_dsp (task_heap s)"
  proof (subst is_heap_cong [where key' = "task_key (tds s)"])
    fix q assume "q \<in> set (heap_elems (task_heap s))"
    then have "q \<noteq> p" using pm(1) by (auto simp: ready_def)
    then show "task_key (tds s') q = task_key (tds s) q" using oth by (simp add: task_key_def)
  qed (use k'(1) in \<open>simp add: places_def\<close>)
  moreover have "mset_set (tasks s') = add_mset p (mset_set (tasks s))" using k'(1) p(1) by (simp add: T places_def)
  moreover have "td_state (tds s' r) = READY" if "r \<in> set (ready s)" for r
    using that oth [of r] pm(1) k'(1) by (cases "r = p") (auto simp: places_def)
  moreover have "st_ok i (td_state (tds s' r))" if "i < 4" "r \<in> set (bl ! i)" for i r
    using that oth [of r] pbl [of i] k'(1) by (cases "r = p") (auto simp: places_def)
  ultimately have "places s' bl (add_mset p L)" "kmem s' E" "tids_ok s'"
    using k'(1) by (auto simp: places_def f(2-) rd T)
  moreover have "ipc_inv s' bl"
    unfolding ipc_inv_def T
  proof (intro conjI ballI impI)
    have q: "queue s' r = (if r = p then [] else queue s r)" for r using oth tp(4) by (simp add: queue_def mbox_init)
    fix r assume r: "r \<in> insert p (tasks s)"
    show "mbox_ok (mailbox (tds s' r))" using r k'(2) oth [of r] tp(4) by (cases "r = p") (auto simp: mbox_init ipc_inv_def)
    show "distinct (queue s' r)" "set (queue s' r) \<subseteq> set (bl ! 1)" using r k'(2) by (auto simp: q ipc_inv_def)
    fix r' assume "r' \<in> insert p (tasks s)" "r \<noteq> r'"
    then have "r = p \<or> r' = p \<or> set (queue s r) \<inter> set (queue s r') = {}" using r k'(2) unfolding ipc_inv_def by blast
    then show "set (queue s' r) \<inter> set (queue s' r') = {}" by (auto simp: q)
  next
    fix r assume "r \<in> set (bl ! 0)"
    then have "r \<noteq> p" "queue s r = []" using pbl [of 0] k'(2) by (auto simp: ipc_inv_def)
    then show "queue s' r = []" using oth [of r] by (simp add: queue_def)
  qed
  ultimately have "kinv0 s' bl (add_mset p L) E" using k'(5) f(13) by (simp add: kinv0_def)
  moreover have "queue s' p = []" using tp(4) by (simp add: queue_def mbox_init)
  ultimately show ?thesis using s'_def T f rd oth tp par by (intro exI [of _ s']) simp
qed

lemma kinv_slabmgr:
  assumes "kinv0 s bl L E" "kmem (s\<lparr>slabmgr := m\<rparr>) E"
  shows "kinv0 (s\<lparr>slabmgr := m\<rparr>) bl L E"
proof -
  have "tasks (s\<lparr>slabmgr := m\<rparr>) = tasks s" "ready (s\<lparr>slabmgr := m\<rparr>) = ready s" "sched_heads (s\<lparr>slabmgr := m\<rparr>) = sched_heads s"
    "queue (s\<lparr>slabmgr := m\<rparr>) p = queue s p" "dev_ok (s\<lparr>slabmgr := m\<rparr>) = dev_ok s" "tids_ok (s\<lparr>slabmgr := m\<rparr>) = tids_ok s" for p
    by (simp_all add: tasks_def ready_def sched_heads_def queue_def dev_ok_def tids_ok_def)
  then show ?thesis using assms by (simp add: kinv0_def places_def ipc_inv_def)
qed

lemma create_ok:
  assumes k: "kinv s bl {#cur#} E" and c: "kg_current_td s = Some cur" and run: "td_state (tds s cur) = READY"
    and n: "card (tasks s) \<le> 200" and v: "k_sched_priority_is_valid prio" and nt: "next_tid s \<noteq> - 1"
  shows "\<exists>s'. k_create_handler prio args len s = Inr s' \<and> kinv s' bl {#cur#} E \<and> kg_current_td s' = Some cur \<and>
     td_state (tds s' cur) = READY \<and>
     (tasks s' = tasks s \<and> ready s' = ready s \<and> map_tid s' = map_tid s \<and> tds s' = (tds s)(cur := (tds s cur)\<lparr>syscall_retval := - 2\<rparr>) \<or>
      (\<exists>p. p \<notin> tasks s \<and> tasks s' = insert p (tasks s) \<and> map_tid s' = (map_tid s)(next_tid s := Some p) \<and>
         next_tid s' = next_tid s + 1 \<and> tds s' cur = (tds s cur)\<lparr>syscall_retval := next_tid s\<rparr> \<and> td_tid (tds s' p) = next_tid s \<and>
         (\<forall>q. q \<noteq> p \<and> q \<noteq> cur \<longrightarrow> tds s' q = tds s q) \<and> mset (ready s') = add_mset p (mset (ready s)) \<and>
         td_state (tds s' p) = READY \<and> parent_tid (tds s' p) = td_tid (tds s cur) \<and> td_pc (tds s' p) = load_elf_addr s \<and>
         priority (priority_key (tds s' p)) = scast prio \<and> queue s' p = []))"
proof -
  have k0: "kinv0 s bl (add_mset (idle_task s) {#cur#}) E" "td_state (tds s (idle_task s)) = READY" using k by (simp_all add: kinv_kinv0)
  have ks: "kmem s E" "tids_ok s" using k by (simp_all add: kinv_def)
  have ct: "cur \<in> tasks s" by (rule running(1) [OF k])
  from get_free_task_ok [OF ks, of "of_nat PG_SFT"] show ?thesis
  proof (elim disjE exE conjE)
    fix m assume g: "k_tmgr_get_free_task (of_nat PG_SFT) s = Inr (s\<lparr>slabmgr := m\<rparr>, None)" "kmem (s\<lparr>slabmgr := m\<rparr>) E"
    let ?s = "s\<lparr>slabmgr := m\<rparr>" and ?s' = "set_retval (- 2) cur (s\<lparr>slabmgr := m\<rparr>)"
    have "kinv ?s bl {#cur#} E" using kinv_slabmgr [OF k0(1) g(2)] k0(2) by (simp add: kinv_kinv0)
    then have "kinv ?s' bl {#cur#} E" by (rule kinv_core [OF same_core_simps(1)]) (use k in \<open>simp add: kinv_def dev_ok_def set_retval_def upd_td_def\<close>)
    moreover have "k_create_handler prio args len s = Inr ?s'" using c g(1) by (simp add: k_create_handler_def current_td_def deref_def)
    ultimately show ?thesis using c run by (intro exI [of _ ?s']) (simp add: set_retval_def upd_td_def tasks_def ready_def)
  next
    fix m p a
    assume g: "k_tmgr_get_free_task (of_nat PG_SFT) s = Inr (new_task p a (of_nat PG_SFT) m s, Some p)" "p \<notin> tasks s"
      "a \<notin> stacks s \<union> E" "kslab m (task_alloc s) (insert p (tasks s)) (insert a (stacks s \<union> E))"
    have pc: "Some cur \<noteq> Some p" using g(2) ct by auto
    let ?n = "new_task p a (of_nat PG_SFT) m s"
    have le: "load_elf_addr ?n = load_elf_addr s" by (simp add: new_task_def upd_td_def)
    obtain s1 where s1: "k_td_init_user_task p (Some cur) (scast prio) (load_elf_addr ?n) args len ?n = s1"
      "kinv0 s1 bl (add_mset p (add_mset (idle_task s) {#cur#})) E" "tasks s1 = insert p (tasks s)"
      "map_tid s1 = (map_tid s)(next_tid s := Some p)" "next_tid s1 = next_tid s + 1" "ready s1 = ready s"
      "\<forall>r. r \<noteq> p \<longrightarrow> tds s1 r = tds s r" "td_tid (tds s1 p) = next_tid s" "td_state (tds s1 p) = READY"
      "priority (priority_key (tds s1 p)) = scast prio" "td_pc (tds s1 p) = load_elf_addr s" "parent_tid (tds s1 p) = td_tid (tds s cur)"
      "kg_current_td s1 = kg_current_td s" "idle_task s1 = idle_task s" "queue s1 p = []"
      using new_user_task [OF k0(1) g(2,3) nt g(4) pc, of "scast prio" "load_elf_addr ?n" args len "of_nat PG_SFT"] unfolding le by auto
    have ip: "idle_task s \<noteq> p" using running(1) [of s bl] k g(2) sched_place(4) [of s bl "{#cur#}"] by (auto simp: kinv_def)
    have k1: "kinv s1 bl (add_mset p {#cur#}) E"
      using s1(2,7,14) k0(2) ip by (simp add: kinv_kinv0 add_mset_commute)
    have fin: "finite (tasks s)" using k by (simp add: kinv_def sched_inv_def)
    have n1: "card (tasks s1) \<le> 201" using n g(2) fin s1(3) by simp
    obtain s2 where s2: "k_sched_add_ready p s1 = Inr s2" "kinv s2 bl {#cur#} E" "sched_frame s1 s2"
      "\<forall>q. q \<noteq> p \<longrightarrow> tds s2 q = tds s1 q" "td_state (tds s2 p) = READY" "mset (ready s2) = add_mset p (mset (ready s1))"
      using k_add_ready [OF k1 n1] by blast
    let ?s' = "set_retval (td_tid (tds s2 p)) cur s2"
    have "kinv ?s' bl {#cur#} E" by (rule kinv_core [OF same_core_simps(1) s2(2)]) (use s2(2) in \<open>simp add: kinv_def\<close>)
    moreover have "k_create_handler prio args len s = Inr ?s'"
      using c g(1) v s1(1) s2(1) by (simp add: k_create_handler_def current_td_def deref_def)
    moreover have cp: "cur \<noteq> p" using pc by simp
    moreover have "tds ?s' cur = (tds s cur)\<lparr>syscall_retval := next_tid s\<rparr>"
      using s2(4) s1(7,8) cp sched_frame_tdD(5) [OF s2(3), of p] by (simp add: set_retval_def upd_td_def)
    moreover have "tds ?s' q = tds s q" if "q \<noteq> p" "q \<noteq> cur" for q
      using that s2(4) s1(7) by (simp add: set_retval_def upd_td_def)
    moreover have "tds ?s' p = tds s2 p" using cp by (simp add: set_retval_def upd_td_def)
    moreover have "tasks ?s' = tasks s2" "map_tid ?s' = map_tid s2" "next_tid ?s' = next_tid s2" "ready ?s' = ready s2"
      "kg_current_td ?s' = kg_current_td s2" by (simp_all add: set_retval_def upd_td_def tasks_def ready_def)
    moreover have "queue ?s' p = []" using queue_frame [OF s2(3), of p] s1(15) cp by (simp add: set_retval_def upd_td_def queue_def)
    ultimately show ?thesis
      using c run g(2) s1 s2(5,6) sched_frameD(5,6,11,15) [OF s2(3)] sched_frame_tdD(1,5,6,8) [OF s2(3), of p]
      by (intro exI [of _ ?s']) simp
  qed
qed

text \<open>With a priority out of range the new task stays in the kernel's hands for ever: it is in no place.\<close>

lemma create_bad_priority:
  assumes k: "kmem s E" "tids_ok s" and c: "kg_current_td s = Some cur" and v: "\<not> k_sched_priority_is_valid prio"
    and nt: "next_tid s \<noteq> - 1"
  shows "\<exists>s'. k_create_handler prio args len s = Inr s' \<and> ready s' = ready s \<and>
     (tasks s' = tasks s \<or> (\<exists>p. p \<notin> tasks s \<and> tasks s' = insert p (tasks s)))"
  using get_free_task_ok [OF k, of "of_nat PG_SFT"]
proof (elim disjE exE conjE)
  fix m assume "k_tmgr_get_free_task (of_nat PG_SFT) s = Inr (s\<lparr>slabmgr := m\<rparr>, None)"
  then show ?thesis using c
    by (simp add: k_create_handler_def current_td_def deref_def set_retval_def upd_td_def tasks_def ready_def)
next
  fix m p a
  assume g: "k_tmgr_get_free_task (of_nat PG_SFT) s = Inr (new_task p a (of_nat PG_SFT) m s, Some p)" "p \<notin> tasks s"
    "a \<notin> stacks s \<union> E" "kslab m (task_alloc s) (insert p (tasks s)) (insert a (stacks s \<union> E))"
  note t = new_task_ok(3) [OF g(4,2,3) k nt, of "of_nat PG_SFT"]
  have "k_create_handler prio args len s = Inr (set_retval (- 1) cur (new_task p a (of_nat PG_SFT) m s))"
    using c v g(1) by (simp add: k_create_handler_def current_td_def deref_def)
  then show ?thesis using t g(2)
    by (intro exI [of _ "set_retval (- 1) cur (new_task p a (of_nat PG_SFT) m s)"])
      (auto simp: set_retval_def upd_td_def tasks_def ready_def new_task_def)
qed

section \<open>The end of a task\<close>

lemma exit_ok:
  assumes k: "kinv s bl {#cur#} E" and c: "kg_current_td s = Some cur"
  shows "\<exists>s'. k_exit_handler s = Inr s' \<and> kinv s' bl {#} E \<and> kg_current_td s' = None \<and> tasks s' = tasks s - {cur} \<and>
     map_tid s' (td_tid (tds s cur)) = None \<and> ready s' = ready s \<and> tds s' = tds s"
proof -
  have ks: "kmem s E" "tids_ok s" using k by (simp_all add: kinv_def)
  note run = running [OF k]
  obtain m where d: "k_tmgr_destroy_task cur s = Inr (drop_task cur m s)" "kmem (drop_task cur m s) E" "tids_ok (drop_task cur m s)"
    "tasks (drop_task cur m s) = tasks s - {cur}"
    using destroy_task_ok [OF ks run(1)] by blast
  let ?d = "drop_task cur m s"
  have f: "tds ?d = tds s" "sched_links ?d = sched_links s" "sched_heads ?d = sched_heads s" "task_heap ?d = task_heap s"
    "idle_task ?d = idle_task s" "ready ?d = ready s" "queue ?d p = queue s p" "dev_ok ?d = dev_ok s" for p
    by (simp_all add: drop_task_def sched_heads_def ready_def queue_def dev_ok_def)
  have "mset_set (tasks s) = add_mset cur (mset_set (tasks s - {cur}))"
    using k run(1) by (metis kinv_def mset_set.remove sched_inv_def)
  then have "sched_inv ?d bl {#}" using k by (simp add: kinv_def sched_inv_def f d(4))
  moreover have "ipc_inv ?d bl" using k by (auto simp: kinv_def ipc_inv_def f d(4))
  ultimately have kd: "kinv ?d bl {#} E" using d k by (simp add: kinv_def f)
  let ?s' = "?d\<lparr>kg_current_td := None\<rparr>"
  have "kinv ?s' bl {#} E" by (rule kinv_core [OF same_core_simps(3) kd]) (use kd in \<open>simp add: kinv_def\<close>)
  moreover have "k_exit_handler s = Inr ?s'" using c d(1) by (simp add: k_exit_handler_def current_td_def deref_def)
  ultimately show ?thesis using d(4) by (intro exI [of _ ?s']) (simp add: f tasks_def ready_def, simp add: drop_task_def)
qed

end
