(* ===== verification/Wake.thy ===== *)
theory Wake
  imports Proc
begin

text \<open>
  Interrupts under the kernel's invariant: waking up wakes exactly the tasks that wait for the interrupt,
  in the order they began to wait, and a run of the handler acknowledges every interrupt it was given.
\<close>

section \<open>Waking up\<close>

lemma dlist_next:
  assumes "dlist l h (us @ x # vs)"
  shows "lnext l x = (case vs of [] \<Rightarrow> None | y # _ \<Rightarrow> Some y)"
proof -
  have "dseg l (us @ x # vs) None" using assms by (cases us) (auto simp: dlist_def)
  then have "dseg l (x # vs) None" by (subst (asm) dseg_append) auto
  then show ?thesis by (cases vs) auto
qed

text \<open>What waking tasks up leaves alone.\<close>

definition outside :: "kState \<Rightarrow> kState \<Rightarrow> bool" where
  "outside s s' \<longleftrightarrow>
     mem s' = mem s \<and> kg_current_td s' = kg_current_td s \<and> tasks s' = tasks s \<and> idle_task s' = idle_task s \<and>
     map_tid s' = map_tid s \<and> next_tid s' = next_tid s \<and> encoder_mgr s' = encoder_mgr s \<and> gpio s' = gpio s"

lemma outside_frame: "sched_frame s s' \<Longrightarrow> outside s s'"
  by (simp add: outside_def sched_frameD)

lemma outside_trans: "outside s t \<Longrightarrow> outside t u \<Longrightarrow> outside s u"
  by (simp add: outside_def)

lemma wakeup_loop_ok:
  "\<lbrakk>kinv s bl L E; bl ! 3 = kept @ rest; card (tasks s) \<le> 201\<rbrakk> \<Longrightarrow>
   \<exists>s'. wakeup_loop i rv (case rest of [] \<Rightarrow> None | x # _ \<Rightarrow> Some x) s n =
          Some (Inr (s', n + of_nat (length (filter (\<lambda>p. td_state (tds s p) = i) rest)))) \<and>
        kinv s' (bl[3 := kept @ filter (\<lambda>p. td_state (tds s p) \<noteq> i) rest]) L E \<and> outside s s' \<and>
        mset (ready s') = mset (ready s) + mset (filter (\<lambda>p. td_state (tds s p) = i) rest) \<and>
        (\<forall>p. if p \<in> set rest \<and> td_state (tds s p) = i
             then td_state (tds s' p) = READY \<and> syscall_retval (tds s' p) = ucast rv \<and> mailbox (tds s' p) = mailbox (tds s p)
             else tds s' p = tds s p)"
proof (induction rest arbitrary: s bl kept n)
  case Nil
  have "bl[3 := bl ! 3] = bl" by simp
  then show ?case using Nil by (auto simp: wakeup_loop.simps outside_def)
next
  case (Cons p rest)
  have i: "sched_inv s bl L" using Cons.prems(1) by (simp add: kinv_def)
  then have l4: "length bl = 4" and dl: "dlist (sched_links s) (sched_heads s ! 3) (kept @ p # rest)"
    using Cons.prems(2) dlists_nth [of "sched_links s" "sched_heads s" bl 3] by (auto simp: sched_inv_def)
  note nx = dlist_next [OF dl]
  have di: "distinct (kept @ p # rest)" by (rule dlist_distinct [OF dl])
  show ?case
  proof (cases "td_state (tds s p) = i")
    case False
    have "bl ! 3 = (kept @ [p]) @ rest" using Cons.prems(2) by simp
    note ih = Cons.IH [OF Cons.prems(1) this Cons.prems(3), of n]
    have w: "wakeup_loop i rv (Some p) s n = wakeup_loop i rv (case rest of [] \<Rightarrow> None | x # _ \<Rightarrow> Some x) s n"
      using False nx by (subst wakeup_loop.simps) (simp add: Let_def)
    obtain s' where s': "wakeup_loop i rv (case rest of [] \<Rightarrow> None | x # _ \<Rightarrow> Some x) s n =
          Some (Inr (s', n + of_nat (length (filter (\<lambda>p. td_state (tds s p) = i) rest))))"
        "kinv s' (bl[3 := (kept @ [p]) @ filter (\<lambda>p. td_state (tds s p) \<noteq> i) rest]) L E" "outside s s'"
        "mset (ready s') = mset (ready s) + mset (filter (\<lambda>p. td_state (tds s p) = i) rest)"
        "\<forall>p. if p \<in> set rest \<and> td_state (tds s p) = i
             then td_state (tds s' p) = READY \<and> syscall_retval (tds s' p) = ucast rv \<and> mailbox (tds s' p) = mailbox (tds s p)
             else tds s' p = tds s p" using ih by blast
    have "if q \<in> set (p # rest) \<and> td_state (tds s q) = i
             then td_state (tds s' q) = READY \<and> syscall_retval (tds s' q) = ucast rv \<and> mailbox (tds s' q) = mailbox (tds s q)
             else tds s' q = tds s q" for q using s'(5) [rule_format, of q] False by (cases "q = p") auto
    then show ?thesis using s'(1-4) False by (intro exI [of _ s']) (simp add: w)
  next
    case True
    have ev: "p \<in> set (bl ! 3)" using Cons.prems(2) by simp
    then have st: "IS_EVENT_BLOCKED (td_state (tds s p))" by (rule state_by_place(4) [OF i])
    have rm: "remove1 p (bl ! 3) = kept @ rest" using di Cons.prems(2) by (simp add: remove1_append)
    obtain s1 where s1: "wait_remove 3 p s = Inr s1" "kinv s1 (bl[3 := kept @ rest]) (add_mset p L) E" "sched_frame s s1"
      "tds s1 = tds s" "ready s1 = ready s"
      using k_wait_remove [OF Cons.prems(1) _ ev] rm by auto
    define s2 where "s2 = set_retval (ucast rv) p s1"
    have c2: "same_core s1 s2" by (simp add: s2_def)
    have t2: "tds s2 = (tds s)(p := (tds s p)\<lparr>syscall_retval := ucast rv\<rparr>)" "outside s1 s2" "ready s2 = ready s1"
      by (simp_all add: s2_def set_retval_def upd_td_def s1(4) outside_def tasks_def ready_def)
    have k2: "kinv s2 (bl[3 := kept @ rest]) (add_mset p L) E"
      by (rule kinv_core [OF c2 s1(2)]) (use s1(2) in \<open>simp add: kinv_def s2_def\<close>)
    have o2: "outside s s2" by (rule outside_trans [OF outside_frame [OF s1(3)] t2(2)])
    then have n2: "card (tasks s2) \<le> 201" using Cons.prems(3) by (simp add: outside_def)
    obtain s3 where s3: "k_sched_add_ready p s2 = Inr s3" "kinv s3 (bl[3 := kept @ rest]) L E" "sched_frame s2 s3"
      "\<forall>q. q \<noteq> p \<longrightarrow> tds s3 q = tds s2 q" "td_state (tds s3 p) = READY" "mset (ready s3) = add_mset p (mset (ready s2))"
      using k_add_ready [OF k2 n2] by blast
    have o3: "outside s s3" by (rule outside_trans [OF o2 outside_frame [OF s3(3)]])
    then have n3: "card (tasks s3) \<le> 201" using Cons.prems(3) by (simp add: outside_def)
    have b3: "bl[3 := kept @ rest] ! 3 = kept @ rest" using l4 by simp
    have t3: "tds s3 q = tds s q" if "q \<noteq> p" for q using that s3(4) by (simp add: t2)
    have pr: "syscall_retval (tds s3 p) = ucast rv" "mailbox (tds s3 p) = mailbox (tds s p)"
      using sched_frame_tdD(3,7) [OF s3(3), of p] by (simp_all add: t2)
    have eq3: "td_state (tds s3 q) = td_state (tds s q)" if "q \<in> set rest" for q
      using that di t3 [of q] by (cases "q = p") auto
    have fl: "filter (\<lambda>q. td_state (tds s3 q) = i) rest = filter (\<lambda>q. td_state (tds s q) = i) rest"
      "filter (\<lambda>q. td_state (tds s3 q) \<noteq> i) rest = filter (\<lambda>q. td_state (tds s q) \<noteq> i) rest"
      using eq3 by (auto intro!: filter_cong)
    obtain s' where s': "wakeup_loop i rv (case rest of [] \<Rightarrow> None | x # _ \<Rightarrow> Some x) s3 (n + 1) =
          Some (Inr (s', n + 1 + of_nat (length (filter (\<lambda>p. td_state (tds s p) = i) rest))))"
        "kinv s' (bl[3 := kept @ filter (\<lambda>p. td_state (tds s p) \<noteq> i) rest]) L E" "outside s3 s'"
        "mset (ready s') = mset (ready s3) + mset (filter (\<lambda>p. td_state (tds s p) = i) rest)"
        "\<forall>p. if p \<in> set rest \<and> td_state (tds s3 p) = i
             then td_state (tds s' p) = READY \<and> syscall_retval (tds s' p) = ucast rv \<and> mailbox (tds s' p) = mailbox (tds s3 p)
             else tds s' p = tds s3 p"
      using Cons.IH [OF s3(2) b3 n3, of "n + 1"] unfolding fl by auto
    have "wakeup_loop i rv (Some p) s n = wakeup_loop i rv (case rest of [] \<Rightarrow> None | x # _ \<Rightarrow> Some x) s3 (n + 1)"
      using True nx s1(1) s3(1) st by (subst wakeup_loop.simps) (simp add: Let_def wait_remove_eqs s2_def)
    moreover have "if q \<in> set (p # rest) \<and> td_state (tds s q) = i
             then td_state (tds s' q) = READY \<and> syscall_retval (tds s' q) = ucast rv \<and> mailbox (tds s' q) = mailbox (tds s q)
             else tds s' q = tds s q" for q
      using s'(5) [rule_format, of q] t3 [of q] True di s3(5) pr by (cases "q = p") (auto split: if_splits)
    ultimately show ?thesis
      using s'(1-4) outside_trans [OF o3 s'(3)] True s3(6) t2(3) s1(5) by (intro exI [of _ s']) (simp add: add.assoc)
  qed
qed

lemma wakeup_tasks_ok:
  assumes k: "kinv s bl L E" and n: "card (tasks s) \<le> 201"
  shows "\<exists>s'. k_intr_wakeup_tasks i rv s = Inr (s', of_nat (length (filter (\<lambda>p. td_state (tds s p) = i) (bl ! 3)))) \<and>
     kinv s' (bl[3 := filter (\<lambda>p. td_state (tds s p) \<noteq> i) (bl ! 3)]) L E \<and> outside s s' \<and>
     mset (ready s') = mset (ready s) + mset (filter (\<lambda>p. td_state (tds s p) = i) (bl ! 3)) \<and>
     (\<forall>p. if p \<in> set (bl ! 3) \<and> td_state (tds s p) = i
          then td_state (tds s' p) = READY \<and> syscall_retval (tds s' p) = ucast rv \<and> mailbox (tds s' p) = mailbox (tds s p)
          else tds s' p = tds s p)"
proof -
  have "dlist (sched_links s) (sched_heads s ! 3) (bl ! 3)"
    using k dlists_nth [of "sched_links s" "sched_heads s" bl 3] by (simp add: kinv_def sched_inv_def)
  then have h: "event_blocked s = (case bl ! 3 of [] \<Rightarrow> None | x # _ \<Rightarrow> Some x)"
    by (auto simp: dlist_def sched_heads_def split: list.splits)
  show ?thesis
    using wakeup_loop_ok [OF k, of "[]" "bl ! 3" i rv 0] n unfolding k_intr_wakeup_tasks_def h by auto
qed

text \<open>A task that waits for an interrupt is on the list of event-blocked tasks.\<close>

lemma event_waiters:
  assumes "kinv s bl L E" "p \<in> tasks s" "p \<notin># L" "td_state (tds s p) = i" "IS_EVENT_BLOCKED i"
  shows "p \<in> set (bl ! 3)"
  using place_by_state(4) [of s bl L p] assms by (simp add: kinv_def)

section \<open>Interrupt handlers\<close>

text \<open>What every handler keeps: the invariant, the running task and the set of tasks.\<close>

definition keeps :: "ptr multiset \<Rightarrow> ptr set \<Rightarrow> kState \<Rightarrow> kState \<Rightarrow> bool" where
  "keeps L E s s' \<longleftrightarrow> (\<exists>bl. kinv s' bl L E) \<and> mem s' = mem s \<and> kg_current_td s' = kg_current_td s \<and> tasks s' = tasks s \<and>
     idle_task s' = idle_task s \<and> next_tid s' = next_tid s \<and> (\<forall>p\<in>#L. td_state (tds s' p) = td_state (tds s p))"

lemma keeps_trans: "keeps L E s t \<Longrightarrow> keeps L E t u \<Longrightarrow> keeps L E s u"
  by (auto simp: keeps_def)

lemma keeps_core:
  "same_core s s' \<Longrightarrow> dev_ok s' \<Longrightarrow> kinv s bl L E \<Longrightarrow> mem s' = mem s \<Longrightarrow> kg_current_td s' = kg_current_td s \<Longrightarrow> keeps L E s s'"
  unfolding keeps_def using kinv_core [of s s' bl L E] by (auto simp: same_coreD) (simp add: same_core_def)

lemma wakeup_keeps:
  assumes k: "kinv s bl L E" and n: "card (tasks s) \<le> 201"
  shows "\<exists>s' m. k_intr_wakeup_tasks i rv s = Inr (s', m) \<and> keeps L E s s'"
proof -
  obtain s' m where s': "k_intr_wakeup_tasks i rv s = Inr (s', m)"
     "kinv s' (bl[3 := filter (\<lambda>p. td_state (tds s p) \<noteq> i) (bl ! 3)]) L E" "outside s s'"
     "\<forall>p. if p \<in> set (bl ! 3) \<and> td_state (tds s p) = i
          then td_state (tds s' p) = READY \<and> syscall_retval (tds s' p) = ucast rv \<and> mailbox (tds s' p) = mailbox (tds s p)
          else tds s' p = tds s p"
    using wakeup_tasks_ok [OF k n, of i rv] by blast
  have "p \<notin> set (bl ! 3)" if "p \<in># L" for p
  proof -
    have sp: "sched_inv s bl L" "length bl = 4" using k by (simp_all add: kinv_def sched_inv_def)
    have "p \<notin> dls_elems bl" using sched_place(1) [OF sp(1) sp(1) that] by (simp add: dls_elems_concat)
    then show ?thesis using sp(2) by (auto simp: dls_elems_def)
  qed
  then have "td_state (tds s' p) = td_state (tds s p)" if "p \<in># L" for p using that s'(4) [rule_format, of p] by (auto split: if_splits)
  then have "keeps L E s s'" using s'(2,3) by (auto simp: keeps_def outside_def)
  then show ?thesis using s'(1) by blast
qed

lemma intr_timer_keeps:
  assumes k: "kinv s bl L E" and n: "card (tasks s) \<le> 201"
  shows "\<exists>s'. process_intr_timer s = Inr s' \<and> keeps L E s s'"
proof -
  let ?s = "s\<lparr>pi_timer := time_intr_reset (pi_timer s)\<rparr>"
  have c: "keeps L E s ?s" by (rule keeps_core [OF _ _ k]) (use k in \<open>simp_all add: kinv_def\<close>)
  then obtain bl' where k': "kinv ?s bl' L E" and n': "card (tasks ?s) \<le> 201" using n by (auto simp: keeps_def)
  obtain s' m where "k_intr_wakeup_tasks INTR_ID_TIMER 0 ?s = Inr (s', m)" "keeps L E ?s s'"
    using wakeup_keeps [OF k' n'] by blast
  then show ?thesis using keeps_trans [OF c] by (auto simp: process_intr_timer_def)
qed

lemma intr_uart_id_keeps:
  assumes k: "kinv s bl L E" and n: "card (tasks s) \<le> 201"
  shows "\<exists>s'. process_intr_uart_id u s = Inr s' \<and> keeps L E s s'"
proof (cases "uart_intr_status u (uart_regs s) = 0")
  case True
  then show ?thesis using k by (auto simp: process_intr_uart_id_def keeps_def)
next
  case False
  let ?s = "s\<lparr>uart_regs := uart_intr_unarm u (uart_regs s)\<rparr>"
  have c: "keeps L E s ?s" by (rule keeps_core [OF _ _ k]) (use k in \<open>simp_all add: kinv_def\<close>)
  then obtain bl' where k': "kinv ?s bl' L E" and n': "card (tasks ?s) \<le> 201" using n by (auto simp: keeps_def)
  obtain s' m where "k_intr_wakeup_tasks (INTR_ID_UART u) (uart_intr_status u (uart_regs s)) ?s = Inr (s', m)" "keeps L E ?s s'"
    using wakeup_keeps [OF k' n'] by blast
  then show ?thesis using False keeps_trans [OF c] by (auto simp: process_intr_uart_id_def Let_def)
qed

text \<open>Handlers one after the other.\<close>

lemma keeps_bind:
  assumes r: "\<exists>s'. r = Inr s' \<and> keeps L E s s'" and n: "card (tasks s) \<le> 201"
    and g: "\<And>s bl. kinv s bl L E \<Longrightarrow> card (tasks s) \<le> 201 \<Longrightarrow> \<exists>s'. g s = Inr s' \<and> keeps L E s s'"
  shows "\<exists>s'. bindR r g = Inr s' \<and> keeps L E s s'"
proof -
  obtain s1 where s1: "r = Inr s1" "keeps L E s s1" using r by blast
  then obtain bl where "kinv s1 bl L E" "card (tasks s1) \<le> 201" using n by (auto simp: keeps_def)
  then obtain s2 where s2: "g s1 = Inr s2" "keeps L E s1 s2" using g by blast
  show ?thesis using s1(1) s2(1) keeps_trans [OF s1(2) s2(2)] by simp
qed

lemma intr_uart_keeps:
  assumes k: "kinv s bl L E" and n: "card (tasks s) \<le> 201"
  shows "\<exists>s'. process_intr_uart s = Inr s' \<and> keeps L E s s'"
  unfolding process_intr_uart_def
  by (rule keeps_bind [OF intr_uart_id_keeps [OF k n] n], rule keeps_bind [OF intr_uart_id_keeps], assumption+,
      rule keeps_bind [OF intr_uart_id_keeps], assumption+, rule keeps_bind [OF intr_uart_id_keeps], assumption+,
      rule intr_uart_id_keeps)

section \<open>Encoder interrupts\<close>

lemma gpio_pin_keeps:
  assumes k: "kinv s bl L E" and p: "unat pin < 64"
  shows "\<exists>s'. process_intr_gpio_pin pin s = Inr s' \<and> keeps L E s s'"
proof -
  let ?em = "encoder_mgr s"
  have em: "encoder_mgr_ok ?em" "gpio_ok (gpio s)" using k by (simp_all add: kinv_def dev_ok_def)
  then have lk: "get_encoder_by_pin ?em pin = Inr None \<or> (\<exists>j. get_encoder_by_pin ?em pin = Inr (Some j) \<and> j < encoders_n ?em)"
    using p by (auto simp: get_encoder_by_pin_def encoder_mgr_ok_def get_encoder_def Let_def)
  show ?thesis
  proof (cases "get_encoder_by_pin ?em pin = Inr None")
    case True
    then show ?thesis using k by (auto simp: process_intr_gpio_pin_def keeps_def)
  next
    case False
    then obtain j where j: "get_encoder_by_pin ?em pin = Inr (Some j)" "j < encoders_n ?em" using lk by blast
    let ?e = "encoders ?em ! j"
    define a b :: u8 where "a = (if gpio_read (gpio s) AND pin_mask (pin_a ?e) \<noteq> 0 then 1 else 0)"
      and "b = (if gpio_read (gpio s) AND pin_mask (pin_b ?e) \<noteq> 0 then 1 else 0)"
    have ab: "a \<in> {0, 1}" "b \<in> {0, 1}" by (simp_all add: a_def b_def)
    have eo: "encoder_ok ?e" "change_lookup ?em = enc_table" "j < length (encoders ?em)" using em(1) j(2) by (auto simp: encoder_mgr_ok_def)
    obtain e' where e': "encoder_update enc_table a b ?e = Inr e'" "encoder_ok e'" using encoder_update_ok [OF eo(1) ab] by blast
    let ?s' = "s\<lparr>encoder_mgr := ?em\<lparr>encoders := (encoders ?em)[j := e']\<rparr>\<rparr>"
    have op: "process_intr_gpio_pin pin s = Inr ?s'"
      using j(1) e'(1) by (simp add: process_intr_gpio_pin_def Let_def eo(2) a_def [symmetric] b_def [symmetric])
    have "dev_ok ?s'" using em e'(2) eo(3) by (auto simp: dev_ok_def encoder_mgr_ok_def nth_list_update)
    then have "keeps L E s ?s'" by (intro keeps_core [OF _ _ k]) simp_all
    then show ?thesis using op by blast
  qed
qed

lemma gpio_pins_keeps:
  "\<lbrakk>kinv s bl L E; \<forall>p\<in>set pins. unat p < 64\<rbrakk> \<Longrightarrow> \<exists>s'. gpio_pins tr pins s = Inr s' \<and> keeps L E s s'"
proof (induction pins arbitrary: s bl)
  case (Cons p pins)
  obtain s1 where s1: "(if tr AND pin_mask p \<noteq> 0 then process_intr_gpio_pin p s else Inr s) = Inr s1" "keeps L E s s1"
    using gpio_pin_keeps [OF Cons.prems(1), of p] Cons.prems by (cases "tr AND pin_mask p \<noteq> 0") (auto simp: keeps_def)
  then obtain bl' where k1: "kinv s1 bl' L E" by (auto simp: keeps_def)
  obtain s2 where s2: "gpio_pins tr pins s1 = Inr s2" "keeps L E s1 s2" using Cons.IH [OF k1] Cons.prems(2) by auto
  show ?case using s1(1) s2(1) keeps_trans [OF s1(2) s2(2)] by simp
qed (auto simp: keeps_def)

lemma gpio_bank0_keeps:
  assumes k: "kinv s bl L E"
  shows "\<exists>s'. process_intr_gpio_bank 0 s = Inr s' \<and> keeps L E s s'"
proof -
  have pins: "\<forall>p\<in>set (map of_nat [0..<28] :: u32 list). unat p < 64" by (auto simp: unat_of_nat_small)
  obtain s1 where s1: "gpio_pins (gpio_get_triggered (gpio s)) (map of_nat [0..<28]) s = Inr s1" "keeps L E s s1"
    using gpio_pins_keeps [OF k pins] by blast
  then obtain bl' where k1: "kinv s1 bl' L E" by (auto simp: keeps_def)
  let ?s' = "s1\<lparr>gpio := gpio_clear_triggered 0 28 (gpio s1)\<rparr>"
  have "dev_ok ?s'" using k1 by (simp add: kinv_def dev_ok_def gpio_ok_def gpio_clear_triggered_def gpeds_write_def Let_def)
  then have "keeps L E s1 ?s'" by (intro keeps_core [OF _ _ k1]) simp_all
  then have "keeps L E s ?s'" by (rule keeps_trans [OF s1(2)])
  then show ?thesis using s1(1) by (simp add: process_intr_gpio_bank_def gpio_banks_def)
qed

section \<open>The handler's loop\<close>

definition known_intr :: "u32 \<Rightarrow> bool" where
  "known_intr i \<longleftrightarrow> unat i \<in> {GIC_INTR_ID_TIMER, GIC_INTR_ID_UART, GIC_INTR_ID_GPIO_0}"

lemma intr_handler_keeps:
  "\<lbrakk>kinv s bl L E; card (tasks s) \<le> 201; \<forall>i\<in>set ids. known_intr i\<rbrakk> \<Longrightarrow>
   \<exists>s'. k_intr_handler (ids @ 1023 # rest) s = Some (Inr (s', ids)) \<and> keeps L E s s'"
proof (induction ids arbitrary: s bl)
  case Nil
  then show ?case by (auto simp: keeps_def)
next
  case (Cons i ids)
  have ki: "unat i = 97 \<or> unat i = 153 \<or> unat i = 145" using Cons.prems(3) by (auto simp: known_intr_def)
  have "\<exists>s1. (if unat i = GIC_INTR_ID_TIMER then process_intr_timer s
              else if unat i = GIC_INTR_ID_UART then process_intr_uart s
              else if unat i = GIC_INTR_ID_GPIO_0 then process_intr_gpio_bank 0 s else Inl Assert_fail) = Inr s1 \<and> keeps L E s s1"
    using ki intr_timer_keeps [OF Cons.prems(1,2)] intr_uart_keeps [OF Cons.prems(1,2)] gpio_bank0_keeps [OF Cons.prems(1)] by auto
  then obtain s1 where s1: "(if unat i = GIC_INTR_ID_TIMER then process_intr_timer s
              else if unat i = GIC_INTR_ID_UART then process_intr_uart s
              else if unat i = GIC_INTR_ID_GPIO_0 then process_intr_gpio_bank 0 s else Inl Assert_fail) = Inr s1" "keeps L E s s1" by blast
  then obtain bl' where "kinv s1 bl' L E" "card (tasks s1) \<le> 201" using Cons.prems(2) by (auto simp: keeps_def)
  then obtain s2 where s2: "k_intr_handler (ids @ 1023 # rest) s1 = Some (Inr (s2, ids))" "keeps L E s1 s2"
    using Cons.IH Cons.prems(3) by force
  have "unat i \<noteq> 1023" using ki by auto
  then have "k_intr_handler ((i # ids) @ 1023 # rest) s = Some (Inr (s2, i # ids))"
    by (simp only: append_Cons k_intr_handler.simps s1(1) if_False sum.case) (simp add: s2(1))
  then show ?case using keeps_trans [OF s1(2) s2(2)] by blast
qed

end
