(* ===== verification/KRun.thy ===== *)
theory KRun
  imports Wake
begin

text \<open>
  Runs of the kernel: one iteration of \<open>k_loop\<close> as a step relation, the states it reaches, and the
  invariant of all of them. No reachable state has a step that runs into a fault.
\<close>

section \<open>The calls that move no task\<close>

text \<open>The caller stays in the kernel's hands.\<close>

definition stays :: "ptr \<Rightarrow> kState \<Rightarrow> kState \<Rightarrow> bool" where
  "stays cur s s' \<longleftrightarrow> (\<exists>bl E. kinv s' bl {#cur#} E) \<and> kg_current_td s' = Some cur \<and> map_tid s' = map_tid s"

lemma stays_core:
  "\<lbrakk>same_core s s'; dev_ok s'; kinv s bl {#cur#} E; kg_current_td s' = Some cur\<rbrakk> \<Longrightarrow> stays cur s s'"
  unfolding stays_def using kinv_core [of s s' bl "{#cur#}" E] by (auto simp: same_coreD)

lemma my_tid_ok: "kg_current_td s = Some cur \<Longrightarrow> k_my_tid_handler s = Inr (set_retval (td_tid (tds s cur)) cur s)"
  by (simp add: k_my_tid_handler_def current_td_def deref_def)

lemma parent_tid_ok:
  assumes "kg_current_td s = Some cur"
  shows "\<exists>s'. k_my_parent_tid_handler s = Inr s' \<and> same_core s s' \<and> dev_ok s' = dev_ok s \<and> kg_current_td s' = Some cur \<and>
     syscall_retval (tds s' cur) = parent_tid (tds s' cur) \<and>
     parent_tid (tds s' cur) = (if map_tid s (parent_tid (tds s cur)) = None then K_TID_INVALID else parent_tid (tds s cur))"
proof -
  let ?s1 = "upd_td cur (\<lambda>t. t\<lparr>parent_tid := K_TID_INVALID\<rparr>) s"
  have t: "syscall_retval (tds (set_retval v cur s') cur) = v" "parent_tid (tds (set_retval v cur s') cur) = parent_tid (tds s' cur)"
    "kg_current_td (set_retval v cur s') = kg_current_td s'" for v s'
    by (simp_all add: set_retval_def upd_td_def)
  have c1: "kg_current_td ?s1 = kg_current_td s" "parent_tid (tds ?s1 cur) = - 1" by (simp_all add: upd_td_def)
  show ?thesis
  proof (cases "parent_tid (tds s cur) \<noteq> - 1 \<and> map_tid s (parent_tid (tds s cur)) = None")
    case True
    have "same_core s (set_retval (- 1) cur ?s1)" by (rule same_core_trans [OF same_core_simps(5) same_core_simps(1)])
    then show ?thesis using assms True c1
      by (intro exI [of _ "set_retval (- 1) cur ?s1"])
        (simp add: k_my_parent_tid_handler_def current_td_def deref_def k_task_mgr_get_task_dsp_def t)
  next
    case False
    then show ?thesis using assms
      by (intro exI [of _ "set_retval (parent_tid (tds s cur)) cur s"])
        (auto simp: k_my_parent_tid_handler_def current_td_def deref_def k_task_mgr_get_task_dsp_def t)
  qed
qed

lemma sys_health_ok:
  assumes "kg_current_td s = Some cur" "t \<noteq> idle_track_start_time s"
  shows "\<exists>s'. k_sys_health t p s = Inr s' \<and> same_core s s' \<and> dev_ok s' = dev_ok s \<and> kg_current_td s' = Some cur \<and>
     mem s' = store32 p (ucast (idle_duration s * 100 * 100 div (t - idle_track_start_time s))) (mem s) \<and>
     idle_duration s' = 0 \<and> idle_track_start_time s' = t \<and> syscall_retval (tds s' cur) = 0"
proof -
  let ?s1 = "s\<lparr>mem := store32 p (ucast (idle_duration s * 100 * 100 div (t - idle_track_start_time s))) (mem s), idle_duration := 0, idle_track_start_time := t\<rparr>"
  have "same_core s ?s1" by (rule same_core_trans [OF same_core_trans [OF same_core_simps(2) same_core_simps(6)] same_core_simps(7)])
  then have "same_core s (set_retval 0 cur ?s1)" by (rule same_core_trans [OF _ same_core_simps(1)])
  then show ?thesis using assms
    by (intro exI [of _ "set_retval 0 cur ?s1"])
      (simp add: k_sys_health_def current_td_def deref_def Let_def set_retval_def upd_td_def dev_ok_def)
qed

lemma kinv_pgmgr:
  assumes k: "kinv s bl L E" and m: "kmem (set_pgmgr pm s) E'"
  shows "kinv (set_pgmgr pm s) bl L E'"
proof -
  let ?s = "set_pgmgr pm s"
  have "tasks ?s = tasks s" "ready ?s = ready s" "sched_heads ?s = sched_heads s" "queue ?s p = queue s p" "dev_ok ?s = dev_ok s"
    "tids_ok ?s = tids_ok s" "tds ?s = tds s" "sched_links ?s = sched_links s" "task_heap ?s = task_heap s" "idle_task ?s = idle_task s" for p
    by (simp_all add: set_pgmgr_def tasks_def ready_def sched_heads_def queue_def dev_ok_def tids_ok_def)
  then show ?thesis using assms by (simp add: kinv_def sched_inv_def ipc_inv_def)
qed

text \<open>\<open>Mmap\<close> stores the address of a block that nothing else uses, or \<open>NULL\<close>.\<close>

lemma mmap_ok:
  assumes k: "kinv s bl {#cur#} E" and c: "kg_current_td s = Some cur"
  shows "\<exists>s' a. k_mmap_handler p sz s = Inr s' \<and> mem s' = store64 p a (mem s) \<and> syscall_retval (tds s' cur) = 0 \<and>
     kg_current_td s' = Some cur \<and> map_tid s' = map_tid s \<and>
     (a = NULL \<and> kinv s' bl {#cur#} E \<or> a \<noteq> NULL \<and> a \<notin> stacks s \<union> E \<and> kinv s' bl {#cur#} (insert a E))"
proof -
  have km: "kmem s E" using k by (simp add: kinv_def)
  obtain pm a where a: "pg_alloc_page (MSB_POS (NEXT_POW2 sz)) 0 (pgmgr s) = Inr (pm, a)"
    "a = NULL \<and> kmem (set_pgmgr pm s) E \<or> a \<noteq> NULL \<and> a \<notin> stacks s \<union> E \<and> kmem (set_pgmgr pm s) (insert a E)"
    using kmem_take [OF km, of "MSB_POS (NEXT_POW2 sz)" 0] by blast
  let ?s1 = "set_pgmgr pm s"
  let ?s2 = "?s1\<lparr>mem := store64 p a (mem ?s1)\<rparr>"
  let ?s' = "set_retval 0 cur ?s2"
  have c2: "same_core ?s1 ?s'" by (rule same_core_trans [OF same_core_simps(2) same_core_simps(1)])
  have f: "mem ?s1 = mem s" "kg_current_td ?s1 = kg_current_td s" "map_tid ?s1 = map_tid s" "dev_ok ?s1 = dev_ok s"
    by (simp_all add: set_pgmgr_def dev_ok_def)
  have kk: "kinv ?s' bl {#cur#} E'" if "kmem ?s1 E'" for E'
    by (rule kinv_core [OF c2 kinv_pgmgr [OF k that]]) (use k in \<open>simp add: kinv_def f\<close>)
  have "k_mmap_handler p sz s = Inr ?s'"
    using a(1) c by (simp add: k_mmap_handler_def Let_def current_td_def deref_def f)
  moreover have "mem ?s' = store64 p a (mem s)" "syscall_retval (tds ?s' cur) = 0" "kg_current_td ?s' = Some cur" "map_tid ?s' = map_tid s"
    using c by (simp_all add: set_retval_def upd_td_def f)
  ultimately show ?thesis using a(2) kk by blast
qed

lemma encoder_calls_ok:
  assumes k: "kinv s bl {#cur#} E" and c: "kg_current_td s = Some cur"
  shows "unat a < 58 \<Longrightarrow> unat b < 58 \<Longrightarrow> \<exists>s'. k_quadrature_encoder_init a b s = Inr s' \<and> stays cur s s'"
    "\<exists>s'. k_quadrature_encoder_get i p s = Inr s' \<and> stays cur s s'"
proof -
  have d: "encoder_mgr_ok (encoder_mgr s)" "gpio_ok (gpio s)" using k by (simp_all add: kinv_def dev_ok_def)
  assume p: "unat a < 58" "unat b < 58"
  obtain em g j where e: "encoder_init a b (encoder_mgr s, gpio s) = Inr ((em, g), j)" "encoder_mgr_ok em" "gpio_ok g"
    using encoder_init_ok [OF d p] d by (cases "encoders_n (encoder_mgr s) = ENCODER_MAX") auto
  let ?s = "set_retval (of_int j) cur (s\<lparr>encoder_mgr := em, gpio := g\<rparr>)"
  have "same_core s ?s"
    by (rule same_core_trans [OF same_core_trans [OF same_core_simps(8) same_core_simps(9)] same_core_simps(1)])
  then have "stays cur s ?s" by (rule stays_core [OF _ _ k]) (use e(2,3) c in \<open>simp_all add: dev_ok_def set_retval_def upd_td_def\<close>)
  then show "\<exists>s'. k_quadrature_encoder_init a b s = Inr s' \<and> stays cur s s'"
    using e(1) c by (simp add: k_quadrature_encoder_init_def current_td_def deref_def)
next
  have d: "encoder_mgr_ok (encoder_mgr s)" "gpio_ok (gpio s)" using k by (simp_all add: kinv_def dev_ok_def)
  show "\<exists>s'. k_quadrature_encoder_get i p s = Inr s' \<and> stays cur s s'"
  proof (cases "get_encoder (encoder_mgr s) (sint i)")
    case None
    have "stays cur s (set_retval 0 cur s)"
      by (rule stays_core [OF same_core_simps(1) _ k]) (use k c in \<open>simp_all add: kinv_def set_retval_def upd_td_def dev_ok_def\<close>)
    then show ?thesis using None c by (simp add: k_quadrature_encoder_get_def current_td_def deref_def)
  next
    case (Some j)
    let ?em = "encoder_mgr s" and ?e = "encoders (encoder_mgr s) ! j" and ?s1 = "set_retval 0 cur s"
    let ?s' = "?s1\<lparr>mem := store_stat p (stat ?e) (mem ?s1), encoder_mgr := ?em\<lparr>encoders := (encoders ?em)[j := ?e\<lparr>stat := ke_quad_encoder_stat_clear\<rparr>]\<rparr>\<rparr>"
    have j: "j < encoders_n ?em" using Some by (auto simp: get_encoder_def split: if_splits)
    have "encoder_mgr_ok (?em\<lparr>encoders := (encoders ?em)[j := ?e\<lparr>stat := ke_quad_encoder_stat_clear\<rparr>]\<rparr>)"
      using d(1) j by (auto simp: encoder_mgr_ok_def nth_list_update encoder_ok_def)
    then have dk: "dev_ok ?s'" using d(2) by (simp add: dev_ok_def set_retval_def upd_td_def)
    have "same_core s ?s'"
      by (rule same_core_trans [OF same_core_trans [OF same_core_simps(1) same_core_simps(2)] same_core_simps(8)])
    then have "stays cur s ?s'" by (rule stays_core [OF _ dk k]) (use c in \<open>simp add: set_retval_def upd_td_def\<close>)
    then show ?thesis using Some c by (simp add: k_quadrature_encoder_get_def current_td_def deref_def Let_def)
  qed
qed

section \<open>One event\<close>

text \<open>
  What the kernel takes for granted of a call: a valid priority and room for the task, an interrupt id,
  pins that exist, a clock that has moved. A full queue of senders cannot arise while there are at most 65
  tasks: the idle task and the caller are not in it.
\<close>

abbreviation (input) MAX_TASKS :: nat where "MAX_TASKS \<equiv> 65"

fun call_ok :: "syscall \<Rightarrow> kState \<Rightarrow> bool" where
  "call_ok (Create p _ _) s \<longleftrightarrow> k_sched_priority_is_valid p \<and> card (tasks s) < MAX_TASKS \<and> next_tid s \<noteq> - 1"
| "call_ok (AwaitEvent i) s \<longleftrightarrow> IS_EVENT_BLOCKED i"
| "call_ok (SysHealth t _) s \<longleftrightarrow> t \<noteq> idle_track_start_time s"
| "call_ok (EncoderInit a b) s \<longleftrightarrow> unat a < 58 \<and> unat b < 58"
| "call_ok c s \<longleftrightarrow> True"

text \<open>Only tasks other than the idle task make calls.\<close>

definition event_ok :: "event \<Rightarrow> kState \<Rightarrow> bool" where
  "event_ok ev s \<longleftrightarrow>
     (case ev of
        Syscall c \<Rightarrow> kg_current_td s \<noteq> Some (idle_task s) \<and> call_ok c s
      | Interrupt iars \<Rightarrow> \<exists>ids rest. iars = ids @ 1023 # rest \<and> (\<forall>i\<in>set ids. known_intr i))"

definition handled :: "ptr \<Rightarrow> kState \<Rightarrow> bool" where
  "handled cur s' \<longleftrightarrow>
     (\<exists>bl E. kg_current_td s' = None \<and> kinv s' bl {#} E \<or> kg_current_td s' = Some cur \<and> kinv s' bl {#cur#} E) \<and>
     card (tasks s') \<le> MAX_TASKS"

lemma queue_bound:
  assumes k: "kinv s bl {#cur#} E" and n: "card (tasks s) \<le> MAX_TASKS" and r: "r \<in> tasks s"
  shows "length (queue s r) < 64"
proof -
  have i: "sched_inv s bl {#cur#}" "ipc_inv s bl" using k by (simp_all add: kinv_def)
  have q: "distinct (queue s r)" "set (queue s r) \<subseteq> set (bl ! 1)" using i(2) r by (simp_all add: ipc_inv_def)
  have l: "length bl = 4" using i(1) by (simp add: sched_inv_def)
  have "length (concat bl) + 2 \<le> card (tasks s)" using sched_place(5) [OF i(1) i(1)] by simp
  moreover have "length (bl ! 1) \<le> length (concat bl)"
    using l by (auto simp: numeral_eq_Suc length_Suc_conv)
  moreover have "card (set (queue s r)) \<le> card (set (bl ! 1))" by (rule card_mono) (use q in auto)
  ultimately show ?thesis using q(1) n card_length [of "bl ! 1"] by (simp add: distinct_card)
qed

lemma send_handled:
  assumes k: "kinv s bl {#cur#} E" and c: "kg_current_td s = Some cur" and run: "td_state (tds s cur) = READY"
    and n: "card (tasks s) \<le> MAX_TASKS"
  shows "\<exists>s'. k_send_handler t m l r rl s = Inr s' \<and> handled cur s'"
proof (cases "map_tid s (scast t)")
  case None
  have "kinv (set_retval (- 1) cur s) bl {#cur#} E" by (rule kinv_core [OF same_core_simps(1) k]) (use k in \<open>simp add: kinv_def\<close>)
  then show ?thesis using send_no_task [OF c None] c n
    by (auto simp: handled_def set_retval_def upd_td_def tasks_def)
next
  case (Some x)
  show ?thesis
  proof (cases "td_state (tds s x) = RECEIVE_BLOCKED")
    case True
    have "card (tasks s) \<le> 201" using n by simp
    then show ?thesis using send_delivers [OF k c run _ Some True, of m l r rl] n unfolding handled_def tasks_def by metis
  next
    case False
    have "length (queue s x) < 64" by (rule queue_bound [OF k n tid_task [OF Some]])
    then show ?thesis using send_queues(2) [OF k c run Some False, of m l r rl] n unfolding handled_def tasks_def by metis
  qed
qed

lemma recv_handled:
  assumes k: "kinv s bl {#cur#} E" and c: "kg_current_td s = Some cur" and n: "card (tasks s) \<le> MAX_TASKS"
  shows "\<exists>s'. k_recv_handler t m l s = Inr s' \<and> handled cur s'"
proof (cases "queue s cur")
  case Nil
  then show ?thesis using recv_blocks [OF k c, of t m l] n unfolding handled_def tasks_def by metis
next
  case (Cons x xs)
  have "card (tasks s) \<le> 201" using n by simp
  then show ?thesis using recv_takes [OF k c Cons, of t m l] n unfolding handled_def tasks_def by metis
qed

lemma stays_handled: "stays cur s s' \<Longrightarrow> card (tasks s) \<le> MAX_TASKS \<Longrightarrow> handled cur s'"
  by (auto simp: stays_def handled_def tasks_def)

lemma reply_handled:
  assumes k: "kinv s bl {#cur#} E" and c: "kg_current_td s = Some cur" and run: "td_state (tds s cur) = READY"
    and n: "card (tasks s) \<le> MAX_TASKS"
  shows "\<exists>s'. k_reply_handler t r l s = Inr s' \<and> handled cur s'"
proof -
  have ret: "handled cur (set_retval v cur s)" for v
    by (rule stays_handled [OF stays_core [OF same_core_simps(1) _ k] n])
      (use k c in \<open>simp_all add: kinv_def set_retval_def upd_td_def dev_ok_def\<close>)
  show ?thesis
  proof (cases "map_tid s (scast t)")
    case None
    then show ?thesis using reply_errors(1) [OF c] ret by blast
  next
    case (Some x)
    show ?thesis
    proof (cases "td_state (tds s x) = REPLY_BLOCKED")
      case True
      have "card (tasks s) \<le> 201" using n by simp
      then show ?thesis using reply_ok [OF k c run _ Some True, of r l] n unfolding handled_def tasks_def by metis
    next
      case False
      then show ?thesis using reply_errors(2) [OF c Some] ret by blast
    qed
  qed
qed

lemma syscall_handled:
  assumes k: "kinv s bl {#cur#} E" and c: "kg_current_td s = Some cur" and run: "td_state (tds s cur) = READY"
    and n: "card (tasks s) \<le> MAX_TASKS" and ok: "call_ok call s"
  shows "\<exists>s'. do_syscall call s = Inr s' \<and> handled cur s'"
proof (cases call)
  case Exit
  have "finite (tasks s)" using k by (simp add: kinv_def sched_inv_def)
  then have "card (tasks s - {cur}) \<le> MAX_TASKS" using n by (meson card_Diff1_le le_trans)
  obtain s' where s': "k_exit_handler s = Inr s'" "kinv s' bl {#} E" "kg_current_td s' = None" "tasks s' = tasks s - {cur}"
    using exit_ok [OF k c] by blast
  have "card (tasks s') \<le> MAX_TASKS" using s'(4) \<open>card (tasks s - {cur}) \<le> MAX_TASKS\<close> by simp
  then have "handled cur s'" unfolding handled_def using s'(2,3) by blast
  then show ?thesis using Exit s'(1) by simp
next
  case Yield
  then show ?thesis using k c n by (auto simp: handled_def)
next
  case (Create p a l)
  then have v: "k_sched_priority_is_valid p" "card (tasks s) \<le> 200" "next_tid s \<noteq> - 1" "card (tasks s) < MAX_TASKS" using ok by simp_all
  have fin: "finite (tasks s)" using k by (simp add: kinv_def sched_inv_def)
  obtain s' where s': "k_create_handler p a l s = Inr s'" "kinv s' bl {#cur#} E" "kg_current_td s' = Some cur"
    "tasks s' = tasks s \<or> (\<exists>q. tasks s' = insert q (tasks s))"
    using create_ok [OF k c run v(2,1,3), of a l] by blast
  have "card (tasks s') \<le> MAX_TASKS" using s'(4) v(4) fin n by (auto simp: card_insert_if)
  then show ?thesis using s' Create by (auto simp: handled_def)
next
  case MyTid
  have "stays cur s (set_retval (td_tid (tds s cur)) cur s)"
    by (rule stays_core [OF same_core_simps(1) _ k]) (use k c in \<open>simp_all add: kinv_def set_retval_def upd_td_def dev_ok_def\<close>)
  then show ?thesis using MyTid my_tid_ok [OF c] stays_handled [OF _ n] by simp
next
  case MyParentTid
  obtain s' where s': "k_my_parent_tid_handler s = Inr s'" "same_core s s'" "dev_ok s' = dev_ok s" "kg_current_td s' = Some cur"
    using parent_tid_ok [OF c] by blast
  then have "stays cur s s'" using stays_core [OF s'(2) _ k] k by (simp add: kinv_def)
  then show ?thesis using MyParentTid s'(1) stays_handled [OF _ n] by simp
next
  case (Send t m l r rl)
  then show ?thesis using send_handled [OF k c run n] by simp
next
  case (Recv t m l)
  then show ?thesis using recv_handled [OF k c n] by simp
next
  case (Reply t r l)
  then show ?thesis using reply_handled [OF k c run n] by simp
next
  case (AwaitEvent i)
  then show ?thesis using await_ok [OF k c, of i] ok n unfolding handled_def tasks_def
    by (metis call_ok.simps(2) do_syscall.simps(9))
next
  case (Mmap p l)
  then show ?thesis using mmap_ok [OF k c, of p l] n unfolding handled_def tasks_def by (metis do_syscall.simps(10))
next
  case (SysHealth t p)
  then obtain s' where s': "k_sys_health t p s = Inr s'" "same_core s s'" "dev_ok s' = dev_ok s" "kg_current_td s' = Some cur"
    using sys_health_ok [OF c, of t p] ok by auto
  then have "stays cur s s'" using stays_core [OF s'(2) _ k] k by (simp add: kinv_def)
  then show ?thesis using SysHealth s'(1) stays_handled [OF _ n] by simp
next
  case (EncoderInit a b)
  then show ?thesis using encoder_calls_ok(1) [OF k c, of a b] ok stays_handled [OF _ n] by auto
next
  case (EncoderGet i p)
  then show ?thesis using encoder_calls_ok(2) [OF k c, of i p] stays_handled [OF _ n] by auto
qed

section \<open>The loop\<close>

text \<open>The state at the head of the loop: no task is in the kernel's hands.\<close>

definition loop_inv :: "kState \<Rightarrow> bool" where
  "loop_inv s \<longleftrightarrow> (\<exists>bl E. kinv s bl {#} E) \<and> card (tasks s) \<le> MAX_TASKS"

text \<open>The task chosen is the idle task, or a ready task that no ready task goes before.\<close>

lemma loop_enter_ok:
  assumes inv: "loop_inv s"
  shows "\<exists>it' s'. k_loop_enter now (it, s) = (it', s') \<and> card (tasks s') \<le> MAX_TASKS \<and>
     ((\<exists>bl E. kinv s' bl {#} E) \<and> kg_current_td s' = Some (idle_task s') \<and> ready s = [] \<or>
      (\<exists>p bl E. kg_current_td s' = Some p \<and> p \<noteq> idle_task s' \<and> kinv s' bl {#p#} E \<and> td_state (tds s' p) = READY \<and> p \<in> set (ready s) \<and>
         (\<forall>r\<in>set (ready s). \<not> cmp_keys_task_dsp (priority_key (tds s r)) (priority_key (tds s p)))))"
proof -
  obtain bl E where k: "kinv s bl {#} E" and n: "card (tasks s) \<le> MAX_TASKS" using inv by (auto simp: loop_inv_def)
  have i: "sched_inv s bl {#}" using k by (simp add: kinv_def)
  from get_next_ok [OF i] show ?thesis
  proof (elim disjE conjE exE)
    assume g: "ready s = []" "k_sched_get_next s = (None, s)"
    let ?s = "s\<lparr>kg_current_td := Some (idle_task s)\<rparr>"
    have "kinv ?s bl {#} E" by (rule kinv_core [OF same_core_simps(3) k]) (use k in \<open>simp add: kinv_def\<close>)
    then show ?thesis using g n by (auto simp: k_loop_enter_def tasks_def)
  next
    fix p s1
    assume g: "k_sched_get_next s = (Some p, s1)" "sched_inv s1 bl (add_mset p {#})" "sched_frame s s1" "tds s1 = tds s"
      "mset (ready s) = add_mset p (mset (ready s1))"
      "\<forall>r\<in>set (ready s). \<not> cmp_keys_task_dsp (priority_key (tds s r)) (priority_key (tds s p))"
    let ?s = "s1\<lparr>kg_current_td := Some p\<rparr>"
    have k1: "kinv s1 bl {#p#} E" by (rule kinv_frame [OF k g(3,2)]) auto
    have k2: "kinv ?s bl {#p#} E" by (rule kinv_core [OF same_core_simps(3) k1]) (use k1 in \<open>simp add: kinv_def\<close>)
    have p: "p \<in> set (ready s)" using g(5) by (metis set_mset_mset union_single_eq_member add_mset_add_single union_commute)
    then have "td_state (tds s p) = READY" using i by (simp add: sched_inv_def)
    moreover have "tasks ?s = tasks s" using sched_frameD(15) [OF g(3)] by (simp add: tasks_def)
    ultimately show ?thesis using g(1,4,6) p k2 running(6) [OF k2] n by (auto simp: k_loop_enter_def)
  qed
qed

lemma loop_leave_ok:
  assumes "handled cur s" and "cur \<noteq> idle_task s \<or> kg_current_td s = None"
  shows "\<exists>it' s'. k_loop_leave now (it, s) = Inr (it', s') \<and> loop_inv s'"
proof (cases "kg_current_td s")
  case None
  then show ?thesis using assms(1) by (auto simp: k_loop_leave_def handled_def loop_inv_def)
next
  case (Some p)
  then obtain bl E where k: "p = cur" "kinv s bl (add_mset cur {#}) E" "card (tasks s) \<le> MAX_TASKS" "cur \<noteq> idle_task s"
    using assms by (auto simp: handled_def)
  obtain s' where "k_sched_add_ready cur s = Inr s'" "kinv s' bl {#} E" "sched_frame s s'"
    using k_add_ready [OF k(2)] k(3) by fastforce
  then show ?thesis using Some k sched_frameD(15) [of s s'] by (auto simp: k_loop_leave_def loop_inv_def)
qed

text \<open>The steps of the loop, with the events that can happen.\<close>

inductive kstep :: "u64 \<times> kState \<Rightarrow> u64 \<times> kState \<Rightarrow> bool" where
  kstep: "\<lbrakk>k_loop_enter now (it, s) = (it1, s1); event_ok ev s1; k_loop_step now ev now' (it, s) = Inr t'\<rbrakk> \<Longrightarrow> kstep (it, s) t'"

inductive_cases kstepE: "kstep (it, s) t'"

lemma loop_step_ok:
  assumes inv: "loop_inv s" and en: "k_loop_enter now (it, s) = (it1, s1)" and ev: "event_ok ev s1"
  shows "\<exists>it' s'. k_loop_step now ev now' (it, s) = Inr (it', s') \<and> loop_inv s'"
proof -
  have n: "card (tasks s1) \<le> MAX_TASKS" using loop_enter_ok [OF inv, of now it] en by auto
  have n': "card (tasks s1) \<le> 201" using n by simp
  have cases: "(\<exists>bl E. kinv s1 bl {#} E) \<and> kg_current_td s1 = Some (idle_task s1) \<or>
      (\<exists>p bl E. kg_current_td s1 = Some p \<and> p \<noteq> idle_task s1 \<and> kinv s1 bl {#p#} E \<and> td_state (tds s1 p) = READY)"
    using loop_enter_ok [OF inv, of now it] en by auto
  show ?thesis
  proof (cases ev)
    case (Syscall c)
    then have ni: "kg_current_td s1 \<noteq> Some (idle_task s1)" "call_ok c s1" using ev by (simp_all add: event_ok_def)
    then obtain p bl E where p: "kg_current_td s1 = Some p" "kinv s1 bl {#p#} E" "td_state (tds s1 p) = READY" using cases by auto
    obtain s2 where s2: "do_syscall c s1 = Inr s2" "handled p s2" using syscall_handled [OF p(2,1,3) n ni(2)] by blast
    have "p \<noteq> idle_task s2 \<or> kg_current_td s2 = None"
      using s2(2) running(6) [of s2 _ p "{#}"] by (auto simp: handled_def)
    then obtain it' s' where "k_loop_leave now' (it1, s2) = Inr (it', s')" "loop_inv s'" using loop_leave_ok [OF s2(2)] by blast
    then show ?thesis using en s2(1) Syscall by (simp add: k_loop_step_def handle_event_def)
  next
    case (Interrupt iars)
    then obtain ids rest where ids: "iars = ids @ 1023 # rest" "\<forall>i\<in>set ids. known_intr i" using ev by (auto simp: event_ok_def)
    have go: "\<exists>it' s'. k_loop_step now ev now' (it, s) = Inr (it', s') \<and> loop_inv s'"
      if s2: "k_intr_handler iars s1 = Some (Inr (s2, ids))" and l: "\<exists>it' s'. k_loop_leave now' (it1, s2) = Inr (it', s') \<and> loop_inv s'" for s2
      using that en Interrupt by (auto simp: k_loop_step_def handle_event_def)
    from cases show ?thesis
    proof (elim disjE conjE exE)
      fix bl E assume a: "kg_current_td s1 = Some (idle_task s1)" "kinv s1 bl {#} E"
      obtain s2 where s2: "k_intr_handler iars s1 = Some (Inr (s2, ids))" "keeps {#} E s1 s2"
        using intr_handler_keeps [OF a(2) n' ids(2), of rest] ids(1) by auto
      have "kg_current_td s2 = Some (idle_task s2)" "\<exists>bl. kinv s2 bl {#} E" "tasks s2 = tasks s1" using s2(2) a(1) by (simp_all add: keeps_def)
      then obtain bl2 where "k_loop_leave now' (it1, s2) = Inr (it1, s2\<lparr>idle_duration := idle_duration s2 + (now' - it1)\<rparr>)"
        "kinv s2 bl2 {#} E" by (auto simp: k_loop_leave_def)
      moreover have "kinv (s2\<lparr>idle_duration := d\<rparr>) bl2 {#} E" for d
        by (rule kinv_core [OF same_core_simps(6) calculation(2)]) (use calculation(2) in \<open>simp add: kinv_def\<close>)
      ultimately have "\<exists>it' s'. k_loop_leave now' (it1, s2) = Inr (it', s') \<and> loop_inv s'"
        using n \<open>tasks s2 = tasks s1\<close> by (auto simp: loop_inv_def tasks_def)
      then show ?thesis by (rule go [OF s2(1)])
    next
      fix p bl E assume a: "kg_current_td s1 = Some p" "p \<noteq> idle_task s1" "kinv s1 bl {#p#} E"
      obtain s2 where s2: "k_intr_handler iars s1 = Some (Inr (s2, ids))" "keeps {#p#} E s1 s2"
        using intr_handler_keeps [OF a(3) n' ids(2), of rest] ids(1) by auto
      then have "handled p s2" "p \<noteq> idle_task s2" using a(1,2) n by (auto simp: keeps_def handled_def)
      then show ?thesis using go [OF s2(1) loop_leave_ok] by blast
    qed
  qed
qed

inductive reachable :: "kState \<Rightarrow> kState \<Rightarrow> bool" for s0 where
  start: "reachable s0 s0"
| step: "reachable s0 s \<Longrightarrow> kstep (it, s) (it', s') \<Longrightarrow> reachable s0 s'"

inductive_simps reachable_iff: "reachable s0 s"

lemma reachable_inv: "reachable s0 s \<Longrightarrow> loop_inv s0 \<Longrightarrow> loop_inv s"
proof (induction rule: reachable.induct)
  case (step s it it' s')
  from step.hyps(2) obtain now it1 s1 ev now' where "k_loop_enter now (it, s) = (it1, s1)" "event_ok ev s1"
    "k_loop_step now ev now' (it, s) = Inr (it', s')" by (rule kstepE)
  then show ?case using loop_step_ok [OF step.IH [OF step.prems], of now it it1 s1 ev now'] by auto
qed

end
