(* ===== verification/Spare.thy ===== *)
theory Spare
  imports KRun
begin

text \<open>
  Free pages left: while the page manager has them, allocating a page, a slab object or a task does not
  fail, and each takes at most the pages counted here.
\<close>

section \<open>The page manager\<close>

definition spare :: "PgMgr \<Rightarrow> nat \<Rightarrow> bool" where
  "spare m k \<longleftrightarrow> (\<exists>fl L. pm_ok m fl L \<and> length (roots m) = 1 \<and> pr_start (roots m ! 0) \<noteq> 0 \<and> k \<le> card (covered (fblocks fl)))"

lemma spare_mono: "spare m k \<Longrightarrow> j \<le> k \<Longrightarrow> spare m j"
  unfolding spare_def by (meson le_trans)

lemma spare_owns: "spare m k \<Longrightarrow> \<exists>H. mgr_owns m H"
  unfolding spare_def mgr_owns_def by blast

lemma spare_alloc:
  assumes s: "spare m (Suc k)" and p: "unat p0 \<le> PG_SFT"
  shows "\<exists>m' a. pg_alloc_page p0 flg m = Inr (m', a) \<and> a \<noteq> NULL \<and> spare m' k"
proof -
  obtain fl L where ok: "pm_ok m fl L" and one: "length (roots m) = 1" and nz: "pr_start (roots m ! 0) \<noteq> 0"
    and c: "Suc k \<le> card (covered (fblocks fl))" using s by (auto simp: spare_def)
  have fin: "finite (covered (fblocks fl))" using c by (metis card.infinite not_less_eq_eq zero_le)
  have p: "unat p0 - PG_SFT = 0" using p by simp
  have len: "length fl = 10" using pm_inv_length [of m fl L] ok by (simp add: pm_ok_def)
  from pg_alloc_page_spec [OF ok, of p0 flg, unfolded p]
  show ?thesis
  proof (elim disjE exE conjE)
    fix m' fl' r i
    assume a: "pg_alloc_page p0 flg m = Inr (m', pr_start (roots m ! r) + push_bit PG_SFT (of_nat i))"
      "pm_ok m' fl' (insert (r, i, 0) L)" "roots m' = roots m" "covered (fblocks fl') \<union> blk_pages (r, i, 0) = covered (fblocks fl)"
    have cb: "card (blk_pages (r, i, 0)) = 1" by (simp add: blk_pages_def)
    have "card (covered (fblocks fl)) \<le> card (covered (fblocks fl')) + 1"
      using card_Un_le [of "covered (fblocks fl')" "blk_pages (r, i, 0)"] by (simp add: a(4) cb)
    then have "spare m' k" using a(2,3) one nz c unfolding spare_def by fastforce
    moreover have "pr_start (roots m ! r) + push_bit PG_SFT (of_nat i) \<noteq> (NULL :: ptr)"
    proof -
      have inv': "pm_inv m' fl' (insert (r, i, 0) L)" using a(2) by (simp add: pm_ok_def)
      have v: "(r, i) \<in> valid_pages (roots m)" using pm_inv_valid_head(2) [OF inv', of "(r, i, 0)"] a(3) by simp
      then have r0: "r = 0" using one by (simp add: valid_pages_def)
      have rok: "roots_ok (roots m) (dsps m)" using ok by (simp add: pm_ok_def pm_inv_def)
      show ?thesis using block_start_nonnull [OF rok nz] v r0 by simp
    qed
    ultimately show ?thesis using a(1) by blast
  next
    assume "\<forall>q. 0 \<le> q \<and> q \<le> PGMGR_MAXLVL \<longrightarrow> fl ! q = []"
    then have "fblocks fl = {}" using len by (auto simp: fblocks_def)
    then show ?thesis using c by (simp add: covered_def)
  qed
qed

section \<open>Slab objects\<close>

lemma slab_alloc_source:
  assumes "slab_alloc f k flag m = Inr (m', p)"
  shows "source m' = source m \<or> (\<exists>a. f (ucast (pg_sft (slab_alloc_arr m k))) 0 (source m) = Inr (source m', a))"
proof -
  have del: "source m2 = source m1" if "del_slabs k s m1 = Inr m2" for s m1 and m2 :: "'a SlabMgr"
    using that by (auto simp: del_slabs_def bindR_def upd_alloc_def split: sum.splits)
  have app: "source m2 = source m1" if "app_slabs k s m1 = Inr m2" for s m1 and m2 :: "'a SlabMgr"
    using that by (auto simp: app_slabs_def bindR_def upd_alloc_def split: sum.splits)
  have dele: "source m2 = source m1" if "del_empty k s m1 = Inr m2" for s m1 and m2 :: "'a SlabMgr"
    using that by (auto simp: del_empty_def bindR_def upd_alloc_def split: sum.splits)
  have add: "source (add_slabs k s m1) = source m1" for s and m1 :: "'a SlabMgr"
    by (simp add: add_slabs_def upd_alloc_def Let_def split: prod.split)
  have ini: "source m2 = source m1" if "slab_slab_init s k m1 = Inr m2" for s m1 and m2 :: "'a SlabMgr"
    using that by (auto simp: slab_slab_init_def Let_def upd_slab_def split: prod.splits if_splits)
  have al: "source (fst (slab_slab_alloc s flag m1)) = source m1" for s and m1 :: "'a SlabMgr"
    by (simp add: slab_slab_alloc_def Let_def upd_slab_def)
  obtain m1 so where r: "slab_with_room f k m = Inr (m1, so)"
    using assms by (auto simp: slab_alloc_def bindR_def split: sum.splits)
  have "source m' = source m1"
    using assms r al by (auto simp: slab_alloc_def bindR_def dest!: del app split: sum.splits option.splits prod.splits if_splits) (metis fst_conv)+
  moreover have "source m1 = source m \<or> (\<exists>a. f (ucast (pg_sft (slab_alloc_arr m k))) 0 (source m) = Inr (source m1, a))"
    using r unfolding slab_with_room_def Let_def bindR_def
    by (auto simp: add dest!: dele ini split: sum.splits option.splits prod.splits if_splits)
  ultimately show ?thesis by simp
qed

lemma kslab_alloc_spare:
  assumes k: "kslab m k T F" and s: "spare (source m) (Suc n)"
  shows "\<exists>m' p. slab_alloc slab_kernel_func_alloc_page k flag m = Inr (m', p) \<and> p \<noteq> NULL \<and> spare (source m') n"
proof -
  obtain xs ys C where i: "slab_inv (owns_with F) m k xs ys C" using k unfolding kslab_def by blast
  obtain pm a where a: "pg_alloc_page (of_nat PG_SFT) 0 (source m) = Inr (pm, a)" "a \<noteq> NULL" "spare pm n"
    using spare_alloc [OF s, of "of_nat PG_SFT" 0] by auto
  obtain m' p where m: "slab_alloc slab_kernel_func_alloc_page k flag m = Inr (m', p)"
    "p = NULL \<Longrightarrow> \<exists>s'. slab_kernel_func_alloc_page (of_nat PG_SFT) 0 (source m) = Inr (s', NULL)"
    using kf.slab_alloc_ok [OF i, of flag] by (metis (no_types))
  have "p \<noteq> NULL" using m(2) a(1,2) by (auto simp: slab_kernel_func_alloc_page_def)
  moreover have "pg_sft (slab_alloc_arr m k) = of_nat PG_SFT" using i by (simp add: slab_inv_def slab_base_def alloc_ok_def)
  then have "source m' = source m \<or> source m' = pm"
    using slab_alloc_source [OF m(1)] a(1) by (auto simp: slab_kernel_func_alloc_page_def)
  then have "spare (source m') n" using a(3) spare_mono [OF s, of n] by auto
  ultimately show ?thesis using m(1) by blast
qed

section \<open>Tasks\<close>

lemma get_free_task_spare:
  assumes k: "kmem s E" and t: "tids_ok s" and sp: "spare (pgmgr s) (n + 2)" and z: "unat sz \<le> PG_SFT"
  shows "\<exists>s' p. k_tmgr_get_free_task sz s = Inr (s', Some p) \<and> spare (pgmgr s') n"
proof -
  have ks: "kslab (slabmgr s) (task_alloc s) (tasks s) (stacks s \<union> E)" using k by (simp add: kmem_def)
  have "spare (source (slabmgr s)) (Suc (Suc n))" using sp by (simp add: pgmgr_def)
  then obtain m p where m: "slab_alloc slab_kernel_func_alloc_page (task_alloc s) 0 (slabmgr s) = Inr (m, p)" "p \<noteq> NULL" "spare (source m) (Suc n)"
    using kslab_alloc_spare [OF ks, of "Suc n" 0] by blast
  obtain pm a where a: "pg_alloc_page sz 0 (source m) = Inr (pm, a)" "a \<noteq> NULL" "spare pm n"
    using spare_alloc [OF m(3) z] by blast
  show ?thesis
    using m a tids_next [OF t]
    by (simp add: k_tmgr_get_free_task_def pgmgr_def set_pgmgr_def tid_find_add_def upd_td_def Let_def)
qed

lemma spawn_spare:
  assumes k: "kinv0 s bl L E" and sp: "spare (pgmgr s) (n + 2)"
  shows "\<exists>s' p. spawn prio func args len s = Inr (s', Some p) \<and> spare (pgmgr s') n"
proof -
  have pg: "pgmgr (k_td_init_user_task p q prio f args len s1) = pgmgr s1" for p q f s1
    by (simp add: k_td_init_user_task_def Let_def upd_td_def pgmgr_def)
  have "kmem s E" "tids_ok s" using k by (simp_all add: kinv0_def)
  then obtain s' p where "k_tmgr_get_free_task (of_nat PG_SFT) s = Inr (s', Some p)" "spare (pgmgr s') n"
    using get_free_task_spare [OF _ _ sp, of E "of_nat PG_SFT"] by auto
  then show ?thesis by (simp add: spawn_def pg)
qed

lemma add_ready_pgmgr: "k_sched_add_ready p s = Inr s' \<Longrightarrow> pgmgr s' = pgmgr s"
  by (auto simp: k_sched_add_ready_def bindR_def set_state_def upd_td_def pgmgr_def Let_def split: sum.splits)

text \<open>
  A call of \<open>Create\<close> with a priority out of range is refused after the task was allocated: the task exists for ever
  after, in no queue of the scheduler.
\<close>

lemma create_leak:
  assumes k: "kinv s bl {#cur#} E" and c: "kg_current_td s = Some cur" and v: "\<not> k_sched_priority_is_valid prio"
    and nt: "next_tid s \<noteq> - 1" and sp: "spare (pgmgr s) 2"
  shows "\<exists>s' p. k_create_handler prio args len s = Inr s' \<and> syscall_retval (tds s' cur) = - 1 \<and> ready s' = ready s \<and>
     p \<notin> tasks s \<and> tasks s' = insert p (tasks s) \<and> kg_current_td s' = Some cur"
proof -
  have ks: "kmem s E" "tids_ok s" using k by (simp_all add: kinv_def)
  have "(2::nat) = 0 + 2" by simp
  then have sp2: "spare (pgmgr s) (0 + 2)" using sp by metis
  obtain s1 q where q: "k_tmgr_get_free_task (of_nat PG_SFT) s = Inr (s1, Some q)"
    using get_free_task_spare [OF ks sp2, of "of_nat PG_SFT"] by auto
  then obtain m p a where g: "s1 = new_task p a (of_nat PG_SFT) m s" "p = q" "p \<notin> tasks s"
    "a \<notin> stacks s \<union> E" "kslab m (task_alloc s) (insert p (tasks s)) (insert a (stacks s \<union> E))"
    using get_free_task_ok [OF ks, of "of_nat PG_SFT"] by auto
  note t = new_task_ok(3) [OF g(5,3,4) ks nt, of "of_nat PG_SFT"]
  have "k_create_handler prio args len s = Inr (set_retval (- 1) cur s1)"
    using c v q by (simp add: k_create_handler_def current_td_def deref_def)
  moreover have "tasks (set_retval (- 1) cur s1) = insert p (tasks s)" using t g(1) by (simp add: set_retval_def upd_td_def tasks_def)
  moreover have "ready (set_retval (- 1) cur s1) = ready s" "kg_current_td (set_retval (- 1) cur s1) = Some cur"
    using c by (simp_all add: set_retval_def upd_td_def ready_def new_task_def g(1))
  moreover have "syscall_retval (tds (set_retval (- 1) cur s1) cur) = - 1" by (simp add: set_retval_def upd_td_def)
  ultimately show ?thesis using g(3) by blast
qed

lemma create_succeeds:
  assumes k: "kinv s bl {#cur#} E" and c: "kg_current_td s = Some cur" and run: "td_state (tds s cur) = READY"
    and n: "card (tasks s) \<le> 200" and v: "k_sched_priority_is_valid prio" and nt: "next_tid s \<noteq> - 1" and sp: "spare (pgmgr s) 2"
  shows "\<exists>s' p. k_create_handler prio args len s = Inr s' \<and> kinv s' bl {#cur#} E \<and> p \<notin> tasks s \<and> tasks s' = insert p (tasks s) \<and>
     map_tid s' = (map_tid s)(next_tid s := Some p) \<and> next_tid s' = next_tid s + 1 \<and> tds s' cur = (tds s cur)\<lparr>syscall_retval := next_tid s\<rparr> \<and>
     mset (ready s') = add_mset p (mset (ready s)) \<and> td_state (tds s' p) = READY \<and> td_tid (tds s' p) = next_tid s \<and>
     parent_tid (tds s' p) = td_tid (tds s cur) \<and> td_pc (tds s' p) = load_elf_addr s \<and> priority (priority_key (tds s' p)) = scast prio \<and>
     queue s' p = [] \<and> (\<forall>q. q \<noteq> p \<and> q \<noteq> cur \<longrightarrow> tds s' q = tds s q)"
proof -
  have ks: "kmem s E" "tids_ok s" using k by (simp_all add: kinv_def)
  have "(2::nat) = 0 + 2" by simp
  then have sp2: "spare (pgmgr s) (0 + 2)" using sp by metis
  obtain s1 q where q: "k_tmgr_get_free_task (of_nat PG_SFT) s = Inr (s1, Some q)"
    using get_free_task_spare [OF ks sp2, of "of_nat PG_SFT"] by auto
  then obtain m p a where g: "s1 = new_task p a (of_nat PG_SFT) m s" "p = q" using get_free_task_ok [OF ks, of "of_nat PG_SFT"] by auto
  have "p \<notin> tasks s" "q = p" using q get_free_task_ok [OF ks, of "of_nat PG_SFT"] g(2) by auto
  obtain s' where s': "k_create_handler prio args len s = Inr s'" "kinv s' bl {#cur#} E"
    "tasks s' = tasks s \<and> ready s' = ready s \<and> map_tid s' = map_tid s \<and> tds s' = (tds s)(cur := (tds s cur)\<lparr>syscall_retval := - 2\<rparr>) \<or>
      (\<exists>p. p \<notin> tasks s \<and> tasks s' = insert p (tasks s) \<and> map_tid s' = (map_tid s)(next_tid s := Some p) \<and>
         next_tid s' = next_tid s + 1 \<and> tds s' cur = (tds s cur)\<lparr>syscall_retval := next_tid s\<rparr> \<and> td_tid (tds s' p) = next_tid s \<and>
         (\<forall>q. q \<noteq> p \<and> q \<noteq> cur \<longrightarrow> tds s' q = tds s q) \<and> mset (ready s') = add_mset p (mset (ready s)) \<and>
         td_state (tds s' p) = READY \<and> parent_tid (tds s' p) = td_tid (tds s cur) \<and> td_pc (tds s' p) = load_elf_addr s \<and>
         priority (priority_key (tds s' p)) = scast prio \<and> queue s' p = [])"
    using create_ok [OF k c run n v nt, of args len] by auto
  have "tasks s' \<noteq> tasks s"
  proof -
    have "map_tid s1 (next_tid s) = Some p" using g by (simp add: new_task_def upd_td_def)
    moreover have "map_tid s' = map_tid s1"
      using s'(1) q c v by (auto simp: k_create_handler_def current_td_def deref_def bindR_def Let_def set_retval_def upd_td_def
        k_td_init_user_task_def k_sched_add_ready_def set_state_def split: sum.splits if_splits)
    ultimately show ?thesis using \<open>p \<notin> tasks s\<close> tid_task [of s' "next_tid s" p] by auto
  qed
  then show ?thesis using s' by blast
qed

end
