(* ===== verification/KBoot.thy ===== *)
theory KBoot
  imports Spare
begin

text \<open>
  The start of the kernel: over a page manager with seven free pages, \<open>k_main\<close> reaches its loop in a
  state of the invariant, with the idle task and the two first tasks.
\<close>

lemma setup_gpio_total:
  assumes "gpio_ok g" "unat pin < 58"
  shows "\<exists>g'. setup_gpio pin v r g = Inr g' \<and> gpio_ok g'"
proof -
  have "unat pin div 10 < 6" "unat pin div 16 < 4" using assms(2) by simp_all
  then show ?thesis using assms(1)
    by (simp add: setup_gpio_def reg_modify_def Let_def unat_div_distrib gpio_ok_def)
qed

lemma uart_init_total:
  assumes "gpio_ok g"
  shows "\<exists>g' us'. uart_init 2 115200 (g, us) = Inr (g', us') \<and> gpio_ok g'"
proof -
  obtain g1 where g1: "setup_gpio 0 GPIO_ALTFN4 GPIO_NONE g = Inr g1" "gpio_ok g1" using setup_gpio_total [OF assms, of 0] by auto
  obtain g2 where g2: "setup_gpio 1 GPIO_ALTFN4 GPIO_NONE g1 = Inr g2" "gpio_ok g2" using setup_gpio_total [OF g1(2), of 1] by auto
  have "uart_setup_gpio 2 g = Inr g2" using g1 g2 by (simp add: uart_setup_gpio_def uart_pins_arr_def)
  then show ?thesis using g2(2) by (simp add: uart_init_def Let_def)
qed

section \<open>Before the first task\<close>

lemma gs_init_ok:
  assumes own: "mgr_owns (pgmgr s) H" and n: "slab_alloc_n (slabmgr s) = 0" and g: "gpio_ok (gpio s)"
    and h: "length (heap_array (task_heap s)) = K_SCHED_HEAP_CAPACITY" and e: "length (encoders (encoder_mgr s)) = ENCODER_MAX"
  shows "\<exists>s'. k_gs_init now s = Inr s' \<and> kinv0 s' [[], [], [], []] {#} H \<and> tasks s' = {} \<and> next_tid s' = 0 \<and> ready s' = []"
proof -
  have lt: "slab_alloc_n (slabmgr s) < SLABMGR_CAP" and u: "unat (slab_alloc_n (slabmgr s)) = 0" by (simp_all add: n)
  obtain m where m: "slab_create sizeof_kTaskDsp 8 (slabmgr s) = (m, Some 0)" "alloc_ok (slab_alloc_arr m 0)"
    "slabs (slab_alloc_arr m 0) = None" "empty_slabs (slab_alloc_arr m 0) = None" "source m = source (slabmgr s)"
    using slab_create_ok [OF lt, of sizeof_kTaskDsp 8 3] unfolding u by auto
  have o: "owns_with H (source m) {}" using own m(5) by (simp add: owns_with_def pgmgr_def)
  have ks: "kslab m 0 {} H" unfolding kslab_def using slab_inv_fresh [OF m(2-4), of "owns_with H" "{}"] o by blast
  define s' where "s' = (let s1 = s\<lparr>slabmgr := m, task_alloc := 0, map_tid := (\<lambda>_. None), next_tid := 0\<rparr>; s2 = k_sched_init s1;
     s3 = s2\<lparr>encoder_mgr := encoder_mgr_init (encoder_mgr s2)\<rparr>
     in s3\<lparr>idle_track_start_time := now, idle_duration := 0, next_intr_time := 0\<rparr>)"
  have op: "k_gs_init now s = Inr s'" using m(1) by (simp add: k_gs_init_def k_tmgr_init_def s'_def Let_def)
  have f: "tasks s' = {}" "ready s' = []" "sched_heads s' = [None, None, None, None]" "map_tid s' = (\<lambda>_. None)" "next_tid s' = 0"
    "slabmgr s' = m" "task_alloc s' = 0" "task_heap s' = heap_init (heap_array (task_heap s)) K_SCHED_HEAP_CAPACITY"
    "encoder_mgr s' = encoder_mgr_init (encoder_mgr s)" "gpio s' = gpio s"
    by (simp_all add: s'_def k_sched_init_def tasks_def ready_def sched_heads_def)
  have "places s' [[], [], [], []] {#}"
    unfolding places_def f using heap_init_ok [OF h] 
    by (auto simp: dlists_def dlist_def nth_Cons') (simp add: heap_init_def)
  moreover have "ipc_inv s' [[], [], [], []]" by (simp add: ipc_inv_def f)
  moreover have "tids_ok s'" by (simp add: tids_ok_def f)
  moreover have "kmem s' H" using ks by (simp add: kmem_def stacks_def f)
  moreover have "dev_ok s'" using g encoder_mgr_init_ok [OF e] by (simp add: dev_ok_def f)
  ultimately show ?thesis using op f by (auto simp: kinv0_def)
qed

section \<open>The first tasks\<close>

lemma spawn_ok:
  assumes k: "kinv0 s bl L E" and nt: "next_tid s \<noteq> - 1"
  shows "(\<exists>s'. spawn prio func args len s = Inr (s', None)) \<or>
     (\<exists>s' p. spawn prio func args len s = Inr (s', Some p) \<and> kinv0 s' bl (add_mset p L) E \<and> p \<notin> tasks s \<and>
        tasks s' = insert p (tasks s) \<and> next_tid s' = next_tid s + 1 \<and> td_tid (tds s' p) = next_tid s \<and> td_state (tds s' p) = READY \<and>
        priority (priority_key (tds s' p)) = prio \<and> (\<forall>r. r \<noteq> p \<longrightarrow> tds s' r = tds s r) \<and> ready s' = ready s \<and> idle_task s' = idle_task s)"
proof -
  have ks: "kmem s E" "tids_ok s" using k by (simp_all add: kinv0_def)
  from get_free_task_ok [OF ks, of "of_nat PG_SFT"] show ?thesis
  proof (elim disjE exE conjE)
    fix m assume "k_tmgr_get_free_task (of_nat PG_SFT) s = Inr (s\<lparr>slabmgr := m\<rparr>, None)"
    then show ?thesis by (simp add: spawn_def)
  next
    fix m p a
    assume g: "k_tmgr_get_free_task (of_nat PG_SFT) s = Inr (new_task p a (of_nat PG_SFT) m s, Some p)" "p \<notin> tasks s"
      "a \<notin> stacks s \<union> E" "kslab m (task_alloc s) (insert p (tasks s)) (insert a (stacks s \<union> E))"
    let ?n = "new_task p a (of_nat PG_SFT) m s"
    obtain s' where "k_td_init_user_task p None prio (func ?n) args len ?n = s'"
      "kinv0 s' bl (add_mset p L) E" "tasks s' = insert p (tasks s)" "next_tid s' = next_tid s + 1" "ready s' = ready s"
      "\<forall>r. r \<noteq> p \<longrightarrow> tds s' r = tds s r" "td_tid (tds s' p) = next_tid s" "td_state (tds s' p) = READY"
      "priority (priority_key (tds s' p)) = prio" "idle_task s' = idle_task s"
      using new_user_task [OF k g(2,3) nt g(4), of None prio "func ?n" args len "of_nat PG_SFT"] by auto
    then show ?thesis using g(1,2) by (intro disjI2 exI [of _ s'] exI [of _ p]) (simp add: spawn_def)
  qed
qed

lemma spawn_ready_ok:
  assumes k: "kinv s bl {#} E" and nt: "next_tid s \<noteq> - 1" and n: "card (tasks s) \<le> 200"
  shows "(\<exists>s'. spawn prio func args len s = Inr (s', None)) \<or>
     (\<exists>s1 s' p. spawn prio func args len s = Inr (s1, Some p) \<and> k_sched_add_ready p s1 = Inr s' \<and> kinv s' bl {#} E \<and>
        p \<notin> tasks s \<and> tasks s' = insert p (tasks s) \<and> next_tid s' = next_tid s + 1 \<and> td_tid (tds s' p) = next_tid s \<and>
        priority (priority_key (tds s' p)) = prio \<and> (\<forall>r. r \<noteq> p \<longrightarrow> tds s' r = tds s r) \<and>
        mset (ready s') = add_mset p (mset (ready s)) \<and> idle_task s' = idle_task s)"
proof -
  have k0: "kinv0 s bl (add_mset (idle_task s) {#}) E" "td_state (tds s (idle_task s)) = READY" using k by (simp_all add: kinv_kinv0)
  have it: "idle_task s \<in> tasks s" using places_mem(3) [of s bl "add_mset (idle_task s) {#}"] k0(1) by (simp add: kinv0_def)
  from spawn_ok [OF k0(1) nt, of prio func args len] show ?thesis
  proof (elim disjE exE conjE)
    fix s1 p
    assume s: "spawn prio func args len s = Inr (s1, Some p)" "kinv0 s1 bl (add_mset p (add_mset (idle_task s) {#})) E" "p \<notin> tasks s"
        "tasks s1 = insert p (tasks s)" "next_tid s1 = next_tid s + 1" "td_tid (tds s1 p) = next_tid s"
        "priority (priority_key (tds s1 p)) = prio" "\<forall>r. r \<noteq> p \<longrightarrow> tds s1 r = tds s r" "ready s1 = ready s" "idle_task s1 = idle_task s"
    have "idle_task s \<noteq> p" using it s(3) by blast
    then have k1: "kinv s1 bl (add_mset p {#}) E" using s(2,8,10) k0(2) by (simp add: kinv_kinv0 add_mset_commute)
    have "finite (tasks s)" using k by (simp add: kinv_def sched_inv_def)
    then have n1: "card (tasks s1) \<le> 201" using n s(3,4) by simp
    obtain s' where "k_sched_add_ready p s1 = Inr s'" "kinv s' bl {#} E" "sched_frame s1 s'" "\<forall>q. q \<noteq> p \<longrightarrow> tds s' q = tds s1 q"
      "mset (ready s') = add_mset p (mset (ready s1))"
      using k_add_ready [OF k1 n1] by blast
    then show ?thesis using s sched_frameD(4,5,15) [of s1 s'] sched_frame_tdD(5,8) [of s1 s' p]
      by (intro disjI2 exI [of _ s1] exI [of _ s'] exI [of _ p]) simp
  qed blast
qed

lemma gs_init_pgmgr: "k_gs_init now s = Inr s' \<Longrightarrow> pgmgr s' = pgmgr s"
  by (auto simp: k_gs_init_def k_tmgr_init_def slab_create_def slab_alloc_init_def k_sched_init_def pgmgr_def upd_alloc_def Let_def
      bindR_def c_assert_def split: sum.splits if_splits prod.splits)

lemma k_main_ok:
  assumes sp: "spare (pgmgr s) (k + 7)" and g: "gpio_ok (gpio s)" and h: "length (heap_array (task_heap s)) = K_SCHED_HEAP_CAPACITY"
    and e: "length (encoders (encoder_mgr s)) = ENCODER_MAX"
  shows "\<exists>s' i u n. k_main now a1 a2 s = Inr (Some s') \<and> loop_inv s' \<and> idle_task s' = i \<and> tasks s' = {i, u, n} \<and> distinct [i, u, n] \<and>
     td_tid (tds s' i) = 0 \<and> td_tid (tds s' u) = 1 \<and> td_tid (tds s' n) = 2 \<and> mset (ready s') = {#u, n#} \<and> spare (pgmgr s') k \<and> next_tid s' = 3"
proof -
  obtain H where own: "mgr_owns (pgmgr s) H" using spare_owns [OF sp] by blast
  have "k + 7 = Suc (k + 6)" by simp
  then have "spare (pgmgr s) (Suc (k + 6))" using sp by metis
  then obtain pm a where al: "pg_alloc_page 12 0 (pgmgr s) = Inr (pm, a)" "a \<noteq> NULL" "spare pm (k + 6)"
    using spare_alloc [of "pgmgr s" "k + 6" 12 0] by auto
  then have a: "pg_alloc_page 12 0 (pgmgr s) = Inr (pm, a)" "a \<noteq> NULL" "mgr_owns pm (insert a H)"
    using mgr_alloc_any [OF own, of 12 0] by auto
  define s1 where "s1 = (set_pgmgr pm s)\<lparr>slabmgr := (slabmgr (set_pgmgr pm s))\<lparr>slab_alloc_n := 0\<rparr>\<rparr>"
  have b: "k_bootstrap_slab s = Inr s1" using a by (simp add: k_bootstrap_slab_def Let_def s1_def)
  have f1: "pgmgr s1 = pm" "slab_alloc_n (slabmgr s1) = 0" "gpio s1 = gpio s" "task_heap s1 = task_heap s" "encoder_mgr s1 = encoder_mgr s"
    by (simp_all add: s1_def set_pgmgr_def pgmgr_def)
  obtain g' us' where ui: "uart_init 2 115200 (gpio s1, uart_regs s1) = Inr (g', us')" "gpio_ok g'"
    using uart_init_total [of "gpio s1" "uart_regs s1"] g f1 by auto
  let ?s2 = "s1\<lparr>gpio := g', uart_regs := us'\<rparr>"
  have "mgr_owns (pgmgr ?s2) (insert a H)" using a(3) f1(1) by (simp add: pgmgr_def)
  then obtain s3 where s3: "k_gs_init now ?s2 = Inr s3" "kinv0 s3 [[], [], [], []] {#} (insert a H)" "tasks s3 = {}" "next_tid s3 = 0" "ready s3 = []"
    using gs_init_ok [of ?s2 "insert a H" now] f1 ui(2) h e by auto
  note pre = b ui(1) s3(1)
  have sp3: "spare (pgmgr s3) ((k + 4) + 2)" using gs_init_pgmgr [OF s3(1)] al(3) f1 by (simp add: pgmgr_def add.commute)
  have nt3: "next_tid s3 \<noteq> - 1" using s3(4) by simp
  from spawn_ok [OF s3(2) nt3, of 20 idle_task_addr NULL 0] show ?thesis
  proof (elim disjE exE conjE)
    fix s4 assume "spawn 20 idle_task_addr NULL 0 s3 = Inr (s4, None)"
    then show ?thesis using spawn_spare [OF s3(2) sp3, of 20 idle_task_addr NULL 0] by simp
  next
    fix s4 i
    assume s4: "spawn 20 idle_task_addr NULL 0 s3 = Inr (s4, Some i)" "kinv0 s4 [[], [], [], []] (add_mset i {#}) (insert a H)"
      "tasks s4 = insert i (tasks s3)" "next_tid s4 = next_tid s3 + 1" "td_tid (tds s4 i) = next_tid s3" "td_state (tds s4 i) = READY"
      "ready s4 = ready s3"
    let ?s5 = "s4\<lparr>idle_task := i\<rparr>"
    have "tasks ?s5 = tasks s4" "ready ?s5 = ready s4" "sched_heads ?s5 = sched_heads s4" "queue ?s5 p = queue s4 p" "dev_ok ?s5 = dev_ok s4"
      "tids_ok ?s5 = tids_ok s4" "stacks ?s5 = stacks s4" for p
      by (simp_all add: tasks_def ready_def sched_heads_def queue_def dev_ok_def tids_ok_def stacks_def)
    then have k5: "kinv ?s5 [[], [], [], []] {#} (insert a H)" and t5: "tasks ?s5 = {i}" "ready ?s5 = []" "next_tid ?s5 = 1"
      using s4 s3(3,4,5) by (simp_all add: kinv_kinv0 kinv0_def places_def ipc_inv_def kmem_def)
    have nt5: "next_tid ?s5 \<noteq> - 1" "card (tasks ?s5) \<le> 200" using t5 by simp_all
    have "spare (pgmgr s4) (k + 4)" using spawn_spare [OF s3(2) sp3, of 20 idle_task_addr NULL 0] s4(1) by simp
    moreover have "pgmgr ?s5 = pgmgr s4" "(k + 2) + 2 = k + 4" by (simp_all add: pgmgr_def)
    ultimately have sp5: "spare (pgmgr ?s5) ((k + 2) + 2)" by metis
    note k05 = kinv_kinv0 [THEN iffD1, OF k5, THEN conjunct1]
    from spawn_ready_ok [OF k5 nt5, of 0 load_elf_addr a1 19] show ?thesis
    proof (elim disjE exE conjE)
      fix s6 assume "spawn 0 load_elf_addr a1 19 ?s5 = Inr (s6, None)"
      then show ?thesis using spawn_spare [OF k05 sp5, of 0 load_elf_addr a1 19] by simp
    next
      fix s6 s7 u
      assume s7: "spawn 0 load_elf_addr a1 19 ?s5 = Inr (s6, Some u)" "k_sched_add_ready u s6 = Inr s7" "kinv s7 [[], [], [], []] {#} (insert a H)"
        "u \<notin> tasks ?s5" "tasks s7 = insert u (tasks ?s5)" "next_tid s7 = next_tid ?s5 + 1" "td_tid (tds s7 u) = next_tid ?s5"
        "\<forall>r. r \<noteq> u \<longrightarrow> tds s7 r = tds ?s5 r" "mset (ready s7) = add_mset u (mset (ready ?s5))" "idle_task s7 = idle_task ?s5"
      have nt7: "next_tid s7 \<noteq> - 1" "card (tasks s7) \<le> 200" using t5 s7(5,6) by (simp_all add: card_insert_if)
      have "spare (pgmgr s7) (k + 2)"
        using spawn_spare [OF k05 sp5, of 0 load_elf_addr a1 19] s7(1) add_ready_pgmgr [OF s7(2)] by (elim exE conjE) (simp only: prod.inject sum.inject option.inject)
      note sp7 = spawn_spare [OF kinv_kinv0 [THEN iffD1, OF s7(3), THEN conjunct1] this]
      from spawn_ready_ok [OF s7(3) nt7, of 0 load_elf_addr a2 20] show ?thesis
      proof (elim disjE exE conjE)
        fix s8 assume "spawn 0 load_elf_addr a2 20 s7 = Inr (s8, None)"
        then show ?thesis using sp7 [of 0 load_elf_addr a2 20] by simp
      next
        fix s8 s9 n
        assume s9: "spawn 0 load_elf_addr a2 20 s7 = Inr (s8, Some n)" "k_sched_add_ready n s8 = Inr s9" "kinv s9 [[], [], [], []] {#} (insert a H)"
          "n \<notin> tasks s7" "tasks s9 = insert n (tasks s7)" "next_tid s9 = next_tid s7 + 1" "td_tid (tds s9 n) = next_tid s7"
          "\<forall>r. r \<noteq> n \<longrightarrow> tds s9 r = tds s7 r" "mset (ready s9) = add_mset n (mset (ready s7))" "idle_task s9 = idle_task s7"
        have "spare (pgmgr s9) k" using sp7 [of 0 load_elf_addr a2 20] s9(1) add_ready_pgmgr [OF s9(2)] by simp
        moreover have "k_main now a1 a2 s = Inr (Some s9)" using pre s4(1) s7(1,2) s9(1,2) by (simp add: k_main_def)
        moreover have T: "tasks s9 = {i, u, n}" "distinct [i, u, n]" using t5 s7(4,5) s9(4,5) by auto
        moreover have "card (tasks s9) \<le> MAX_TASKS" unfolding T(1) by (simp add: card_insert_if)
        then have "loop_inv s9" using s9(3) by (auto simp: loop_inv_def)
        moreover have "td_tid (tds s9 i) = 0" "td_tid (tds s9 u) = 1" "td_tid (tds s9 n) = 2"
          using T(2) s9(7,8) s7(6-8) s4(4,5) s3(4) by auto
        moreover have "mset (ready s9) = {#u, n#}" "idle_task s9 = i" using s9(9,10) s7(9,10) t5(2) by simp_all
        moreover have "next_tid s9 = 3" using s9(6) s7(6) t5(3) by simp
        ultimately show ?thesis by blast
      qed
    qed
  qed
qed

end
