(* ===== verification/Rendezvous.thy ===== *)
theory Rendezvous
  imports KRun
begin

text \<open>
  What the message calls mean: an abstract kernel of task ids, the phase each task is in and the senders
  waiting at each task. Every system call of the kernel is a step of it, and \<open>Send\<close>, \<open>Receive\<close> and
  \<open>Reply\<close> compose to a remote call.
\<close>

section \<open>The abstract kernel\<close>

datatype phase = Runnable | SendBlocked | ReceiveBlocked | ReplyBlocked | EventBlocked u32

record ipc =
  mode :: "u64 \<Rightarrow> phase option"
  inbox :: "u64 \<Rightarrow> u64 list"

fun a_send :: "u64 \<Rightarrow> u64 \<Rightarrow> ipc \<Rightarrow> ipc" where
  "a_send cur t a =
     (case mode a t of
        None \<Rightarrow> a
      | Some ReceiveBlocked \<Rightarrow> a\<lparr>mode := (mode a)(cur \<mapsto> ReplyBlocked, t \<mapsto> Runnable)\<rparr>
      | Some _ \<Rightarrow> a\<lparr>mode := (mode a)(cur \<mapsto> SendBlocked), inbox := (inbox a)(t := inbox a t @ [cur])\<rparr>)"

fun a_recv :: "u64 \<Rightarrow> ipc \<Rightarrow> ipc" where
  "a_recv cur a =
     (case inbox a cur of
        [] \<Rightarrow> a\<lparr>mode := (mode a)(cur \<mapsto> ReceiveBlocked)\<rparr>
      | x # xs \<Rightarrow> a\<lparr>mode := (mode a)(x \<mapsto> ReplyBlocked), inbox := (inbox a)(cur := xs)\<rparr>)"

fun a_reply :: "u64 \<Rightarrow> ipc \<Rightarrow> ipc" where
  "a_reply t a = (if mode a t = Some ReplyBlocked then a\<lparr>mode := (mode a)(t \<mapsto> Runnable)\<rparr> else a)"

text \<open>One call of task \<open>cur\<close>. \<open>Create\<close> may fail, and then changes nothing here.\<close>

inductive a_step :: "syscall \<Rightarrow> u64 \<Rightarrow> ipc \<Rightarrow> ipc \<Rightarrow> bool" where
  a_send: "a_step (Send t m l r rl) cur a (a_send cur (scast t) a)"
| a_recv: "a_step (Recv t m l) cur a (a_recv cur a)"
| a_reply: "a_step (Reply t r l) cur a (a_reply (scast t) a)"
| a_await: "a_step (AwaitEvent i) cur a (a\<lparr>mode := (mode a)(cur \<mapsto> EventBlocked i)\<rparr>)"
| a_exit: "a_step Exit cur a (a\<lparr>mode := (mode a)(cur := None), inbox := (inbox a)(cur := [])\<rparr>)"
| a_create: "mode a t = None \<Longrightarrow> a_step (Create p args l) cur a (a\<lparr>mode := (mode a)(t \<mapsto> Runnable), inbox := (inbox a)(t := [])\<rparr>)"
| a_create_fails: "a_step (Create p args l) cur a a"
| a_yield: "a_step Yield cur a a"
| a_my_tid: "a_step MyTid cur a a"
| a_parent: "a_step MyParentTid cur a a"
| a_mmap: "a_step (Mmap p l) cur a a"
| a_health: "a_step (SysHealth t p) cur a a"
| a_enc_init: "a_step (EncoderInit x y) cur a a"
| a_enc_get: "a_step (EncoderGet i p) cur a a"

section \<open>Abstraction\<close>

definition phase_of :: "u32 \<Rightarrow> phase" where
  "phase_of v =
     (if v = SEND_BLOCKED then SendBlocked else if v = RECEIVE_BLOCKED then ReceiveBlocked
      else if v = REPLY_BLOCKED then ReplyBlocked else if IS_EVENT_BLOCKED v then EventBlocked v else Runnable)"

definition tid_of :: "kState \<Rightarrow> ptr \<Rightarrow> u64" where
  "tid_of s p = td_tid (tds s p)"

definition abs_ipc :: "kState \<Rightarrow> ipc" where
  "abs_ipc s =
     \<lparr>mode = (\<lambda>t. map_option (\<lambda>p. phase_of (td_state (tds s p))) (map_tid s t)),
      inbox = (\<lambda>t. case map_tid s t of None \<Rightarrow> [] | Some p \<Rightarrow> map (tid_of s) (queue s p))\<rparr>"

lemma phase_of_simps [simp]:
  "phase_of READY = Runnable" "phase_of SEND_BLOCKED = SendBlocked" "phase_of RECEIVE_BLOCKED = ReceiveBlocked"
  "phase_of REPLY_BLOCKED = ReplyBlocked" "IS_EVENT_BLOCKED i \<Longrightarrow> phase_of i = EventBlocked i"
  by (auto simp: phase_of_def)

lemma phase_of_eq [simp]:
  "phase_of v = ReceiveBlocked \<longleftrightarrow> v = RECEIVE_BLOCKED" "phase_of v = ReplyBlocked \<longleftrightarrow> v = REPLY_BLOCKED"
  by (auto simp: phase_of_def)

lemma tid_iff: "tids_ok s \<Longrightarrow> map_tid s t = Some p \<Longrightarrow> q \<in> tasks s \<Longrightarrow> t = tid_of s q \<longleftrightarrow> p = q"
  by (auto simp: tids_ok_def tid_of_def tasks_def ran_def)

lemma tid_same: "tids_ok s \<Longrightarrow> tids_ok s' \<Longrightarrow> map_tid s' = map_tid s \<Longrightarrow> p \<in> tasks s \<Longrightarrow> tid_of s' p = tid_of s p"
  by (auto simp: tids_ok_def tid_of_def tasks_def ran_def)

lemma map_tid_tid: "tids_ok s \<Longrightarrow> p \<in> tasks s \<Longrightarrow> map_tid s (tid_of s p) = Some p"
  by (auto simp: tids_ok_def tid_of_def tasks_def ran_def)

lemma queue_tasks:
  assumes k: "kinv s bl L E" and p: "p \<in> tasks s" shows "set (queue s p) \<subseteq> tasks s"
proof -
  have "set (queue s p) \<subseteq> set (bl ! 1)" using k p by (simp add: kinv_def ipc_inv_def)
  moreover have "places s bl (add_mset (idle_task s) L)" using k by (simp add: kinv_kinv0 kinv0_def)
  moreover from this have "length bl = 4" by (simp add: places_def)
  then have "set (bl ! 1) \<subseteq> set (concat bl)" by (auto intro!: bexI [of _ "bl ! 1"])
  ultimately show ?thesis using places_mem(2) by blast
qed

lemma abs_same:
  assumes "map_tid s' = map_tid s" "\<And>p. td_state (tds s' p) = td_state (tds s p)" "\<And>p. tid_of s' p = tid_of s p" "\<And>p. queue s' p = queue s p"
  shows "abs_ipc s' = abs_ipc s"
proof -
  have "tid_of s' = tid_of s" using assms(3) by (rule ext)
  then show ?thesis using assms by (auto simp: abs_ipc_def fun_eq_iff split: option.split)
qed

lemma abs_core: "same_core s s' \<Longrightarrow> abs_ipc s' = abs_ipc s"
  by (rule abs_same) (simp_all add: same_coreD tid_of_def)

text \<open>How phases and inboxes change when the set of tasks stays.\<close>

lemma abs_change:
  assumes k: "kinv s bl L E" and k': "kinv s' bl' L' E'" and m: "map_tid s' = map_tid s"
    and ph: "\<And>t p. map_tid s t = Some p \<Longrightarrow> f t = Some (phase_of (td_state (tds s' p)))" "\<And>t. map_tid s t = None \<Longrightarrow> f t = None"
    and ib: "\<And>t p. map_tid s t = Some p \<Longrightarrow> g t = map (tid_of s) (queue s' p)" "\<And>t. map_tid s t = None \<Longrightarrow> g t = []"
  shows "abs_ipc s' = \<lparr>mode = f, inbox = g\<rparr>"
proof -
  have t: "tids_ok s" "tids_ok s'" using k k' by (simp_all add: kinv_def)
  have "map (tid_of s') (queue s' p) = map (tid_of s) (queue s' p)" if "map_tid s u = Some p" for u p
  proof -
    have "p \<in> tasks s'" using tid_task [of s' u p] that m by simp
    then have "set (queue s' p) \<subseteq> tasks s" using queue_tasks [OF k'] m by (simp add: tasks_def)
    then show ?thesis using tid_same [OF t m] by auto
  qed
  then have "inbox (abs_ipc s') = g" by (intro ext) (simp add: abs_ipc_def m ib split: option.split)
  moreover have "mode (abs_ipc s') = f"
  proof
    fix u show "mode (abs_ipc s') u = f u" by (cases "map_tid s u") (simp_all add: abs_ipc_def m ph)
  qed
  ultimately show ?thesis by simp
qed

section \<open>Which operations leave the queues alone\<close>

lemma queue_upd: "(\<And>x. sender_waitqueue (mailbox (f x)) = sender_waitqueue (mailbox x)) \<Longrightarrow> queue (upd_td q f s) p = queue s p"
  by (simp add: queue_def mbox_queue_def upd_td_def)

lemma queue_cong: "tds s' = tds s \<Longrightarrow> queue s' p = queue s p"
  by (simp add: queue_def)

lemma queue_waits:
  "k_sched_add_reply_wait td s = Inr s' \<Longrightarrow> queue s' p = queue s p" "k_sched_remove_reply_wait td s = Inr s' \<Longrightarrow> queue s' p = queue s p"
  "k_sched_remove_recv_wait td s = Inr s' \<Longrightarrow> queue s' p = queue s p" "k_sched_remove_send_wait td s = Inr s' \<Longrightarrow> queue s' p = queue s p"
  "k_sched_add_recv_wait td s = Inr s' \<Longrightarrow> queue s' p = queue s p" "k_sched_add_event_wait td i s = Inr s' \<Longrightarrow> queue s' p = queue s p"
  by (auto simp: k_sched_add_reply_wait_def k_sched_remove_reply_wait_def k_sched_remove_recv_wait_def k_sched_remove_send_wait_def
      k_sched_add_recv_wait_def k_sched_add_event_wait_def bindR_def c_assert_def set_state_def queue_def upd_td_def split: sum.splits if_splits)

lemma queue_add_ready: "k_sched_add_ready td s = Inr s' \<Longrightarrow> queue s' p = queue s p"
  by (auto simp: k_sched_add_ready_def heap_insert_def heap_insert_u_def bindR_def returns_def set_state_def queue_def upd_td_def task_set_insert_val_def
      Let_def split: sum.splits if_splits option.splits)

lemmas queue_keep = queue_waits queue_add_ready

lemma deliver_queue: "queue (deliver r q s) p = queue s p"
  by (rule same_coreD(2) [OF deliver_core])

lemma send_init_queue: "queue (upd_mbox (k_mbox_send_init a l r rl) q s) p = queue s p"
  by (rule same_coreD(2) [OF same_core_simps(4)])

lemma send_delivers_queue:
  assumes c: "kg_current_td s = Some cur" and r: "map_tid s (scast t) = Some r" and st: "td_state (tds s r) = RECEIVE_BLOCKED"
    and s: "k_send_handler t msg len rep rl s = Inr s'"
  shows "queue s' p = queue s p"
proof -
  have st1: "td_state (tds (upd_mbox (k_mbox_send_init msg len rep rl) cur s) r) = RECEIVE_BLOCKED"
    using same_coreD(4) [OF same_core_simps(4)] st by simp
  show ?thesis
    using s c r st1
    by (auto simp: k_send_handler_def current_td_def deref_def k_task_mgr_get_task_dsp_def bindR_def Let_def deliver_queue send_init_queue
        queue_cong [of "s\<lparr>kg_current_td := None\<rparr>" s for s] dest!: queue_keep [where p = p] split: sum.splits)
qed

lemma reply_queue:
  assumes c: "kg_current_td s = Some cur" and s: "k_reply_handler t rep rl s = Inr s'"
  shows "queue s' p = queue s p"
proof -
  have q: "queue (set_retval v x s) p = queue s p" for v x s by (rule same_coreD(2) [OF same_core_simps(1)])
  show ?thesis
    using s c
    by (auto simp: k_reply_handler_def current_td_def deref_def bindR_def Let_def q queue_cong [of "s\<lparr>mem := m\<rparr>" s for s m]
        dest!: queue_keep [where p = p] split: sum.splits option.splits if_splits)
qed

lemma recv_queue:
  assumes k: "kinv s bl {#cur#} E" and c: "kg_current_td s = Some cur" and s: "k_recv_handler a m l s = Inr s'" and p: "p \<noteq> cur"
  shows "queue s' p = queue s p"
proof -
  have q: "queue (upd_mbox f cur s) p = queue s p" for f s using p by (simp add: upd_mbox_def queue_def upd_td_def)
  show ?thesis
    using s c
    by (auto simp: k_recv_handler_def current_td_def deref_def bindR_def Let_def q deliver_queue queue_cong [of "s\<lparr>kg_current_td := None\<rparr>" s for s]
        dest!: queue_keep [where p = p] split: sum.splits option.splits prod.splits)
qed

lemma send_queues_state:
  assumes c: "kg_current_td s = Some cur" and r: "map_tid s (scast t) = Some x" and st: "td_state (tds s x) \<noteq> RECEIVE_BLOCKED"
    and s: "k_send_handler t m l r rl s = Inr s'"
  shows "td_state (tds s' x) = (if x = cur then SEND_BLOCKED else td_state (tds s x))"
  using s c r st
  by (auto simp: k_send_handler_def current_td_def deref_def k_task_mgr_get_task_dsp_def bindR_def Let_def k_sched_add_send_wait_def
      set_state_def upd_td_def upd_mbox_def split: sum.splits prod.splits)

section \<open>Every call is a step of the abstract kernel\<close>

lemma abs_phase: "mode (abs_ipc s) t = map_option (\<lambda>p. phase_of (td_state (tds s p))) (map_tid s t)"
  by (simp add: abs_ipc_def)

lemma abs_inbox: "map_tid s t = Some p \<Longrightarrow> inbox (abs_ipc s) t = map (tid_of s) (queue s p)" "map_tid s t = None \<Longrightarrow> inbox (abs_ipc s) t = []"
  by (simp_all add: abs_ipc_def)

lemma send_refines:
  assumes k: "kinv s bl {#cur#} E" and c: "kg_current_td s = Some cur" and run: "td_state (tds s cur) = READY"
    and n: "card (tasks s) \<le> MAX_TASKS" and s: "k_send_handler t m l r rl s = Inr s'"
  shows "abs_ipc s' = a_send (tid_of s cur) (scast t) (abs_ipc s)"
proof -
  have ti: "tids_ok s" "cur \<in> tasks s" using k running(1) [OF k] by (simp_all add: kinv_def)
  show ?thesis
  proof (cases "map_tid s (scast t)")
    case None
    then have "s' = set_retval (- 1) cur s" using send_no_task [OF c None] s by simp
    then show ?thesis using None abs_core [OF same_core_simps(1)] by (simp add: abs_phase)
  next
    case (Some x)
    note xt = tid_iff [OF ti(1)]
    have xT: "x \<in> tasks s" by (rule tid_task [OF Some])
    then have tx: "tid_of s x = scast t" using xt [OF Some, of x] by simp
    show ?thesis
    proof (cases "td_state (tds s x) = RECEIVE_BLOCKED")
      case True
      have n': "card (tasks s) \<le> 201" using n by simp
      obtain bl' where d: "kinv s' bl' {#} E" "map_tid s' = map_tid s" "td_state (tds s' x) = READY" "td_state (tds s' cur) = REPLY_BLOCKED"
        "\<forall>p. p \<noteq> x \<and> p \<noteq> cur \<longrightarrow> tds s' p = tds s p"
        using send_delivers [OF k c run n' Some True, of m l r rl] s by auto
      have "abs_ipc s' = \<lparr>mode = (mode (abs_ipc s))(tid_of s cur \<mapsto> ReplyBlocked, scast t \<mapsto> Runnable), inbox = inbox (abs_ipc s)\<rparr>"
      proof (rule abs_change [OF k d(1,2)], goal_cases)
        case (1 u p)
        then show ?case using xt [OF 1 ti(2)] xt [OF 1 xT] d(3-5) by (auto simp: abs_phase tx)
      next
        case (2 u)
        then show ?case using Some map_tid_tid [OF ti] by (auto simp: abs_phase)
      qed (simp_all add: abs_inbox send_delivers_queue [OF c Some True s])
      then show ?thesis using True Some by (simp add: abs_phase)
    next
      case False
      have "length (queue s x) < 64" by (rule queue_bound [OF k n xT])
      then obtain bl' where d: "kinv s' bl' {#} E" "map_tid s' = map_tid s" "td_state (tds s' cur) = SEND_BLOCKED"
        "queue s' x = queue s x @ [cur]" "\<forall>p. p \<noteq> x \<longrightarrow> queue s' p = queue s p" "\<forall>p. p \<noteq> x \<and> p \<noteq> cur \<longrightarrow> tds s' p = tds s p"
        "td_state (tds s' x) = (if x = cur then SEND_BLOCKED else td_state (tds s x))"
        using send_queues(2) [OF k c run Some False, of m l r rl] s send_queues_state [OF c Some False s] by auto
      have "abs_ipc s' = \<lparr>mode = (mode (abs_ipc s))(tid_of s cur \<mapsto> SendBlocked),
           inbox = (inbox (abs_ipc s))(scast t := inbox (abs_ipc s) (scast t) @ [tid_of s cur])\<rparr>"
      proof (rule abs_change [OF k d(1,2)], goal_cases)
        case (1 u p)
        then show ?case using xt [OF 1 ti(2)] d(3,6,7) by (cases "p = x") (auto simp: abs_phase)
      next
        case (2 u)
        then show ?case using map_tid_tid [OF ti] by (auto simp: abs_phase)
      next
        case (3 u p)
        then show ?case using xt [OF 3 xT] d(4,5) Some by (auto simp: abs_inbox tx)
      next
        case (4 u)
        then show ?case using Some by (auto simp: abs_inbox)
      qed
      then show ?thesis using False Some by (auto simp: abs_phase split: phase.split)
    qed
  qed
qed

lemma recv_refines:
  assumes k: "kinv s bl {#cur#} E" and c: "kg_current_td s = Some cur" and run: "td_state (tds s cur) = READY"
    and n: "card (tasks s) \<le> MAX_TASKS" and s: "k_recv_handler a m l s = Inr s'"
  shows "abs_ipc s' = a_recv (tid_of s cur) (abs_ipc s)"
proof -
  have ti: "tids_ok s" "cur \<in> tasks s" using k running(1) [OF k] by (simp_all add: kinv_def)
  note xt = tid_iff [OF ti(1)] and mc = map_tid_tid [OF ti]
  have n': "card (tasks s) \<le> 201" using n by simp
  show ?thesis
  proof (cases "queue s cur")
    case Nil
    obtain bl' where d: "kinv s' bl' {#} E" "map_tid s' = map_tid s" "td_state (tds s' cur) = RECEIVE_BLOCKED"
      "\<forall>p. p \<noteq> cur \<longrightarrow> tds s' p = tds s p"
      using recv_blocks [OF k c Nil, of a m l] s by auto
    have q: "queue s' p = queue s p" for p
    proof (cases "p = cur")
      case True
      obtain bl'' where b: "kinv s' (bl''[0 := bl'' ! 0 @ [cur]]) {#} E" "length bl'' = 4"
        using recv_blocks [OF k c Nil, of a m l] s k by (auto simp: kinv_def sched_inv_def)
      then have "cur \<in> set ((bl''[0 := bl'' ! 0 @ [cur]]) ! 0)" by simp
      then have "queue s' cur = []" using b(1) by (simp add: kinv_def ipc_inv_def)
      then show ?thesis using Nil True by simp
    qed (use recv_queue [OF k c s] in auto)
    have "abs_ipc s' = \<lparr>mode = (mode (abs_ipc s))(tid_of s cur \<mapsto> ReceiveBlocked), inbox = inbox (abs_ipc s)\<rparr>"
    proof (rule abs_change [OF k d(1,2)], goal_cases)
      case (1 u p)
      then show ?case using xt [OF 1 ti(2)] d(3,4) by (auto simp: abs_phase)
    next
      case (2 u)
      then show ?case using mc by (auto simp: abs_phase)
    qed (simp_all add: abs_inbox q)
    then show ?thesis using Nil mc by (simp add: abs_inbox)
  next
    case (Cons x xs)
    obtain bl' where d: "kinv s' bl' {#} E" "map_tid s' = map_tid s" "td_state (tds s' cur) = READY" "td_state (tds s' x) = REPLY_BLOCKED"
      "queue s' cur = xs" "\<forall>p. p \<noteq> cur \<and> p \<noteq> x \<longrightarrow> tds s' p = tds s p"
      using recv_takes [OF k c Cons n', of a m l] s by auto
    have xT: "x \<in> tasks s" using queue_tasks [OF k ti(2)] Cons by auto
    note mx = map_tid_tid [OF ti(1) xT]
    have xc: "x \<noteq> cur" using d(3,4) by auto
    have "abs_ipc s' = \<lparr>mode = (mode (abs_ipc s))(tid_of s x \<mapsto> ReplyBlocked), inbox = (inbox (abs_ipc s))(tid_of s cur := map (tid_of s) xs)\<rparr>"
    proof (rule abs_change [OF k d(1,2)], goal_cases)
      case (1 u p)
      then show ?case using xt [OF 1 xT] d(3,4,6) run by (cases "p = cur") (auto simp: abs_phase)
    next
      case (2 u)
      then show ?case using mx by (auto simp: abs_phase)
    next
      case (3 u p)
      then show ?case using xt [OF 3 ti(2)] d(5) recv_queue [OF k c s, of p] by (auto simp: abs_inbox)
    next
      case (4 u)
      then show ?case using mc by (auto simp: abs_inbox)
    qed
    then show ?thesis using Cons mc by (simp add: abs_inbox)
  qed
qed

lemma reply_refines:
  assumes k: "kinv s bl {#cur#} E" and c: "kg_current_td s = Some cur" and run: "td_state (tds s cur) = READY"
    and n: "card (tasks s) \<le> MAX_TASKS" and s: "k_reply_handler t r l s = Inr s'"
  shows "abs_ipc s' = a_reply (scast t) (abs_ipc s)"
proof -
  have ti: "tids_ok s" "cur \<in> tasks s" using k running(1) [OF k] by (simp_all add: kinv_def)
  show ?thesis
  proof (cases "map_tid s (scast t)")
    case None
    then show ?thesis using reply_errors(1) [OF c None, of r l] s abs_core [OF same_core_simps(1)] by (auto simp: abs_phase)
  next
    case (Some x)
    show ?thesis
    proof (cases "td_state (tds s x) = REPLY_BLOCKED")
      case False
      then show ?thesis using reply_errors(2) [OF c Some, of r l] s Some abs_core [OF same_core_simps(1)] by (auto simp: abs_phase)
    next
      case True
      have n': "card (tasks s) \<le> 201" using n by simp
      obtain bl' where d: "kinv s' bl' {#cur#} E" "map_tid s' = map_tid s" "td_state (tds s' x) = READY" "td_state (tds s' cur) = READY"
        "\<forall>p. p \<noteq> cur \<and> p \<noteq> x \<longrightarrow> tds s' p = tds s p"
        using reply_ok [OF k c run n' Some True, of r l] s by auto
      have xT: "x \<in> tasks s" by (rule tid_task [OF Some])
      have tx: "tid_of s x = scast t" using tid_iff [OF ti(1) Some, of x] xT by simp
      have "abs_ipc s' = \<lparr>mode = (mode (abs_ipc s))(scast t \<mapsto> Runnable), inbox = inbox (abs_ipc s)\<rparr>"
      proof (rule abs_change [OF k d(1,2)], goal_cases)
        case (1 u p)
        then show ?case using tid_iff [OF ti(1) 1 xT] d(3-5) run by (cases "p = cur") (auto simp: abs_phase tx)
      next
        case (2 u)
        then show ?case using Some by (auto simp: abs_phase)
      qed (simp_all add: abs_inbox reply_queue [OF c s])
      then show ?thesis using True Some by (simp add: abs_phase)
    qed
  qed
qed

lemma await_refines:
  assumes k: "kinv s bl {#cur#} E" and c: "kg_current_td s = Some cur" and v: "IS_EVENT_BLOCKED i" and s: "k_await_event_handler i s = Inr s'"
  shows "abs_ipc s' = (abs_ipc s)\<lparr>mode := (mode (abs_ipc s))(tid_of s cur \<mapsto> EventBlocked i)\<rparr>"
proof -
  have ti: "tids_ok s" "cur \<in> tasks s" using k running(1) [OF k] by (simp_all add: kinv_def)
  obtain bl' where d: "kinv s' bl' {#} E" "map_tid s' = map_tid s" "tds s' = (tds s)(cur := (tds s cur)\<lparr>td_state := i\<rparr>)"
    using await_ok [OF k c v] s by auto
  have q: "queue s' p = queue s p" for p by (simp add: queue_def d(3))
  have "abs_ipc s' = \<lparr>mode = (mode (abs_ipc s))(tid_of s cur \<mapsto> EventBlocked i), inbox = inbox (abs_ipc s)\<rparr>"
  proof (rule abs_change [OF k d(1,2)], goal_cases)
    case (1 u p)
    then show ?case using tid_iff [OF ti(1) 1 ti(2)] d(3) v by (auto simp: abs_phase)
  next
    case (2 u)
    then show ?case using map_tid_tid [OF ti] by (auto simp: abs_phase)
  qed (simp_all add: abs_inbox q)
  then show ?thesis by simp
qed

lemma exit_refines:
  assumes k: "kinv s bl {#cur#} E" and c: "kg_current_td s = Some cur" and s: "k_exit_handler s = Inr s'"
  shows "abs_ipc s' = (abs_ipc s)\<lparr>mode := (mode (abs_ipc s))(tid_of s cur := None), inbox := (inbox (abs_ipc s))(tid_of s cur := [])\<rparr>"
proof -
  have m: "map_tid s' = (map_tid s)(tid_of s cur := None)"
    using s c by (auto simp: k_exit_handler_def k_tmgr_destroy_task_def current_td_def deref_def bindR_def Let_def set_pgmgr_def tid_of_def
        split: sum.splits)
  have t: "tds s' = tds s" using exit_ok [OF k c] s by auto
  show ?thesis by (rule ipc.equality) (auto simp: abs_ipc_def m t tid_of_def queue_def fun_eq_iff split: option.split)
qed

lemma create_refines:
  assumes k: "kinv s bl {#cur#} E" and c: "kg_current_td s = Some cur" and run: "td_state (tds s cur) = READY"
    and n: "card (tasks s) \<le> 200" and v: "k_sched_priority_is_valid prio" and nt: "next_tid s \<noteq> - 1"
    and s: "k_create_handler prio args len s = Inr s'"
  shows "a_step (Create prio args len) (tid_of s cur) (abs_ipc s) (abs_ipc s')"
proof -
  have t: "tids_ok s" using k by (simp add: kinv_def)
  obtain kk: "kinv s' bl {#cur#} E" and cases:
    "map_tid s' = map_tid s \<and> tds s' = (tds s)(cur := (tds s cur)\<lparr>syscall_retval := - 2\<rparr>) \<or>
     (\<exists>p. p \<notin> tasks s \<and> map_tid s' = (map_tid s)(next_tid s := Some p) \<and> tds s' cur = (tds s cur)\<lparr>syscall_retval := next_tid s\<rparr> \<and>
        (\<forall>q. q \<noteq> p \<and> q \<noteq> cur \<longrightarrow> tds s' q = tds s q) \<and> td_state (tds s' p) = READY \<and> queue s' p = [])"
    using create_ok [OF k c run n v nt, of args len] s by auto
  from cases show ?thesis
  proof (elim disjE exE conjE)
    assume "map_tid s' = map_tid s" "tds s' = (tds s)(cur := (tds s cur)\<lparr>syscall_retval := - 2\<rparr>)"
    then have "abs_ipc s' = abs_ipc s" by (intro abs_same) (simp_all add: tid_of_def queue_def)
    then show ?thesis by (simp add: a_create_fails)
  next
    fix p
    assume p: "p \<notin> tasks s" "map_tid s' = (map_tid s)(next_tid s := Some p)" "tds s' cur = (tds s cur)\<lparr>syscall_retval := next_tid s\<rparr>"
      "\<forall>q. q \<noteq> p \<and> q \<noteq> cur \<longrightarrow> tds s' q = tds s q" "td_state (tds s' p) = READY" "queue s' p = []"
    have old: "td_state (tds s' q) = td_state (tds s q)" "tid_of s' q = tid_of s q" "queue s' q = queue s q" if "q \<noteq> p" for q
      using that p(3,4) by (cases "q = cur"; simp add: tid_of_def queue_def)+
    have ne: "q \<noteq> p" if "map_tid s t = Some q" for t q using tid_task [OF that] p(1) by blast
    have qp: "map (tid_of s') (queue s q) = map (tid_of s) (queue s q)" if "map_tid s t = Some q" for t q
    proof (rule map_cong [OF refl])
      fix x assume "x \<in> set (queue s q)"
      then have "x \<in> tasks s" using queue_tasks [OF k tid_task [OF that]] by blast
      then show "tid_of s' x = tid_of s x" using old(2) p(1) by metis
    qed
    have "abs_ipc s' = (abs_ipc s)\<lparr>mode := (mode (abs_ipc s))(next_tid s \<mapsto> Runnable), inbox := (inbox (abs_ipc s))(next_tid s := [])\<rparr>"
    proof (rule ipc.equality)
      show "mode (abs_ipc s') = mode ((abs_ipc s)\<lparr>mode := (mode (abs_ipc s))(next_tid s \<mapsto> Runnable), inbox := (inbox (abs_ipc s))(next_tid s := [])\<rparr>)"
      proof
        fix u show "mode (abs_ipc s') u = mode ((abs_ipc s)\<lparr>mode := (mode (abs_ipc s))(next_tid s \<mapsto> Runnable), inbox := (inbox (abs_ipc s))(next_tid s := [])\<rparr>) u"
          using p(2,5) old(1) ne by (cases "map_tid s u") (auto simp: abs_phase)
      qed
      show "inbox (abs_ipc s') = inbox ((abs_ipc s)\<lparr>mode := (mode (abs_ipc s))(next_tid s \<mapsto> Runnable), inbox := (inbox (abs_ipc s))(next_tid s := [])\<rparr>)"
      proof
        fix u show "inbox (abs_ipc s') u = inbox ((abs_ipc s)\<lparr>mode := (mode (abs_ipc s))(next_tid s \<mapsto> Runnable), inbox := (inbox (abs_ipc s))(next_tid s := [])\<rparr>) u"
          using p(2,6) old(3) ne [of u] qp [of u] by (cases "map_tid s u") (auto simp: abs_ipc_def)
      qed
    qed simp
    moreover have "mode (abs_ipc s) (next_tid s) = None" using tids_next [OF t] by (simp add: abs_phase)
    ultimately show ?thesis using a_create by metis
  qed
qed

lemma other_refines:
  assumes c: "kg_current_td s = Some cur" and s: "do_syscall call s = Inr s'"
    and q: "call \<in> {Yield, MyTid, MyParentTid, Mmap p l, SysHealth t h, EncoderInit x y, EncoderGet i e}"
  shows "abs_ipc s' = abs_ipc s"
proof (rule abs_same)
  have d: "map_tid s' = map_tid s \<and> (\<forall>r. td_state (tds s' r) = td_state (tds s r) \<and> tid_of s' r = tid_of s r \<and> mailbox (tds s' r) = mailbox (tds s r))"
    using q
  proof (elim insertE emptyE)
    assume "call = Mmap p l"
    then show ?thesis using s c
      by (auto simp: k_mmap_handler_def bindR_def current_td_def deref_def set_retval_def upd_td_def set_pgmgr_def tid_of_def Let_def split: sum.splits)
  next
    assume "call = SysHealth t h"
    then show ?thesis using s c
      by (auto simp: k_sys_health_def bindR_def current_td_def deref_def set_retval_def upd_td_def tid_of_def Let_def split: sum.splits if_splits)
  next
    assume "call = EncoderInit x y"
    then show ?thesis using s c
      by (auto simp: k_quadrature_encoder_init_def bindR_def current_td_def deref_def set_retval_def upd_td_def tid_of_def Let_def split: sum.splits)
  next
    assume "call = EncoderGet i e"
    then show ?thesis using s c
      by (auto simp: k_quadrature_encoder_get_def bindR_def current_td_def deref_def set_retval_def upd_td_def tid_of_def Let_def split: option.splits)
  next
    assume "call = MyParentTid"
    then show ?thesis using s c
      by (auto simp: k_my_parent_tid_handler_def bindR_def c_assert_def current_td_def deref_def set_retval_def upd_td_def tid_of_def Let_def split: if_splits)
  next
    assume "call = MyTid"
    then show ?thesis using s c
      by (auto simp: k_my_tid_handler_def bindR_def c_assert_def current_td_def deref_def set_retval_def upd_td_def tid_of_def split: if_splits)
  next
    assume "call = Yield"
    then show ?thesis using s by simp
  qed
  then show "map_tid s' = map_tid s" "td_state (tds s' r) = td_state (tds s r)" "tid_of s' r = tid_of s r" "queue s' r = queue s r" for r
    by (simp_all add: queue_def)
qed

lemma syscalls_refine:
  assumes k: "kinv s bl {#cur#} E" and c: "kg_current_td s = Some cur" and run: "td_state (tds s cur) = READY"
    and n: "card (tasks s) \<le> MAX_TASKS" and ok: "call_ok call s"
  shows "\<exists>s'. do_syscall call s = Inr s' \<and> a_step call (tid_of s cur) (abs_ipc s) (abs_ipc s')"
proof -
  obtain s' where s': "do_syscall call s = Inr s'" using syscall_handled [OF k c run n ok] by blast
  have n': "card (tasks s) \<le> 200" using n by simp
  note oth = other_refines [OF c s']
  have "a_step call (tid_of s cur) (abs_ipc s) (abs_ipc s')"
  proof (cases call)
    case (Send t m l r rl)
    then show ?thesis using send_refines [OF k c run n, of t m l r rl s'] s' a_step.a_send by simp
  next
    case (Recv t m l)
    then show ?thesis using recv_refines [OF k c run n, of t m l s'] s' a_step.a_recv by simp
  next
    case (Reply t r l)
    then show ?thesis using reply_refines [OF k c run n, of t r l s'] s' a_step.a_reply by simp
  next
    case (AwaitEvent i)
    then show ?thesis using await_refines [OF k c, of i s'] s' ok a_step.a_await by simp
  next
    case Exit
    then show ?thesis using exit_refines [OF k c, of s'] s' a_step.a_exit by simp
  next
    case (Create p a l)
    then show ?thesis using create_refines [OF k c run n', of p a l s'] s' ok by simp
  qed (use oth in \<open>simp_all add: a_step.intros\<close>)
  then show ?thesis using s' by blast
qed

section \<open>Dispatching\<close>

lemma dispatch:
  assumes k: "kinv s bl {#} E" and r: "mset (ready s) = add_mset x M"
  shows "\<exists>p s1. k_loop_enter now (it, s) = (it, s1) \<and> kinv s1 bl {#p#} E \<and> kg_current_td s1 = Some p \<and> tds s1 = tds s \<and> map_tid s1 = map_tid s \<and>
     slabmgr s1 = slabmgr s \<and> next_tid s1 = next_tid s \<and> mem s1 = mem s \<and> mset (ready s) = add_mset p (mset (ready s1)) \<and>
     td_state (tds s p) = READY \<and> p \<in> set (ready s) \<and>
     (\<forall>r\<in>set (ready s). \<not> cmp_keys_task_dsp (priority_key (tds s r)) (priority_key (tds s p)))"
proof -
  have i: "sched_inv s bl {#}" using k by (simp add: kinv_def)
  have ne: "ready s \<noteq> []" using r by auto
  then obtain p s1 where g: "k_sched_get_next s = (Some p, s1)" "sched_inv s1 bl (add_mset p {#})" "sched_frame s s1" "tds s1 = tds s"
      "mset (ready s) = add_mset p (mset (ready s1))"
      "\<forall>r\<in>set (ready s). \<not> cmp_keys_task_dsp (priority_key (tds s r)) (priority_key (tds s p))"
    using get_next_ok [OF i] by blast
  let ?s = "s1\<lparr>kg_current_td := Some p\<rparr>"
  have k1: "kinv s1 bl {#p#} E" by (rule kinv_frame [OF k g(3,2)]) auto
  have k2: "kinv ?s bl {#p#} E" by (rule kinv_core [OF same_core_simps(3) k1]) (use k1 in \<open>simp add: kinv_def\<close>)
  have p: "p \<in> set (ready s)" using g(5) by (metis set_mset_mset union_single_eq_member)
  then have "td_state (tds s p) = READY" using i by (simp add: sched_inv_def)
  then show ?thesis using g k2 p sched_frameD(1,2,5,6) [OF g(3)]
    by (intro exI [of _ p] exI [of _ ?s]) (simp add: k_loop_enter_def ready_def)
qed

section \<open>A remote call\<close>

text \<open>
  \<open>Send\<close> to a task that waits in \<open>Receive\<close>, when nothing else is ready: the receiver runs next, with
  the message, and its \<open>Reply\<close> makes the sender ready with the answer.
\<close>

lemma remote_call:
  assumes k: "kinv s bl {#cur#} E" and c: "kg_current_td s = Some cur" and run: "td_state (tds s cur) = READY"
    and n: "card (tasks s) \<le> 201" and r: "map_tid s (scast t) = Some r" and st: "td_state (tds s r) = RECEIVE_BLOCKED"
    and u: "map_tid s (scast u) = Some cur" and alone: "ready s = []"
  shows "\<exists>s1 s2 s3. k_send_handler t msg len rep rl s = Inr s1 \<and> k_loop_enter now (it, s1) = (it, s2) \<and> kg_current_td s2 = Some r \<and>
     syscall_retval (tds s2 r) = len \<and>
     mem s2 = store32 (in_tid (mailbox (tds s r))) (ucast (td_tid (tds s cur)))
       (util_memcpy (in_buf (mailbox (tds s r))) msg (min (in_buf_len (mailbox (tds s r))) len) (mem s)) \<and>
     k_reply_handler u ans al s2 = Inr s3 \<and> mem s3 = util_memcpy rep ans (min al rl) (mem s2) \<and>
     syscall_retval (tds s3 cur) = al \<and> syscall_retval (tds s3 r) = min al rl \<and> td_state (tds s3 cur) = READY \<and>
     ready s3 = [cur] \<and> kg_current_td s3 = Some r"
proof -
  obtain s1 bl1 where s1: "k_send_handler t msg len rep rl s = Inr s1" "kinv s1 bl1 {#} E" "map_tid s1 = map_tid s"
    "mem s1 = store32 (in_tid (mailbox (tds s r))) (ucast (td_tid (tds s cur)))
       (util_memcpy (in_buf (mailbox (tds s r))) msg (min (in_buf_len (mailbox (tds s r))) len) (mem s))"
    "syscall_retval (tds s1 r) = len" "mset (ready s1) = add_mset r (mset (ready s))" "td_state (tds s1 r) = READY"
    "td_state (tds s1 cur) = REPLY_BLOCKED" "in_buf (mailbox (tds s1 cur)) = rep" "in_buf_len (mailbox (tds s1 cur)) = rl"
    using send_delivers [OF k c run n r st, of msg len rep rl] by auto
  obtain p s2 where s2: "k_loop_enter now (it, s1) = (it, s2)" "kinv s2 bl1 {#p#} E" "kg_current_td s2 = Some p" "tds s2 = tds s1"
    "map_tid s2 = map_tid s1" "mem s2 = mem s1" "mset (ready s1) = add_mset p (mset (ready s2))"
    using dispatch [OF s1(2,6)] by blast
  have p: "p = r" "ready s2 = []" using s2(7) s1(6) alone by simp_all
  have n2: "card (tasks s2) \<le> 201" using n s1(3) s2(5) by (simp add: tasks_def)
  have run2: "td_state (tds s2 p) = READY" "map_tid s2 (scast u) = Some cur" "td_state (tds s2 cur) = REPLY_BLOCKED"
    using s1(3,7,8) s2(4,5) p u by simp_all
  obtain s3 where s3: "k_reply_handler u ans al s2 = Inr s3" "kg_current_td s3 = Some p"
    "mem s3 = util_memcpy (in_buf (mailbox (tds s2 cur))) ans (min al (in_buf_len (mailbox (tds s2 cur)))) (mem s2)"
    "syscall_retval (tds s3 cur) = al" "syscall_retval (tds s3 p) = min al (in_buf_len (mailbox (tds s2 cur)))"
    "td_state (tds s3 cur) = READY" "mset (ready s3) = add_mset cur (mset (ready s2))"
    using reply_ok [OF s2(2,3) run2(1) n2 run2(2,3), of ans al] by auto
  have "ready s3 = [cur]" using s3(7) p(2) by simp
  then show ?thesis using s1 s2 s3 p by (intro exI [of _ s1] exI [of _ s2] exI [of _ s3]) simp
qed

end
