(* ===== verification/KWitness.thy ===== *)
theory KWitness
  imports KBoot BootMem Rendezvous
begin

text \<open>
  A concrete machine: sixteen pages of memory, from which \<open>k_main\<close> boots, and kernel states in which its
  operations can be seen at work.
\<close>

section \<open>The machine\<close>

lemma dvd_room:
  assumes "2 ^ k dvd x" "0 < x" "x < (2::nat) ^ n"
  shows "x + 2 ^ k \<le> 2 ^ n"
proof -
  have "2 ^ k \<le> x" using assms by (simp add: dvd_imp_le)
  then have "(2::nat) ^ k < 2 ^ n" using assms(3) by (rule le_less_trans)
  then have "k < n" by (rule nat_power_less_imp_less [rotated]) simp
  then have "(2::nat) ^ k dvd 2 ^ n" by (intro le_imp_power_dvd) simp
  then have "2 ^ k dvd 2 ^ n - x" using assms(1) by simp
  then have "2 ^ k \<le> 2 ^ n - x" using assms(3) by (intro dvd_imp_le) simp_all
  then show ?thesis using assms(3) by simp
qed

lemma machine_pages:
  "one_seg 0x40000000 0x41000000 16" "rest_single (unat (drop_bit PG_SFT (0x40000000 :: u64))) (mgr_pages 16) 16"
proof -
  show "one_seg 0x40000000 0x41000000 16"
    unfolding one_seg_def by simp
  have m: "mgr_pages 16 = 1" by (simp add: mgr_pages_def)
  have f: "unat (drop_bit PG_SFT (0x40000000 :: u64)) = 1024" by (simp add: unat_drop)
  have "\<not> (\<exists>k\<le>PGMGR_MAXLVL. 2 ^ k dvd 1024 + x \<and> 16 < x + (2::nat) ^ k)" if x: "1 \<le> x" "x < 16" for x :: nat
  proof (intro notI, elim exE conjE)
    fix k :: nat assume k: "k \<le> PGMGR_MAXLVL" "2 ^ k dvd 1024 + x" "16 < x + 2 ^ k"
    have "(2::nat) ^ k dvd 2 ^ 10" using k(1) by (intro le_imp_power_dvd) simp
    then have "2 ^ k dvd x" using k(2) by (simp add: dvd_add_right_iff)
    then show False using dvd_room [of k x 4] x k(3) by simp
  qed
  then show "rest_single (unat (drop_bit PG_SFT (0x40000000 :: u64))) (mgr_pages 16) 16"
    unfolding m f rest_single_def by blast
qed

lemma machine_spare: "\<exists>m. spare m 15"
proof -
  have "mgr_pages 16 = 1" by (simp add: mgr_pages_def)
  then obtain m fl where "pm_ok m fl {}" "covered (fblocks fl) = run 0 1 16"
    "roots m = [\<lparr>pr_root = 0x40000070, pr_start = 0x40000000, pr_end = 0x41000000\<rparr>]"
    using pg_init_one [OF machine_pages, of undefined undefined] by auto
  moreover have "card (run 0 1 16) = 15" by (simp add: run_def)
  ultimately show ?thesis unfolding spare_def by force
qed

text \<open>The machine before \<open>k_main\<close>.\<close>

definition board :: "kState \<Rightarrow> bool" where
  "board s \<longleftrightarrow> spare (pgmgr s) 15 \<and> gpio_ok (gpio s) \<and> length (heap_array (task_heap s)) = K_SCHED_HEAP_CAPACITY \<and>
     length (encoders (encoder_mgr s)) = ENCODER_MAX"

lemma board_ex: "\<exists>s. board s"
proof -
  obtain m where m: "spare m 15" using machine_spare by blast
  define g :: GPIO where "g = undefined\<lparr>GPFSEL := replicate 6 0, GPSET := [0, 0], GPCLR := [0, 0], GPLEV := [0, 0], GPEDS := [0, 0],
    GPREN := [0, 0], GPFEN := [0, 0], PUP_PDN_CNTRL_REG := replicate 4 0\<rparr>"
  define s :: kState where "s = undefined\<lparr>slabmgr := undefined\<lparr>source := m\<rparr>, gpio := g,
    task_heap := heap_init (replicate K_SCHED_HEAP_CAPACITY 0) 0, encoder_mgr := undefined\<lparr>encoders := replicate ENCODER_MAX undefined\<rparr>\<rparr>"
  have "board s" using m by (simp add: board_def s_def g_def gpio_ok_def pgmgr_def heap_init_def)
  then show ?thesis by blast
qed

lemma board_boots:
  assumes "board s"
  shows "\<exists>s' i u n. k_main now a1 a2 s = Inr (Some s') \<and> loop_inv s' \<and> idle_task s' = i \<and> tasks s' = {i, u, n} \<and> distinct [i, u, n] \<and>
     td_tid (tds s' i) = 0 \<and> td_tid (tds s' u) = 1 \<and> td_tid (tds s' n) = 2 \<and> mset (ready s') = {#u, n#} \<and> spare (pgmgr s') 8 \<and> next_tid s' = 3"
  using assms k_main_ok [of s 8 now a1 a2] unfolding board_def by simp

section \<open>States of the running kernel\<close>

text \<open>The machine just after \<open>k_main\<close>, with the first task running.\<close>

lemma boot_state:
  "\<exists>s bl E i u n. kinv s bl {#} E \<and> loop_inv s \<and> bl = [[], [], [], []] \<and> tasks s = {i, u, n} \<and> distinct [i, u, n] \<and> idle_task s = i \<and>
     mset (ready s) = {#u, n#} \<and> spare (pgmgr s) 8 \<and> next_tid s = 3 \<and> map_tid s 1 = Some u \<and> map_tid s 2 = Some n \<and>
     td_tid (tds s u) = 1 \<and> td_tid (tds s n) = 2"
proof -
  obtain b where b: "board b" using board_ex by blast
  obtain s i u n where s: "loop_inv s" "idle_task s = i" "tasks s = {i, u, n}" "distinct [i, u, n]" "td_tid (tds s u) = 1"
    "td_tid (tds s n) = 2" "mset (ready s) = {#u, n#}" "spare (pgmgr s) 8" "next_tid s = 3"
    using board_boots [OF b, of 0 0 0] by blast
  obtain bl E where k: "kinv s bl {#} E" using s(1) by (auto simp: loop_inv_def)
  have i: "sched_inv s bl {#}" "tids_ok s" using k by (simp_all add: kinv_def)
  have "mset (ready s) + mset (concat bl) + {#i#} = {#i, u, n#}"
    using i(1) s(2,3,4) by (simp add: sched_inv_def)
  then have "concat bl = []" using s(7) by simp
  moreover have "length bl = 4" using i(1) by (simp add: sched_inv_def)
  ultimately have bl: "bl = [[], [], [], []]" by (auto simp: length_Suc_conv numeral_eq_Suc)
  have tid: "map_tid s (td_tid (tds s p)) = Some p" if p: "p \<in> tasks s" for p
  proof -
    obtain t where "map_tid s t = Some p" using p by (auto simp: tasks_def ran_def)
    then show ?thesis using i(2) by (auto simp: tids_ok_def)
  qed
  have "map_tid s 1 = Some u" "map_tid s 2 = Some n" using tid [of u] tid [of n] s(3,5,6) by simp_all
  then show ?thesis using k s bl by blast
qed

text \<open>One task runs, the other is ready.\<close>

definition duo :: "kState \<Rightarrow> ptr list list \<Rightarrow> ptr set \<Rightarrow> ptr \<Rightarrow> ptr \<Rightarrow> u32 \<Rightarrow> u32 \<Rightarrow> bool" where
  "duo s bl E cur oth t u \<longleftrightarrow> kinv s bl {#cur#} E \<and> kg_current_td s = Some cur \<and> td_state (tds s cur) = READY \<and>
     card (tasks s) = 3 \<and> map_tid s (scast t) = Some cur \<and> map_tid s (scast u) = Some oth \<and> cur \<noteq> oth"

lemma duo_start:
  "\<exists>s E cur oth t u. duo s [[], [], [], []] E cur oth t u \<and> ready s = [oth] \<and> td_state (tds s oth) = READY \<and>
     queue s cur = [] \<and> queue s oth = [] \<and> spare (pgmgr s) 8 \<and> next_tid s = 3"
proof -
  obtain s bl E i u n where s: "kinv s bl {#} E" "bl = [[], [], [], []]" "tasks s = {i, u, n}" "distinct [i, u, n]"
    "mset (ready s) = {#u, n#}" "spare (pgmgr s) 8" "next_tid s = 3" "map_tid s 1 = Some u" "map_tid s 2 = Some n"
    using boot_state by blast
  obtain p s1 where p: "kinv s1 bl {#p#} E" "kg_current_td s1 = Some p" "tds s1 = tds s" "map_tid s1 = map_tid s"
    "slabmgr s1 = slabmgr s" "next_tid s1 = next_tid s" "mset (ready s) = add_mset p (mset (ready s1))" "td_state (tds s p) = READY"
    "p \<in> set (ready s)"
    using dispatch [OF s(1,5)] by blast
  have T: "tasks s1 = {i, u, n}" "card (tasks s1) = 3" using p(4) s(3,4) by (simp_all add: tasks_def)
  have q: "queue s1 x = []" if "x \<in> tasks s1" for x
    using p(1) that by (auto simp: kinv_def ipc_inv_def s(2))
  have rd: "td_state (tds s1 x) = READY" if "x \<in> set (ready s1)" for x
    using p(1) that by (simp add: kinv_def sched_inv_def)
  have "p = u \<or> p = n" using p(9) s(5) by (metis insert_iff set_mset_add_mset_insert set_mset_empty set_mset_mset singletonD)
  then show ?thesis
  proof
    assume e: "p = u"
    then have "ready s1 = [n]" using p(7) s(5) by simp
    moreover have "duo s1 bl E u n 1 2" using p s(4,8,9) T e by (auto simp: duo_def)
    ultimately show ?thesis using q [of u] q [of n] rd [of n] p(5,6) s(2,6,7) T(1)
      by (intro exI [of _ s1] exI [of _ E] exI [of _ u] exI [of _ n] exI [of _ 1] exI [of _ 2]) (simp add: pgmgr_def)
  next
    assume e: "p = n"
    then have "mset (ready s1) = {#u#}" using p(7) s(5) by (simp add: add_mset_commute [of u n])
    then have "ready s1 = [u]" by simp
    moreover have "duo s1 bl E n u 2 1" using p s(4,8,9) T e by (auto simp: duo_def)
    ultimately show ?thesis using q [of u] q [of n] rd [of u] p(5,6) s(2,6,7) T(1)
      by (intro exI [of _ s1] exI [of _ E] exI [of _ n] exI [of _ u] exI [of _ 2] exI [of _ 1]) (simp add: pgmgr_def)
  qed
qed

text \<open>The next task after a call that gave up the processor, when only \<open>oth\<close> is ready.\<close>

lemma duo_next:
  assumes d: "duo s bl E cur oth t u" and k: "kinv s' bl' {#} E" and m: "map_tid s' = map_tid s" and r: "mset (ready s') = {#oth#}"
  shows "\<exists>s1. duo s1 bl' E oth cur u t \<and> tds s1 = tds s' \<and> slabmgr s1 = slabmgr s' \<and> ready s1 = []"
proof -
  obtain p s1 where p: "kinv s1 bl' {#p#} E" "kg_current_td s1 = Some p" "tds s1 = tds s'" "map_tid s1 = map_tid s'"
    "slabmgr s1 = slabmgr s'" "mset (ready s') = add_mset p (mset (ready s1))" "td_state (tds s' p) = READY"
    using dispatch [OF k r] by blast
  have "p = oth" using p(6) r by simp
  moreover have "ready s1 = []" using p(6) r by simp
  moreover have "tasks s1 = tasks s" using p(4) m by (simp add: tasks_def)
  ultimately show ?thesis using d p m by (intro exI [of _ s1]) (auto simp: duo_def)
qed

lemma duo_recv: "\<exists>s bl E cur oth t u. duo s bl E cur oth t u \<and> td_state (tds s oth) = RECEIVE_BLOCKED \<and> ready s = []"
proof -
  obtain s E cur oth t u where d: "duo s [[], [], [], []] E cur oth t u" "ready s = [oth]" "queue s cur = []" using duo_start by blast
  then have k: "kinv s [[], [], [], []] {#cur#} E" "kg_current_td s = Some cur" by (simp_all add: duo_def)
  obtain s' bl where s': "kinv s' bl {#} E" "map_tid s' = map_tid s" "ready s' = ready s" "td_state (tds s' cur) = RECEIVE_BLOCKED"
    using recv_blocks [OF k d(3), of 0 0 0] by blast
  have r: "mset (ready s') = {#oth#}" using s'(3) d(2) by simp
  show ?thesis using duo_next [OF d(1) s'(1,2) r] s'(4) by metis
qed

lemma duo_queued: "\<exists>s bl E cur oth t u. duo s bl E cur oth t u \<and> queue s cur = [oth] \<and> ready s = []"
proof -
  obtain s E cur oth t u where d: "duo s [[], [], [], []] E cur oth t u" "ready s = [oth]" "queue s oth = []" "td_state (tds s oth) = READY"
    using duo_start by blast
  then have k: "kinv s [[], [], [], []] {#cur#} E" "kg_current_td s = Some cur" "td_state (tds s cur) = READY"
    "map_tid s (scast u) = Some oth" "td_state (tds s oth) \<noteq> RECEIVE_BLOCKED" by (simp_all add: duo_def)
  have "length (queue s oth) < 64" using d(3) by simp
  then obtain s' bl where s': "kinv s' bl {#} E" "map_tid s' = map_tid s" "ready s' = ready s" "queue s' oth = queue s oth @ [cur]"
    using send_queues(2) [OF k, of 0 0 0 0] by blast
  have r: "mset (ready s') = {#oth#}" using s'(3) d(2) by simp
  obtain s1 where s1: "duo s1 bl E oth cur u t" "tds s1 = tds s'" "ready s1 = []" using duo_next [OF d(1) s'(1,2) r] by blast
  then have "queue s1 oth = [cur]" using s'(4) d(3) by (simp add: queue_def)
  then show ?thesis using s1 by blast
qed

lemma duo_reply: "\<exists>s bl E cur oth t u. duo s bl E cur oth t u \<and> td_state (tds s oth) = REPLY_BLOCKED \<and> ready s = []"
proof -
  obtain s bl E cur oth t u where d: "duo s bl E cur oth t u" "queue s cur = [oth]" "ready s = []" using duo_queued by blast
  then have k: "kinv s bl {#cur#} E" "kg_current_td s = Some cur" "card (tasks s) \<le> 201" by (simp_all add: duo_def)
  obtain s' bl' where s': "kinv s' bl' {#} E" "map_tid s' = map_tid s" "mset (ready s') = add_mset cur (mset (ready s))"
    "td_state (tds s' oth) = REPLY_BLOCKED"
    using recv_takes [OF k(1,2) d(2) k(3), of 0 0 0] by blast
  obtain p s1 where p: "kinv s1 bl' {#p#} E" "kg_current_td s1 = Some p" "tds s1 = tds s'" "map_tid s1 = map_tid s'"
    "mset (ready s') = add_mset p (mset (ready s1))" "td_state (tds s' p) = READY"
    using dispatch [OF s'(1,3)] by blast
  have e: "p = cur" "ready s1 = []" using p(5) s'(3) d(3) by simp_all
  have "tasks s1 = tasks s" using p(4) s'(2) by (simp add: tasks_def)
  then have "duo s1 bl' E cur oth t u" using d(1) p e s'(2) by (simp add: duo_def)
  then show ?thesis using p(3) s'(4) e(2) by metis
qed

lemma waiting: "\<exists>s bl E p. kinv s bl {#} E \<and> card (tasks s) \<le> 201 \<and> p \<in> set (bl ! 3) \<and> td_state (tds s p) = INTR_ID_TIMER"
proof -
  obtain s E cur oth t u where d: "duo s [[], [], [], []] E cur oth t u" using duo_start by blast
  then have k: "kinv s [[], [], [], []] {#cur#} E" "kg_current_td s = Some cur" "card (tasks s) = 3" by (simp_all add: duo_def)
  have "IS_EVENT_BLOCKED INTR_ID_TIMER" by (simp add: IS_EVENT_BLOCKED_def INTR_ID_TIMER_def)
  then obtain s' where s': "kinv s' ([[], [], [], []][3 := [[], [], [], []] ! 3 @ [cur]]) {#} E" "map_tid s' = map_tid s"
    "tds s' = (tds s)(cur := (tds s cur)\<lparr>td_state := INTR_ID_TIMER\<rparr>)"
    using await_ok [OF k(1,2)] by blast
  have "tasks s' = tasks s" using s'(2) by (simp add: tasks_def)
  then have "card (tasks s') \<le> 201" using k(3) by simp
  moreover have "cur \<in> set (([[], [], [], []][3 := [[], [], [], []] ! 3 @ [cur]]) ! 3)" by simp
  moreover have "td_state (tds s' cur) = INTR_ID_TIMER" using s'(3) by simp
  ultimately show ?thesis using s'(1) by blast
qed

text \<open>Mailboxes of any length up to their capacity.\<close>

lemma mbox_fill: "n \<le> 64 \<Longrightarrow> \<exists>b. mbox_ok b \<and> length (mbox_queue b) = n"
proof (induction n)
  case 0
  then show ?case using mbox_init by (intro exI [of _ k_mbox_init]) simp
next
  case (Suc n)
  then obtain b where b: "mbox_ok b" "length (mbox_queue b) = n" by auto
  then have "length (mbox_queue b) < 64" using Suc.prems by simp
  then obtain q where "mbox_ok (b\<lparr>sender_waitqueue := q\<rparr>)" "rb_list q = mbox_queue b @ [0]" using add_send_queue_ok [OF b(1)] by blast
  then show ?case using b(2) by (intro exI [of _ "b\<lparr>sender_waitqueue := q\<rparr>"]) (simp add: mbox_queue_def)
qed

end
