(* ===== verification/Mmu.thy ===== *)
theory Mmu
  imports LeMem Macros
begin

text \<open>
  The translation tables of kernel/src/mmu.c: one table of level 0, one of level 1 and four of level 2,
  in six consecutive pages, that map the first 4 GiB of addresses to themselves in blocks of 2 MiB. The
  tables are words of the byte-addressed memory. \<open>translate\<close> is the walk the processor does over them.
\<close>

section \<open>The code\<close>

definition DATA_BASE :: u64 where "DATA_BASE = 0x00200000"
definition DEVICE_BASE :: u64 where "DEVICE_BASE = 0xFC000000"
definition ENTIRES_PER_TABLE :: u64 where "ENTIRES_PER_TABLE = push_bit 9 1"
definition SECTION_SIZE :: u64 where "SECTION_SIZE = push_bit 21 1"
definition PAGE_SIZE :: u64 where "PAGE_SIZE = push_bit 12 1"
definition PUD_SLICE_SZ :: u64 where "PUD_SLICE_SZ = push_bit 30 1"
definition ID_MAP_TBL_SZ :: u64 where "ID_MAP_TBL_SZ = 6 * PAGE_SIZE"

definition TD_VALID :: u64 where "TD_VALID = 1"
definition TD_TABLE :: u64 where "TD_TABLE = push_bit 1 1"
definition TD_BLOCK :: u64 where "TD_BLOCK = push_bit 1 0"
definition TD_ACCESS :: u64 where "TD_ACCESS = push_bit 10 1"
definition TD_DATA_PERMS :: u64 where "TD_DATA_PERMS = push_bit 6 1"
definition TD_CODE_PERMS :: u64 where "TD_CODE_PERMS = push_bit 6 0"
definition TD_INNER_SHARABLE :: u64 where "TD_INNER_SHARABLE = push_bit 8 3"
definition MATTR_DEVICE_nGnRnE_INDEX :: u64 where "MATTR_DEVICE_nGnRnE_INDEX = 0"
definition MATTR_ALL_CACHE_INDEX :: u64 where "MATTR_ALL_CACHE_INDEX = 3"

definition TD_TABLE_FLAGS :: u64 where "TD_TABLE_FLAGS = TD_TABLE OR TD_VALID"

definition TD_DATA_BLOCK_FLAGS :: u64 where
  "TD_DATA_BLOCK_FLAGS = TD_ACCESS OR TD_INNER_SHARABLE OR TD_DATA_PERMS OR push_bit 2 MATTR_ALL_CACHE_INDEX OR TD_BLOCK OR TD_VALID"

definition TD_DEVICE_BLOCK_FLAGS :: u64 where
  "TD_DEVICE_BLOCK_FLAGS = TD_ACCESS OR TD_INNER_SHARABLE OR TD_DATA_PERMS OR push_bit 2 MATTR_DEVICE_nGnRnE_INDEX OR TD_BLOCK OR TD_VALID"

definition TD_CODE_BLOCK_FLAGS :: u64 where
  "TD_CODE_BLOCK_FLAGS = TD_ACCESS OR TD_INNER_SHARABLE OR TD_CODE_PERMS OR push_bit 2 MATTR_ALL_CACHE_INDEX OR TD_BLOCK OR TD_VALID"

text \<open>\<open>memzero\<close> (boot.S) stores a zero word, then goes on while the rest of the size is positive.\<close>

fun memzero_loop :: "nat \<Rightarrow> ptr \<Rightarrow> memory \<Rightarrow> memory" where
  "memzero_loop 0 addr m = m"
| "memzero_loop (Suc n) addr m = memzero_loop n (addr + 8) (store64 addr 0 m)"

definition memzero :: "ptr \<Rightarrow> u64 \<Rightarrow> memory \<Rightarrow> memory" where
  "memzero addr sz = memzero_loop (if sint sz \<le> 8 then 1 else nat ((sint sz + 7) div 8)) addr"

definition create_table_entry :: "ptr \<Rightarrow> ptr \<Rightarrow> u64 \<Rightarrow> nat \<Rightarrow> u64 \<Rightarrow> memory \<Rightarrow> memory" where
  "create_table_entry tbl tbl_next va shift flags m =
     (let tbl_idx = drop_bit shift va AND (ENTIRES_PER_TABLE - 1) in
      store64 (tbl + push_bit 3 tbl_idx) (tbl_next OR flags) m)"

definition block_descriptor :: "u64 \<Rightarrow> u64" where
  "block_descriptor pa =
     (if pa \<ge> DEVICE_BASE then pa OR TD_DEVICE_BLOCK_FLAGS
      else if pa < DATA_BASE then pa OR TD_CODE_BLOCK_FLAGS
      else pa OR TD_DATA_BLOCK_FLAGS)"

partial_function (option) block_loop :: "ptr \<Rightarrow> u64 \<Rightarrow> u64 \<Rightarrow> u64 \<Rightarrow> memory \<Rightarrow> memory option" where
  "block_loop pmd vstart vend pa m =
     (let m' = store64 (pmd + push_bit 3 vstart) (block_descriptor pa) m in
      if vstart + 1 \<le> vend then block_loop pmd (vstart + 1) vend (pa + SECTION_SIZE) m' else Some m')"

definition create_block_entry :: "ptr \<Rightarrow> u64 \<Rightarrow> u64 \<Rightarrow> u64 \<Rightarrow> memory \<Rightarrow> memory option" where
  "create_block_entry pmd vstart vend pa m =
     block_loop pmd (drop_bit 21 vstart AND (ENTIRES_PER_TABLE - 1))
       ((drop_bit 21 vend - 1) AND (ENTIRES_PER_TABLE - 1)) (push_bit 21 (drop_bit 21 pa)) m"

fun pud_loop :: "nat \<Rightarrow> nat \<Rightarrow> ptr \<Rightarrow> ptr \<Rightarrow> memory \<Rightarrow> memory option" where
  "pud_loop 0 i tbl tbl_next m = Some m"
| "pud_loop (Suc n) i tbl tbl_next m =
     (let offset = PUD_SLICE_SZ * of_nat i in
      case create_block_entry tbl_next offset (offset + PUD_SLICE_SZ) offset (create_table_entry tbl tbl_next offset 30 TD_TABLE_FLAGS m) of
        None \<Rightarrow> None
      | Some m' \<Rightarrow> pud_loop n (Suc i) tbl (tbl_next + PAGE_SIZE) m')"

definition create_page_tables :: "ptr \<Rightarrow> memory \<Rightarrow> memory option" where
  "create_page_tables id_pgd m =
     (let m = memzero id_pgd ID_MAP_TBL_SZ m;
          tbl = id_pgd; tbl_next = tbl + PAGE_SIZE;
          m = create_table_entry tbl tbl_next 0 39 TD_TABLE_FLAGS m
      in pud_loop 4 0 (tbl + PAGE_SIZE) (tbl_next + PAGE_SIZE) m)"

section \<open>The walk of the processor\<close>

text \<open>
  Stage 1 of the AArch64 translation with a granule of 4 KiB and 48-bit addresses (\<open>TCR_EL1_VAL\<close> of boot.S
  sets \<open>T0SZ\<close> to 16): nine bits of the address index the table of each level; bit 0 of an entry makes it
  valid, bit 1 a table; an entry of level 1 or 2 without bit 1 is a block, one of level 3 with bit 1 a page. The
  result is the physical address and the attributes, the low 12 bits of the last entry.
\<close>

fun walk :: "memory \<Rightarrow> nat \<Rightarrow> ptr \<Rightarrow> u64 \<Rightarrow> (u64 \<times> u64) option" where
  "walk m n tbl va =
     (let sh = 12 + 9 * n;
          e = load64 (tbl + push_bit 3 (take_bit 9 (drop_bit sh va))) m;
          out = push_bit 12 (take_bit 36 (drop_bit 12 e))
      in if \<not> bit e 0 then None
         else if n = 0 then
           if bit e 1 then Some (push_bit 12 (drop_bit 12 out) OR take_bit 12 va, take_bit 12 e) else None
         else if bit e 1 then walk m (n - 1) out va
         else if n = 3 then None
         else Some (push_bit sh (drop_bit sh out) OR take_bit sh va, take_bit 12 e))"

definition translate :: "memory \<Rightarrow> ptr \<Rightarrow> u64 \<Rightarrow> (u64 \<times> u64) option" where
  "translate m ttbr va = (if unat va < 2 ^ 48 then walk m 3 ttbr va else None)"

text \<open>What each region may be used for.\<close>

definition attributes :: "u64 \<Rightarrow> u64" where
  "attributes va = (if va \<ge> DEVICE_BASE then TD_DEVICE_BLOCK_FLAGS else if va < DATA_BASE then TD_CODE_BLOCK_FLAGS else TD_DATA_BLOCK_FLAGS)"

section \<open>Words of the tables\<close>

definition word_at :: "ptr \<Rightarrow> nat \<Rightarrow> ptr" where
  "word_at b k = b + of_nat (8 * k)"

definition slot :: "ptr \<Rightarrow> memory \<Rightarrow> nat \<Rightarrow> u64" where
  "slot b m k = load64 (word_at b k) m"

lemma word_at_add: "word_at (word_at b j) k = word_at b (j + k)"
  by (simp add: word_at_def)

lemma word_at_index: "b + push_bit 3 (of_nat k) = word_at b k"
  by (simp add: word_at_def push_bit_eq_mult)

lemma word_at_offset:
  assumes "x < 8" "8 * j + 8 \<le> 2 ^ 64" "unat (a - word_at b j) = x"
  shows "unat (a - b) = 8 * j + x"
proof -
  have "a - b = of_nat (8 * j) + (a - word_at b j)" by (simp add: word_at_def)
  also have "a - word_at b j = of_nat x" using assms(3) by auto
  finally have "a - b = of_nat (8 * j + x)" by (metis of_nat_add)
  moreover have "unat (of_nat (8 * j + x) :: u64) = 8 * j + x" by (rule unat_of_nat_small) (use assms in simp)
  ultimately show ?thesis by metis
qed

lemma slot_store:
  assumes "j < 2 ^ 60" "k < 2 ^ 60"
  shows "slot b (store64 (word_at b j) v m) k = (if j = k then v else slot b m k)"
proof (cases "j = k")
  case False
  have "region (word_at b j) 8 \<inter> region (word_at b k) 8 = {}"
  proof (rule ccontr)
    assume "\<not> ?thesis"
    then obtain a where a: "unat (a - word_at b j) < 8" "unat (a - word_at b k) < 8"
      by (auto simp: region_def)
    have "unat (a - b) = 8 * j + unat (a - word_at b j)" "unat (a - b) = 8 * k + unat (a - word_at b k)"
      using word_at_offset [OF a(1) _ refl] word_at_offset [OF a(2) _ refl] assms by simp_all
    then show False using a False by presburger
  qed
  then show ?thesis using False by (simp add: slot_def load64_other)
qed (simp add: slot_def)

text \<open>Stores inside the tables change nothing outside.\<close>

lemma store_inside:
  assumes "8 * j + 8 \<le> sz" "sz < 2 ^ 64" "a \<notin> region b sz"
  shows "store64 (word_at b j) v m a = m a"
proof (rule store64_frame)
  show "a \<notin> region (word_at b j) 8"
    using word_at_offset [of "unat (a - word_at b j)" j a b] assms by (auto simp: region_def)
qed

text \<open>The state of the tables: the entries in use, and the rest of the memory.\<close>

definition tables :: "ptr \<Rightarrow> memory \<Rightarrow> (nat \<Rightarrow> u64) \<Rightarrow> memory \<Rightarrow> bool" where
  "tables b m0 f m \<longleftrightarrow> (\<forall>k<3072. slot b m k = f k) \<and> (\<forall>a. a \<notin> region b 24576 \<longrightarrow> m a = m0 a)"

lemma tables_store:
  assumes "tables b m0 f m" "j < 3072"
  shows "tables b m0 (f(j := v)) (store64 (word_at b j) v m)"
proof -
  have "slot b (store64 (word_at b j) v m) k = (f(j := v)) k" if "k < 3072" for k
    using assms that slot_store [of j k b v m] by (simp add: tables_def)
  moreover have "store64 (word_at b j) v m a = m a" if "a \<notin> region b 24576" for a
    by (rule store_inside [OF _ _ that]) (use assms in simp_all)
  ultimately show ?thesis using assms(1) by (simp add: tables_def)
qed

lemma memzero_loop_tables:
  "j + n \<le> 3072 \<Longrightarrow> \<forall>k<j. slot b m k = 0 \<Longrightarrow> \<forall>a. a \<notin> region b 24576 \<longrightarrow> m a = m0 a \<Longrightarrow>
   (\<forall>k<j + n. slot b (memzero_loop n (word_at b j) m) k = 0) \<and>
   (\<forall>a. a \<notin> region b 24576 \<longrightarrow> memzero_loop n (word_at b j) m a = m0 a)"
proof (induction n arbitrary: j m)
  case (Suc n)
  let ?m = "store64 (word_at b j) 0 m"
  have nxt: "word_at b j + 8 = word_at b (Suc j)" by (simp add: word_at_def)
  have z: "\<forall>k<Suc j. slot b ?m k = 0"
    using Suc.prems slot_store [of j _ b 0 m] by (auto simp: less_Suc_eq)
  have fr: "\<forall>a. a \<notin> region b 24576 \<longrightarrow> ?m a = m0 a"
    using Suc.prems store_inside [of j 24576 _ b 0 m] by auto
  show ?case using Suc.IH [OF _ z fr] Suc.prems(1) by (simp add: nxt)
qed simp

lemma memzero_tables: "tables b m (\<lambda>_. 0) (memzero b ID_MAP_TBL_SZ m)"
proof -
  have "ID_MAP_TBL_SZ = 24576" by (simp add: ID_MAP_TBL_SZ_def PAGE_SIZE_def)
  moreover have "sint (24576 :: u64) = 24576" by (simp add: sint_uint signed_take_bit_int_eq_self)
  ultimately have "memzero b ID_MAP_TBL_SZ = memzero_loop 3072 b" by (simp add: memzero_def fun_eq_iff)
  moreover have "word_at b 0 = b" by (simp add: word_at_def)
  ultimately show ?thesis using memzero_loop_tables [of 0 3072 b m m] by (simp add: tables_def)
qed

section \<open>The entries written\<close>

lemma block_loop_tables:
  "tables b m0 f m \<Longrightarrow> a + n = 511 \<Longrightarrow> t + 512 \<le> 3072 \<Longrightarrow>
   \<exists>m'. block_loop (word_at b t) (of_nat a) 511 pa m = Some m' \<and>
     tables b m0 (\<lambda>k. if t + a \<le> k \<and> k < t + 512 then block_descriptor (pa + of_nat (k - (t + a)) * SECTION_SIZE) else f k) m'"
proof (induction n arbitrary: a pa f m)
  case 0
  let ?f = "f(t + a := block_descriptor pa)"
  have s: "tables b m0 ?f (store64 (word_at b (t + a)) (block_descriptor pa) m)"
    by (rule tables_store [OF 0(1)]) (use 0 in simp)
  have "(\<lambda>k. if t + a \<le> k \<and> k < t + 512 then block_descriptor (pa + of_nat (k - (t + a)) * SECTION_SIZE) else f k) = ?f"
    using 0 by (auto simp: fun_eq_iff)
  moreover have "\<not> of_nat a + 1 \<le> (511 :: u64)" using 0 by simp
  ultimately show ?case using s
    by (subst block_loop.simps) (simp add: word_at_index word_at_add Let_def)
next
  case (Suc n)
  let ?f = "f(t + a := block_descriptor pa)"
  have s: "tables b m0 ?f (store64 (word_at b (t + a)) (block_descriptor pa) m)"
    by (rule tables_store [OF Suc.prems(1)]) (use Suc.prems in simp)
  obtain m' where m': "block_loop (word_at b t) (of_nat (Suc a)) 511 (pa + SECTION_SIZE) (store64 (word_at b (t + a)) (block_descriptor pa) m) = Some m'"
    "tables b m0 (\<lambda>k. if t + Suc a \<le> k \<and> k < t + 512 then block_descriptor (pa + SECTION_SIZE + of_nat (k - (t + Suc a)) * SECTION_SIZE) else ?f k) m'"
    using Suc.IH [OF s, of "Suc a" "pa + SECTION_SIZE"] Suc.prems by auto
  have "block_descriptor (pa + SECTION_SIZE + of_nat (k - (t + Suc a)) * SECTION_SIZE) = block_descriptor (pa + of_nat (k - (t + a)) * SECTION_SIZE)"
    if "t + Suc a \<le> k" for k
  proof -
    have "(of_nat (k - (t + a)) :: u64) = of_nat (Suc (k - (t + Suc a)))" using that by (metis Suc_diff_le add_Suc_right diff_Suc_Suc)
    then show ?thesis by (simp add: algebra_simps)
  qed
  then have "(\<lambda>k. if t + Suc a \<le> k \<and> k < t + 512 then block_descriptor (pa + SECTION_SIZE + of_nat (k - (t + Suc a)) * SECTION_SIZE) else ?f k) =
      (\<lambda>k. if t + a \<le> k \<and> k < t + 512 then block_descriptor (pa + of_nat (k - (t + a)) * SECTION_SIZE) else f k)"
    using Suc.prems(2) by (auto simp: fun_eq_iff)
  moreover have "of_nat (Suc a) \<le> (511 :: u64)"
    using Suc.prems(2) by (simp add: word_le_nat_alt unat_of_nat_small del: of_nat_Suc)
  ultimately show ?case using m'
    by (subst block_loop.simps) (simp add: word_at_index word_at_add Let_def add.commute)
qed

lemma page_at: "word_at b k + PAGE_SIZE = word_at b (k + 512)"
  by (simp add: word_at_def PAGE_SIZE_def)

lemma pud_step:
  assumes t: "tables b m0 f m" and i: "i < 4"
  shows "\<exists>m'. create_block_entry (word_at b (1024 + 512 * i)) (PUD_SLICE_SZ * of_nat i) (PUD_SLICE_SZ * of_nat i + PUD_SLICE_SZ) (PUD_SLICE_SZ * of_nat i)
      (create_table_entry (word_at b 512) (word_at b (1024 + 512 * i)) (PUD_SLICE_SZ * of_nat i) 30 TD_TABLE_FLAGS m) = Some m' \<and>
     tables b m0 (\<lambda>k. if 1024 + 512 * i \<le> k \<and> k < 1024 + 512 * i + 512 then block_descriptor (of_nat (k - 1024) * SECTION_SIZE)
       else if k = 512 + i then word_at b (1024 + 512 * i) OR TD_TABLE_FLAGS else f k) m'"
proof -
  have c: "i = 0 \<or> i = 1 \<or> i = 2 \<or> i = 3" using i by auto
  let ?o = "PUD_SLICE_SZ * of_nat i" and ?t = "1024 + 512 * i"
  let ?m1 = "store64 (word_at b (512 + i)) (word_at b ?t OR TD_TABLE_FLAGS) m"
  have e1: "drop_bit 30 ?o AND (ENTIRES_PER_TABLE - 1) = of_nat i"
    and e2: "drop_bit 21 ?o AND (ENTIRES_PER_TABLE - 1) = of_nat 0"
    and e3: "(drop_bit 21 (?o + PUD_SLICE_SZ) - 1) AND (ENTIRES_PER_TABLE - 1) = 511"
    and e4: "push_bit 21 (drop_bit 21 ?o) = ?o"
    and e5: "?o = of_nat (512 * i) * SECTION_SIZE"
    using c by (auto simp: PUD_SLICE_SZ_def ENTIRES_PER_TABLE_def SECTION_SIZE_def)
  have t1: "tables b m0 (f(512 + i := word_at b ?t OR TD_TABLE_FLAGS)) ?m1"
    by (rule tables_store [OF t]) (use i in simp)
  obtain m' where m': "block_loop (word_at b ?t) (of_nat 0) 511 ?o ?m1 = Some m'"
    "tables b m0 (\<lambda>k. if ?t + 0 \<le> k \<and> k < ?t + 512 then block_descriptor (?o + of_nat (k - (?t + 0)) * SECTION_SIZE)
       else (f(512 + i := word_at b ?t OR TD_TABLE_FLAGS)) k) m'"
    using block_loop_tables [OF t1, of 0 511 ?t ?o] i by auto
  have "?o + of_nat (k - ?t) * SECTION_SIZE = of_nat (k - 1024) * SECTION_SIZE" if "?t \<le> k" for k
  proof -
    have "k - 1024 = 512 * i + (k - ?t)" using that by simp
    then show ?thesis unfolding e5 by (metis distrib_right of_nat_add)
  qed
  then have "(\<lambda>k. if ?t + 0 \<le> k \<and> k < ?t + 512 then block_descriptor (?o + of_nat (k - (?t + 0)) * SECTION_SIZE)
       else (f(512 + i := word_at b ?t OR TD_TABLE_FLAGS)) k) =
     (\<lambda>k. if ?t \<le> k \<and> k < ?t + 512 then block_descriptor (of_nat (k - 1024) * SECTION_SIZE)
       else if k = 512 + i then word_at b ?t OR TD_TABLE_FLAGS else f k)"
    by (auto simp: fun_eq_iff)
  note fin = m'(2) [unfolded this]
  have "create_block_entry (word_at b ?t) ?o (?o + PUD_SLICE_SZ) ?o (create_table_entry (word_at b 512) (word_at b ?t) ?o 30 TD_TABLE_FLAGS m) = Some m'"
    using m'(1) unfolding create_block_entry_def create_table_entry_def Let_def e1 e2 e3 e4 word_at_index word_at_add by simp
  then show ?thesis using fin by blast
qed

text \<open>The entries after \<open>n\<close> rounds of the loop.\<close>

definition entries_upto :: "ptr \<Rightarrow> nat \<Rightarrow> nat \<Rightarrow> u64" where
  "entries_upto b n k =
     (if k = 0 then word_at b 512 OR TD_TABLE_FLAGS
      else if 512 \<le> k \<and> k < 512 + n then word_at b (1024 + 512 * (k - 512)) OR TD_TABLE_FLAGS
      else if 1024 \<le> k \<and> k < 1024 + 512 * n then block_descriptor (of_nat (k - 1024) * SECTION_SIZE)
      else 0)"

lemma entries_upto_step:
  assumes "i < 4"
  shows "(\<lambda>k. if 1024 + 512 * i \<le> k \<and> k < 1024 + 512 * i + 512 then block_descriptor (of_nat (k - 1024) * SECTION_SIZE)
       else if k = 512 + i then word_at b (1024 + 512 * i) OR TD_TABLE_FLAGS else entries_upto b i k) = entries_upto b (Suc i)"
proof
  fix k
  consider "k = 512 + i" | "1024 + 512 * i \<le> k" "k < 1024 + 512 * i + 512" | "k \<noteq> 512 + i" "\<not> (1024 + 512 * i \<le> k \<and> k < 1024 + 512 * i + 512)"
    by blast
  then show "(if 1024 + 512 * i \<le> k \<and> k < 1024 + 512 * i + 512 then block_descriptor (of_nat (k - 1024) * SECTION_SIZE)
       else if k = 512 + i then word_at b (1024 + 512 * i) OR TD_TABLE_FLAGS else entries_upto b i k) = entries_upto b (Suc i) k"
  proof cases
    case 1
    then show ?thesis using assms by (simp add: entries_upto_def)
  next
    case 2
    then show ?thesis using assms by (simp add: entries_upto_def)
  next
    case 3
    then have "1024 \<le> k \<and> k < 1024 + 512 * Suc i \<longleftrightarrow> 1024 \<le> k \<and> k < 1024 + 512 * i"
      "512 \<le> k \<and> k < 512 + Suc i \<longleftrightarrow> 512 \<le> k \<and> k < 512 + i" by auto
    then have "entries_upto b (Suc i) k = entries_upto b i k" by (simp only: entries_upto_def)
    then show ?thesis using 3 by (simp only: if_False)
  qed
qed

lemma pud_loop_tables:
  "i + n = 4 \<Longrightarrow> tables b m0 (entries_upto b i) m \<Longrightarrow>
   \<exists>m'. pud_loop n i (word_at b 512) (word_at b (1024 + 512 * i)) m = Some m' \<and> tables b m0 (entries_upto b 4) m'"
proof (induction n arbitrary: i m)
  case (Suc n)
  have i: "i < 4" using Suc.prems(1) by simp
  obtain m1 where m1: "create_block_entry (word_at b (1024 + 512 * i)) (PUD_SLICE_SZ * of_nat i) (PUD_SLICE_SZ * of_nat i + PUD_SLICE_SZ) (PUD_SLICE_SZ * of_nat i)
      (create_table_entry (word_at b 512) (word_at b (1024 + 512 * i)) (PUD_SLICE_SZ * of_nat i) 30 TD_TABLE_FLAGS m) = Some m1"
    "tables b m0 (entries_upto b (Suc i)) m1"
    using pud_step [OF Suc.prems(2) i] unfolding entries_upto_step [OF i] by blast
  have "1024 + 512 * Suc i = 1024 + 512 * i + 512" by simp
  then have "word_at b (1024 + 512 * i) + PAGE_SIZE = word_at b (1024 + 512 * Suc i)" by (simp only: page_at)
  then show ?case using Suc.IH [OF _ m1(2)] Suc.prems(1) m1(1) by (simp add: Let_def)
qed simp

definition final_entry :: "ptr \<Rightarrow> nat \<Rightarrow> u64" where
  "final_entry b = entries_upto b 4"

lemma create_page_tables_entries:
  "\<exists>m'. create_page_tables b m = Some m' \<and> tables b m (final_entry b) m'"
proof -
  let ?m0 = "memzero b ID_MAP_TBL_SZ m" and ?d = "word_at b 512 OR TD_TABLE_FLAGS"
  have w0: "word_at b 0 = b" by (simp add: word_at_def)
  have c1: "create_table_entry b (word_at b 512) 0 39 TD_TABLE_FLAGS ?m0 = store64 (word_at b 0) ?d ?m0"
    by (simp add: create_table_entry_def Let_def w0)
  have p: "b + PAGE_SIZE = word_at b 512" "word_at b 512 + PAGE_SIZE = word_at b 1024"
    using page_at [of b 0] page_at [of b 512] by (simp_all only: w0) simp_all
  have "entries_upto b 0 = (\<lambda>_. 0)(0 := ?d)" by (auto simp: entries_upto_def fun_eq_iff)
  then have t1: "tables b m (entries_upto b 0) (store64 (word_at b 0) ?d ?m0)"
    using tables_store [OF memzero_tables, of 0 b m ?d] by simp
  show ?thesis using pud_loop_tables [OF _ t1, of 4] unfolding final_entry_def create_page_tables_def Let_def p c1
    by simp
qed

section \<open>The mapping\<close>

text \<open>The word an index of nine bits selects.\<close>

lemma index_slot: "load64 (b + push_bit 3 (take_bit 9 (drop_bit s va))) m = slot b m (unat va div 2 ^ s mod 512)"
proof -
  have "unat (take_bit 9 (drop_bit s va)) = unat va div 2 ^ s mod 512"
    unfolding unsigned_take_bit_eq unat_drop by (simp add: take_bit_eq_mod)
  then have "take_bit 9 (drop_bit s va) = of_nat (unat va div 2 ^ s mod 512)" by (metis of_nat_unat ucast_id)
  then show ?thesis by (simp only: slot_def word_at_index)
qed

lemma table_descriptor:
  fixes p :: u64
  assumes "take_bit 12 p = 0" "take_bit 48 p = p"
  shows "bit (p OR TD_TABLE_FLAGS) 0" "bit (p OR TD_TABLE_FLAGS) 1" "push_bit 12 (take_bit 36 (drop_bit 12 (p OR TD_TABLE_FLAGS))) = p"
proof -
  have f: "TD_TABLE_FLAGS = 3" by (simp add: TD_TABLE_FLAGS_def TD_TABLE_def TD_VALID_def)
  have b3: "bit (3 :: u64) n \<longleftrightarrow> n < 2" for n
    using bit_mask_iff [where 'a = "64 word", of 2 n] by (auto simp: mask_eq_exp_minus_1)
  show "bit (p OR TD_TABLE_FLAGS) 0" "bit (p OR TD_TABLE_FLAGS) 1" unfolding f by (simp_all add: bit_or_iff b3)
  have lo: "\<not> bit p n" if "n < 12" for n using assms(1) that by (metis bit_0_eq bit_take_bit_iff bot_apply bot_bool_def)
  have hi: "bit p n \<Longrightarrow> n < 48" for n using assms(2) by (metis bit_take_bit_iff)
  show "push_bit 12 (take_bit 36 (drop_bit 12 (p OR TD_TABLE_FLAGS))) = p"
    proof (rule bit_word_eqI)
    fix n assume "n < LENGTH(64)"
    show "bit (push_bit 12 (take_bit 36 (drop_bit 12 (p OR TD_TABLE_FLAGS)))) n = bit p n"
      using lo [of n] hi [of n] \<open>n < LENGTH(64)\<close> unfolding f
      by (cases "n < 12") (auto simp: bit_push_bit_iff bit_take_bit_iff bit_drop_bit_eq bit_or_iff b3)
  qed
qed

lemma aligned_word_at:
  assumes "take_bit 12 b = 0" "unat b + 24576 \<le> 2 ^ 48" "8 * k < 24576" "512 dvd k"
  shows "take_bit 12 (word_at b k) = 0" "take_bit 48 (word_at b k) = word_at b k"
proof -
  have u: "unat (word_at b k) = unat b + 8 * k"
  proof -
    have k: "unat (of_nat (8 * k) :: u64) = 8 * k" by (rule unat_of_nat_small) (use assms(3) in simp)
    have s: "unat b + unat (of_nat (8 * k) :: u64) < 2 ^ LENGTH(64)" unfolding k using assms(2,3) by simp
    show ?thesis unfolding word_at_def using unat_add_no_wrap [OF s] unfolding k .
  qed
  have "unat (take_bit 12 b) = 0" using assms(1) by simp
  then have "4096 dvd unat b" by (simp only: unsigned_take_bit_eq) (simp add: take_bit_eq_mod mod_eq_0_iff_dvd)
  moreover obtain c where "k = 512 * c" using assms(4) by (rule dvdE)
  then have "4096 dvd 8 * k" by simp
  ultimately have "4096 dvd unat b + 8 * k" by (rule dvd_add)
  then show "take_bit 12 (word_at b k) = 0"
    by (simp only: word_unat_eq_iff unsigned_take_bit_eq u) (simp add: take_bit_eq_mod)
  show "take_bit 48 (word_at b k) = word_at b k"
    by (simp only: word_unat_eq_iff unsigned_take_bit_eq u) (rule take_bit_nat_eq_self, use assms(2,3) in simp)
qed

text \<open>A block of 2 MiB.\<close>

lemma attributes_bits: "bit (attributes va) 0" "\<not> bit (attributes va) 1" "take_bit 12 (attributes va) = attributes va"
proof -
  have "attributes va \<in> {0x741, 0x74D, 0x70D}"
    by (simp add: attributes_def TD_DEVICE_BLOCK_FLAGS_def TD_CODE_BLOCK_FLAGS_def TD_DATA_BLOCK_FLAGS_def TD_ACCESS_def
        TD_INNER_SHARABLE_def TD_DATA_PERMS_def TD_CODE_PERMS_def MATTR_ALL_CACHE_INDEX_def MATTR_DEVICE_nGnRnE_INDEX_def TD_BLOCK_def TD_VALID_def)
  then show "bit (attributes va) 0" "\<not> bit (attributes va) 1" "take_bit 12 (attributes va) = attributes va"
    by (auto simp: bit_numeral_word_iff)
qed

lemma unat_pow2_le: "push_bit 21 (of_nat c :: u64) \<le> va \<longleftrightarrow> push_bit 21 (of_nat c) \<le> push_bit 21 (drop_bit 21 va)" if "c < 2 ^ 43"
proof -
  have c: "unat (push_bit 21 (of_nat c :: u64)) = c * 2 ^ 21"
    using that by (simp add: push_bit_eq_mult) (subst unat_of_nat_small [symmetric, where 'a = 64], simp_all)
  have d: "unat (push_bit 21 (drop_bit 21 va)) = unat va div 2 ^ 21 * 2 ^ 21"
    using unat_ALIGN_DOWN [of va 21] by (simp only: ALIGN_DOWN_alt)
  have "c * 2 ^ 21 \<le> unat va \<longleftrightarrow> c * 2 ^ 21 \<le> unat va div 2 ^ 21 * 2 ^ 21"
    by (simp add: less_eq_div_iff_mult_less_eq)
  then show ?thesis by (simp only: word_le_nat_alt c d)
qed

lemma block_descriptor_eq: "block_descriptor (push_bit 21 (drop_bit 21 va)) = push_bit 21 (drop_bit 21 va) OR attributes va"
proof -
  have "DEVICE_BASE = push_bit 21 (of_nat 2016)" "DATA_BASE = push_bit 21 (of_nat 1)" by (simp_all add: DEVICE_BASE_def DATA_BASE_def)
  then have "DEVICE_BASE \<le> va \<longleftrightarrow> DEVICE_BASE \<le> push_bit 21 (drop_bit 21 va)" "DATA_BASE \<le> va \<longleftrightarrow> DATA_BASE \<le> push_bit 21 (drop_bit 21 va)"
    using unat_pow2_le [of 2016 va] unat_pow2_le [of 1 va] by (simp_all only:) simp_all
  then show ?thesis by (simp add: block_descriptor_def attributes_def not_le [symmetric])
qed

lemma block_out:
  fixes va :: u64
  assumes "unat va < 2 ^ 48"
  defines "e \<equiv> push_bit 21 (drop_bit 21 va) OR attributes va"
  shows "bit e 0" "\<not> bit e 1" "take_bit 12 e = attributes va"
    "push_bit 21 (drop_bit 21 (push_bit 12 (take_bit 36 (drop_bit 12 e)))) OR take_bit 21 va = va"
proof -
  have lo: "\<not> bit (attributes va) n" if "12 \<le> n" for n using attributes_bits(3) that by (metis bit_take_bit_iff leD)
  have hi: "\<not> bit va n" if "48 \<le> n" for n
  proof -
    have "unat (take_bit 48 va) = unat va" by (simp only: unsigned_take_bit_eq) (rule take_bit_nat_eq_self [OF assms(1)])
    then have "take_bit 48 va = va" by (simp only: word_unat_eq_iff)
    then show ?thesis using that by (metis bit_take_bit_iff leD)
  qed
  show "bit e 0" "\<not> bit e 1" by (simp_all add: e_def bit_or_iff bit_push_bit_iff attributes_bits(1) attributes_bits(2) [simplified])
  show "take_bit 12 e = attributes va"
  proof (rule bit_word_eqI)
    fix n assume "n < LENGTH(64)"
    then show "bit (take_bit 12 e) n = bit (attributes va) n"
      using lo [of n] by (cases "n < 12") (auto simp: e_def bit_take_bit_iff bit_or_iff bit_push_bit_iff)
  qed
  show "push_bit 21 (drop_bit 21 (push_bit 12 (take_bit 36 (drop_bit 12 e)))) OR take_bit 21 va = va"
  proof (rule bit_word_eqI)
    fix n assume "n < LENGTH(64)"
    then show "bit (push_bit 21 (drop_bit 21 (push_bit 12 (take_bit 36 (drop_bit 12 e)))) OR take_bit 21 va) n = bit va n"
      using lo [of n] hi [of n]
      by (cases "n < 21"; cases "48 \<le> n") (auto simp: e_def bit_take_bit_iff bit_drop_bit_eq bit_or_iff bit_push_bit_iff)
  qed
qed

text \<open>Every address below 4 GiB is mapped to itself, with the attributes of its region; no other is mapped.\<close>

lemma create_page_tables_ok:
  assumes b: "take_bit 12 b = 0" "unat b + 24576 \<le> 2 ^ 48"
  shows "\<exists>m'. create_page_tables b m = Some m' \<and> (\<forall>a. a \<notin> region b 24576 \<longrightarrow> m' a = m a) \<and>
     (\<forall>va. translate m' b va = (if unat va < 2 ^ 32 then Some (va, attributes va) else None))"
proof -
  obtain m' where m': "create_page_tables b m = Some m'" and t: "tables b m (final_entry b) m'"
    using create_page_tables_entries [of b m] by blast
  have sl: "slot b m' k = final_entry b k" if "k < 3072" for k using t that by (simp add: tables_def)
  have w0: "word_at b 0 = b" by (simp add: word_at_def)
  have tr: "translate m' b va = (if unat va < 2 ^ 32 then Some (va, attributes va) else None)" for va
  proof (cases "unat va < 2 ^ 48")
    case False
    then have "\<not> unat va < 2 ^ 32" by auto
    then show ?thesis using False by (simp only: translate_def if_False)
  next
    case v48: True
    define i0 i1 i2 where "i0 = unat va div 2 ^ 39 mod 512" and "i1 = unat va div 2 ^ 30 mod 512" and "i2 = unat va div 2 ^ 21 mod 512"
    have lt: "i0 < 512" "i1 < 512" "i2 < 512" by (simp_all add: i0_def i1_def i2_def)
    have e0: "slot b m' i0 = final_entry b i0" using lt by (intro sl) simp
    have e1: "slot (word_at b 512) m' i1 = final_entry b (512 + i1)"
      using sl [of "512 + i1"] lt by (simp add: slot_def word_at_add)
    have e2: "slot (word_at b (1024 + 512 * i1)) m' i2 = final_entry b (1024 + 512 * i1 + i2)" if "i1 < 4"
      using sl [of "1024 + 512 * i1 + i2"] lt that by (simp add: slot_def word_at_add)
    note td1 = table_descriptor [OF aligned_word_at [OF b, of 512, simplified]]
    show ?thesis
    proof (cases "i0 = 0")
      case False
      then have nv: "\<not> unat va < 2 ^ 32" by (auto simp: i0_def)
      have "i0 < 512" by (rule lt)
      then have "slot b m' i0 = 0" using False unfolding e0 final_entry_def entries_upto_def by simp
      then have "walk m' 3 b va = None"
        by (subst walk.simps) (simp add: Let_def index_slot i0_def)
      then show ?thesis using nv by (simp only: translate_def if_False if_True) simp
    next
      case True
      have "slot b m' 0 = word_at b 512 OR TD_TABLE_FLAGS" using e0 True by (simp add: final_entry_def entries_upto_def)
      then have w3: "walk m' 3 b va = walk m' 2 (word_at b 512) va"
        using True td1 by (subst walk.simps) (simp add: Let_def index_slot i0_def)
      have s1: "slot (word_at b 512) m' i1 = (if i1 < 4 then word_at b (1024 + 512 * i1) OR TD_TABLE_FLAGS else 0)"
        unfolding e1 final_entry_def entries_upto_def using lt(2) by simp
      have v39: "unat va < 2 ^ 39"
      proof -
        have "unat va div 2 ^ 39 < 512" using v48 by (simp add: less_mult_imp_div_less)
        then have "unat va div 2 ^ 39 = 0" using True by (simp add: i0_def)
        then show ?thesis by (simp add: div_eq_0_iff)
      qed
      then have i1: "i1 = unat va div 2 ^ 30" by (simp add: i1_def less_mult_imp_div_less)
      show ?thesis
      proof (cases "i1 < 4")
        case False
        then have nv: "\<not> unat va < 2 ^ 32" by (simp add: i1)
        have "slot (word_at b 512) m' i1 = 0" using s1 False by simp
        then have "walk m' 2 (word_at b 512) va = None"
          by (subst walk.simps) (simp add: Let_def index_slot i1_def)
        then show ?thesis using nv v48 by (simp only: translate_def w3 if_False if_True)
      next
        case True
        have d: "512 dvd 1024 + 512 * i1" "8 * (1024 + 512 * i1) < 24576" using True by simp_all
        note td2 = table_descriptor [OF aligned_word_at [OF b d(2,1)]]
        have w2: "walk m' 2 (word_at b 512) va = walk m' 1 (word_at b (1024 + 512 * i1)) va"
          using True td2 s1 by (subst walk.simps) (simp add: Let_def index_slot i1_def)
        have "512 * i1 + i2 = unat va div 2 ^ 21"
        proof -
          have "unat va div 2 ^ 21 div 512 = i1" by (simp add: i1 div_mult2_eq [symmetric])
          then show ?thesis unfolding i2_def using mult_div_mod_eq [of 512 "unat va div 2 ^ 21"] by simp
        qed
        then have "(of_nat (512 * i1 + i2) :: u64) = drop_bit 21 va" by (metis of_nat_unat ucast_id unat_drop)
        then have "of_nat (1024 + 512 * i1 + i2 - 1024) * SECTION_SIZE = push_bit 21 (drop_bit 21 va)"
          by (simp add: SECTION_SIZE_def push_bit_eq_mult)
        then have s2: "slot (word_at b (1024 + 512 * i1)) m' i2 = push_bit 21 (drop_bit 21 va) OR attributes va"
          unfolding e2 [OF True] final_entry_def entries_upto_def block_descriptor_eq [symmetric] using lt True by simp
        have "walk m' 1 (word_at b (1024 + 512 * i1)) va = Some (va, attributes va)"
          using s2 block_out [OF v48] by (subst walk.simps) (simp add: Let_def index_slot i2_def)
        moreover have "unat va < 2 ^ 32" using True by (simp add: i1 div_less_iff_less_mult)
        ultimately show ?thesis using v48 by (simp only: translate_def w3 w2 if_True)
      qed
    qed
  qed
  show ?thesis using m' t tr by (auto simp: tables_def)
qed

end
