(* ===== verification/Spi.thy ===== *)
theory Spi
  imports Util
begin

text \<open>
  The SPI controller and the UART bridge behind it (lib/libbase/rpi_gpio.c). The registers that only configure
  the controller are a record. The ones that carry data change under the code's feet: the controller, with
  whatever hangs on its wires, is a parameter with a state, and the four ways the code touches it: reading \<open>STAT\<close>,
  writing \<open>TXHOLD_REGa\<close> or \<open>IO_REGa\<close>, reading \<open>IO_REGa\<close>. Buffers are lists whose lengths are the lengths the code
  passes along; \<open>char\<close> is unsigned. A wait that does not end is \<open>None\<close>. The channel indexes \<open>spi[]\<close>: it is 0 or 1.
\<close>

section \<open>Registers\<close>

record AUX =
  AUX_IRQ :: u32
  ENABLES :: u32

record SPI =
  CNTL0 :: u32
  CNTL1 :: u32

definition SPI_CNTL0_SPEED_SHIFT :: nat where "SPI_CNTL0_SPEED_SHIFT = 20"
definition SPI_CNTL0_VAR_WIDTH :: u32 where "SPI_CNTL0_VAR_WIDTH = 0x00004000"
definition SPI_CNTL0_Enable :: u32 where "SPI_CNTL0_Enable = 0x00000800"
definition SPI_CNTL0_In_Rising :: u32 where "SPI_CNTL0_In_Rising = 0x00000400"
definition SPI_CNTL0_Clear_FIFOs :: u32 where "SPI_CNTL0_Clear_FIFOs = 0x00000200"
definition SPI_CNTL0_SO_MSB_FST :: u32 where "SPI_CNTL0_SO_MSB_FST = 0x00000040"
definition SPI_CNTL1_SI_MSB_FST :: u32 where "SPI_CNTL1_SI_MSB_FST = 0x00000002"
definition SPI_STAT_TX_FULL :: u32 where "SPI_STAT_TX_FULL = 0x00000400"
definition SPI_STAT_RX_EMPTY :: u32 where "SPI_STAT_RX_EMPTY = 0x00000080"

definition init_spi :: "u32 \<Rightarrow> AUX \<times> SPI list \<Rightarrow> (AUX \<times> SPI list) res" where
  "init_spi channel = (\<lambda>(aux, spi).
     if unat channel < length spi then
       let aux = aux\<lparr>ENABLES := ENABLES aux OR push_bit (unat channel) 2\<rparr>;
           s = spi ! unat channel;
           s = s\<lparr>CNTL0 := SPI_CNTL0_Clear_FIFOs\<rparr>;
           speed = 700000000 div (2 * 0x400000) - 1;
           s = s\<lparr>CNTL0 := push_bit SPI_CNTL0_SPEED_SHIFT speed OR SPI_CNTL0_VAR_WIDTH OR SPI_CNTL0_Enable OR SPI_CNTL0_In_Rising OR SPI_CNTL0_SO_MSB_FST\<rparr>;
           s = s\<lparr>CNTL1 := SPI_CNTL1_SI_MSB_FST\<rparr>
       in Inr (aux, spi[unat channel := s])
     else Inl Out_of_bounds)"

section \<open>Transactions\<close>

record 'd bus =
  rd_stat :: "u32 \<Rightarrow> 'd \<Rightarrow> u32 \<times> 'd"
  wr_txhold :: "u32 \<Rightarrow> u32 \<Rightarrow> 'd \<Rightarrow> 'd"
  wr_io :: "u32 \<Rightarrow> u32 \<Rightarrow> 'd \<Rightarrow> 'd"
  rd_io :: "u32 \<Rightarrow> 'd \<Rightarrow> u32 \<times> 'd"

text \<open>Wait while a bit of \<open>STAT\<close> is set.\<close>

partial_function (option) stat_wait :: "'d bus \<Rightarrow> u32 \<Rightarrow> u32 \<Rightarrow> 'd \<Rightarrow> 'd option" where
  "stat_wait B ch msk d =
     (let (st, d') = rd_stat B ch d in if st AND msk \<noteq> 0 then stat_wait B ch msk d' else Some d')"

text \<open>The bytes of one transfer are shifted into a word, the bits that count in the top byte.\<close>

fun fill_loop :: "u8 list \<Rightarrow> nat \<Rightarrow> u32 \<Rightarrow> u32 \<times> nat \<times> u8 list" where
  "fill_loop [] count data = (data, count, [])"
| "fill_loop (b # bs) count data =
     (if count < 24 then fill_loop bs (count + 8) (data OR push_bit (16 - count) (ucast b)) else (data, count, b # bs))"

text \<open>The received bytes; \<open>count\<close> is a multiple of 8.\<close>

fun recv_loop :: "u32 \<Rightarrow> nat \<Rightarrow> u8 list" where
  "recv_loop data count =
     (if count = 0 then [] else ucast (drop_bit (count - 8) data AND 0xFF) # recv_loop data (count - 8))"

declare recv_loop.simps [simp del]

partial_function (option) send_recv_loop :: "'d bus \<Rightarrow> u32 \<Rightarrow> u8 list \<Rightarrow> u8 list \<Rightarrow> nat \<Rightarrow> 'd \<Rightarrow> (u8 list \<times> 'd) option" where
  "send_recv_loop B ch send recv recvlen d =
     (if send \<noteq> [] \<or> length recv < recvlen then
        let (data, count, rest) = fill_loop send 0 0;
            data = data OR push_bit 24 (of_nat count)
        in Option.bind (stat_wait B ch SPI_STAT_TX_FULL d) (\<lambda>d.
           let d = (if rest \<noteq> [] then wr_txhold B ch data d else wr_io B ch data d) in
           Option.bind (stat_wait B ch SPI_STAT_RX_EMPTY d) (\<lambda>d.
           let (data, d) = rd_io B ch d;
               max_count = (recvlen - length recv) * 8;
               count = (if count > max_count then max_count else count)
           in send_recv_loop B ch rest (recv @ recv_loop data count) recvlen d))
      else Some (recv, d))"

definition spi_send_recv :: "'d bus \<Rightarrow> u32 \<Rightarrow> u8 list \<Rightarrow> nat \<Rightarrow> 'd \<Rightarrow> (u8 list \<times> 'd) option" where
  "spi_send_recv B channel sendbuf recvlen = send_recv_loop B channel sendbuf [] recvlen"

section \<open>Registers of the UART bridge\<close>

definition UART_RHR :: u8 where "UART_RHR = 0x00"
definition UART_THR :: u8 where "UART_THR = 0x00"
definition UART_IER :: u8 where "UART_IER = 0x01"
definition UART_FCR :: u8 where "UART_FCR = 0x02"
definition UART_LCR :: u8 where "UART_LCR = 0x03"
definition UART_TXLVL :: u8 where "UART_TXLVL = 0x08"
definition UART_RXLVL :: u8 where "UART_RXLVL = 0x09"
definition UART_IOControl :: u8 where "UART_IOControl = 0x0E"
definition UART_DLL :: u8 where "UART_DLL = 0x00"
definition UART_DLH :: u8 where "UART_DLH = 0x01"
definition UART_EFR :: u8 where "UART_EFR = 0x02"
definition UART_READ_ENABLE :: u8 where "UART_READ_ENABLE = 0x80"
definition UART_FCR_TX_FIFO_RESET :: u8 where "UART_FCR_TX_FIFO_RESET = 0x04"
definition UART_FCR_RX_FIFO_RESET :: u8 where "UART_FCR_RX_FIFO_RESET = 0x02"
definition UART_FCR_FIFO_EN :: u8 where "UART_FCR_FIFO_EN = 0x01"
definition UART_LCR_DIV_LATCH_EN :: u8 where "UART_LCR_DIV_LATCH_EN = 0x80"
definition UART_EFR_ENABLE_ENHANCED_FNS :: u8 where "UART_EFR_ENABLE_ENHANCED_FNS = 0x10"
definition UART_IOControl_RESET :: u8 where "UART_IOControl_RESET = 0x08"

text \<open>The first byte of a transfer: channel and register of the bridge.\<close>

definition req_byte :: "u64 \<Rightarrow> u8 \<Rightarrow> u8" where
  "req_byte uartChannel reg = ucast (push_bit 1 uartChannel OR push_bit 3 (ucast reg))"

definition spi_uart_write_register :: "'d bus \<Rightarrow> u64 \<Rightarrow> u64 \<Rightarrow> u8 \<Rightarrow> u8 \<Rightarrow> 'd \<Rightarrow> 'd option" where
  "spi_uart_write_register B spiChannel uartChannel reg data d =
     map_option snd (spi_send_recv B (ucast spiChannel) [req_byte uartChannel reg, data] 0 d)"

definition spi_uart_read_register :: "'d bus \<Rightarrow> u64 \<Rightarrow> u64 \<Rightarrow> u8 \<Rightarrow> 'd \<Rightarrow> (u8 \<times> 'd) option" where
  "spi_uart_read_register B spiChannel uartChannel reg d =
     map_option (\<lambda>(res, d). (res ! 1, d))
       (spi_send_recv B (ucast spiChannel) [req_byte uartChannel reg OR UART_READ_ENABLE, 0] 2 d)"

text \<open>A sequence of register writes.\<close>

fun write_registers :: "'d bus \<Rightarrow> u64 \<Rightarrow> u64 \<Rightarrow> (u8 \<times> u8) list \<Rightarrow> 'd \<Rightarrow> 'd option" where
  "write_registers B sc uc [] d = Some d"
| "write_registers B sc uc ((reg, data) # ws) d =
     Option.bind (spi_uart_write_register B sc uc reg data d) (write_registers B sc uc ws)"

definition channel_setup :: "u64 \<Rightarrow> bool \<Rightarrow> (u8 \<times> u8) list" where
  "channel_setup baudRate twostopbit =
     (let bauddiv = ucast (14745600 div (baudRate * 16)) :: u32 in
      [(UART_LCR, UART_LCR_DIV_LATCH_EN),
       (UART_DLH, ucast (drop_bit 8 (bauddiv AND 0xFF00))),
       (UART_DLL, ucast (bauddiv AND 0x00FF))] @
      (if twostopbit then
         [(UART_LCR, 0xBF), (UART_EFR, UART_EFR_ENABLE_ENHANCED_FNS), (UART_LCR, 0x7),
          (UART_FCR, UART_FCR_RX_FIFO_RESET OR UART_FCR_TX_FIFO_RESET OR UART_FCR_FIFO_EN)]
       else
         [(UART_LCR, 0x3), (UART_FCR, UART_FCR_RX_FIFO_RESET OR UART_FCR_TX_FIFO_RESET OR UART_FCR_FIFO_EN)]) @
      [(UART_IER, 0)])"

definition spi_uart_init_channel :: "'d bus \<Rightarrow> u64 \<Rightarrow> u64 \<Rightarrow> u64 \<Rightarrow> bool \<Rightarrow> 'd \<Rightarrow> 'd res" where
  "spi_uart_init_channel B spiChannel uartChannel baudRate twostopbit d =
     bindR (returns (spi_uart_write_register B spiChannel uartChannel UART_LCR UART_LCR_DIV_LATCH_EN d)) (\<lambda>d.
     if baudRate * 16 = 0 then Inl Div_by_zero
     else returns (write_registers B spiChannel uartChannel (tl (channel_setup baudRate twostopbit)) d))"

definition init_uart :: "'d bus \<Rightarrow> u32 \<Rightarrow> 'd \<Rightarrow> 'd res" where
  "init_uart B spiChannel d =
     bindR (returns (spi_uart_write_register B (ucast spiChannel) 0 UART_IOControl UART_IOControl_RESET d)) (\<lambda>d.
     bindR (spi_uart_init_channel B (ucast spiChannel) 0 115200 False d) (\<lambda>d.
     spi_uart_init_channel B (ucast spiChannel) 1 2400 True d))"

section \<open>Characters and strings\<close>

partial_function (option) level_wait :: "'d bus \<Rightarrow> u64 \<Rightarrow> u64 \<Rightarrow> u8 \<Rightarrow> 'd \<Rightarrow> 'd option" where
  "level_wait B sc uc reg d =
     Option.bind (spi_uart_read_register B sc uc reg d) (\<lambda>(v, d). if v = 0 then level_wait B sc uc reg d else Some d)"

definition spi_uart_getc :: "'d bus \<Rightarrow> u64 \<Rightarrow> u64 \<Rightarrow> 'd \<Rightarrow> (u8 \<times> 'd) option" where
  "spi_uart_getc B sc uc d = Option.bind (level_wait B sc uc UART_RXLVL d) (spi_uart_read_register B sc uc UART_RHR)"

text \<open>The result \<open>None\<close> inside the option stands for \<open>false\<close>, \<open>Some c\<close> for \<open>true\<close> with the character stored.\<close>

definition spi_uart_getc_nonblock :: "'d bus \<Rightarrow> u64 \<Rightarrow> u64 \<Rightarrow> 'd \<Rightarrow> (u8 option \<times> 'd) option" where
  "spi_uart_getc_nonblock B sc uc d =
     Option.bind (spi_uart_read_register B sc uc UART_RXLVL d) (\<lambda>(v, d).
     if v = 0 then Some (None, d)
     else Option.bind (spi_uart_read_register B sc uc UART_RHR d) (\<lambda>(c, d). Some (Some c, d)))"

definition spi_uart_putc :: "'d bus \<Rightarrow> u64 \<Rightarrow> u64 \<Rightarrow> u8 \<Rightarrow> 'd \<Rightarrow> 'd option" where
  "spi_uart_putc B sc uc c d = Option.bind (level_wait B sc uc UART_TXLVL d) (spi_uart_write_register B sc uc UART_THR c)"

definition spi_uart_write_is_blocked :: "'d bus \<Rightarrow> u64 \<Rightarrow> u64 \<Rightarrow> 'd \<Rightarrow> (bool \<times> 'd) option" where
  "spi_uart_write_is_blocked B sc uc d = map_option (\<lambda>(v, d). (v = 0, d)) (spi_uart_read_register B sc uc UART_TXLVL d)"

definition spi_uart_putc_nonblock :: "'d bus \<Rightarrow> u64 \<Rightarrow> u64 \<Rightarrow> u8 \<Rightarrow> 'd \<Rightarrow> (bool \<times> 'd) option" where
  "spi_uart_putc_nonblock B sc uc c d =
     Option.bind (spi_uart_read_register B sc uc UART_TXLVL d) (\<lambda>(v, d).
     if v = 0 then Some (False, d)
     else map_option (\<lambda>d. (True, d)) (spi_uart_write_register B sc uc UART_THR c d))"

text \<open>The free space of the transmit queue, at most the size of \<open>temp\<close>.\<close>

definition read_tlen :: "'d bus \<Rightarrow> u64 \<Rightarrow> u64 \<Rightarrow> 'd \<Rightarrow> (nat \<times> 'd) option" where
  "read_tlen B sc uc d = map_option (\<lambda>(v, d). (if unat v > 32 then 32 else unat v, d)) (spi_uart_read_register B sc uc UART_TXLVL d)"

text \<open>\<open>temp\<close> holds the request byte and the bytes \<open>acc\<close>, so \<open>tidx\<close> is one more than the length of \<open>acc\<close>.\<close>

partial_function (option) puts_loop :: "'d bus \<Rightarrow> u64 \<Rightarrow> u64 \<Rightarrow> u8 list \<Rightarrow> u8 list \<Rightarrow> nat \<Rightarrow> 'd \<Rightarrow> 'd option" where
  "puts_loop B sc uc rest acc tlen d =
     (if length acc + 1 < tlen \<and> rest \<noteq> [] then puts_loop B sc uc (tl rest) (acc @ [hd rest]) tlen d
      else Option.bind (spi_send_recv B (ucast sc) (req_byte uc UART_THR # acc) 0 d) (\<lambda>(_, d).
        if rest = [] then Some d
        else Option.bind (read_tlen B sc uc d) (\<lambda>(tlen, d). puts_loop B sc uc rest [] tlen d)))"

definition spi_uart_puts :: "'d bus \<Rightarrow> u64 \<Rightarrow> u64 \<Rightarrow> u8 list \<Rightarrow> 'd \<Rightarrow> 'd option" where
  "spi_uart_puts B sc uc buf d = Option.bind (read_tlen B sc uc d) (\<lambda>(tlen, d). puts_loop B sc uc buf [] tlen d)"

definition BUFFER_NTM_MAX_LENGTH :: nat where "BUFFER_NTM_MAX_LENGTH = 256"

partial_function (option) puts_ntm_loop ::
  "'d bus \<Rightarrow> u64 \<Rightarrow> u64 \<Rightarrow> memory \<Rightarrow> ptr \<Rightarrow> nat \<Rightarrow> u8 list \<Rightarrow> nat \<Rightarrow> 'd \<Rightarrow> 'd res option" where
  "puts_ntm_loop B sc uc m buf bidx acc tlen d =
     (if length acc + 1 < tlen \<and> m (buf + of_nat bidx) \<noteq> 0 then
        if bidx + 1 \<le> BUFFER_NTM_MAX_LENGTH then puts_ntm_loop B sc uc m buf (bidx + 1) (acc @ [m (buf + of_nat bidx)]) tlen d
        else Some (Inl Assert_fail)
      else Option.bind (spi_send_recv B (ucast sc) (req_byte uc UART_THR # acc) 0 d) (\<lambda>(_, d).
        if length acc + 1 \<noteq> tlen then Some (Inr d)
        else Option.bind (read_tlen B sc uc d) (\<lambda>(tlen, d). puts_ntm_loop B sc uc m buf bidx [] tlen d)))"

definition spi_uart_puts_ntm :: "'d bus \<Rightarrow> u64 \<Rightarrow> u64 \<Rightarrow> memory \<Rightarrow> ptr \<Rightarrow> 'd \<Rightarrow> 'd res option" where
  "spi_uart_puts_ntm B sc uc m buf d = Option.bind (read_tlen B sc uc d) (\<lambda>(tlen, d). puts_ntm_loop B sc uc m buf 0 [] tlen d)"

section \<open>What crosses the wires\<close>

text \<open>
  The words written so far, each with whether the chip select stays active after it, and the word the slave
  answers to them. A controller on which no wait is endless (\<open>stat_wait\<close> ends, without traffic) is described by
  \<open>tr\<close> and \<open>ans\<close>.
\<close>

type_synonym traffic = "(bool \<times> u32) list"

definition bus_ok :: "'d bus \<Rightarrow> u32 \<Rightarrow> ('d \<Rightarrow> traffic) \<Rightarrow> (traffic \<Rightarrow> u32) \<Rightarrow> bool" where
  "bus_ok B ch tr ans \<longleftrightarrow>
     (\<forall>d. \<exists>d'. stat_wait B ch SPI_STAT_TX_FULL d = Some d' \<and> tr d' = tr d) \<and>
     (\<forall>d. \<exists>d'. stat_wait B ch SPI_STAT_RX_EMPTY d = Some d' \<and> tr d' = tr d) \<and>
     (\<forall>w d. tr (wr_txhold B ch w d) = tr d @ [(True, w)]) \<and>
     (\<forall>w d. tr (wr_io B ch w d) = tr d @ [(False, w)]) \<and>
     (\<forall>d. \<exists>d'. rd_io B ch d = (ans (tr d), d') \<and> tr d' = tr d)"

text \<open>The bytes of a word, as the shift register sends them, and the transfers the slave sees.\<close>

definition word_bytes :: "u32 \<Rightarrow> u8 list" where
  "word_bytes w = take (unat (drop_bit 24 w) div 8) [ucast (drop_bit 16 w), ucast (drop_bit 8 w), ucast w]"

fun frames :: "u8 list \<Rightarrow> traffic \<Rightarrow> u8 list list" where
  "frames acc [] = []"
| "frames acc ((hold, w) # t) = (if hold then frames (acc @ word_bytes w) t else (acc @ word_bytes w) # frames [] t)"

definition closed :: "traffic \<Rightarrow> bool" where
  "closed t \<longleftrightarrow> t = [] \<or> \<not> fst (last t)"

lemma frames_append: "closed t \<Longrightarrow> t \<noteq> [] \<Longrightarrow> frames acc (t @ t') = frames acc t @ frames [] t'"
proof (induction t arbitrary: acc)
  case (Cons x t)
  then show ?case by (cases x; cases "t = []") (auto simp: closed_def)
qed simp

lemma frames_append0: "closed t \<Longrightarrow> frames [] (t @ t') = frames [] t @ frames [] t'"
  using frames_append by (cases "t = []") simp_all

text \<open>The words of one transfer.\<close>

definition send_word :: "u8 list \<Rightarrow> u32" where
  "send_word send = (let (data, count, rest) = fill_loop send 0 0 in data OR push_bit 24 (of_nat count))"

fun send_words :: "u8 list \<Rightarrow> traffic" where
  "send_words send = (if send = [] then [] else (drop 3 send \<noteq> [], send_word send) # send_words (drop 3 send))"

declare send_words.simps [simp del]

lemma fill_loop_rest: "snd (snd (fill_loop send 0 0)) = drop 3 send"
proof -
  consider "send = []" | a where "send = [a]" | a b where "send = [a, b]" | a b c where "send = [a, b, c]" | a b c e r where "send = a # b # c # e # r"
    by (metis list.exhaust)
  then show ?thesis by cases simp_all
qed

text \<open>The bytes of a word.\<close>

definition layout :: "u8 \<Rightarrow> u8 \<Rightarrow> u8 \<Rightarrow> u8 \<Rightarrow> u32" where
  "layout n a b c = push_bit 16 (ucast a) OR push_bit 8 (ucast b) OR ucast c OR push_bit 24 (ucast n)"

lemma layout_bytes: "word_bytes (layout n a b c) = take (unat n div 8) [a, b, c]"
proof -
  have h: "8 \<le> k \<Longrightarrow> \<not> bit (x :: u8) k" for x k by (auto dest: bit_imp_le_length)
  have "ucast (drop_bit 16 (layout n a b c)) = a" by (rule bit_word_eqI) (auto simp: layout_def bit_simps h)
  moreover have "ucast (drop_bit 8 (layout n a b c)) = b" by (rule bit_word_eqI) (auto simp: layout_def bit_simps h)
  moreover have "ucast (layout n a b c) = c" by (rule bit_word_eqI) (auto simp: layout_def bit_simps h)
  moreover have "drop_bit 24 (layout n a b c) = ucast n"
    by (rule bit_word_eqI) (auto simp: layout_def bit_simps h dest: bit_imp_le_length)
  ultimately show ?thesis by (simp add: word_bytes_def unat_ucast_up)
qed

lemma send_word_layout:
  "send_word [a] = layout 8 a 0 0" "send_word [a, b] = layout 16 a b 0"
  "send_word (a # b # c # r) = layout 24 a b c"
proof -
  have "fill_loop r 24 x = (x, 24, r)" for x by (cases r) simp_all
  then show "send_word (a # b # c # r) = layout 24 a b c" by (simp add: send_word_def layout_def or.assoc)
qed (simp_all add: send_word_def layout_def or.assoc)

lemma send_word_bytes: "send \<noteq> [] \<Longrightarrow> word_bytes (send_word send) = take 3 send"
proof -
  assume "send \<noteq> []"
  then consider a where "send = [a]" | a b where "send = [a, b]" | a b c r where "send = a # b # c # r"
    by (metis list.exhaust)
  then show ?thesis by cases (simp_all add: send_word_layout layout_bytes)
qed

lemma send_words_frames: "send \<noteq> [] \<Longrightarrow> frames acc (send_words send) = [acc @ send] \<and> closed (send_words send)"
proof (induction send arbitrary: acc rule: send_words.induct)
  case (1 send)
  show ?case
  proof (cases "drop 3 send = []")
    case True
    then show ?thesis using 1(2) send_word_bytes [OF 1(2)]
      by (simp add: send_words.simps [of send] send_words.simps [of "[]"] closed_def)
  next
    case False
    note ih = 1(1) [OF 1(2) False]
    have "closed (send_words send)" using ih False 1(2)
      by (subst send_words.simps) (auto simp: closed_def send_words.simps [of "drop 3 send"])
    moreover have "frames acc (send_words send) = [acc @ send]"
      using ih 1(2) send_word_bytes [OF 1(2)] False by (subst send_words.simps) simp
    ultimately show ?thesis by simp
  qed
qed

text \<open>
  \<open>spi_send_recv\<close> makes one transfer of exactly the bytes it is given, in words of up to three, and
  returns when no more is to be received than is sent.
\<close>

lemma fill_loop_count: "send \<noteq> [] \<Longrightarrow> fst (snd (fill_loop send 0 0)) = 8 * min 3 (length send)"
proof -
  assume "send \<noteq> []"
  then consider a where "send = [a]" | a b where "send = [a, b]" | a b c where "send = [a, b, c]" | a b c e r where "send = a # b # c # e # r"
    by (metis list.exhaust)
  then show ?thesis by cases simp_all
qed

lemma length_recv_loop: "8 dvd n \<Longrightarrow> length (recv_loop data n) = n div 8"
proof (induction n rule: less_induct)
  case (less n)
  show ?case
  proof (cases "n = 0")
    case False
    then obtain k where k: "n = 8 * Suc k" using less(2) by (metis dvdE gr0_conv_Suc mult_0_right neq0_conv)
    then show ?thesis using less(1) [of "8 * k"] by (subst recv_loop.simps) simp
  qed (simp add: recv_loop.simps)
qed

lemma send_recv_loop_ok:
  assumes ok: "bus_ok B ch tr ans"
  shows "recvlen \<le> length recv + length send \<Longrightarrow> length recv \<le> recvlen \<Longrightarrow>
   \<exists>r d'. send_recv_loop B ch send recv recvlen d = Some (r, d') \<and> tr d' = tr d @ send_words send \<and> length r = recvlen \<and>
     (\<exists>r'. r = recv @ r')"
proof (induction send arbitrary: recv d rule: send_words.induct)
  case (1 send)
  show ?case
  proof (cases "send = []")
    case True
    then show ?thesis using 1(2,3) by (subst send_recv_loop.simps) (simp add: send_words.simps)
  next
    case False
    let ?w = "send_word send" and ?rest = "drop 3 send"
    obtain data count where fl: "fill_loop send 0 0 = (data, count, ?rest)" using fill_loop_rest [of send] by (metis prod.collapse)
    have count: "count = 8 * min 3 (length send)" using fill_loop_count [OF False] fl by simp
    have w: "data OR push_bit 24 (of_nat count) = ?w" by (simp add: send_word_def fl)
    obtain d1 where d1: "stat_wait B ch SPI_STAT_TX_FULL d = Some d1" "tr d1 = tr d" using ok unfolding bus_ok_def by blast
    define d2 where "d2 = (if ?rest \<noteq> [] then wr_txhold B ch ?w d1 else wr_io B ch ?w d1)"
    have d2: "(if ?rest \<noteq> [] then wr_txhold B ch (data OR push_bit 24 (of_nat count)) d1
        else wr_io B ch (data OR push_bit 24 (of_nat count)) d1) = d2" by (simp add: d2_def w)
    have t2: "tr d2 = tr d @ [(?rest \<noteq> [], ?w)]" using ok d1(2) unfolding bus_ok_def d2_def by simp
    obtain d3 where d3: "stat_wait B ch SPI_STAT_RX_EMPTY d2 = Some d3" "tr d3 = tr d2" using ok unfolding bus_ok_def by blast
    obtain d4 where d4: "rd_io B ch d3 = (ans (tr d3), d4)" "tr d4 = tr d3" using ok unfolding bus_ok_def by blast
    define n where "n = (if count > (recvlen - length recv) * 8 then (recvlen - length recv) * 8 else count)"
    define recv' where "recv' = recv @ recv_loop (ans (tr d3)) n"
    have n8: "8 dvd n" "n div 8 = min (recvlen - length recv) (min 3 (length send))"
      unfolding n_def count by (auto simp: min_def)
    have lr: "length recv' = length recv + min (recvlen - length recv) (min 3 (length send))"
      using length_recv_loop [OF n8(1)] n8(2) by (simp add: recv'_def)
    have pre: "recvlen \<le> length recv' + length ?rest" "length recv' \<le> recvlen" using 1(2,3) lr by auto
    obtain r d' where r: "send_recv_loop B ch ?rest recv' recvlen d4 = Some (r, d')" "tr d' = tr d4 @ send_words ?rest" "length r = recvlen" "\<exists>r'. r = recv' @ r'"
      using 1(1) [OF False pre] by blast
    have "send_recv_loop B ch send recv recvlen d = Some (r, d')"
      using False r(1) by (subst send_recv_loop.simps) (simp add: fl d1(1) d2 d3(1) d4(1) n_def [symmetric] recv'_def [symmetric] Let_def del: drop_eq_Nil split del: if_split)
    moreover have "tr d' = tr d @ send_words send"
      using False r(2) t2 d3(2) d4(2) by (subst send_words.simps) simp
    ultimately show ?thesis using r(3,4) by (auto simp: recv'_def)
  qed
qed

lemma spi_send_recv_ok:
  assumes "bus_ok B ch tr ans" "recvlen \<le> length send" "send \<noteq> []" "closed (tr d)"
  shows "\<exists>r d'. spi_send_recv B ch send recvlen d = Some (r, d') \<and> length r = recvlen \<and>
     frames [] (tr d') = frames [] (tr d) @ [send] \<and> closed (tr d')"
proof -
  obtain r d' where r: "spi_send_recv B ch send recvlen d = Some (r, d')" "tr d' = tr d @ send_words send" "length r = recvlen"
    using send_recv_loop_ok [OF assms(1), of recvlen "[]" send d] assms(2) by (auto simp: spi_send_recv_def)
  have c: "closed (tr d')" using send_words_frames [OF assms(3)] r(2) assms(3)
    by (simp add: closed_def send_words.simps [of send])
  show ?thesis using r c frames_append0 [OF assms(4), of "send_words send"] send_words_frames [OF assms(3), of "[]"] by simp
qed

text \<open>When more is to be received than is sent, the loop writes empty words for ever.\<close>

lemma send_recv_loop_returns:
  "send_recv_loop B ch send recv recvlen d = Some x \<Longrightarrow> length recv \<le> recvlen \<longrightarrow> recvlen \<le> length recv + length send"
proof (induction rule: send_recv_loop.raw_induct [rotated 1, consumes 1, case_names step])
  case (step f B ch send recv recvlen d x)
  show ?case
  proof (cases "send \<noteq> [] \<or> length recv < recvlen")
    case True
    obtain data count where fl: "fill_loop send 0 0 = (data, count, drop 3 send)" using fill_loop_rest [of send] by (metis prod.collapse)
    have count: "count = 8 * min 3 (length send)"
      using fill_loop_count [of send] fl by (cases "send = []") auto
    let ?n = "if count > (recvlen - length recv) * 8 then (recvlen - length recv) * 8 else count"
    obtain v d' where f: "f B ch (drop 3 send) (recv @ recv_loop v ?n) recvlen d' = Some x"
    proof -
      have b: "\<exists>d3. f B ch (drop 3 send) (recv @ recv_loop (fst (rd_io B ch d3)) ?n) recvlen (snd (rd_io B ch d3)) = Some x"
        using step(2) True by (simp only: if_True fl Let_def case_prod_conv) (auto simp: bind_eq_Some_conv split_def)
      then show ?thesis using that by blast
    qed
    have "8 dvd ?n" by (simp add: count)
    note lr = length_recv_loop [OF this, of v]
    show ?thesis using step(1) [OF f] lr unfolding count by (auto split: if_splits)
  qed simp
qed

lemma spi_send_recv_diverges: "length send < recvlen \<Longrightarrow> spi_send_recv B ch send recvlen d = None"
  using send_recv_loop_returns [of B ch send "[]" recvlen d] by (cases "spi_send_recv B ch send recvlen d") (auto simp: spi_send_recv_def)

section \<open>Registers and strings\<close>

lemma spi_uart_write_register_ok:
  assumes "bus_ok B (ucast sc) tr ans" "closed (tr d)"
  shows "\<exists>d'. spi_uart_write_register B sc uc reg data d = Some d' \<and> closed (tr d') \<and>
     frames [] (tr d') = frames [] (tr d) @ [[req_byte uc reg, data]]"
  using spi_send_recv_ok [OF assms(1) _ _ assms(2), of 0 "[req_byte uc reg, data]"]
  by (auto simp: spi_uart_write_register_def)

lemma spi_uart_read_register_ok:
  assumes ok: "bus_ok B (ucast sc) tr ans" and c: "closed (tr d)"
  shows "\<exists>d'. spi_uart_read_register B sc uc reg d = Some (ucast (ans (tr d')), d') \<and> closed (tr d') \<and>
     frames [] (tr d') = frames [] (tr d) @ [[req_byte uc reg OR UART_READ_ENABLE, 0]]"
proof -
  let ?ch = "ucast sc :: u32" and ?s = "[req_byte uc reg OR UART_READ_ENABLE, 0]"
  let ?w = "send_word ?s"
  obtain d1 where d1: "stat_wait B ?ch SPI_STAT_TX_FULL d = Some d1" "tr d1 = tr d" using ok unfolding bus_ok_def by blast
  let ?d2 = "wr_io B ?ch ?w d1"
  have t2: "tr ?d2 = tr d @ [(False, ?w)]" using ok d1(2) unfolding bus_ok_def by simp
  obtain d3 where d3: "stat_wait B ?ch SPI_STAT_RX_EMPTY ?d2 = Some d3" "tr d3 = tr ?d2" using ok unfolding bus_ok_def by blast
  obtain d4 where d4: "rd_io B ?ch d3 = (ans (tr d3), d4)" "tr d4 = tr d3" using ok unfolding bus_ok_def by blast
  have r: "recv_loop v 16 = [ucast (drop_bit 8 v AND 0xFF), ucast (v AND 0xFF)]" for v
    by (simp add: recv_loop.simps [of v 16] recv_loop.simps [of v 8] recv_loop.simps [of v 0])
  obtain data where fl: "fill_loop ?s 0 0 = (data, 16, [])" by simp
  have w: "data OR push_bit 24 (of_nat 16) = ?w" using fl by (simp only: send_word_def) simp
  have "spi_send_recv B ?ch ?s 2 d = Some ([ucast (drop_bit 8 (ans (tr d3)) AND 0xFF), ucast (ans (tr d3) AND 0xFF)], d4)"
    unfolding spi_send_recv_def using d1(1) d3(1) d4(1)
    by (subst send_recv_loop.simps) (simp add: fl w [simplified] Let_def r send_recv_loop.simps [of _ _ "[]"] del: fill_loop.simps)
  moreover have "(ucast (ans (tr d3) AND 0xFF) :: u8) = ucast (ans (tr d3))"
  proof -
    have m: "(0xFF :: u32) = mask 8" by (simp add: mask_eq_exp_minus_1)
    show ?thesis unfolding m by (rule bit_word_eqI) (auto simp: bit_simps)
  qed
  ultimately have "spi_uart_read_register B sc uc reg d = Some (ucast (ans (tr d4)), d4)"
    using d4(2) by (simp add: spi_uart_read_register_def)
  moreover have "tr d4 = tr d @ send_words ?s" using t2 d3(2) d4(2) by (simp add: send_words.simps)
  moreover have "closed (tr d4)" using t2 d3(2) d4(2) by (simp add: closed_def)
  ultimately show ?thesis using frames_append0 [OF c, of "send_words ?s"] send_words_frames [of ?s "[]"] by simp
qed

text \<open>The bytes written to the transmit register of a channel.\<close>

definition transmitted :: "u64 \<Rightarrow> u8 list list \<Rightarrow> u8 list" where
  "transmitted uc fs = concat (map tl (filter (\<lambda>f. f \<noteq> [] \<and> hd f = req_byte uc UART_THR) fs))"

lemma transmitted_append [simp]: "transmitted uc (fs @ gs) = transmitted uc fs @ transmitted uc gs"
  by (simp add: transmitted_def)

lemma req_bytes: "uc < 2 \<Longrightarrow> req_byte uc UART_TXLVL OR UART_READ_ENABLE \<noteq> req_byte uc UART_THR"
proof -
  assume "uc < 2"
  then have "uc \<in> {0, 1}" using word_less_nat_alt [of uc 2] by (auto simp: word_unat_eq_iff less_2_cases_iff)
  then show ?thesis by (auto simp: req_byte_def UART_TXLVL_def UART_READ_ENABLE_def UART_THR_def)
qed

lemma transmitted_frames [simp]:
  "transmitted uc [req_byte uc UART_THR # acc] = acc"
  "uc < 2 \<Longrightarrow> transmitted uc [[req_byte uc UART_TXLVL OR UART_READ_ENABLE, 0]] = []"
  using req_bytes by (simp_all add: transmitted_def)

lemma read_tlen_ok:
  assumes "bus_ok B (ucast sc) tr ans" "closed (tr d)"
  shows "\<exists>d'. read_tlen B sc uc d = Some (min 32 (unat (ucast (ans (tr d')) :: u8)), d') \<and> closed (tr d') \<and>
     frames [] (tr d') = frames [] (tr d) @ [[req_byte uc UART_TXLVL OR UART_READ_ENABLE, 0]]"
proof -
  obtain d' where "spi_uart_read_register B sc uc UART_TXLVL d = Some (ucast (ans (tr d')), d')" "closed (tr d')"
    "frames [] (tr d') = frames [] (tr d) @ [[req_byte uc UART_TXLVL OR UART_READ_ENABLE, 0]]"
    using spi_uart_read_register_ok [OF assms, of uc UART_TXLVL] by blast
  then show ?thesis by (intro exI [of _ d']) (simp add: read_tlen_def min_def)
qed

text \<open>A frame the string functions write fits \<open>temp\<close>: it has at most 32 bytes.\<close>

definition fits :: "u8 list list \<Rightarrow> bool" where
  "fits fs \<longleftrightarrow> (\<forall>f\<in>set fs. length f \<le> 32)"

lemma puts_loop_partial:
  "puts_loop B sc uc rest acc tlen d = Some d' \<Longrightarrow>
    bus_ok B (ucast sc) tr ans \<longrightarrow> uc < 2 \<longrightarrow> closed (tr d) \<longrightarrow> length acc < 32 \<longrightarrow> tlen \<le> 32 \<longrightarrow>
    closed (tr d') \<and> (\<exists>fs. frames [] (tr d') = frames [] (tr d) @ fs \<and> fits fs \<and> transmitted uc fs = acc @ rest)"
proof (induction rule: puts_loop.raw_induct [rotated 1, consumes 1, case_names step])
  case (step f B sc uc rest acc tlen d d')
  show ?case
  proof (intro impI)
    assume ok: "bus_ok B (ucast sc) tr ans" and uc: "uc < 2" and a: "closed (tr d)" "length acc < 32" "tlen \<le> 32"
    show "closed (tr d') \<and> (\<exists>fs. frames [] (tr d') = frames [] (tr d) @ fs \<and> fits fs \<and> transmitted uc fs = acc @ rest)"
    proof (cases "length acc + 1 < tlen \<and> rest \<noteq> []")
      case True
      then have "f B sc uc (tl rest) (acc @ [hd rest]) tlen d = Some d'" using step(2) by simp
      from step(1) [OF this] show ?thesis using ok uc a True by simp
    next
      case False
      let ?f = "req_byte uc UART_THR # acc"
      obtain r d1 where d1: "spi_send_recv B (ucast sc) ?f 0 d = Some (r, d1)" "closed (tr d1)" "frames [] (tr d1) = frames [] (tr d) @ [?f]"
        using spi_send_recv_ok [OF ok _ _ a(1), of 0 ?f] by auto
      show ?thesis
      proof (cases "rest = []")
        case True
        then have "d' = d1" using step(2) False d1 by simp
        then show ?thesis using d1 True a by (intro conjI exI [of _ "[?f]"]) (simp_all add: fits_def)
      next
        case ne: False
        obtain d2 where d2: "read_tlen B sc uc d1 = Some (min 32 (unat (ucast (ans (tr d2)) :: u8)), d2)" "closed (tr d2)"
          "frames [] (tr d2) = frames [] (tr d1) @ [[req_byte uc UART_TXLVL OR UART_READ_ENABLE, 0]]"
          using read_tlen_ok [OF ok d1(2)] by blast
        have "f B sc uc rest [] (min 32 (unat (ucast (ans (tr d2)) :: u8))) d2 = Some d'"
          using step(2) False ne d1(1) d2(1) by simp
        from step(1) [OF this] ok uc d2(2) obtain fs where fs: "closed (tr d')" "frames [] (tr d') = frames [] (tr d2) @ fs" "fits fs" "transmitted uc fs = rest"
          by auto
        show ?thesis using fs d1(3) d2(3) a uc
          by (intro conjI exI [of _ "[?f, [req_byte uc UART_TXLVL OR UART_READ_ENABLE, 0]] @ fs"])
            (simp_all add: fits_def transmitted_append [of uc "[?f]" "[req_byte uc UART_TXLVL OR UART_READ_ENABLE, 0] # fs", simplified]
              transmitted_append [of uc "[[req_byte uc UART_TXLVL OR UART_READ_ENABLE, 0]]" fs, simplified] del: transmitted_append)
      qed
    qed
  qed
qed

lemma puts_loop_returns:
  assumes ok: "bus_ok B (ucast sc) tr ans" and room: "\<forall>t. 2 \<le> unat (ucast (ans t) :: u8)"
  shows "closed (tr d) \<Longrightarrow> \<exists>d'. puts_loop B sc uc rest acc tlen d = Some d'"
proof (induction "length rest" arbitrary: rest acc tlen d rule: less_induct)
  case less
  show ?case
  proof (cases "length acc + 1 < tlen \<and> rest \<noteq> []")
    case True
    then have "length (tl rest) < length rest" by (cases rest) auto
    from less(1) [OF this less(2)] show ?thesis using True by (subst puts_loop.simps) simp
  next
    case False
    let ?f = "req_byte uc UART_THR # acc"
    obtain r d1 where d1: "spi_send_recv B (ucast sc) ?f 0 d = Some (r, d1)" "closed (tr d1)"
      using spi_send_recv_ok [OF ok _ _ less(2), of 0 ?f] by auto
    show ?thesis
    proof (cases "rest = []")
      case True
      then show ?thesis using d1(1) by (subst puts_loop.simps) simp
    next
      case ne: False
      obtain d2 where d2: "read_tlen B sc uc d1 = Some (min 32 (unat (ucast (ans (tr d2)) :: u8)), d2)" "closed (tr d2)"
        using read_tlen_ok [OF ok d1(2)] by blast
      let ?t = "min 32 (unat (ucast (ans (tr d2)) :: u8))"
      have t: "1 < ?t" using room [rule_format, of "tr d2"] by simp
      have "length (tl rest) < length rest" using ne by (cases rest) auto
      then obtain d' where "puts_loop B sc uc (tl rest) [hd rest] ?t d2 = Some d'" using less(1) d2(2) by blast
      then have "puts_loop B sc uc rest [] ?t d2 = Some d'" using t ne by (subst puts_loop.simps) simp
      then show ?thesis using False ne d1(1) d2(1) by (subst puts_loop.simps) simp
    qed
  qed
qed

lemma spi_uart_puts_ok:
  assumes ok: "bus_ok B (ucast sc) tr ans" and uc: "uc < 2" and c: "closed (tr d)"
  shows "spi_uart_puts B sc uc buf d = Some d' \<Longrightarrow>
      closed (tr d') \<and> (\<exists>fs. frames [] (tr d') = frames [] (tr d) @ fs \<and> fits fs \<and> transmitted uc fs = buf)"
    "\<forall>t. 2 \<le> unat (ucast (ans t) :: u8) \<Longrightarrow> \<exists>d'. spi_uart_puts B sc uc buf d = Some d'"
proof -
  let ?q = "[req_byte uc UART_TXLVL OR UART_READ_ENABLE, 0]"
  obtain d1 where d1: "read_tlen B sc uc d = Some (min 32 (unat (ucast (ans (tr d1)) :: u8)), d1)" "closed (tr d1)" "frames [] (tr d1) = frames [] (tr d) @ [?q]"
    using read_tlen_ok [OF ok c] by blast
  show "\<exists>d'. spi_uart_puts B sc uc buf d = Some d'" if "\<forall>t. 2 \<le> unat (ucast (ans t) :: u8)"
    using puts_loop_returns [OF ok that d1(2)] d1(1) by (simp add: spi_uart_puts_def)
  assume "spi_uart_puts B sc uc buf d = Some d'"
  then have p: "puts_loop B sc uc buf [] (min 32 (unat (ucast (ans (tr d1)) :: u8))) d1 = Some d'" using d1(1) by (simp add: spi_uart_puts_def)
  obtain fs where "closed (tr d')" "frames [] (tr d') = frames [] (tr d1) @ fs" "fits fs" "transmitted uc fs = buf"
    using puts_loop_partial [OF p, of tr ans] ok uc d1(2) by auto
  then show "closed (tr d') \<and> (\<exists>fs. frames [] (tr d') = frames [] (tr d) @ fs \<and> fits fs \<and> transmitted uc fs = buf)"
    using d1(3) uc by (intro conjI exI [of _ "[?q] @ fs"]) (simp_all only: transmitted_append transmitted_frames append.assoc, simp_all add: fits_def)
qed

text \<open>With a full transmit queue (\<open>TXLVL\<close> 0) the null-terminated variant sends nothing and returns.\<close>

lemma spi_uart_puts_ntm_full:
  assumes ok: "bus_ok B (ucast sc) tr ans" and uc: "uc < 2" and c: "closed (tr d)" and full: "\<forall>t. (ucast (ans t) :: u8) = 0"
  shows "\<exists>d' fs. spi_uart_puts_ntm B sc uc m buf d = Some (Inr d') \<and> frames [] (tr d') = frames [] (tr d) @ fs \<and> transmitted uc fs = []"
proof -
  let ?q = "[req_byte uc UART_TXLVL OR UART_READ_ENABLE, 0]"
  obtain d1 where d1: "read_tlen B sc uc d = Some (0, d1)" "closed (tr d1)" "frames [] (tr d1) = frames [] (tr d) @ [?q]"
    using read_tlen_ok [OF ok c, of uc] full by auto
  obtain r d2 where d2: "spi_send_recv B (ucast sc) [req_byte uc UART_THR] 0 d1 = Some (r, d2)" "frames [] (tr d2) = frames [] (tr d1) @ [[req_byte uc UART_THR]]"
    using spi_send_recv_ok [OF ok _ _ d1(2), of 0 "[req_byte uc UART_THR]"] by auto
  have "spi_uart_puts_ntm B sc uc m buf d = Some (Inr d2)"
    using d1(1) d2(1) by (simp add: spi_uart_puts_ntm_def puts_ntm_loop.simps)
  then show ?thesis using d1(3) d2(2) uc
    by (intro exI [of _ d2] exI [of _ "[?q] @ [[req_byte uc UART_THR]]"]) (simp only: transmitted_append transmitted_frames append.assoc, simp)
qed

text \<open>A controller that is always ready and answers every word with \<open>v\<close>.\<close>

definition ready_bus :: "u32 \<Rightarrow> traffic bus" where
  "ready_bus v =
     \<lparr>rd_stat = \<lambda>_ d. (0, d), wr_txhold = \<lambda>_ w d. d @ [(True, w)], wr_io = \<lambda>_ w d. d @ [(False, w)], rd_io = \<lambda>_ d. (v, d)\<rparr>"

lemma ready_bus_ok: "bus_ok (ready_bus v) ch (\<lambda>d. d) (\<lambda>_. v)"
  by (simp add: bus_ok_def ready_bus_def stat_wait.simps)

end
