(* ===== verification/LList.thy ===== *)
theory LList
  imports DList
begin

text \<open>
  The singly linked lists of lib/include/utlist.h: \<open>LL_PREPEND2\<close>, \<open>LL_DELETE2\<close> and the loop of
  \<open>LL_FOREACH2\<close> that stops at the first element found. The links are a field of the elements, read by \<open>nx\<close>; a list is
  the pointer to its first element. The free lists and the hash table buckets of the servers are such lists.
\<close>

section \<open>The macros\<close>

definition ll_prepend :: "'p option \<Rightarrow> 'p \<Rightarrow> ('p \<Rightarrow> 'p option) \<Rightarrow> 'p option \<times> ('p \<Rightarrow> 'p option)" where
  "ll_prepend head add nx = (Some add, nx(add := head))"

text \<open>The walk of \<open>LL_DELETE2\<close> to the element before \<open>del\<close>; a circular list keeps it going.\<close>

partial_function (option) ll_before :: "('p \<Rightarrow> 'p option) \<Rightarrow> 'p option \<Rightarrow> 'p \<Rightarrow> 'p option" where
  "ll_before nx del t = (case nx t of None \<Rightarrow> Some t | Some n \<Rightarrow> if nx t = del then Some t else ll_before nx del n)"

text \<open>\<open>del\<close> may be null: on an empty list the macro then reads \<open>(head)->next\<close> of the null pointer.\<close>

definition ll_delete :: "'p option \<Rightarrow> 'p option \<Rightarrow> ('p \<Rightarrow> 'p option) \<Rightarrow> ('p option \<times> ('p \<Rightarrow> 'p option)) res" where
  "ll_delete head del nx =
     (if head = del then bindR (deref head) (\<lambda>h. Inr (nx h, nx))
      else bindR (deref head) (\<lambda>h. bindR (returns (ll_before nx del h)) (\<lambda>t.
        case nx t of None \<Rightarrow> Inr (head, nx)
        | Some _ \<Rightarrow> bindR (deref del) (\<lambda>d. Inr (head, nx(t := nx d))))))"

text \<open>\<open>LL_FOREACH2(head,el,next) if (c(el)) break;\<close> where \<open>c\<close> itself may not return.\<close>

partial_function (option) ll_search :: "('p \<Rightarrow> bool option) \<Rightarrow> ('p \<Rightarrow> 'p option) \<Rightarrow> 'p option \<Rightarrow> 'p option option" where
  "ll_search c nx el =
     (case el of None \<Rightarrow> Some None
      | Some x \<Rightarrow> Option.bind (c x) (\<lambda>b. if b then Some (Some x) else ll_search c nx (nx x)))"

section \<open>Lists\<close>

text \<open>The pointer \<open>h\<close> is the head of the list \<open>xs\<close>.\<close>

fun ll_path :: "('p \<Rightarrow> 'p option) \<Rightarrow> 'p option \<Rightarrow> 'p list \<Rightarrow> bool" where
  "ll_path nx h [] \<longleftrightarrow> h = None"
| "ll_path nx h (x # xs) \<longleftrightarrow> h = Some x \<and> ll_path nx (nx x) xs"

lemma ll_path_None [simp]: "ll_path nx None xs \<longleftrightarrow> xs = []"
  by (cases xs) auto

lemma ll_path_Some: "ll_path nx (Some x) xs \<longleftrightarrow> (\<exists>ys. xs = x # ys \<and> ll_path nx (nx x) ys)"
  by (cases xs) auto

lemma ll_path_other [simp]: "x \<notin> set xs \<Longrightarrow> ll_path (nx(x := v)) h xs = ll_path nx h xs"
  by (induction xs arbitrary: h) auto

lemma ll_prepend_path:
  "ll_path nx h xs \<Longrightarrow> x \<notin> set xs \<Longrightarrow> ll_prepend h x nx = (h', nx') \<Longrightarrow> ll_path nx' h' (x # xs)"
  by (auto simp: ll_prepend_def)

lemma ll_delete_head: "ll_path nx h (x # xs) \<Longrightarrow> ll_delete h h nx = Inr (nx x, nx) \<and> ll_path nx (nx x) xs"
  by (simp add: ll_delete_def)

lemma ll_delete_empty: "ll_delete None None nx = Inl Null_deref"
  by (simp add: ll_delete_def)

lemma ll_before_path:
  "ll_path nx (Some t) (t # ys @ x # zs) \<Longrightarrow> distinct (t # ys @ x # zs) \<Longrightarrow>
   ll_before nx (Some x) t = Some (last (t # ys)) \<and> nx (last (t # ys)) = Some x"
proof (induction ys arbitrary: t)
  case Nil
  then show ?case by (subst ll_before.simps) simp
next
  case (Cons y ys)
  have "nx t = Some y" "x \<noteq> y" using Cons.prems by auto
  then show ?case using Cons.IH [of y] Cons.prems by (subst ll_before.simps) simp
qed

lemma ll_path_skip:
  "ll_path nx h (ys @ [t] @ x # zs) \<Longrightarrow> distinct (ys @ [t] @ x # zs) \<Longrightarrow> ll_path (nx(t := nx x)) h (ys @ t # zs)"
  by (induction ys arbitrary: h) auto

text \<open>Deleting an element of the list removes exactly it.\<close>

lemma ll_delete_path:
  assumes p: "ll_path nx h xs" and d: "distinct xs" and x: "x \<in> set xs"
  shows "\<exists>h' nx'. ll_delete h (Some x) nx = Inr (h', nx') \<and> ll_path nx' h' (remove1 x xs) \<and> (\<forall>y. y \<notin> set xs \<longrightarrow> nx' y = nx y)"
proof -
  obtain ys zs where xs: "xs = ys @ x # zs" "x \<notin> set ys" using x by (metis split_list_first)
  show ?thesis
  proof (cases ys)
    case Nil
    then have "h = Some x" "ll_path nx (nx x) zs" using p xs by simp_all
    then show ?thesis using Nil xs by (simp add: ll_delete_def)
  next
    case (Cons t us)
    have h: "h = Some t" "t \<noteq> x" using p xs Cons by auto
    have b: "ll_before nx (Some x) t = Some (last ys)" "nx (last ys) = Some x"
      using ll_before_path [of nx t us x zs] p d h unfolding xs Cons by auto
    have ys: "ys = butlast ys @ [last ys]" using Cons by simp
    have "ll_path (nx(last ys := nx x)) h (butlast ys @ last ys # zs)"
      by (rule ll_path_skip) (use p d xs ys in \<open>metis append.assoc append_Cons append_Nil\<close>)+
    moreover have "butlast ys @ last ys # zs = remove1 x xs" using xs ys Cons by (simp add: remove1_append)
    moreover have "last ys \<in> set xs" using xs Cons by simp
    ultimately show ?thesis using h b by (simp add: ll_delete_def)
  qed
qed

lemma ll_search_path:
  assumes "ll_path nx h xs" "\<forall>x\<in>set xs. c x = Some (P x)"
  shows "ll_search c nx h = Some (find P xs)"
  using assms
proof (induction xs arbitrary: h)
  case Nil
  then show ?case by (simp add: ll_search.simps)
next
  case (Cons x xs)
  then show ?case by (subst ll_search.simps) simp
qed

text \<open>A free list built by prepending \<open>&arr[n - 1], \<dots>, &arr[0]\<close>.\<close>

fun free_all :: "nat \<Rightarrow> nat option \<times> (nat \<Rightarrow> nat option) \<Rightarrow> nat option \<times> (nat \<Rightarrow> nat option)" where
  "free_all 0 st = st"
| "free_all (Suc i) st = free_all i (ll_prepend (fst st) i (snd st))"

lemma free_all_path:
  "free_all n (h, nx) = (h', nx') \<Longrightarrow> ll_path nx h xs \<Longrightarrow> distinct xs \<Longrightarrow> \<forall>x\<in>set xs. n \<le> x \<Longrightarrow> ll_path nx' h' ([0..<n] @ xs)"
proof (induction n arbitrary: h nx xs)
  case (Suc n)
  have n: "n \<notin> set xs" using Suc.prems(4) by auto
  have "ll_path (nx(n := h)) (Some n) (n # xs)" using Suc.prems(2) n by simp
  moreover have "free_all n (Some n, nx(n := h)) = (h', nx')" using Suc.prems(1) by (simp add: ll_prepend_def)
  moreover have "distinct (n # xs)" "\<forall>x\<in>set (n # xs). n \<le> x" using Suc.prems(3,4) n by auto
  ultimately have "ll_path nx' h' ([0..<n] @ n # xs)" using Suc.IH by blast
  then show ?case by simp
qed simp

end
