(* ===== verification/Clock.thy ===== *)
theory Clock
  imports LList PrioHeap
begin

text \<open>
  The clock server (user/src/clock/clock_server.c): a pool of 256 wait elements, a free list of them, and a heap
  of the delays that are pending. The server answers messages one after the other; a request
  that has been received is an argument of \<open>clock_server_step\<close>, and the replies it sends are listed in the order they go out.
  C's \<open>int\<close> is a 32-bit word read signed; the sum of the tick and a delay wraps.
\<close>

section \<open>The server\<close>

abbreviation CK_SERVER_DELAY_QUEUE_SZ :: nat where "CK_SERVER_DELAY_QUEUE_SZ \<equiv> 256"

record WaitElem =
  we_delay :: u32
  we_insert_val :: u32
  we_tid :: u32

definition heap_cmp_delay :: "int \<Rightarrow> int \<Rightarrow> bool" where
  "heap_cmp_delay v1 v2 \<longleftrightarrow> v1 < v2"

record CkServer =
  curtick :: u32
  alloc_arr :: "nat \<Rightarrow> WaitElem"
  free_list :: "nat option"
  next_free :: "nat \<Rightarrow> nat option"
  delay_queue :: "nat heap"

text \<open>What a delay is ordered by.\<close>

definition wait_key :: "(nat \<Rightarrow> WaitElem) \<Rightarrow> nat \<Rightarrow> int" where
  "wait_key arr e = sint (we_delay (arr e))"

definition set_wait_insert_val :: "u64 \<Rightarrow> nat \<Rightarrow> (nat \<Rightarrow> WaitElem) \<Rightarrow> nat \<Rightarrow> WaitElem" where
  "set_wait_insert_val v e arr = arr(e := (arr e)\<lparr>we_insert_val := ucast v\<rparr>)"

definition clock_server_init :: "CkServer \<Rightarrow> CkServer" where
  "clock_server_init cs =
     (let (fl, nx) = free_all CK_SERVER_DELAY_QUEUE_SZ (None, \<lambda>_. None) in
      cs\<lparr>curtick := 0, alloc_arr := \<lambda>_. \<lparr>we_delay = 0, we_insert_val = 0, we_tid = 0\<rparr>, free_list := fl, next_free := nx,
         delay_queue := heap_init (heap_array (delay_queue cs)) CK_SERVER_DELAY_QUEUE_SZ\<rparr>)"

definition clock_server_update_tick :: "CkServer \<Rightarrow> CkServer" where
  "clock_server_update_tick cs = cs\<lparr>curtick := curtick cs + 1\<rparr>"

datatype ck_reply = CkNotifyResp | CkResp u32

text \<open>A reply and the task it goes to.\<close>

type_synonym ck_out = "(u32 \<times> ck_reply) list"

partial_function (option) pop_loop :: "u32 \<Rightarrow> CkServer \<Rightarrow> ck_out \<Rightarrow> (CkServer \<times> ck_out) option" where
  "pop_loop now cs out =
     (case heap_peek (delay_queue cs) of
        None \<Rightarrow> Some (cs, out)
      | Some e \<Rightarrow>
          if sint (we_delay (alloc_arr cs e)) > sint (curtick cs) then Some (cs, out)
          else case heap_pop (wait_key (alloc_arr cs)) heap_cmp_delay (delay_queue cs) of
            (None, q) \<Rightarrow> Some (cs, out)
          | (Some e, q) \<Rightarrow>
              let (fl, nx) = ll_prepend (free_list cs) e (next_free cs) in
              pop_loop now (cs\<lparr>delay_queue := q, free_list := fl, next_free := nx\<rparr>) (out @ [(we_tid (alloc_arr cs e), CkResp now)]))"

definition clock_server_pop_delay :: "CkServer \<Rightarrow> (CkServer \<times> ck_out) option" where
  "clock_server_pop_delay cs = pop_loop (curtick cs) cs []"

definition clock_server_add_delay_until :: "u32 \<Rightarrow> u32 \<Rightarrow> CkServer \<Rightarrow> CkServer res" where
  "clock_server_add_delay_until tid tick cs =
     bindR (c_assert (free_list cs \<noteq> None)) (\<lambda>_.
     bindR (ll_delete (free_list cs) (free_list cs) (next_free cs)) (\<lambda>(fl, nx).
     bindR (deref (free_list cs)) (\<lambda>e.
     let arr = (alloc_arr cs)(e := (alloc_arr cs e)\<lparr>we_delay := tick, we_tid := tid\<rparr>) in
     bindR (returns (heap_insert wait_key set_wait_insert_val heap_cmp_delay e (delay_queue cs, arr))) (\<lambda>(q, arr).
     Inr (cs\<lparr>free_list := fl, next_free := nx, delay_queue := q, alloc_arr := arr\<rparr>)))))"

text \<open>The messages the server knows, and any other.\<close>

datatype ck_request = CkNotifyReq | CkTimeReq | CkDelayReq u32 | CkDelayUntilReq u32 | CkOther

fun clock_server_step :: "u32 \<Rightarrow> ck_request \<Rightarrow> CkServer \<Rightarrow> (CkServer \<times> ck_out) res" where
  "clock_server_step tid CkNotifyReq cs =
     bindR (returns (clock_server_pop_delay (clock_server_update_tick cs))) (\<lambda>(cs, out). Inr (cs, (tid, CkNotifyResp) # out))"
| "clock_server_step tid CkTimeReq cs = Inr (cs, [(tid, CkResp (curtick cs))])"
| "clock_server_step tid (CkDelayReq ticks) cs =
     (if sint ticks < 0 then Inr (cs, [(tid, CkResp (- 2))])
      else bindR (clock_server_add_delay_until tid (curtick cs + ticks) cs) (\<lambda>cs. Inr (cs, [])))"
| "clock_server_step tid (CkDelayUntilReq tick) cs =
     (if sint tick < sint (curtick cs) then Inr (cs, [(tid, CkResp (- 2))])
      else bindR (clock_server_add_delay_until tid tick cs) (\<lambda>cs. Inr (cs, [])))"
| "clock_server_step tid CkOther cs = Inl Assert_fail"

section \<open>The invariant\<close>

interpretation ck: key_order heap_cmp_delay
  by unfold_locales (auto simp: heap_cmp_delay_def)

text \<open>Every element of the pool is free or in the heap, once.\<close>

definition ck_inv :: "CkServer \<Rightarrow> nat list \<Rightarrow> bool" where
  "ck_inv cs fl \<longleftrightarrow>
     ll_path (next_free cs) (free_list cs) fl \<and> is_heap (wait_key (alloc_arr cs)) heap_cmp_delay (delay_queue cs) \<and>
     distinct (fl @ heap_elems (delay_queue cs)) \<and> set (fl @ heap_elems (delay_queue cs)) = {0..<256} \<and>
     hcapacity (delay_queue cs) = 256"

text \<open>The pending delays: a task and the tick it waits for.\<close>

definition pending :: "CkServer \<Rightarrow> (u32 \<times> int) multiset" where
  "pending cs = image_mset (\<lambda>e. (we_tid (alloc_arr cs e), wait_key (alloc_arr cs) e)) (mset (heap_elems (delay_queue cs)))"

lemma size_pending: "size (pending cs) = length (heap_elems (delay_queue cs))"
  by (simp add: pending_def)

lemma ck_inv_count: "ck_inv cs fl \<Longrightarrow> length fl + size (pending cs) = 256"
proof -
  assume i: "ck_inv cs fl"
  have "card (set (fl @ heap_elems (delay_queue cs))) = length (fl @ heap_elems (delay_queue cs))"
    using i unfolding ck_inv_def by (metis distinct_card)
  then show ?thesis using i by (simp add: ck_inv_def size_pending)
qed

lemma clock_server_init_ok:
  assumes "length (heap_array (delay_queue cs)) = 256"
  shows "ck_inv (clock_server_init cs) [0..<256] \<and> pending (clock_server_init cs) = {#} \<and> curtick (clock_server_init cs) = 0"
proof -
  obtain fl nx where f: "free_all 256 (None, \<lambda>_. None) = (fl, nx)" by fastforce
  have "ll_path nx fl ([0..<256] @ [])" by (rule free_all_path [OF f]) simp_all
  then show ?thesis using assms f
    by (simp add: clock_server_init_def ck_inv_def heap_init_ok pending_def) (simp add: heap_init_def)
qed

section \<open>The operations\<close>

lemma add_delay_ok:
  assumes i: "ck_inv cs fl" and room: "size (pending cs) < 256"
  shows "\<exists>cs' fl'. clock_server_add_delay_until tid tick cs = Inr cs' \<and> ck_inv cs' fl' \<and>
     pending cs' = add_mset (tid, sint tick) (pending cs) \<and> curtick cs' = curtick cs"
proof -
  have "fl \<noteq> []" using ck_inv_count [OF i] room by auto
  then obtain e rest where fl: "fl = e # rest" by (cases fl) auto
  let ?q = "delay_queue cs" and ?arr = "(alloc_arr cs)(e := (alloc_arr cs e)\<lparr>we_delay := tick, we_tid := tid\<rparr>)"
  have f: "free_list cs = Some e" "ll_path (next_free cs) (next_free cs e) rest" using i fl by (simp_all add: ck_inv_def)
  have e: "e \<notin> set (heap_elems ?q)" using i fl by (simp add: ck_inv_def)
  have h: "is_heap (wait_key ?arr) heap_cmp_delay ?q"
  proof -
    have "wait_key (alloc_arr cs) q = wait_key ?arr q" if "q \<in> set (heap_elems ?q)" for q
      using that e by (auto simp: wait_key_def)
    then show ?thesis using i is_heap_cong [of ?q "wait_key (alloc_arr cs)" "wait_key ?arr" heap_cmp_delay] by (simp add: ck_inv_def)
  qed
  define arr' where "arr' = set_wait_insert_val (global_insertion_count ?q) e ?arr"
  have key: "wait_key arr' q = wait_key ?arr q" "we_tid (arr' q) = we_tid (?arr q)" for q
    by (simp_all add: arr'_def wait_key_def set_wait_insert_val_def)
  have len: "length (heap_elems ?q) < 256" using room by (simp add: size_pending)
  have cap: "hcount ?q < hcapacity ?q"
    using i len heap_count_elems [of ?q] by (auto simp: ck_inv_def is_heap_def)
  obtain q' where q': "heap_insert wait_key set_wait_insert_val heap_cmp_delay e (?q, ?arr) = Some (q', arr')"
    "is_heap (wait_key arr') heap_cmp_delay q'" "mset (heap_elems q') = add_mset e (mset (heap_elems ?q))" "hcapacity q' = hcapacity ?q"
    using ck.heap_insert_correct [of wait_key ?arr ?q arr' set_wait_insert_val e, OF h cap arr'_def] key(1) by blast
  let ?cs = "cs\<lparr>free_list := next_free cs e, next_free := next_free cs, delay_queue := q', alloc_arr := arr'\<rparr>"
  have "clock_server_add_delay_until tid tick cs = Inr ?cs"
    using f(1) q'(1) by (simp add: clock_server_add_delay_until_def ll_delete_def Let_def)
  moreover have s: "set (heap_elems q') = insert e (set (heap_elems ?q))" using q'(3) by (metis set_mset_mset set_mset_add_mset_insert)
  moreover have "distinct (heap_elems q')" using q'(3) i e fl
    by (metis ck_inv_def distinct_append mset_eq_imp_distinct_iff mset.simps(2) distinct.simps(2))
  ultimately have "ck_inv ?cs rest" using i f(2) q'(2,4) fl by (auto simp: ck_inv_def)
  moreover have "pending ?cs = add_mset (tid, sint tick) (pending cs)"
  proof -
    have "image_mset (\<lambda>x. (we_tid (arr' x), wait_key arr' x)) (mset (heap_elems ?q)) =
        image_mset (\<lambda>x. (we_tid (alloc_arr cs x), wait_key (alloc_arr cs) x)) (mset (heap_elems ?q))"
      by (rule image_mset_cong) (use e in \<open>auto simp: key, simp add: wait_key_def\<close>)
    then show ?thesis by (simp add: pending_def q'(3) key) (simp add: wait_key_def)
  qed
  ultimately show ?thesis using \<open>clock_server_add_delay_until tid tick cs = Inr ?cs\<close> by (intro exI [of _ ?cs] exI [of _ rest]) simp
qed

lemma add_delay_full:
  assumes i: "ck_inv cs fl" and full: "256 \<le> size (pending cs)"
  shows "clock_server_add_delay_until tid tick cs = Inl Assert_fail"
proof -
  have "length fl = 0" using ck_inv_count [OF i] full by linarith
  then show ?thesis using i by (simp add: ck_inv_def clock_server_add_delay_until_def)
qed

text \<open>The replies to the tasks whose delay is over.\<close>

abbreviation wake_replies :: "u32 \<Rightarrow> (u32 \<times> int) list \<Rightarrow> ck_out" where
  "wake_replies now xs \<equiv> map (\<lambda>(t, d). (t, CkResp now)) xs"

lemma pop_loop_ok:
  "ck_inv cs fl \<Longrightarrow> \<exists>cs' fl' xs. pop_loop now cs out = Some (cs', out @ wake_replies now xs) \<and> ck_inv cs' fl' \<and> curtick cs' = curtick cs \<and>
     mset xs = filter_mset (\<lambda>(t, d). d \<le> sint (curtick cs)) (pending cs) \<and>
     pending cs' = filter_mset (\<lambda>(t, d). \<not> d \<le> sint (curtick cs)) (pending cs) \<and> sorted (map snd xs)"
proof (induction "size (pending cs)" arbitrary: cs fl out rule: less_induct)
  case less
  note i = less(2)
  let ?q = "delay_queue cs" and ?now = "sint (curtick cs)"
  have hq: "is_heap (wait_key (alloc_arr cs)) heap_cmp_delay ?q" "heap_ok ?q" using i by (simp_all add: ck_inv_def is_heap_def)
  show ?case
  proof (cases "hcount ?q = 0")
    case True
    then have "pending cs = {#}" by (simp add: pending_def heap_elems_def)
    moreover have "pop_loop now cs out = Some (cs, out)" using True by (simp add: pop_loop.simps heap_peek_def)
    ultimately show ?thesis using i by (intro exI [of _ cs] exI [of _ fl] exI [of _ "[]"]) simp
  next
    case ne: False
    obtain e q where pop: "heap_pop (wait_key (alloc_arr cs)) heap_cmp_delay ?q = (Some e, q)"
      "is_heap (wait_key (alloc_arr cs)) heap_cmp_delay q" "mset (heap_elems ?q) = add_mset e (mset (heap_elems q))"
      "\<forall>x\<in>set (heap_elems ?q). \<not> heap_cmp_delay (wait_key (alloc_arr cs) x) (wait_key (alloc_arr cs) e)" "hcapacity q = hcapacity ?q"
      using ck.heap_pop_correct [OF hq(1) ne] by blast
    have peek: "heap_peek ?q = Some e" using pop(1) ne by (simp add: heap_pop_def heap_peek_def Let_def)
    let ?x = "(we_tid (alloc_arr cs e), wait_key (alloc_arr cs) e)"
    have min: "snd ?x \<le> d" if "(t, d) \<in># pending cs" for t d
      using that pop(4) by (auto simp: pending_def heap_cmp_delay_def not_less)
    show ?thesis
    proof (cases "sint (we_delay (alloc_arr cs e)) > ?now")
      case True
      have "pop_loop now cs out = Some (cs, out)" using True peek by (simp add: pop_loop.simps)
      moreover have late: "\<not> d \<le> ?now" if "(t, d) \<in># pending cs" for t d using min [OF that] True by (simp add: wait_key_def)
      have "filter_mset (\<lambda>(t, d). d \<le> ?now) (pending cs) = {#}" using late by fastforce
      moreover have "filter_mset (\<lambda>(t, d). \<not> d \<le> ?now) (pending cs) = pending cs" using late by (auto simp: filter_mset_eq_conv)
      ultimately show ?thesis using i by (intro exI [of _ cs] exI [of _ fl] exI [of _ "[]"]) simp
    next
      case False
      let ?cs = "cs\<lparr>delay_queue := q, free_list := Some e, next_free := (next_free cs)(e := free_list cs)\<rparr>"
      let ?out = "out @ [(we_tid (alloc_arr cs e), CkResp now)]"
      have step: "pop_loop now cs out = pop_loop now ?cs ?out"
        using False peek pop(1) by (subst pop_loop.simps) (simp add: ll_prepend_def)
      have s: "set (heap_elems ?q) = insert e (set (heap_elems q))" using pop(3) by (metis set_mset_mset set_mset_add_mset_insert)
      have d: "distinct (heap_elems q)" "e \<notin> set (heap_elems q)"
        using pop(3) i by (metis ck_inv_def distinct_append mset_eq_imp_distinct_iff mset.simps(2) distinct.simps(2))+
      have "e \<notin> set fl" using i s by (auto simp: ck_inv_def)
      then have i': "ck_inv ?cs (e # fl)" using i pop(2,5) s d by (auto simp: ck_inv_def)
      have p: "pending cs = add_mset ?x (pending ?cs)" by (simp add: pending_def pop(3))
      then have "size (pending ?cs) < size (pending cs)" by simp
      from less(1) [OF this i', of ?out] obtain cs' fl' xs where r: "pop_loop now ?cs ?out = Some (cs', ?out @ wake_replies now xs)" "ck_inv cs' fl'"
        "curtick cs' = curtick cs" "mset xs = filter_mset (\<lambda>(t, d). d \<le> ?now) (pending ?cs)"
        "pending cs' = filter_mset (\<lambda>(t, d). \<not> d \<le> ?now) (pending ?cs)" "sorted (map snd xs)" by auto
      have x: "snd ?x \<le> ?now" using False by (simp add: wait_key_def)
      have "snd ?x \<le> d" if h: "d \<in> set (map snd xs)" for d
      proof -
        obtain t where "(t, d) \<in> set xs" using h by auto
        then have "(t, d) \<in># mset xs" by simp
        then show ?thesis using r(4) p min [of t d] by simp
      qed
      then have "sorted (map snd (?x # xs))" using r(6) by simp
      then show ?thesis using r x p step by (intro exI [of _ cs'] exI [of _ fl'] exI [of _ "?x # xs"]) simp
    qed
  qed
qed

text \<open>
  A tick: the notifier is answered first, then exactly the tasks whose delay is over, in the order of their
  delays; the others stay.
\<close>

lemma tick_ok:
  assumes "ck_inv cs fl"
  shows "\<exists>cs' fl' xs. clock_server_step tid CkNotifyReq cs = Inr (cs', (tid, CkNotifyResp) # wake_replies (curtick cs + 1) xs) \<and> ck_inv cs' fl' \<and>
     curtick cs' = curtick cs + 1 \<and> mset xs = filter_mset (\<lambda>(t, d). d \<le> sint (curtick cs + 1)) (pending cs) \<and>
     pending cs' = filter_mset (\<lambda>(t, d). \<not> d \<le> sint (curtick cs + 1)) (pending cs) \<and> sorted (map snd xs)"
proof -
  let ?c = "clock_server_update_tick cs"
  have c: "ck_inv ?c fl" "pending ?c = pending cs" "curtick ?c = curtick cs + 1"
    using assms by (simp_all add: clock_server_update_tick_def ck_inv_def pending_def)
  obtain cs' fl' xs where r: "pop_loop (curtick ?c) ?c [] = Some (cs', wake_replies (curtick ?c) xs)" "ck_inv cs' fl'" "curtick cs' = curtick ?c"
    "mset xs = filter_mset (\<lambda>(t, d). d \<le> sint (curtick ?c)) (pending ?c)"
    "pending cs' = filter_mset (\<lambda>(t, d). \<not> d \<le> sint (curtick ?c)) (pending ?c)" "sorted (map snd xs)"
    using pop_loop_ok [OF c(1), of "curtick ?c" "[]"] by auto
  then show ?thesis unfolding c by (intro exI [of _ cs'] exI [of _ fl'] exI [of _ xs]) (simp add: clock_server_pop_delay_def c)
qed

text \<open>A request other than a tick: the reply and the delays.\<close>

lemma request_ok:
  assumes i: "ck_inv cs fl" and room: "size (pending cs) < 256" and r: "r \<noteq> CkOther" "r \<noteq> CkNotifyReq"
  shows "\<exists>cs' fl' out. clock_server_step tid r cs = Inr (cs', out) \<and> ck_inv cs' fl' \<and> curtick cs' = curtick cs \<and>
     (out = [] \<and> (\<exists>d. pending cs' = add_mset (tid, d) (pending cs)) \<or> (\<exists>v. out = [(tid, CkResp v)]) \<and> cs' = cs)"
proof (cases r)
  case (CkDelayReq ticks)
  then show ?thesis using add_delay_ok [OF i room, of tid "curtick cs + ticks"] i by auto
next
  case (CkDelayUntilReq tick)
  then show ?thesis using add_delay_ok [OF i room, of tid tick] i by auto
qed (use r i in auto)

text \<open>A server with one task waiting for tick 1.\<close>

lemma clock_example: "\<exists>cs fl. ck_inv cs fl \<and> pending cs = {#(7, 1)#} \<and> curtick cs = 0"
proof -
  let ?c = "\<lparr>curtick = 0, alloc_arr = \<lambda>_. \<lparr>we_delay = 0, we_insert_val = 0, we_tid = 0\<rparr>, free_list = None, next_free = \<lambda>_. None,
     delay_queue = heap_init (replicate 256 0) 256\<rparr>"
  have i: "ck_inv (clock_server_init ?c) [0..<256]" "pending (clock_server_init ?c) = {#}" "curtick (clock_server_init ?c) = 0"
    using clock_server_init_ok [of ?c] by (simp_all add: heap_init_def)
  have "size (pending (clock_server_init ?c)) < 256" by (simp add: i(2))
  from add_delay_ok [OF i(1) this, of 7 1] show ?thesis unfolding i(2,3) by auto
qed

end
