(* ===== verification/NameServer.thy ===== *)
theory NameServer
  imports LList Util
begin

text \<open>
  The name server (user/src/nameserver/nameserver.c) on the chained hash table of lib/include/hashtable.h and
  the string hash of user/include/hashfunc.h. The keys of the table are character arrays in memory, where the string
  functions work on them; the values and links are fields of the objects, which are named by their index.
\<close>

section \<open>The hash function\<close>

definition hash_step :: "u64 \<Rightarrow> u8 \<Rightarrow> u64" where
  "hash_step hashv c =
     (let hashv = hashv + ucast c;
          hashv = hashv + push_bit 10 hashv
      in hashv XOR drop_bit 6 hashv)"

definition hash_finish :: "u64 \<Rightarrow> u64" where
  "hash_finish hashv =
     (let hashv = hashv + push_bit 3 hashv;
          hashv = hashv XOR drop_bit 11 hashv
      in hashv + push_bit 15 hashv)"

partial_function (option) hash_loop :: "memory \<Rightarrow> ptr \<Rightarrow> u64 \<Rightarrow> u64 \<Rightarrow> u64 option" where
  "hash_loop m key i hashv =
     (if m (key + i) \<noteq> 0 then hash_loop m key (i + 1) (hash_step hashv (m (key + i))) else Some hashv)"

definition hashfunc_string :: "memory \<Rightarrow> ptr \<Rightarrow> u64 option" where
  "hashfunc_string m str = map_option hash_finish (hash_loop m str 0 0)"

text \<open>The same on a string.\<close>

definition str_hash :: "u8 list \<Rightarrow> u64" where
  "str_hash s = hash_finish (foldl hash_step 0 s)"

lemma hash_loop_cstr:
  assumes c: "cstr m p s"
  shows "i \<le> length s \<Longrightarrow> hash_loop m p (of_nat i) h = Some (foldl hash_step h (drop i s))"
proof (induction "length s - i" arbitrary: i h)
  case 0
  then show ?case using cstr_nth [OF c, of i] by (subst hash_loop.simps) simp
next
  case (Suc k)
  then have i: "i < length s" by simp
  have "hash_loop m p (of_nat i + 1) (hash_step h (s ! i)) = Some (foldl hash_step (hash_step h (s ! i)) (drop (Suc i) s))"
    using Suc.hyps(1) [of "Suc i"] Suc.hyps(2) i by (simp add: add.commute)
  then show ?case
    using cstr_nth [OF c, of i] cstr_nonzero [OF c i] i by (subst hash_loop.simps) (simp add: Cons_nth_drop_Suc [symmetric])
qed

lemma hashfunc_string_cstr: "cstr m p s \<Longrightarrow> hashfunc_string m p = Some (str_hash s)"
  using hash_loop_cstr [of m p s 0 0] by (simp add: hashfunc_string_def str_hash_def)

section \<open>The hash table\<close>

abbreviation C_MAX_NS_NAME_SIZE :: u64 where "C_MAX_NS_NAME_SIZE \<equiv> 10"

record HtName =
  bucksz :: u64
  ht_capacity :: u64
  buckets :: "nat option list"
  ht_objects :: ptr
  ht_val :: "nat \<Rightarrow> u64"
  ht_next :: "nat \<Rightarrow> nat option"
  ht_free_list :: "nat option"

text \<open>The address of \<open>objects[i].key\<close>: an object has 32 bytes and starts with its key.\<close>

definition key_at :: "HtName \<Rightarrow> nat \<Rightarrow> ptr" where
  "key_at ht i = ht_objects ht + of_nat (32 * i)"

text \<open>
  The loop of \<open>HT_INIT\<close> puts \<open>objects[i]\<close> on the free list for \<open>i\<close> from \<open>capacity\<close> down to 0; the store to its link is
  outside the array when \<open>i\<close> is the capacity.
\<close>

fun ht_init_loop :: "nat \<Rightarrow> HtName \<Rightarrow> HtName res" where
  "ht_init_loop i ht =
     (if i < unat (ht_capacity ht) then
        let (fl, nx) = ll_prepend (ht_free_list ht) i (ht_next ht); ht = ht\<lparr>ht_free_list := fl, ht_next := nx\<rparr>
        in (case i of 0 \<Rightarrow> Inr ht | Suc j \<Rightarrow> ht_init_loop j ht)
      else Inl Out_of_bounds)"

declare ht_init_loop.simps [simp del]

definition HT_INIT :: "u64 \<Rightarrow> u64 \<Rightarrow> HtName \<Rightarrow> HtName res" where
  "HT_INIT bsz cap ht =
     ht_init_loop (unat cap)
       (ht\<lparr>bucksz := bsz, ht_capacity := cap, buckets := replicate (length (buckets ht)) None, ht_val := \<lambda>_. 0, ht_next := \<lambda>_. None,
          ht_free_list := None\<rparr>)"

definition HT_IDX :: "memory \<Rightarrow> HtName \<Rightarrow> ptr \<Rightarrow> nat res" where
  "HT_IDX m ht key =
     bindR (returns (hashfunc_string m key)) (\<lambda>h.
     let i = unat (h mod bucksz ht) in if i < length (buckets ht) then Inr i else Inl Out_of_bounds)"

definition HT_FIND :: "memory \<Rightarrow> HtName \<Rightarrow> ptr \<Rightarrow> nat option res" where
  "HT_FIND m ht key =
     bindR (HT_IDX m ht key) (\<lambda>hv. returns (ll_search (\<lambda>e. util_strcmp m (key_at ht e) key) (ht_next ht) (buckets ht ! hv)))"

text \<open>The element, or a fault: the macro deletes the head without looking whether there is one.\<close>

definition HT_GET_FREE :: "HtName \<Rightarrow> (nat option \<times> HtName) res" where
  "HT_GET_FREE ht =
     bindR (ll_delete (ht_free_list ht) (ht_free_list ht) (ht_next ht)) (\<lambda>(fl, nx).
     Inr (ht_free_list ht, ht\<lparr>ht_free_list := fl, ht_next := nx\<rparr>))"

definition HT_INSERT :: "memory \<Rightarrow> nat \<Rightarrow> HtName \<Rightarrow> HtName res" where
  "HT_INSERT m e ht =
     bindR (HT_IDX m ht (key_at ht e)) (\<lambda>hv.
     let (h, nx) = ll_prepend (buckets ht ! hv) e (ht_next ht) in
     Inr (ht\<lparr>buckets := (buckets ht)[hv := h], ht_next := nx\<rparr>))"

section \<open>The server\<close>

definition U_NO_TID_FOUND :: u64 where "U_NO_TID_FOUND = - 2"

definition ns_register_name_with_tid :: "ptr \<Rightarrow> u64 \<Rightarrow> memory \<times> HtName \<Rightarrow> (memory \<times> HtName) res" where
  "ns_register_name_with_tid name tid = (\<lambda>(m, ht).
     bindR (HT_FIND m ht name) (\<lambda>found.
     case found of
       None \<Rightarrow>
         bindR (HT_GET_FREE ht) (\<lambda>(e, ht).
         bindR (deref e) (\<lambda>e.
         bindR (returns (util_strncpy (key_at ht e) C_MAX_NS_NAME_SIZE name m)) (\<lambda>m.
         let ht = ht\<lparr>ht_val := (ht_val ht)(e := tid)\<rparr> in
         bindR (HT_INSERT m e ht) (\<lambda>ht. Inr (m, ht)))))
     | Some e \<Rightarrow> Inr (m, ht\<lparr>ht_val := (ht_val ht)(e := tid)\<rparr>)))"

definition ns_whois_tid :: "ptr \<Rightarrow> memory \<times> HtName \<Rightarrow> u64 res" where
  "ns_whois_tid name = (\<lambda>(m, ht).
     bindR (HT_FIND m ht name) (\<lambda>found. Inr (case found of None \<Rightarrow> U_NO_TID_FOUND | Some e \<Rightarrow> ht_val ht e)))"

text \<open>A request, with the address of its name, and the reply.\<close>

datatype ns_request = NsRegisterReq ptr | NsWhoisReq ptr | NsOther

datatype ns_reply = EmptyMsg | NsWhoisResp u32

fun ns_step :: "u32 \<Rightarrow> ns_request \<Rightarrow> memory \<times> HtName \<Rightarrow> ((memory \<times> HtName) \<times> u32 \<times> ns_reply) res" where
  "ns_step tid (NsRegisterReq name) st =
     bindR (ns_register_name_with_tid name (scast tid) st) (\<lambda>st. Inr (st, tid, EmptyMsg))"
| "ns_step tid (NsWhoisReq name) st =
     bindR (ns_whois_tid name st) (\<lambda>t. Inr (st, tid, NsWhoisResp (ucast t)))"
| "ns_step tid NsOther st = Inl Assert_fail"

section \<open>The table as a map\<close>

definition bucket_of :: "u8 list \<Rightarrow> nat" where
  "bucket_of s = unat (str_hash s) mod 100"

text \<open>
  The chains \<open>ch\<close> of the buckets and the free list \<open>fl\<close> share no object; \<open>ks i\<close> is the key of object \<open>i\<close>, at most nine
  characters, and hashes to the bucket it is in.
\<close>

definition ns_inv :: "memory \<Rightarrow> HtName \<Rightarrow> (nat \<Rightarrow> u8 list) \<Rightarrow> (nat \<Rightarrow> nat list) \<Rightarrow> nat list \<Rightarrow> bool" where
  "ns_inv m ht ks ch fl \<longleftrightarrow>
     bucksz ht = 100 \<and> length (buckets ht) = 100 \<and> ht_objects ht \<noteq> 0 \<and> unat (ht_objects ht) + 32000 < 2 ^ 64 \<and>
     ll_path (ht_next ht) (ht_free_list ht) fl \<and> distinct fl \<and> (\<forall>i\<in>set fl. i < 1000) \<and>
     (\<forall>b<100. ll_path (ht_next ht) (buckets ht ! b) (ch b) \<and> set (ch b) \<inter> set fl = {} \<and>
        (\<forall>c<100. c \<noteq> b \<longrightarrow> set (ch c) \<inter> set (ch b) = {}) \<and>
        (\<forall>i\<in>set (ch b). i < 1000 \<and> cstr m (key_at ht i) (ks i) \<and> length (ks i) \<le> 9 \<and> bucket_of (ks i) = b))"

definition ns_lookup :: "HtName \<Rightarrow> (nat \<Rightarrow> u8 list) \<Rightarrow> (nat \<Rightarrow> nat list) \<Rightarrow> u8 list \<Rightarrow> u64 option" where
  "ns_lookup ht ks ch s = map_option (ht_val ht) (find (\<lambda>i. ks i = s) (ch (bucket_of s)))"

lemma ns_invD:
  assumes "ns_inv m ht ks ch fl"
  shows "bucksz ht = 100" "length (buckets ht) = 100" "ht_objects ht \<noteq> 0" "unat (ht_objects ht) + 32000 < 2 ^ 64"
    "ll_path (ht_next ht) (ht_free_list ht) fl" "distinct fl" "i \<in> set fl \<Longrightarrow> i < 1000"
  using assms by (simp_all add: ns_inv_def)

lemma ns_inv_bucket:
  assumes "ns_inv m ht ks ch fl" "b < 100"
  shows "ll_path (ht_next ht) (buckets ht ! b) (ch b)" "set (ch b) \<inter> set fl = {}"
    "c < 100 \<Longrightarrow> c \<noteq> b \<Longrightarrow> set (ch c) \<inter> set (ch b) = {}"
  using assms unfolding ns_inv_def by blast+

lemma ns_inv_elem:
  assumes "ns_inv m ht ks ch fl" "b < 100" "i \<in> set (ch b)"
  shows "i < 1000" "cstr m (key_at ht i) (ks i)" "length (ks i) \<le> 9" "bucket_of (ks i) = b"
  using assms unfolding ns_inv_def by blast+

lemma bucket_less: "bucket_of s < 100"
  by (simp add: bucket_of_def)

lemma HT_IDX_cstr:
  assumes "ns_inv m ht ks ch fl" "cstr m p s"
  shows "HT_IDX m ht p = Inr (bucket_of s)"
proof -
  note ns_invD(1,2) [OF assms(1)]
  moreover have "unat (str_hash s mod 100) = bucket_of s" by (simp add: unat_mod_distrib bucket_of_def)
  ultimately show ?thesis by (simp add: HT_IDX_def hashfunc_string_cstr [OF assms(2)] bucket_less)
qed

lemma HT_FIND_cstr:
  assumes i: "ns_inv m ht ks ch fl" and c: "cstr m p s"
  shows "HT_FIND m ht p = Inr (find (\<lambda>i. ks i = s) (ch (bucket_of s)))"
proof -
  let ?b = "bucket_of s"
  note p = ns_inv_bucket(1) [OF i bucket_less]
  have "\<forall>e\<in>set (ch ?b). util_strcmp m (key_at ht e) p = Some (ks e = s)"
    using util_strcmp_cstr [OF ns_inv_elem(2) [OF i bucket_less] c] by blast
  from ll_search_path [OF p this] show ?thesis by (simp add: HT_FIND_def HT_IDX_cstr [OF i c])
qed

text \<open>\<open>ns_whois_tid\<close> looks the name up.\<close>

lemma ns_whois_ok:
  assumes "ns_inv m ht ks ch fl" "cstr m p s"
  shows "ns_whois_tid p (m, ht) = Inr (case ns_lookup ht ks ch s of None \<Rightarrow> U_NO_TID_FOUND | Some t \<Rightarrow> t)"
  by (simp add: ns_whois_tid_def HT_FIND_cstr [OF assms] ns_lookup_def split: option.split)

text \<open>A name of ten or more characters is never found.\<close>

lemma ns_long_name:
  assumes "ns_inv m ht ks ch fl" "9 < length s"
  shows "ns_lookup ht ks ch s = None"
proof -
  have "\<forall>i\<in>set (ch (bucket_of s)). ks i \<noteq> s" using ns_inv_elem(3) [OF assms(1) bucket_less] assms(2) by fastforce
  then show ?thesis by (simp add: ns_lookup_def find_None_iff)
qed

text \<open>Keys of different objects share no byte.\<close>

lemma key_at_disjoint:
  assumes "ns_inv m ht ks ch fl" "i < 1000" "j < 1000" "i \<noteq> j"
  shows "region (key_at ht i) 10 \<inter> region (key_at ht j) 10 = {}"
proof (rule ccontr)
  assume "\<not> ?thesis"
  then obtain a where a: "unat (a - key_at ht i) < 10" "unat (a - key_at ht j) < 10" by (auto simp: region_def)
  have off: "unat (a - ht_objects ht) = 32 * k + unat (a - key_at ht k)" if "k < 1000" "unat (a - key_at ht k) < 10" for k
  proof -
    have e: "a - ht_objects ht = of_nat (32 * k) + (a - key_at ht k)" by (simp add: key_at_def)
    have k: "unat (of_nat (32 * k) :: u64) = 32 * k" by (rule unat_of_nat_small) (use that in simp)
    have "unat (of_nat (32 * k) :: u64) + unat (a - key_at ht k) < 2 ^ LENGTH(64)" unfolding k using that by simp
    from unat_add_no_wrap [OF this] show ?thesis unfolding e k .
  qed
  show False using off [OF assms(2) a(1)] off [OF assms(3) a(2)] a assms(4) by presburger
qed

lemma key_at_nonnull:
  assumes "ns_inv m ht ks ch fl" "i < 1000"
  shows "key_at ht i \<noteq> NULL" "a \<in> region (key_at ht i) 10 \<Longrightarrow> a \<in> region (ht_objects ht) 32000"
proof -
  note u = ns_invD(3,4) [OF assms(1)]
  have k: "unat (of_nat (32 * i) :: u64) = 32 * i" by (rule unat_of_nat_small) (use assms(2) in simp)
  have s: "unat (ht_objects ht) + unat (of_nat (32 * i) :: u64) < 2 ^ LENGTH(64)" unfolding k using u(2) assms(2) by simp
  have "unat (key_at ht i) = unat (ht_objects ht) + 32 * i" unfolding key_at_def using unat_add_no_wrap [OF s] unfolding k .
  moreover have "unat (ht_objects ht) \<noteq> 0" using u(1) by (simp add: unat_eq_zero)
  ultimately show "key_at ht i \<noteq> NULL" by auto
  assume a: "a \<in> region (key_at ht i) 10"
  define x where "x = a - key_at ht i"
  have x: "unat x < 10" using a by (simp add: region_def x_def)
  have "a - ht_objects ht = of_nat (32 * i) + x" by (simp add: key_at_def x_def)
  moreover have "unat (of_nat (32 * i) + x) = 32 * i + unat x"
    using x assms(2) by (subst unat_add_no_wrap) (simp_all only: k, simp_all)
  ultimately show "a \<in> region (ht_objects ht) 32000" using x assms(2) by (simp add: region_def)
qed

lemma find_upd:
  "e \<notin> set xs \<Longrightarrow> find (\<lambda>i. (ks(e := t)) i = s) xs = find (\<lambda>i. ks i = s) xs"
  by (rule find_cong) auto

text \<open>Registering a new name.\<close>

lemma ns_register_new:
  assumes i: "ns_inv m ht ks ch fl" and c: "cstr m p s" and new: "ns_lookup ht ks ch s = None" and fl: "fl = e # rest"
    and sep: "region (ht_objects ht) 32000 \<inter> region p 10 = {}"
  shows "\<exists>m' ht' ks' ch'. ns_register_name_with_tid p tid (m, ht) = Inr (m', ht') \<and> ns_inv m' ht' ks' ch' rest \<and>
     ns_lookup ht' ks' ch' = (ns_lookup ht ks ch)(take 9 s \<mapsto> tid) \<and>
     ht_objects ht' = ht_objects ht \<and> (\<forall>a. a \<notin> region (ht_objects ht) 32000 \<longrightarrow> m' a = m a)"
proof -
  let ?s = "take 9 s" and ?b = "bucket_of (take 9 s)"
  have e: "e < 1000" "ht_free_list ht = Some e" "ll_path (ht_next ht) (ht_next ht e) rest" "e \<notin> set rest" "distinct rest"
    using ns_invD(5,6) [OF i] ns_invD(7) [OF i, of e] fl by auto
  have eb: "e \<notin> set (ch b)" if "b < 100" for b using ns_inv_bucket(2) [OF i that] fl by auto
  have find: "HT_FIND m ht p = Inr None" using new HT_FIND_cstr [OF i c] by (simp add: ns_lookup_def)
  have "region (key_at ht e) 10 \<inter> region p 10 = {}" using key_at_nonnull(2) [OF i e(1)] sep by blast
  then obtain m' where m': "util_strncpy (key_at ht e) 10 p m = Some m'" "cstr m' (key_at ht e) ?s"
    "\<forall>a. a \<notin> region (key_at ht e) 10 \<longrightarrow> m' a = m a"
    using util_strncpy_cstr [OF c key_at_nonnull(1) [OF i e(1)], of 10] by auto
  define ht1 where "ht1 = ht\<lparr>ht_free_list := ht_next ht e, ht_val := (ht_val ht)(e := tid)\<rparr>"
  define ht' where "ht' = ht1\<lparr>buckets := (buckets ht)[?b := Some e], ht_next := (ht_next ht)(e := buckets ht ! ?b)\<rparr>"
  have k: "key_at ht1 = key_at ht" "key_at ht' = key_at ht" by (simp_all add: key_at_def ht1_def ht'_def fun_eq_iff)
  have idx: "HT_IDX m' ht1 (key_at ht e) = Inr ?b"
  proof -
    have "unat (str_hash ?s mod 100) = ?b" by (simp add: unat_mod_distrib bucket_of_def)
    then show ?thesis using ns_invD(1,2) [OF i] hashfunc_string_cstr [OF m'(2)] bucket_less [of ?s] by (simp add: HT_IDX_def ht1_def)
  qed
  have op: "ns_register_name_with_tid p tid (m, ht) = Inr (m', ht')"
  proof -
    have g: "HT_GET_FREE ht = Inr (Some e, ht\<lparr>ht_free_list := ht_next ht e\<rparr>)"
      using e(2) by (simp add: HT_GET_FREE_def ll_delete_def)
    have kk: "key_at (ht\<lparr>ht_free_list := ht_next ht e\<rparr>) e = key_at ht e" by (simp add: key_at_def)
    have "HT_INSERT m' e ht1 = Inr ht'" using idx by (simp add: HT_INSERT_def k ll_prepend_def ht'_def) (simp add: ht1_def)
    then show ?thesis using find g kk m'(1) by (simp add: ns_register_name_with_tid_def ht1_def)
  qed
  define ks' where "ks' = ks(e := ?s)"
  define ch' where "ch' = ch(?b := e # ch ?b)"
  have old: "cstr m' (key_at ht j) (ks j)" if b: "b < 100" and j: "j \<in> set (ch b)" for b j
  proof (rule cstr_cong [OF ns_inv_elem(2) [OF i b j]])
    have "j \<noteq> e" using eb [OF b] j by blast
    have "region (key_at ht j) (Suc (length (ks j))) \<subseteq> region (key_at ht j) 10"
      by (rule region_mono) (use ns_inv_elem(3) [OF i b j] in simp)
    then show "\<forall>a\<in>region (key_at ht j) (Suc (length (ks j))). m' a = m a"
      using m'(3) key_at_disjoint [OF i ns_inv_elem(1) [OF i b j] e(1) \<open>j \<noteq> e\<close>] by blast
  qed
  have inv: "ns_inv m' ht' ks' ch' rest" unfolding ns_inv_def
  proof (intro conjI allI impI ballI)
    show "ll_path (ht_next ht') (ht_free_list ht') rest" using e(3,4) by (simp add: ht'_def ht1_def)
    show "j < 1000" if "j \<in> set rest" for j using ns_invD(7) [OF i, of j] that fl by simp
    fix b :: nat assume b: "b < 100"
    show "ll_path (ht_next ht') (buckets ht' ! b) (ch' b)"
      using ns_inv_bucket(1) [OF i b] eb [OF b] ns_invD(2) [OF i] b by (cases "b = ?b") (simp_all add: ht'_def ht1_def ch'_def nth_list_update)
    show "set (ch' b) \<inter> set rest = {}" using ns_inv_bucket(2) [OF i b] e(4) fl by (auto simp: ch'_def)
    show "set (ch' c) \<inter> set (ch' b) = {}" if "c < 100" "c \<noteq> b" for c
      using ns_inv_bucket(3) [OF i b that] eb [OF b] eb [OF that(1)] that(2) by (auto simp: ch'_def)
    fix j assume j: "j \<in> set (ch' b)"
    have "j = e \<and> b = ?b \<or> j \<in> set (ch b) \<and> j \<noteq> e" using j eb [OF b] by (auto simp: ch'_def split: if_splits)
    then show "j < 1000" "cstr m' (key_at ht' j) (ks' j)" "length (ks' j) \<le> 9" "bucket_of (ks' j) = b"
      using ns_inv_elem [OF i b] old [OF b] m'(2) e(1) unfolding k ks'_def by auto
  qed (use ns_invD [OF i] e(5) in \<open>simp_all add: ht'_def ht1_def\<close>)
  have "ns_lookup ht' ks' ch' t = ((ns_lookup ht ks ch)(?s \<mapsto> tid)) t" for t
  proof (cases "t = ?s")
    case True
    then show ?thesis by (simp add: ns_lookup_def ch'_def ks'_def ht'_def ht1_def)
  next
    case False
    have "find (\<lambda>i. ks' i = t) (ch' (bucket_of t)) = find (\<lambda>i. ks i = t) (ch (bucket_of t))"
    proof -
      have "find (\<lambda>i. ks' i = t) (ch' (bucket_of t)) = find (\<lambda>i. ks' i = t) (ch (bucket_of t))"
        using False by (simp add: ch'_def) (simp add: ks'_def)
      also have "\<dots> = find (\<lambda>i. ks i = t) (ch (bucket_of t))" unfolding ks'_def by (rule find_upd [OF eb [OF bucket_less]])
      finally show ?thesis .
    qed
    moreover have "ht_val ht' j = ht_val ht j" if "find (\<lambda>i. ks i = t) (ch (bucket_of t)) = Some j" for j
    proof -
      have "j \<in> set (ch (bucket_of t))" using that by (metis find_Some_iff nth_mem)
      then show ?thesis using eb [OF bucket_less] by (auto simp: ht'_def ht1_def)
    qed
    ultimately show ?thesis using False by (cases "find (\<lambda>i. ks i = t) (ch (bucket_of t))") (simp_all add: ns_lookup_def)
  qed
  then have "ns_lookup ht' ks' ch' = (ns_lookup ht ks ch)(?s \<mapsto> tid)" by (rule ext)
  moreover have "\<forall>a. a \<notin> region (ht_objects ht) 32000 \<longrightarrow> m' a = m a"
    using m'(3) key_at_nonnull(2) [OF i e(1)] by blast
  moreover have "ht_objects ht' = ht_objects ht" by (simp add: ht'_def ht1_def)
  ultimately show ?thesis using op inv by blast
qed

text \<open>Registering a name again.\<close>

lemma ns_register_again:
  assumes i: "ns_inv m ht ks ch fl" and c: "cstr m p s" and old: "ns_lookup ht ks ch s \<noteq> None"
  shows "\<exists>ht'. ns_register_name_with_tid p tid (m, ht) = Inr (m, ht') \<and> ns_inv m ht' ks ch fl \<and> take 9 s = s \<and>
     ns_lookup ht' ks ch = (ns_lookup ht ks ch)(s \<mapsto> tid) \<and> ht_objects ht' = ht_objects ht"
proof -
  have s9: "length s \<le> 9" using ns_long_name [OF i, of s] old by (meson not_le)
  obtain e where e: "find (\<lambda>i. ks i = s) (ch (bucket_of s)) = Some e" using old by (auto simp: ns_lookup_def)
  have ks: "ks e = s" "e \<in> set (ch (bucket_of s))" using e by (auto simp: find_Some_iff)
  let ?ht = "ht\<lparr>ht_val := (ht_val ht)(e := tid)\<rparr>"
  have op: "ns_register_name_with_tid p tid (m, ht) = Inr (m, ?ht)"
    using HT_FIND_cstr [OF i c] e by (simp add: ns_register_name_with_tid_def)
  have inv: "ns_inv m ?ht ks ch fl" using i by (simp add: ns_inv_def key_at_def)
  have "ns_lookup ?ht ks ch t = ((ns_lookup ht ks ch)(s \<mapsto> tid)) t" for t
  proof (cases "t = s")
    case True
    then show ?thesis using e by (simp add: ns_lookup_def)
  next
    case False
    have "j \<noteq> e" if "find (\<lambda>i. ks i = t) (ch (bucket_of t)) = Some j" for j
      using that ks(1) False by (auto simp: find_Some_iff)
    then show ?thesis using False by (cases "find (\<lambda>i. ks i = t) (ch (bucket_of t))") (simp_all add: ns_lookup_def)
  qed
  then show ?thesis using op inv s9 by (intro exI [of _ ?ht]) (simp add: fun_eq_iff)
qed

text \<open>Registering when every object is in use runs into the null pointer.\<close>

lemma ns_register_full:
  assumes i: "ns_inv m ht ks ch []" and c: "cstr m p s" and new: "ns_lookup ht ks ch s = None"
  shows "ns_register_name_with_tid p tid (m, ht) = Inl Null_deref"
proof -
  have "ht_free_list ht = None" using ns_invD(5) [OF i] by simp
  moreover have "HT_FIND m ht p = Inr None" using new HT_FIND_cstr [OF i c] by (simp add: ns_lookup_def)
  ultimately show ?thesis by (simp add: ns_register_name_with_tid_def HT_GET_FREE_def ll_delete_empty)
qed

text \<open>\<open>HT_INIT\<close> stores outside the array of objects, whatever the size.\<close>

lemma HT_INIT_out_of_bounds: "HT_INIT bsz cap ht = Inl Out_of_bounds"
  by (simp add: HT_INIT_def) (subst ht_init_loop.simps, simp)

text \<open>A table as the initialisation means to leave it.\<close>

definition ns_empty :: HtName where
  "ns_empty = \<lparr>bucksz = 100, ht_capacity = 1000, buckets = replicate 100 None, ht_objects = 0x100000, ht_val = \<lambda>_. 0,
     ht_next = \<lambda>i. if i < 999 then Some (Suc i) else None, ht_free_list = Some 0\<rparr>"

lemma ns_empty_inv: "ns_inv m ns_empty ks (\<lambda>_. []) [0..<1000]"
proof -
  have "ll_path (ht_next ns_empty) (Some i) ([i..<1000])" if "i < 1000" for i
    using that
  proof (induction "999 - i" arbitrary: i)
    case 0
    then have "i = 999" by simp
    then show ?case by (simp add: ns_empty_def upt_rec)
  next
    case (Suc k)
    have "ll_path (ht_next ns_empty) (Some (Suc i)) [Suc i..<1000]" using Suc by simp
    then show ?case using Suc.hyps(2) Suc.prems by (subst upt_conv_Cons) (simp_all add: ns_empty_def)
  qed
  from this [of 0] have "ll_path (ht_next ns_empty) (ht_free_list ns_empty) [0..<1000]" by (simp add: ns_empty_def)
  then show ?thesis by (simp add: ns_inv_def) (simp add: ns_empty_def)
qed

end
