(* ===== verification/LoaderArgs.thy ===== *)
theory LoaderArgs
  imports Util
begin

text \<open>
  The argument block a program is started with (loader/src/loader_args.c): a sequence of zero-terminated keys and
  values, in which the last value of the key \<open>PROGRAM\<close> names the image to run. The images are linked into the
  kernel, so their addresses \<open>elf_of name\<close> come from the linker.
\<close>

section \<open>Comparison with a string literal\<close>

definition lit :: "string \<Rightarrow> u8 list" where
  "lit s = map of_char s"

fun strcmp_bytes :: "memory \<Rightarrow> ptr \<Rightarrow> u8 list \<Rightarrow> bool" where
  "strcmp_bytes m p [] = (m p = 0)"
| "strcmp_bytes m p (c # cs) = (m p = c \<and> strcmp_bytes m (p + 1) cs)"

text \<open>\<open>util_strcmp\<close> with a literal as its second argument; \<open>strcmp_lit_eq\<close> below is the agreement.\<close>

definition util_strcmp_lit :: "memory \<Rightarrow> ptr \<Rightarrow> string \<Rightarrow> bool" where
  "util_strcmp_lit m p s = (p \<noteq> NULL \<and> strcmp_bytes m p (lit s))"

section \<open>The definitions\<close>

definition elf_programs :: "string list" where
  "elf_programs =
     [''user_entry'', ''msg_demo'', ''msg_demo_child'', ''name_server'', ''name_server_demo'', ''rpi'', ''rpi_uart'',
      ''rpi_uart_intr_broker'', ''rpi_bluetooth_commander'', ''rpi_bluetooth_hci_rx'', ''rpi_bluetooth_gatt'',
      ''clock_server'', ''clock_server_helper'', ''clock_notifier'', ''encoder_server'', ''encoder_reporter'',
      ''encoder_collector'', ''gatt_monitor'', ''gatt_monitor_relay'', ''commander'', ''imu_server'',
      ''imu_collector'', ''motor_server'', ''pid'', ''pid_trigger'']"

fun resolve_in :: "(string \<Rightarrow> ptr) \<Rightarrow> memory \<Rightarrow> ptr \<Rightarrow> string list \<Rightarrow> ptr" where
  "resolve_in elf_of m program_name [] = NULL"
| "resolve_in elf_of m program_name (n # ns) =
     (if util_strcmp_lit m program_name n then elf_of n else resolve_in elf_of m program_name ns)"

definition resolve_elf_start :: "(string \<Rightarrow> ptr) \<Rightarrow> memory \<Rightarrow> ptr \<Rightarrow> ptr" where
  "resolve_elf_start elf_of m program_name = resolve_in elf_of m program_name elf_programs"

text \<open>\<open>while (key[key_len++] != 0) {}\<close>: the length with the terminator.\<close>

partial_function (option) arg_len :: "memory \<Rightarrow> ptr \<Rightarrow> u64 \<Rightarrow> u64 option" where
  "arg_len m key key_len = (if m (key + key_len) \<noteq> 0 then arg_len m key (key_len + 1) else Some (key_len + 1))"

partial_function (option) resolve_loop :: "(string \<Rightarrow> ptr) \<Rightarrow> memory \<Rightarrow> ptr \<Rightarrow> u64 \<Rightarrow> u64 \<Rightarrow> ptr \<Rightarrow> ptr option" where
  "resolve_loop elf_of m args args_len idx elf_start =
     (if idx < args_len
      then Option.bind (arg_len m (args + idx) 0) (\<lambda>key_len.
           Option.bind (arg_len m (args + (idx + key_len)) 0) (\<lambda>val_len.
             resolve_loop elf_of m args args_len (idx + (key_len + val_len))
               (if util_strcmp_lit m (args + idx) ''PROGRAM''
                then resolve_elf_start elf_of m (args + (idx + key_len)) else elf_start)))
      else Some elf_start)"

declare arg_len.simps [code] resolve_loop.simps [code]

definition resolve_args :: "(string \<Rightarrow> ptr) \<Rightarrow> memory \<Rightarrow> ptr \<Rightarrow> u64 \<Rightarrow> ptr option" where
  "resolve_args elf_of m args args_len = resolve_loop elf_of m args args_len 0 NULL"

declare arg_len.simps [simp del] resolve_loop.simps [simp del]

section \<open>Literals\<close>

lemma length_lit [simp]: "length (lit s) = length s"
  by (simp add: lit_def)

lemma strcmp_bytes_iff: "strcmp_bytes m p t \<longleftrightarrow> bytes m p (length t) = t \<and> m (p + of_nat (length t)) = 0"
proof (induction t arbitrary: p)
  case Nil
  show ?case by (simp add: bytes_def)
next
  case (Cons c t)
  have e: "p + of_nat (Suc (length t)) = p + 1 + of_nat (length t)" by simp
  show ?case unfolding strcmp_bytes.simps length_Cons e bytes_Suc list.inject Cons by (rule conj_assoc [symmetric])
qed

lemma strcmp_bytes_cstr:
  assumes c: "cstr m p s" and t: "0 \<notin> set t"
  shows "strcmp_bytes m p t \<longleftrightarrow> s = t"
proof
  assume "strcmp_bytes m p t"
  then have b: "bytes m p (length t) = t" "m (p + of_nat (length t)) = 0" by (auto simp: strcmp_bytes_iff)
  have ge: "length s \<le> length t"
  proof (rule ccontr)
    assume "\<not> length s \<le> length t"
    then have "m (p + of_nat (length t)) \<noteq> 0"
      using cstr_nth [OF c, of "length t"] cstr_nonzero [OF c, of "length t"] by simp
    then show False using b by simp
  qed
  moreover have "\<not> length s < length t"
  proof
    assume l: "length s < length t"
    have "t ! length s = bytes m p (length t) ! length s" using b(1) by simp
    also have "\<dots> = 0" using l cstr_nth [OF c, of "length s"] by simp
    finally show False using t l by (metis nth_mem)
  qed
  ultimately have "length s = length t" by simp
  moreover have "bytes m p (length s) = s" using c by (simp only: cstr_def)
  ultimately show "s = t" using b(1) by metis
next
  assume "s = t"
  then show "strcmp_bytes m p t" using c by (simp only: strcmp_bytes_iff cstr_def)
qed

text \<open>The comparison with a literal is \<open>util_strcmp\<close> with a pointer to the literal.\<close>

lemma strcmp_lit_cstr: "cstr m p s \<Longrightarrow> 0 \<notin> set (lit l) \<Longrightarrow> util_strcmp_lit m p l \<longleftrightarrow> s = lit l"
  by (simp add: util_strcmp_lit_def strcmp_bytes_cstr cstr_def)

lemma strcmp_lit_eq:
  assumes "cstr m p s" "cstr m q (lit l)"
  shows "util_strcmp m p q = Some (util_strcmp_lit m p l)"
  using util_strcmp_cstr [OF assms] strcmp_lit_cstr [OF assms(1), of l] assms(2) by (simp add: cstr_def)



lemma of_char_u8_inj: "(of_char c :: u8) = of_char d \<longleftrightarrow> c = d"
proof
  have u: "unat (of_char x :: u8) = of_char x" for x
  proof -
    have "(of_char x :: u8) = of_nat (of_char x)" by (rule of_nat_of_char [symmetric])
    moreover have "(of_char x :: nat) < 256" by (metis mod_less_divisor of_char_mod_256 zero_less_numeral)
    ultimately show ?thesis by (simp add: unat_of_nat_small)
  qed
  assume "(of_char c :: u8) = of_char d"
  then have "(of_char c :: nat) = of_char d" using u by metis
  then show "c = d" by (simp only: of_char_eq_iff)
qed simp

lemma lit_inj [simp]: "lit a = lit b \<longleftrightarrow> a = b"
  unfolding lit_def by (rule inj_map_eq_map) (simp add: inj_def of_char_u8_inj)

lemma lit_no_zero:
  assumes "CHR 0x00 \<notin> set s"
  shows "0 \<notin> set (lit s)"
proof
  assume "0 \<in> set (lit s)"
  then obtain c where c: "c \<in> set s" "(of_char c :: u8) = 0" unfolding lit_def by fastforce
  have "(of_char c :: u8) = of_char (CHR 0x00)" using c(2) by simp
  then have "c = CHR 0x00" by (rule of_char_u8_inj [THEN iffD1])
  then show False using c(1) assms by simp
qed

text \<open>The address of the image with a given name.\<close>

definition image_addr :: "(string \<Rightarrow> ptr) \<Rightarrow> string \<Rightarrow> ptr" where
  "image_addr elf_of name = (if name \<in> set elf_programs then elf_of name else NULL)"

lemma resolve_in_cstr:
  assumes "cstr m p (lit name)"
  shows "\<forall>n\<in>set ns. CHR 0x00 \<notin> set n \<Longrightarrow>
    resolve_in elf_of m p ns = (if name \<in> set ns then elf_of name else NULL)"
  by (induction ns) (auto simp: strcmp_lit_cstr [OF assms lit_no_zero])

lemma resolve_elf_start_cstr: "cstr m p (lit name) \<Longrightarrow> resolve_elf_start elf_of m p = image_addr elf_of name"
  unfolding resolve_elf_start_def image_addr_def by (rule resolve_in_cstr) (simp_all add: elf_programs_def)


section \<open>Parsing the block\<close>

lemma arg_len_from:
  assumes c: "cstr m p s"
  shows "i \<le> length s \<Longrightarrow> arg_len m p (of_nat i) = Some (of_nat (Suc (length s)))"
proof (induction "length s - i" arbitrary: i)
  case 0
  then have "i = length s" by simp
  then show ?case using cstr_nth [OF c, of i] by (subst arg_len.simps) (simp add: add.commute)
next
  case (Suc k)
  then have i: "i < length s" by simp
  have "arg_len m p (of_nat (Suc i)) = Some (of_nat (Suc (length s)))" using Suc i by (intro Suc.hyps) simp_all
  then show ?case using cstr_nth [OF c, of i] cstr_nonzero [OF c i] i by (subst arg_len.simps) (simp add: add.commute)
qed

lemma arg_len_cstr: "cstr m p s \<Longrightarrow> arg_len m p 0 = Some (of_nat (Suc (length s)))"
  using arg_len_from [of m p s 0] by simp

text \<open>The block that encodes a list of keys and values, and the image that it names.\<close>

definition args_bytes :: "(string \<times> string) list \<Rightarrow> u8 list" where
  "args_bytes kvs = concat (map (\<lambda>(k, v). lit k @ 0 # lit v @ [0]) kvs)"

definition args_image :: "(string \<Rightarrow> ptr) \<Rightarrow> (string \<times> string) list \<Rightarrow> ptr" where
  "args_image elf_of kvs =
     (case filter (\<lambda>kv. fst kv = ''PROGRAM'') kvs of [] \<Rightarrow> NULL | ps \<Rightarrow> image_addr elf_of (snd (last ps)))"

definition args_ok :: "memory \<Rightarrow> ptr \<Rightarrow> (string \<times> string) list \<Rightarrow> bool" where
  "args_ok m args kvs \<longleftrightarrow> args \<noteq> NULL \<and> unat args + length (args_bytes kvs) < 2 ^ 64 \<and>
     bytes m args (length (args_bytes kvs)) = args_bytes kvs \<and>
     (\<forall>(k, v)\<in>set kvs. CHR 0x00 \<notin> set k \<and> CHR 0x00 \<notin> set v)"

lemma bytes_append: "bytes m p (n + k) = bytes m p n @ bytes m (p + of_nat n) k"
  by (rule nth_equalityI) (auto simp: nth_append add.assoc not_less simp flip: of_nat_add)

lemma cstr_at_front:
  assumes "bytes m p n = s @ 0 # t" "n = length s + Suc (length t)" "0 \<notin> set s" "p \<noteq> NULL" "n < 2 ^ 64"
  shows "cstr m p s" "bytes m (p + of_nat (Suc (length s))) (length t) = t"
proof -
  have "bytes m p (length s) @ bytes m (p + of_nat (length s)) (Suc (length t)) = s @ 0 # t"
    using assms(1,2) bytes_append by metis
  then have b: "bytes m p (length s) = s" "bytes m (p + of_nat (length s)) (Suc (length t)) = 0 # t" by auto
  have e: "p + of_nat (length s) + 1 = p + of_nat (Suc (length s))" by simp
  show "bytes m (p + of_nat (Suc (length s))) (length t) = t"
    using b(2) unfolding bytes_Suc list.inject e by blast
  show "cstr m p s" using assms b unfolding cstr_def bytes_Suc list.inject by simp
qed


lemma args_bytes_Cons: "args_bytes (kv # kvs) = lit (fst kv) @ 0 # lit (snd kv) @ 0 # args_bytes kvs"
  by (simp add: args_bytes_def split: prod.splits)

lemma lit_PROGRAM: "0 \<notin> set (lit ''PROGRAM'')"
  by (rule lit_no_zero) simp

lemma resolve_loop_ok:
  assumes a: "args \<noteq> NULL" "args_len = idx + of_nat (length (args_bytes kvs))"
    and w: "unat args + unat idx + length (args_bytes kvs) < 2 ^ 64"
    and b: "bytes m (args + idx) (length (args_bytes kvs)) = args_bytes kvs"
    and z: "\<forall>kv\<in>set kvs. CHR 0x00 \<notin> set (fst kv) \<and> CHR 0x00 \<notin> set (snd kv)"
  shows "resolve_loop elf_of m args args_len idx start = Some
    (case filter (\<lambda>kv. fst kv = ''PROGRAM'') kvs of [] \<Rightarrow> start | ps \<Rightarrow> image_addr elf_of (snd (last ps)))"
  using assms
proof (induction kvs arbitrary: idx start)
  case Nil
  then show ?case by (subst resolve_loop.simps) (simp add: args_bytes_def)
next
  case (Cons kv kvs)
  let ?k = "lit (fst kv)" and ?v = "lit (snd kv)" and ?r = "args_bytes kvs"
  let ?kl = "of_nat (Suc (length ?k)) :: u64" and ?vl = "of_nat (Suc (length ?v)) :: u64"
  let ?n = "length (args_bytes (kv # kvs))"
  have n: "?n = length ?k + Suc (length (?v @ 0 # ?r))" by (simp add: args_bytes_Cons)
  have z: "0 \<notin> set ?k" "0 \<notin> set ?v" using Cons.prems(5) by (auto intro!: lit_no_zero)
  have ap: "0 < unat args" using Cons.prems(1) by (simp add: unat_gt_0)
  have off: "unat (args + x) = unat args + unat x" if "unat x \<le> unat idx + ?n" for x
    using that Cons.prems(3) by (intro unat_add_no_wrap) simp
  have nn: "args + x \<noteq> NULL" if "unat x \<le> unat idx + ?n" for x
    using off [OF that] ap by (metis add_is_0 less_numeral_extra(3) unat_0)
  have ik: "unat (idx + of_nat k) = unat idx + k" if "k \<le> ?n" for k
  proof -
    have "unat (of_nat k :: u64) = k" using that Cons.prems(3) by (intro unat_of_nat_small) simp
    then show ?thesis using that Cons.prems(3) by (subst unat_add_no_wrap) simp_all
  qed
  have k: "cstr m (args + idx) ?k"
    "bytes m (args + idx + ?kl) (length (?v @ 0 # ?r)) = ?v @ 0 # ?r"
    using cstr_at_front [of m "args + idx" ?n ?k "?v @ 0 # ?r"] Cons.prems(3,4) n z(1) nn [of idx]
    by (simp_all add: args_bytes_Cons)
  have v: "cstr m (args + idx + ?kl) ?v" "bytes m (args + idx + ?kl + ?vl) (length ?r) = ?r"
    using cstr_at_front [of m "args + idx + ?kl" "length (?v @ 0 # ?r)" ?v ?r] k(2) Cons.prems(3) n z(2)
      nn [of "idx + ?kl"] ik [of "Suc (length ?k)"] by (simp_all add: add.assoc)
  have lt: "idx < args_len"
    using ik [of ?n] Cons.prems(2) n by (simp add: word_less_nat_alt)
  have e: "args + idx + ?kl = args + (idx + ?kl)" "args + idx + ?kl + ?vl = args + (idx + (?kl + ?vl))"
    by (simp_all only: add.assoc)
  have kvl: "?kl + ?vl = of_nat (Suc (length ?k) + Suc (length ?v))" by simp
  have skip: "unat (idx + (?kl + ?vl)) = unat idx + (Suc (length ?k) + Suc (length ?v))"
    unfolding kvl using n by (intro ik) simp
  let ?start = "if util_strcmp_lit m (args + idx) ''PROGRAM'' then resolve_elf_start elf_of m (args + (idx + ?kl)) else start"
  have "resolve_loop elf_of m args args_len idx start = resolve_loop elf_of m args args_len (idx + (?kl + ?vl)) ?start"
    using lt arg_len_cstr [OF k(1)] arg_len_cstr [OF v(1)] unfolding e
    by (subst resolve_loop.simps) simp
  also have "\<dots> = Some (case filter (\<lambda>kv. fst kv = ''PROGRAM'') kvs of [] \<Rightarrow> ?start | ps \<Rightarrow> image_addr elf_of (snd (last ps)))"
  proof (rule Cons.IH)
    show "args_len = idx + (?kl + ?vl) + of_nat (length ?r)" using Cons.prems(2) n by (simp add: algebra_simps)
    show "unat args + unat (idx + (?kl + ?vl)) + length ?r < 2 ^ 64" using skip Cons.prems(3) n by simp
    show "bytes m (args + (idx + (?kl + ?vl))) (length ?r) = ?r" using v(2) by (simp only: add.assoc)
  qed (use Cons.prems in auto)
  also have "?start = (if fst kv = ''PROGRAM'' then image_addr elf_of (snd kv) else start)"
    using strcmp_lit_cstr [OF k(1) lit_PROGRAM] resolve_elf_start_cstr [OF v(1)] unfolding e by (simp only: lit_inj)
  finally show ?case by (auto split: list.splits)
qed

lemma resolve_args_ok:
  assumes "args_ok m args kvs"
  shows "resolve_args elf_of m args (of_nat (length (args_bytes kvs))) = Some (args_image elf_of kvs)"
  unfolding resolve_args_def args_image_def
  by (rule resolve_loop_ok) (use assms in \<open>auto simp: args_ok_def\<close>)

end
