(* ===== verification/Elf.thy ===== *)
theory Elf
  imports LeMem LoaderArgs
begin

text \<open>
  The reader of ELF images (loader/include/elf.h, loader/src/elf_reader.c). Images are read where they are linked, in
  little-endian memory; \<open>ehdr_at\<close>, \<open>shdr_at\<close>, \<open>phdr_at\<close>, \<open>dyn_at\<close> and \<open>rela_at\<close> are the structures as the code
  sees them through its pointers. The functions \<open>print_*\<close> are empty unless \<open>DEBUG_LOADER\<close> is defined.
\<close>

section \<open>elf.h\<close>

record Elf64_Ehdr =
  e_ident :: "u8 list"
  e_type :: u16
  e_machine :: u16
  e_version :: u32
  e_entry :: u64
  e_phoff :: u64
  e_shoff :: u64
  e_flags :: u32
  e_ehsize :: u16
  e_phentsize :: u16
  e_phnum :: u16
  e_shentsize :: u16
  e_shnum :: u16
  e_shstrndx :: u16

definition ehdr_at :: "memory \<Rightarrow> ptr \<Rightarrow> Elf64_Ehdr" where
  "ehdr_at m p =
     \<lparr>e_ident = bytes m p 16, e_type = load16 (p + 16) m, e_machine = load16 (p + 18) m, e_version = load32 (p + 20) m,
      e_entry = load64 (p + 24) m, e_phoff = load64 (p + 32) m, e_shoff = load64 (p + 40) m,
      e_flags = load32 (p + 48) m, e_ehsize = load16 (p + 52) m, e_phentsize = load16 (p + 54) m,
      e_phnum = load16 (p + 56) m, e_shentsize = load16 (p + 58) m, e_shnum = load16 (p + 60) m,
      e_shstrndx = load16 (p + 62) m\<rparr>"

record Elf64_Shdr =
  sh_name :: u32
  sh_type :: u32
  sh_flags :: u64
  sh_addr :: u64
  sh_offset :: u64
  sh_size :: u64
  sh_link :: u32
  sh_info :: u32
  sh_addralign :: u64
  sh_entsize :: u64

definition shdr_at :: "memory \<Rightarrow> ptr \<Rightarrow> Elf64_Shdr" where
  "shdr_at m p =
     \<lparr>sh_name = load32 p m, sh_type = load32 (p + 4) m, sh_flags = load64 (p + 8) m, sh_addr = load64 (p + 16) m,
      sh_offset = load64 (p + 24) m, sh_size = load64 (p + 32) m, sh_link = load32 (p + 40) m,
      sh_info = load32 (p + 44) m, sh_addralign = load64 (p + 48) m, sh_entsize = load64 (p + 56) m\<rparr>"

definition SHT_NULL :: u32 where "SHT_NULL = 0"
definition SHT_PROGBITS :: u32 where "SHT_PROGBITS = 1"
definition SHT_SYMTAB :: u32 where "SHT_SYMTAB = 2"
definition SHT_STRTAB :: u32 where "SHT_STRTAB = 3"
definition SHT_RELA :: u32 where "SHT_RELA = 4"
definition SHT_HASH :: u32 where "SHT_HASH = 5"
definition SHT_DYNAMIC :: u32 where "SHT_DYNAMIC = 6"
definition SHT_NOBITS :: u32 where "SHT_NOBITS = 8"
definition SHT_REL :: u32 where "SHT_REL = 9"
definition SHT_DYNSYM :: u32 where "SHT_DYNSYM = 11"

lemmas sht_defs = SHT_NULL_def SHT_PROGBITS_def SHT_SYMTAB_def SHT_STRTAB_def SHT_RELA_def SHT_HASH_def SHT_DYNAMIC_def
  SHT_NOBITS_def SHT_REL_def SHT_DYNSYM_def

record Elf64_Phdr =
  p_type :: u32
  p_flags :: u32
  p_offset :: u64
  p_vaddr :: u64
  p_paddr :: u64
  p_filesz :: u64
  p_memsz :: u64
  p_align :: u64

definition phdr_at :: "memory \<Rightarrow> ptr \<Rightarrow> Elf64_Phdr" where
  "phdr_at m p =
     \<lparr>p_type = load32 p m, p_flags = load32 (p + 4) m, p_offset = load64 (p + 8) m, p_vaddr = load64 (p + 16) m,
      p_paddr = load64 (p + 24) m, p_filesz = load64 (p + 32) m, p_memsz = load64 (p + 40) m,
      p_align = load64 (p + 48) m\<rparr>"

definition PT_LOAD :: u32 where "PT_LOAD = 1"
definition PT_GNU_RELRO :: u32 where "PT_GNU_RELRO = 0x6474E552"

record Elf64_Dyn =
  d_tag :: u64
  d_un :: u64

definition dyn_at :: "memory \<Rightarrow> ptr \<Rightarrow> Elf64_Dyn" where
  "dyn_at m p = \<lparr>d_tag = load64 p m, d_un = load64 (p + 8) m\<rparr>"

definition DT_RELA :: u64 where "DT_RELA = 7"
definition DT_RELASZ :: u64 where "DT_RELASZ = 8"
definition DT_RELAENT :: u64 where "DT_RELAENT = 9"

record Elf64_Rela =
  r_offset :: u64
  r_info :: u64
  r_addend :: u64

definition rela_at :: "memory \<Rightarrow> ptr \<Rightarrow> Elf64_Rela" where
  "rela_at m p = \<lparr>r_offset = load64 p m, r_info = load64 (p + 8) m, r_addend = load64 (p + 16) m\<rparr>"

definition ELF64_R_TYPE :: "u64 \<Rightarrow> u32" where
  "ELF64_R_TYPE info = ucast info"

definition R_AARCH64_RELATIV :: u32 where "R_AARCH64_RELATIV = 1027"

text \<open>\<open>&arr[i]\<close> for the arrays of the image.\<close>

definition shdr_elem :: "ptr \<Rightarrow> nat \<Rightarrow> ptr" where "shdr_elem arr i = arr + 64 * of_nat i"
definition phdr_elem :: "ptr \<Rightarrow> nat \<Rightarrow> ptr" where "phdr_elem arr i = arr + 56 * of_nat i"
definition dyn_elem :: "ptr \<Rightarrow> nat \<Rightarrow> ptr" where "dyn_elem arr i = arr + 16 * of_nat i"
definition rela_elem :: "ptr \<Rightarrow> nat \<Rightarrow> ptr" where "rela_elem arr i = arr + 24 * of_nat i"

section \<open>elf_reader.c\<close>

record ElfReader =
  e_hdr :: ptr
  s_hdr_arr :: ptr
  s_hdr_arrlen :: u16
  s_hdr_hash :: ptr
  s_hdr_dynsym :: ptr
  s_hdr_dynstr :: ptr
  s_hdr_rela_dyn :: ptr
  s_hdr_text :: ptr
  s_hdr_rodata :: ptr
  s_hdr_data_rel_ro :: ptr
  s_hdr_dynamic :: ptr
  s_hdr_got :: ptr
  s_hdr_got_plt :: ptr
  s_hdr_comment :: ptr
  s_hdr_symtab :: ptr
  s_hdr_strtab :: ptr
  s_hdr_shstrtab :: ptr
  s_hdr_bss :: ptr
  p_hdr_arr :: ptr
  p_hdr_arrlen :: u16
  dyn_arr :: ptr
  dyn_arrlen :: u64
  rela_arr :: ptr
  rela_arrlen :: u64

text \<open>The reader after its \<open>util_memset\<close>.\<close>

definition elf_reader_zero :: ElfReader where
  "elf_reader_zero =
     \<lparr>e_hdr = NULL, s_hdr_arr = NULL, s_hdr_arrlen = 0, s_hdr_hash = NULL, s_hdr_dynsym = NULL, s_hdr_dynstr = NULL,
      s_hdr_rela_dyn = NULL, s_hdr_text = NULL, s_hdr_rodata = NULL, s_hdr_data_rel_ro = NULL, s_hdr_dynamic = NULL,
      s_hdr_got = NULL, s_hdr_got_plt = NULL, s_hdr_comment = NULL, s_hdr_symtab = NULL, s_hdr_strtab = NULL,
      s_hdr_shstrtab = NULL, s_hdr_bss = NULL, p_hdr_arr = NULL, p_hdr_arrlen = 0, dyn_arr = NULL, dyn_arrlen = 0,
      rela_arr = NULL, rela_arrlen = 0\<rparr>"

definition elf_reader_check_e_ident :: "memory \<Rightarrow> ElfReader \<Rightarrow> bool res" where
  "elf_reader_check_e_ident m er =
     (if e_hdr er = NULL then Inl Null_deref
      else let id = e_ident (ehdr_at m (e_hdr er)) in
        Inr (id ! 0 = 0x7f \<and> id ! 1 = 69 \<and> id ! 2 = 76 \<and> id ! 3 = 70 \<and> id ! 4 = 2 \<and> id ! 5 = 1 \<and> id ! 6 = 1))"

definition ELF_SHSTRTAB_GET :: "memory \<Rightarrow> ElfReader \<Rightarrow> u32 \<Rightarrow> ptr" where
  "ELF_SHSTRTAB_GET m er idx = e_hdr er + (sh_offset (shdr_at m (s_hdr_shstrtab er)) + ucast idx)"

definition elf_reader_ctr_section :: "memory \<Rightarrow> ptr \<Rightarrow> ElfReader \<Rightarrow> ElfReader" where
  "elf_reader_ctr_section m s_hdr er =
     (let ty = sh_type (shdr_at m s_hdr);
          named = util_strcmp_lit m (ELF_SHSTRTAB_GET m er (sh_name (shdr_at m s_hdr))) in
      if ty = SHT_NULL then er
      else if ty = SHT_STRTAB then
        (let er = (if named ''.strtab'' then er\<lparr>s_hdr_strtab := s_hdr\<rparr> else er) in
         if named ''.dynstr'' then er\<lparr>s_hdr_dynstr := s_hdr\<rparr> else er)
      else if ty = SHT_PROGBITS then
        (let er = (if named ''.text'' then er\<lparr>s_hdr_text := s_hdr\<rparr> else er);
             er = (if named ''.rodata'' then er\<lparr>s_hdr_rodata := s_hdr\<rparr> else er);
             er = (if named ''.data.rel.ro'' then er\<lparr>s_hdr_data_rel_ro := s_hdr\<rparr> else er);
             er = (if named ''.comment'' then er\<lparr>s_hdr_comment := s_hdr\<rparr> else er);
             er = (if named ''.got'' then er\<lparr>s_hdr_got := s_hdr\<rparr> else er) in
         if named ''.got.plt'' then er\<lparr>s_hdr_got_plt := s_hdr\<rparr> else er)
      else if ty = SHT_SYMTAB then (if named ''.symtab'' then er\<lparr>s_hdr_symtab := s_hdr\<rparr> else er)
      else if ty = SHT_RELA then (if named ''.rela.dyn'' then er\<lparr>s_hdr_rela_dyn := s_hdr\<rparr> else er)
      else if ty = SHT_HASH then (if named ''.hash'' then er\<lparr>s_hdr_hash := s_hdr\<rparr> else er)
      else if ty = SHT_DYNAMIC then (if named ''.dynamic'' then er\<lparr>s_hdr_dynamic := s_hdr\<rparr> else er)
      else if ty = SHT_NOBITS then er\<lparr>s_hdr_bss := s_hdr\<rparr>
      else if ty = SHT_REL then er
      else if ty = SHT_DYNSYM then (if named ''.dynsym'' then er\<lparr>s_hdr_dynsym := s_hdr\<rparr> else er)
      else er)"

definition elf_reader_ctr_sections :: "memory \<Rightarrow> ElfReader \<Rightarrow> ElfReader" where
  "elf_reader_ctr_sections m er =
     (let er = er\<lparr>s_hdr_shstrtab := shdr_elem (s_hdr_arr er) (unat (e_shstrndx (ehdr_at m (e_hdr er))))\<rparr> in
      fold (\<lambda>i er. elf_reader_ctr_section m (shdr_elem (s_hdr_arr er) i) er) [0..<unat (s_hdr_arrlen er)] er)"

text \<open>The loop over the dynamic entries carries \<open>rela_arr\<close>, \<open>rela_ent\<close> and \<open>rela_sz\<close>; its bound is the length as an \<open>int\<close>.\<close>

definition parse_dyn_entry :: "memory \<Rightarrow> ptr \<Rightarrow> ptr \<Rightarrow> ptr \<times> u64 \<times> u64 \<Rightarrow> ptr \<times> u64 \<times> u64" where
  "parse_dyn_entry m base dyn_entry acc =
     (case acc of (rela, rela_ent, rela_sz) \<Rightarrow>
        let d = dyn_at m dyn_entry in
        if d_tag d = DT_RELA then (base + d_un d, rela_ent, rela_sz)
        else if d_tag d = DT_RELAENT then (rela, d_un d, rela_sz)
        else if d_tag d = DT_RELASZ then (rela, rela_ent, d_un d)
        else (rela, rela_ent, rela_sz))"

definition elf_reader_parse_dynamic :: "memory \<Rightarrow> ElfReader \<Rightarrow> ElfReader res" where
  "elf_reader_parse_dynamic m er =
     (if s_hdr_dynamic er = NULL then Inl Null_deref
      else let dynamic = shdr_at m (s_hdr_dynamic er) in
        if sh_entsize dynamic = 0 then Inl Div_by_zero
        else let n = sh_size dynamic div sh_entsize dynamic; arr = e_hdr er + sh_offset dynamic in
          case fold (\<lambda>i. parse_dyn_entry m (e_hdr er) (dyn_elem arr i)) [0..<nat (sint (ucast n :: u32))] (rela_arr er, 0, 0) of
            (rela, rela_ent, rela_sz) \<Rightarrow>
              if rela_ent = 0 then Inl Div_by_zero
              else Inr (er\<lparr>dyn_arr := arr, dyn_arrlen := n, rela_arr := rela, rela_arrlen := rela_sz div rela_ent\<rparr>))"

definition elf_reader_ctr :: "memory \<Rightarrow> ptr \<Rightarrow> ElfReader res" where
  "elf_reader_ctr m elf_start =
     (let er = elf_reader_zero\<lparr>e_hdr := elf_start\<rparr> in
      bindR (elf_reader_check_e_ident m er) (\<lambda>ok.
        if \<not> ok then Inr (er\<lparr>e_hdr := NULL\<rparr>)
        else let eh = ehdr_at m elf_start in
          elf_reader_parse_dynamic m (elf_reader_ctr_sections m
            (er\<lparr>s_hdr_arr := elf_start + e_shoff eh, s_hdr_arrlen := e_shnum eh,
                p_hdr_arr := elf_start + e_phoff eh, p_hdr_arrlen := e_phnum eh\<rparr>))))"


section \<open>What the reader finds\<close>

text \<open>The last element of a list, or a default.\<close>

definition last_or :: "'a \<Rightarrow> 'a list \<Rightarrow> 'a" where
  "last_or d xs = (if xs = [] then d else last xs)"

lemma last_or_simps [simp]:
  "last_or d [] = d"
  "last_or d (xs @ [x]) = x"
  by (simp_all add: last_or_def)

lemma fold_last:
  assumes "\<And>i a. Q a \<Longrightarrow> f (g i a) = (if P i then h i else f a)" "\<And>i a. Q a \<Longrightarrow> Q (g i a)" "Q a"
  shows "f (fold g xs a) = last_or (f a) (map h (filter P xs))"
proof -
  have "Q (fold g xs a) \<and> f (fold g xs a) = last_or (f a) (map h (filter P xs))"
    by (induction xs rule: rev_induct) (simp_all add: assms)
  then show ?thesis by simp
qed

lemma fold_keeps: "(\<And>i a. f (g i a) = f a) \<Longrightarrow> f (fold g xs a) = f a"
  by (induction xs arbitrary: a) simp_all

definition image_sections :: "memory \<Rightarrow> ptr \<Rightarrow> ptr list" where
  "image_sections m e = map (shdr_elem (e + e_shoff (ehdr_at m e))) [0..<unat (e_shnum (ehdr_at m e))]"

definition image_segments :: "memory \<Rightarrow> ptr \<Rightarrow> ptr list" where
  "image_segments m e = map (phdr_elem (e + e_phoff (ehdr_at m e))) [0..<unat (e_phnum (ehdr_at m e))]"

text \<open>The name of a section, through the section header string table.\<close>

definition section_name :: "memory \<Rightarrow> ptr \<Rightarrow> ptr \<Rightarrow> ptr" where
  "section_name m e p =
     (let eh = ehdr_at m e in
      e + (sh_offset (shdr_at m (shdr_elem (e + e_shoff eh) (unat (e_shstrndx eh)))) + ucast (sh_name (shdr_at m p))))"

definition bss_section :: "memory \<Rightarrow> ptr \<Rightarrow> ptr" where
  "bss_section m e = last_or NULL (filter (\<lambda>p. sh_type (shdr_at m p) = SHT_NOBITS) (image_sections m e))"

definition dynamic_section :: "memory \<Rightarrow> ptr \<Rightarrow> ptr" where
  "dynamic_section m e =
     last_or NULL (filter (\<lambda>p. sh_type (shdr_at m p) = SHT_DYNAMIC \<and> util_strcmp_lit m (section_name m e p) ''.dynamic'')
       (image_sections m e))"

definition dynamic_entries :: "memory \<Rightarrow> ptr \<Rightarrow> Elf64_Dyn list" where
  "dynamic_entries m e =
     (let dynamic = shdr_at m (dynamic_section m e) in
      map (\<lambda>i. dyn_at m (dyn_elem (e + sh_offset dynamic) i))
        [0..<nat (sint (ucast (sh_size dynamic div sh_entsize dynamic) :: u32))])"

text \<open>The value of the last entry with a tag, 0 when there is none.\<close>

definition dyn_value :: "memory \<Rightarrow> ptr \<Rightarrow> u64 \<Rightarrow> u64" where
  "dyn_value m e tag = last_or 0 (map d_un (filter (\<lambda>d. d_tag d = tag) (dynamic_entries m e)))"

definition has_dyn :: "memory \<Rightarrow> ptr \<Rightarrow> u64 \<Rightarrow> bool" where
  "has_dyn m e tag \<longleftrightarrow> (\<exists>d\<in>set (dynamic_entries m e). d_tag d = tag)"

definition ident_ok :: "memory \<Rightarrow> ptr \<Rightarrow> bool" where
  "ident_ok m e \<longleftrightarrow> bytes m e 7 = [0x7f, 69, 76, 70, 2, 1, 1]"

lemma check_e_ident: "e_hdr er \<noteq> NULL \<Longrightarrow> elf_reader_check_e_ident m er = Inr (ident_ok m (e_hdr er))"
  by (simp add: elf_reader_check_e_ident_def ident_ok_def ehdr_at_def bytes_def upt_rec)

lemma ctr_section_keeps [simp]:
  "e_hdr (elf_reader_ctr_section m p er) = e_hdr er"
  "s_hdr_arr (elf_reader_ctr_section m p er) = s_hdr_arr er"
  "s_hdr_arrlen (elf_reader_ctr_section m p er) = s_hdr_arrlen er"
  "s_hdr_shstrtab (elf_reader_ctr_section m p er) = s_hdr_shstrtab er"
  "p_hdr_arr (elf_reader_ctr_section m p er) = p_hdr_arr er"
  "p_hdr_arrlen (elf_reader_ctr_section m p er) = p_hdr_arrlen er"
  "rela_arr (elf_reader_ctr_section m p er) = rela_arr er"
  by (simp_all add: elf_reader_ctr_section_def Let_def)

lemma ctr_section_bss:
  "s_hdr_bss (elf_reader_ctr_section m p er) = (if sh_type (shdr_at m p) = SHT_NOBITS then p else s_hdr_bss er)"
  by (simp add: elf_reader_ctr_section_def Let_def sht_defs)

lemma ctr_section_dynamic:
  "s_hdr_dynamic (elf_reader_ctr_section m p er) =
     (if sh_type (shdr_at m p) = SHT_DYNAMIC \<and>
         util_strcmp_lit m (ELF_SHSTRTAB_GET m er (sh_name (shdr_at m p))) ''.dynamic'' then p else s_hdr_dynamic er)"
  by (simp add: elf_reader_ctr_section_def Let_def sht_defs)


text \<open>The sections of an image of which the header is valid.\<close>

definition reader_start :: "memory \<Rightarrow> ptr \<Rightarrow> ElfReader" where
  "reader_start m e = elf_reader_zero\<lparr>e_hdr := e, s_hdr_arr := e + e_shoff (ehdr_at m e), s_hdr_arrlen := e_shnum (ehdr_at m e),
     p_hdr_arr := e + e_phoff (ehdr_at m e), p_hdr_arrlen := e_phnum (ehdr_at m e)\<rparr>"

lemma ctr_sections_keeps [simp]:
  "e_hdr (elf_reader_ctr_sections m er) = e_hdr er"
  "p_hdr_arr (elf_reader_ctr_sections m er) = p_hdr_arr er"
  "p_hdr_arrlen (elf_reader_ctr_sections m er) = p_hdr_arrlen er"
  "rela_arr (elf_reader_ctr_sections m er) = rela_arr er"
  unfolding elf_reader_ctr_sections_def Let_def by (subst fold_keeps; simp)+

lemma filter_image_sections:
  "filter P (image_sections m e) =
     map (shdr_elem (e + e_shoff (ehdr_at m e)))
       (filter (\<lambda>i. P (shdr_elem (e + e_shoff (ehdr_at m e)) i)) [0..<unat (e_shnum (ehdr_at m e))])"
  by (simp add: image_sections_def filter_map o_def)

lemma ctr_sections_bss: "s_hdr_bss (elf_reader_ctr_sections m (reader_start m e)) = bss_section m e"
  unfolding elf_reader_ctr_sections_def Let_def bss_section_def filter_image_sections
  by (subst fold_last [where Q = "\<lambda>er. s_hdr_arr er = e + e_shoff (ehdr_at m e)"])
     (auto simp: ctr_section_bss reader_start_def elf_reader_zero_def)

lemma ctr_sections_dynamic: "s_hdr_dynamic (elf_reader_ctr_sections m (reader_start m e)) = dynamic_section m e"
  unfolding elf_reader_ctr_sections_def Let_def dynamic_section_def filter_image_sections
  by (subst fold_last [where f = s_hdr_dynamic and h = "shdr_elem (e + e_shoff (ehdr_at m e))" and
        P = "\<lambda>i. sh_type (shdr_at m (shdr_elem (e + e_shoff (ehdr_at m e)) i)) = SHT_DYNAMIC \<and>
          util_strcmp_lit m (section_name m e (shdr_elem (e + e_shoff (ehdr_at m e)) i)) ''.dynamic''" and
        Q = "\<lambda>er. e_hdr er = e \<and> s_hdr_arr er = e + e_shoff (ehdr_at m e) \<and> s_hdr_shstrtab er =
        shdr_elem (e + e_shoff (ehdr_at m e)) (unat (e_shstrndx (ehdr_at m e)))"])
     (simp_all add: ctr_section_dynamic reader_start_def elf_reader_zero_def ELF_SHSTRTAB_GET_def section_name_def Let_def)

lemma parse_dyn_fold:
  "fold (\<lambda>i. parse_dyn_entry m base (f i)) xs (rela, ent, sz) =
     (let ds = map (\<lambda>i. dyn_at m (f i)) xs; val = (\<lambda>tag. map d_un (filter (\<lambda>d. d_tag d = tag) ds)) in
      (last_or rela (map ((+) base) (val DT_RELA)), last_or ent (val DT_RELAENT), last_or sz (val DT_RELASZ)))"
  by (induction xs rule: rev_induct)
     (auto simp: parse_dyn_entry_def Let_def DT_RELA_def DT_RELAENT_def DT_RELASZ_def last_or_def)

lemma last_or_map: "last_or d (map f xs) = (if xs = [] then d else f (last xs))"
  by (auto simp: last_or_def last_map)

lemma parse_dyn_values:
  "\<exists>rela. fold (\<lambda>i. parse_dyn_entry m e (dyn_elem (e + sh_offset (shdr_at m (dynamic_section m e))) i))
       [0..<nat (sint (ucast (sh_size (shdr_at m (dynamic_section m e)) div sh_entsize (shdr_at m (dynamic_section m e))) :: u32))]
       (NULL, 0, 0) = (rela, dyn_value m e DT_RELAENT, dyn_value m e DT_RELASZ) \<and>
     (has_dyn m e DT_RELA \<longrightarrow> rela = e + dyn_value m e DT_RELA)"
proof -
  have nz: "has_dyn m e DT_RELA \<Longrightarrow> filter (\<lambda>d. d_tag d = DT_RELA) (dynamic_entries m e) \<noteq> []"
    by (auto simp: has_dyn_def filter_empty_conv)
  show ?thesis
    unfolding parse_dyn_fold Let_def dynamic_entries_def [unfolded Let_def, symmetric] dyn_value_def
    by (rule exI, rule conjI, rule refl, rule impI, drule nz) (simp add: last_or_def last_map)
qed

text \<open>The reader as a function of the sections and dynamic entries of the image.\<close>

lemma ctr_ident:
  assumes "e \<noteq> NULL" "ident_ok m e"
  shows "elf_reader_ctr m e = elf_reader_parse_dynamic m (elf_reader_ctr_sections m (reader_start m e))"
  using assms by (simp add: elf_reader_ctr_def check_e_ident reader_start_def Let_def)

lemma reader_start_fields [simp]:
  "e_hdr (reader_start m e) = e" "p_hdr_arr (reader_start m e) = e + e_phoff (ehdr_at m e)"
  "p_hdr_arrlen (reader_start m e) = e_phnum (ehdr_at m e)" "rela_arr (reader_start m e) = NULL"
  by (simp_all add: reader_start_def elf_reader_zero_def)

lemma elf_reader_ctr_ok:
  assumes "e \<noteq> NULL" "ident_ok m e" "dynamic_section m e \<noteq> NULL" "sh_entsize (shdr_at m (dynamic_section m e)) \<noteq> 0"
    "dyn_value m e DT_RELAENT \<noteq> 0"
  shows "\<exists>r. elf_reader_ctr m e = Inr r \<and> e_hdr r = e \<and> s_hdr_bss r = bss_section m e \<and>
     p_hdr_arr r = e + e_phoff (ehdr_at m e) \<and> p_hdr_arrlen r = e_phnum (ehdr_at m e) \<and>
     rela_arrlen r = dyn_value m e DT_RELASZ div dyn_value m e DT_RELAENT \<and>
     (has_dyn m e DT_RELA \<longrightarrow> rela_arr r = e + dyn_value m e DT_RELA)"
  using parse_dyn_values [of m e] assms(3-5) unfolding ctr_ident [OF assms(1,2)] elf_reader_parse_dynamic_def Let_def
  by (auto simp: ctr_sections_dynamic ctr_sections_bss)

text \<open>How an image is rejected or stops the loader.\<close>

lemma elf_reader_ctr_fails:
  "elf_reader_ctr m NULL = Inl Null_deref"
  "e \<noteq> NULL \<Longrightarrow> \<not> ident_ok m e \<Longrightarrow> elf_reader_ctr m e = Inr elf_reader_zero"
  subgoal by (simp add: elf_reader_ctr_def elf_reader_check_e_ident_def elf_reader_zero_def)
  subgoal by (simp add: elf_reader_ctr_def check_e_ident) (simp add: elf_reader_zero_def)
  done

lemma elf_reader_ctr_no_dynamic:
  assumes "e \<noteq> NULL" "ident_ok m e"
  shows "dynamic_section m e = NULL \<Longrightarrow> elf_reader_ctr m e = Inl Null_deref"
    "dynamic_section m e \<noteq> NULL \<Longrightarrow> sh_entsize (shdr_at m (dynamic_section m e)) \<noteq> 0 \<Longrightarrow>
     dyn_value m e DT_RELAENT = 0 \<Longrightarrow> elf_reader_ctr m e = Inl Div_by_zero"
  using parse_dyn_values [of m e] unfolding ctr_ident [OF assms] elf_reader_parse_dynamic_def Let_def
  by (auto simp: ctr_sections_dynamic)

end
