(* ===== verification/Loader.thy ===== *)
theory Loader
  imports Elf Macros
begin

text \<open>
  Loading and relocating an image (loader/src/loader.c). The memory the program gets is the answer of the system call
  \<open>ke_mmap\<close>, a function of the size that is asked for; \<open>load_elf\<close> gives the memory and the entry point at the moment of the
  jump, or no entry point when the image is not accepted. \<open>vaddr_diff\<close> is an \<open>int64_t\<close> that the code only adds to addresses.
\<close>

section \<open>The definitions\<close>

definition apply_relocation_relativ :: "Elf64_Rela \<Rightarrow> u64 \<Rightarrow> memory \<Rightarrow> memory" where
  "apply_relocation_relativ rela vaddr_diff m = store64 (r_offset rela + vaddr_diff) (r_addend rela + vaddr_diff) m"

definition apply_relocations :: "ElfReader \<Rightarrow> u64 \<Rightarrow> memory \<Rightarrow> memory" where
  "apply_relocations er vaddr_diff m =
     fold (\<lambda>i m. let rela = rela_at m (rela_elem (rela_arr er) i) in
             if ELF64_R_TYPE (r_info rela) = R_AARCH64_RELATIV then apply_relocation_relativ rela vaddr_diff m else m)
       [0..<unat (rela_arrlen er)] m"

definition memcpy_prog_hdr :: "ElfReader \<Rightarrow> u64 \<Rightarrow> memory \<Rightarrow> memory" where
  "memcpy_prog_hdr er vaddr_diff m =
     fold (\<lambda>i m. let p_hdr = phdr_at m (phdr_elem (p_hdr_arr er) i) in
             if p_type p_hdr \<noteq> PT_LOAD then m
             else util_memcpy (p_vaddr p_hdr + vaddr_diff) (e_hdr er + p_offset p_hdr) (p_filesz p_hdr) m)
       [0..<unat (p_hdr_arrlen er)] m"

definition calc_mem_step :: "Elf64_Phdr \<Rightarrow> u64 \<times> u64 \<times> u64 \<Rightarrow> u64 \<times> u64 \<times> u64" where
  "calc_mem_step hdr acc =
     (case acc of (min_addr, max_addr, max_align) \<Rightarrow>
        if p_type hdr = PT_LOAD \<or> p_type hdr = PT_GNU_RELRO
        then (if p_vaddr hdr < min_addr then p_vaddr hdr else min_addr,
              if p_vaddr hdr + p_memsz hdr > max_addr then p_vaddr hdr + p_memsz hdr else max_addr,
              if p_align hdr > max_align then p_align hdr else max_align)
        else acc)"

definition calc_mem_size :: "memory \<Rightarrow> ElfReader \<Rightarrow> u64 \<times> u64" where
  "calc_mem_size m er =
     (case fold (\<lambda>i. calc_mem_step (phdr_at m (phdr_elem (p_hdr_arr er) i))) [0..<unat (p_hdr_arrlen er)] (- 1, 0, 1) of
        (min_addr, max_addr, max_align) \<Rightarrow>
          let vaddr_base = min_addr AND NOT (max_align - 1) in (vaddr_base, max_addr - vaddr_base))"

definition clear_bss :: "ElfReader \<Rightarrow> u64 \<Rightarrow> memory \<Rightarrow> memory" where
  "clear_bss er vaddr_diff m =
     (if s_hdr_bss er \<noteq> NULL
      then let bss = shdr_at m (s_hdr_bss er) in util_memset (sh_addr bss + vaddr_diff) 0 (sh_size bss) m
      else m)"

definition load_elf ::
  "(string \<Rightarrow> ptr) \<Rightarrow> (u64 \<Rightarrow> ptr) \<Rightarrow> ptr \<Rightarrow> u64 \<Rightarrow> memory \<Rightarrow> (memory \<times> ptr option) res" where
  "load_elf elf_of ke_mmap args args_len m =
     bindR (returns (resolve_args elf_of m args args_len)) (\<lambda>elf_start.
     bindR (elf_reader_ctr m elf_start) (\<lambda>er.
       if e_hdr er = NULL then Inr (m, None)
       else let (vaddr_base, memsz) = calc_mem_size m er;
                vaddr_target = ke_mmap memsz;
                vaddr_diff = vaddr_target - vaddr_base;
                m = memcpy_prog_hdr er vaddr_diff m;
                m = clear_bss er vaddr_diff m;
                m = apply_relocations er vaddr_diff m
            in Inr (m, Some (e_entry (ehdr_at m (e_hdr er)) + vaddr_diff))))"

section \<open>The size of an image\<close>

text \<open>The program headers of an image, and those that count for its size.\<close>

definition prog_hdrs :: "memory \<Rightarrow> ElfReader \<Rightarrow> Elf64_Phdr list" where
  "prog_hdrs m er = map (\<lambda>i. phdr_at m (phdr_elem (p_hdr_arr er) i)) [0..<unat (p_hdr_arrlen er)]"

definition sized_hdrs :: "memory \<Rightarrow> ElfReader \<Rightarrow> Elf64_Phdr list" where
  "sized_hdrs m er = filter (\<lambda>h. p_type h = PT_LOAD \<or> p_type h = PT_GNU_RELRO) (prog_hdrs m er)"

definition load_hdrs :: "memory \<Rightarrow> ElfReader \<Rightarrow> Elf64_Phdr list" where
  "load_hdrs m er = filter (\<lambda>h. p_type h = PT_LOAD) (prog_hdrs m er)"

lemma load_hdrs_sized: "set (load_hdrs m er) \<subseteq> set (sized_hdrs m er)"
  by (auto simp: load_hdrs_def sized_hdrs_def)

lemma calc_mem_fold:
  "fold calc_mem_step hs (a, b, c) =
     (let ss = filter (\<lambda>h. p_type h = PT_LOAD \<or> p_type h = PT_GNU_RELRO) hs in
      (Min (set (a # map p_vaddr ss)), Max (set (b # map (\<lambda>h. p_vaddr h + p_memsz h) ss)), Max (set (c # map p_align ss))))"
proof -
  have mn: "(if x < y then x else y) = min x y" and mx: "(if y < x then x else y) = max x y" for x y :: u64
    by (auto simp: min_def max_def)
  have step: "calc_mem_step h (a, b, c) =
      (if p_type h = PT_LOAD \<or> p_type h = PT_GNU_RELRO
       then (min (p_vaddr h) a, max (p_vaddr h + p_memsz h) b, max (p_align h) c) else (a, b, c))" for h a b c
    by (simp only: calc_mem_step_def prod.case mn mx)
  show ?thesis
    unfolding Min.set_eq_fold Max.set_eq_fold Let_def
  proof (induction hs arbitrary: a b c)
    case (Cons h hs)
    then show ?case by (cases "p_type h = PT_LOAD \<or> p_type h = PT_GNU_RELRO") (simp_all only: step fold_simps filter.simps list.map if_True if_False)
  qed simp
qed

lemma calc_mem_size_hdrs:
  "calc_mem_size m er =
     (let ss = sized_hdrs m er; vb = Min (set (- 1 # map p_vaddr ss)) AND NOT (Max (set (1 # map p_align ss)) - 1) in
      (vb, Max (set (0 # map (\<lambda>h. p_vaddr h + p_memsz h) ss)) - vb))"
proof -
  have "fold (\<lambda>i. calc_mem_step (phdr_at m (phdr_elem (p_hdr_arr er) i))) [0..<unat (p_hdr_arrlen er)] =
      fold calc_mem_step (prog_hdrs m er)"
    by (simp add: prog_hdrs_def fold_map o_def)
  then show ?thesis by (simp only: calc_mem_size_def calc_mem_fold sized_hdrs_def Let_def prod.case)
qed

definition hdrs_ok :: "Elf64_Phdr list \<Rightarrow> bool" where
  "hdrs_ok hs \<longleftrightarrow> hs \<noteq> [] \<and>
     (\<forall>h\<in>set hs. unat (p_vaddr h) + unat (p_memsz h) < 2 ^ 64 \<and> (\<exists>k < 64. p_align h = 2 ^ k))"

definition img_align :: "Elf64_Phdr list \<Rightarrow> u64" where
  "img_align hs = Max (insert 1 (p_align ` set hs))"

text \<open>The block starts at the alignment boundary below the lowest segment and ends with the highest one.\<close>

lemma calc_mem_size_ok:
  assumes ok: "hdrs_ok (sized_hdrs m er)" and c: "calc_mem_size m er = (vb, sz)"
  shows "\<forall>h\<in>set (sized_hdrs m er). vb \<le> p_vaddr h \<and> unat (p_vaddr h) + unat (p_memsz h) \<le> unat vb + unat sz"
    "\<exists>h\<in>set (sized_hdrs m er). unat vb = unat (p_vaddr h) div unat (img_align (sized_hdrs m er)) * unat (img_align (sized_hdrs m er))"
    "\<exists>h\<in>set (sized_hdrs m er). unat vb + unat sz = unat (p_vaddr h) + unat (p_memsz h)"
proof -
  let ?hs = "sized_hdrs m er"
  define mn where "mn = Min (insert (- 1) (p_vaddr ` set ?hs))"
  define mx where "mx = Max (insert 0 ((\<lambda>h. p_vaddr h + p_memsz h) ` set ?hs))"
  have ne: "set ?hs \<noteq> {}" using ok by (simp add: hdrs_ok_def)
  have c': "vb = mn AND NOT (img_align ?hs - 1)" "sz = mx - vb"
    using c unfolding calc_mem_size_hdrs mn_def mx_def img_align_def by (auto simp: Let_def)
  have end_nat: "unat (p_vaddr h + p_memsz h) = unat (p_vaddr h) + unat (p_memsz h)" if "h \<in> set ?hs" for h
    using ok that by (intro unat_add_no_wrap) (simp add: hdrs_ok_def)
  have "\<exists>k < 64. img_align ?hs = 2 ^ k"
  proof -
    have "img_align ?hs \<in> insert 1 (p_align ` set ?hs)" unfolding img_align_def by (rule Max_in) simp_all
    then show ?thesis using ok by (auto simp: hdrs_ok_def intro: exI [of _ 0])
  qed
  then obtain k where k: "k < 64" "img_align ?hs = 2 ^ k" by blast
  then have vb: "vb = ALIGN_DOWN mn k" using c'(1) by (simp add: ALIGN_DOWN_def push_bit_eq_mult)
  have "unat (of_nat (2 ^ k) :: u64) = 2 ^ k" using k(1) by (intro unat_of_nat_small power_strict_increasing) simp_all
  then have ual: "unat (img_align ?hs) = 2 ^ k" using k(2) by simp
  have mn_le: "mn \<le> p_vaddr h" if "h \<in> set ?hs" for h unfolding mn_def using that by (intro Min_le) auto
  have mn_in: "\<exists>h\<in>set ?hs. mn = p_vaddr h"
  proof -
    obtain h where h: "h \<in> set ?hs" using ne by (metis ex_in_conv)
    have "mn \<in> insert (- 1) (p_vaddr ` set ?hs)" unfolding mn_def by (rule Min_in) simp_all
    moreover have "mn = p_vaddr h" if "mn = - 1" using mn_le [OF h] that by (simp add: word_order.extremum_unique)
    ultimately show ?thesis using h by blast
  qed
  have mx_ge: "p_vaddr h + p_memsz h \<le> mx" if "h \<in> set ?hs" for h unfolding mx_def using that by (intro Max_ge) auto
  have mx_in: "\<exists>h\<in>set ?hs. mx = p_vaddr h + p_memsz h"
  proof -
    obtain h where h: "h \<in> set ?hs" using ne by (metis ex_in_conv)
    have "mx \<in> insert 0 ((\<lambda>h. p_vaddr h + p_memsz h) ` set ?hs)" unfolding mx_def by (rule Max_in) simp_all
    moreover have "mx = p_vaddr h + p_memsz h" if "mx = 0" using mx_ge [OF h] that by simp
    ultimately show ?thesis using h by blast
  qed
  have vb_mn: "vb \<le> mn" unfolding vb by (rule ALIGN_DOWN_le)
  have vb_mx: "vb \<le> mx"
  proof -
    obtain h where h: "h \<in> set ?hs" "mn = p_vaddr h" using mn_in by blast
    then have "unat mn \<le> unat mx" using mx_ge [OF h(1)] end_nat [OF h(1)] by (simp add: word_le_nat_alt)
    then show ?thesis using vb_mn by (simp add: word_le_nat_alt)
  qed
  have sz: "unat vb + unat sz = unat mx" using vb_mx c'(2) by (simp add: unat_sub_no_wrap word_le_nat_alt)
  show "\<forall>h\<in>set ?hs. vb \<le> p_vaddr h \<and> unat (p_vaddr h) + unat (p_memsz h) \<le> unat vb + unat sz"
    using mn_le vb_mn mx_ge end_nat sz by (metis order_trans word_le_nat_alt)
  show "\<exists>h\<in>set ?hs. unat vb = unat (p_vaddr h) div unat (img_align ?hs) * unat (img_align ?hs)"
    using mn_in unfolding vb unat_ALIGN_DOWN ual by metis
  show "\<exists>h\<in>set ?hs. unat vb + unat sz = unat (p_vaddr h) + unat (p_memsz h)"
    using mx_in end_nat sz by metis
qed


section \<open>What is in memory at the jump\<close>

text \<open>
  \<open>loadable m er T sz N\<close>: the image lies in the \<open>N\<close> bytes from its header, the block of \<open>sz\<close> bytes at \<open>T\<close> is elsewhere, and
  everything the loader writes belongs to the addresses of the image, \<open>vb\<close> to \<open>vb + sz\<close>.
\<close>

definition relas :: "memory \<Rightarrow> ElfReader \<Rightarrow> Elf64_Rela list" where
  "relas m er = filter (\<lambda>r. ELF64_R_TYPE (r_info r) = R_AARCH64_RELATIV)
     (map (\<lambda>i. rela_at m (rela_elem (rela_arr er) i)) [0..<unat (rela_arrlen er)])"

definition tables_inside :: "ElfReader \<Rightarrow> ptr set \<Rightarrow> bool" where
  "tables_inside er D \<longleftrightarrow> region (e_hdr er) 64 \<subseteq> D \<and>
     (\<forall>i<unat (p_hdr_arrlen er). region (phdr_elem (p_hdr_arr er) i) 56 \<subseteq> D) \<and>
     (\<forall>i<unat (rela_arrlen er). region (rela_elem (rela_arr er) i) 24 \<subseteq> D) \<and>
     (s_hdr_bss er \<noteq> NULL \<longrightarrow> region (s_hdr_bss er) 64 \<subseteq> D)"

definition loadable :: "memory \<Rightarrow> ElfReader \<Rightarrow> ptr \<Rightarrow> nat \<Rightarrow> bool" where
  "loadable m er T N \<longleftrightarrow>
     (case calc_mem_size m er of (vb, sz) \<Rightarrow>
        region T (unat sz) \<inter> region (e_hdr er) N = {} \<and> tables_inside er (region (e_hdr er) N) \<and>
        (\<forall>h\<in>set (load_hdrs m er). region (e_hdr er + p_offset h) (unat (p_filesz h)) \<subseteq> region (e_hdr er) N \<and>
           region (p_vaddr h) (unat (p_filesz h)) \<subseteq> region vb (unat sz)) \<and>
        (s_hdr_bss er \<noteq> NULL \<longrightarrow> region (sh_addr (shdr_at m (s_hdr_bss er))) (unat (sh_size (shdr_at m (s_hdr_bss er))))
           \<subseteq> region vb (unat sz)) \<and>
        (\<forall>r\<in>set (relas m er). region (r_offset r) 8 \<subseteq> region vb (unat sz)))"

text \<open>Memory that agrees on the image shows the same structures.\<close>

lemma region_sub: "k + n \<le> N \<Longrightarrow> N \<le> 2 ^ 64 \<Longrightarrow> region (p + of_nat k) n \<subseteq> region p N"
proof
  fix a assume le: "k + n \<le> N" "N \<le> 2 ^ 64" and a: "a \<in> region (p + of_nat k) n"
  have k: "unat (of_nat k :: u64) = k" using le a by (intro unat_of_nat_small) (auto simp: region_def)
  have "a - p = (a - (p + of_nat k)) + of_nat k" by simp
  moreover have "unat ((a - (p + of_nat k)) + of_nat k) \<le> unat (a - (p + of_nat k)) + unat (of_nat k :: u64)"
    by (simp only: unat_word_ariths mod_less_eq_dividend)
  ultimately have "unat (a - p) \<le> unat (a - (p + of_nat k)) + k" using k by metis
  then show "a \<in> region p N" using le a by (simp add: region_def)
qed

lemma load_le_agree:
  assumes "\<forall>a\<in>region p N. m' a = m a" "k + n \<le> N" "N < 2 ^ 64"
  shows "load_le n (p + of_nat k) m' = load_le n (p + of_nat k) m"
  using assms region_sub [of k n N p] by (intro load_le_cong) auto

lemma load_agree:
  assumes "\<forall>a\<in>region p N. m' a = m a" "N < 2 ^ 64"
  shows "k + 8 \<le> N \<Longrightarrow> load64 (p + of_nat k) m' = load64 (p + of_nat k) m"
    "k + 4 \<le> N \<Longrightarrow> load32 (p + of_nat k) m' = load32 (p + of_nat k) m"
    "k + 2 \<le> N \<Longrightarrow> load16 (p + of_nat k) m' = load16 (p + of_nat k) m"
  using load_le_agree [OF assms(1) _ assms(2)] by (simp_all add: load64_def load32_def load16_def)

lemma phdr_at_cong: "\<forall>a\<in>region p 56. m' a = m a \<Longrightarrow> phdr_at m' p = phdr_at m p"
  using load_agree [of p 56 m' m 0] load_agree [of p 56 m' m 4] load_agree [of p 56 m' m 8] load_agree [of p 56 m' m 16]
    load_agree [of p 56 m' m 24] load_agree [of p 56 m' m 32] load_agree [of p 56 m' m 40] load_agree [of p 56 m' m 48]
  by (simp add: phdr_at_def)

lemma rela_at_cong: "\<forall>a\<in>region p 24. m' a = m a \<Longrightarrow> rela_at m' p = rela_at m p"
  using load_agree [of p 24 m' m 0] load_agree [of p 24 m' m 8] load_agree [of p 24 m' m 16]
  by (simp add: rela_at_def)

lemma e_entry_cong: "\<forall>a\<in>region p 64. m' a = m a \<Longrightarrow> e_entry (ehdr_at m' p) = e_entry (ehdr_at m p)"
  using load_agree [of p 64 m' m 24] by (simp add: ehdr_at_def)

lemma bss_cong:
  "\<forall>a\<in>region p 64. m' a = m a \<Longrightarrow> sh_addr (shdr_at m' p) = sh_addr (shdr_at m p) \<and> sh_size (shdr_at m' p) = sh_size (shdr_at m p)"
  using load_agree [of p 64 m' m 16] load_agree [of p 64 m' m 32] by (simp add: shdr_at_def)

lemma region_shift: "a \<in> region (p + d) n \<longleftrightarrow> a - d \<in> region p n"
  by (simp add: region_def algebra_simps)

lemma region_shift_sub: "region p n \<subseteq> region q k \<Longrightarrow> region (p + d) n \<subseteq> region (q + d) k"
  by (auto simp: region_shift)


text \<open>The three passes, as functions of the structures of the image.\<close>

definition copy_segment :: "ptr \<Rightarrow> u64 \<Rightarrow> Elf64_Phdr \<Rightarrow> memory \<Rightarrow> memory" where
  "copy_segment e d h m = util_memcpy (p_vaddr h + d) (e + p_offset h) (p_filesz h) m"

lemma fold_stable:
  assumes step: "\<And>i s. i \<in> set xs \<Longrightarrow> P s \<Longrightarrow> g i s = f i s \<and> P (f i s)" and "P s"
  shows "fold g xs s = fold f xs s \<and> P (fold f xs s)"
  using assms by (induction xs arbitrary: s) auto

lemma fold_filter: "fold (\<lambda>i s. if P (h i) then f (h i) s else s) xs s = fold f (filter P (map h xs)) s"
  by (induction xs arbitrary: s) auto

text \<open>What is above the copies: the last segment that has an address decides.\<close>

definition image_byte :: "memory \<Rightarrow> ptr \<Rightarrow> u64 \<Rightarrow> Elf64_Phdr list \<Rightarrow> ptr \<Rightarrow> u8" where
  "image_byte m e d hs a =
     last_or (m a) (map (\<lambda>h. m (e + p_offset h + (a - (p_vaddr h + d))))
       (filter (\<lambda>h. a \<in> region (p_vaddr h + d) (unat (p_filesz h))) hs))"

lemma copy_segments:
  assumes "\<forall>h\<in>set hs. region (e + p_offset h) (unat (p_filesz h)) \<subseteq> D \<and> region (p_vaddr h + d) (unat (p_filesz h)) \<inter> D = {}"
  shows "fold (copy_segment e d) hs m = image_byte m e d hs"
  using assms
proof (induction hs rule: rev_induct)
  case Nil
  show ?case by (simp add: image_byte_def fun_eq_iff)
next
  case (snoc h hs)
  have ih: "fold (copy_segment e d) hs m = image_byte m e d hs" using snoc by simp
  have D: "image_byte m e d hs a = m a" if "a \<in> D" for a
    using snoc.prems that by (auto simp: image_byte_def filter_empty_conv last_or_def)
  have src: "m (e + p_offset h + (a - (p_vaddr h + d))) = image_byte m e d hs (e + p_offset h + (a - (p_vaddr h + d)))"
    if "a \<in> region (p_vaddr h + d) (unat (p_filesz h))" for a
  proof (rule D [symmetric])
    have "e + p_offset h + (a - (p_vaddr h + d)) \<in> region (e + p_offset h) (unat (p_filesz h))"
      using that by (intro region_offset_unat) (simp add: region_def)
    then show "e + p_offset h + (a - (p_vaddr h + d)) \<in> D" using snoc.prems by auto
  qed
  have "fold (copy_segment e d) (hs @ [h]) m = copy_segment e d h (image_byte m e d hs)" using ih by simp
  also have "\<dots> = (\<lambda>a. if a \<in> region (p_vaddr h + d) (unat (p_filesz h))
      then image_byte m e d hs (e + p_offset h + (a - (p_vaddr h + d))) else image_byte m e d hs a)"
    unfolding copy_segment_def by (rule util_memcpy_eq) (use snoc.prems in auto)
  also have "\<dots> = image_byte m e d (hs @ [h])"
    using src by (auto simp: fun_eq_iff image_byte_def)
  finally show ?case .
qed

text \<open>Relocations write eight bytes each.\<close>

definition relocate :: "u64 \<Rightarrow> Elf64_Rela \<Rightarrow> memory \<Rightarrow> memory" where
  "relocate d r m = store64 (r_offset r + d) (r_addend r + d) m"

lemma relocate_frame: "\<forall>r\<in>set rs. a \<notin> region (r_offset r + d) 8 \<Longrightarrow> fold (relocate d) rs m a = m a"
  by (induction rs arbitrary: m) (simp_all add: relocate_def store64_frame)

lemma relocate_value:
  assumes "rs = xs @ r # ys" "\<forall>r'\<in>set ys. region (r_offset r' + d) 8 \<inter> region (r_offset r + d) 8 = {}"
  shows "load64 (r_offset r + d) (fold (relocate d) rs m) = r_addend r + d"
proof -
  have "load64 (r_offset r + d) (fold (relocate d) ys m') = load64 (r_offset r + d) m'" for m'
    using assms(2) by (induction ys arbitrary: m') (simp_all add: relocate_def load64_other)
  then show ?thesis using assms(1) by (simp add: relocate_def)
qed


text \<open>The passes on an image that can be loaded. \<open>D\<close> is the image, \<open>d\<close> the difference of the addresses.\<close>

lemma memcpy_prog_hdr_eq:
  assumes t: "tables_inside er D"
    and h: "\<forall>h\<in>set (load_hdrs m er). region (e_hdr er + p_offset h) (unat (p_filesz h)) \<subseteq> D \<and>
      region (p_vaddr h + d) (unat (p_filesz h)) \<inter> D = {}"
  shows "memcpy_prog_hdr er d m = image_byte m (e_hdr er) d (load_hdrs m er)" "\<forall>a\<in>D. memcpy_prog_hdr er d m a = m a"
proof -
  let ?ph = "\<lambda>i. phdr_at m (phdr_elem (p_hdr_arr er) i)"
  let ?f = "\<lambda>i s. if p_type (?ph i) = PT_LOAD then copy_segment (e_hdr er) d (?ph i) s else s"
  have "memcpy_prog_hdr er d m = fold ?f [0..<unat (p_hdr_arrlen er)] m \<and>
      (\<forall>a\<in>D. fold ?f [0..<unat (p_hdr_arrlen er)] m a = m a)"
    unfolding memcpy_prog_hdr_def Let_def
  proof (rule fold_stable [where P = "\<lambda>s. \<forall>a\<in>D. s a = m a"])
    fix i s
    assume i: "i \<in> set [0..<unat (p_hdr_arrlen er)]" and s: "\<forall>a\<in>D. s a = m a"
    have "region (phdr_elem (p_hdr_arr er) i) 56 \<subseteq> D" using t i by (simp add: tables_inside_def)
    then have ph: "phdr_at s (phdr_elem (p_hdr_arr er) i) = ?ph i" using s by (intro phdr_at_cong) auto
    have "copy_segment (e_hdr er) d (?ph i) s a = s a" if "p_type (?ph i) = PT_LOAD" "a \<in> D" for a
    proof -
      have "?ph i \<in> set (load_hdrs m er)" using that i by (auto simp: load_hdrs_def prog_hdrs_def)
      then show ?thesis unfolding copy_segment_def using h that by (intro util_memcpy_bytes(2)) auto
    qed
    then show "(if p_type (phdr_at s (phdr_elem (p_hdr_arr er) i)) \<noteq> PT_LOAD then s
        else util_memcpy (p_vaddr (phdr_at s (phdr_elem (p_hdr_arr er) i)) + d)
              (e_hdr er + p_offset (phdr_at s (phdr_elem (p_hdr_arr er) i)))
              (p_filesz (phdr_at s (phdr_elem (p_hdr_arr er) i))) s) = ?f i s \<and> (\<forall>a\<in>D. ?f i s a = m a)"
      using s unfolding ph by (simp add: copy_segment_def)
  qed simp
  then have "memcpy_prog_hdr er d m = fold (copy_segment (e_hdr er) d) (load_hdrs m er) m"
    "\<forall>a\<in>D. memcpy_prog_hdr er d m a = m a"
    by (simp_all add: fold_filter [where h = ?ph and P = "\<lambda>h. p_type h = PT_LOAD" and f = "copy_segment (e_hdr er) d"] load_hdrs_def prog_hdrs_def)
  then show "memcpy_prog_hdr er d m = image_byte m (e_hdr er) d (load_hdrs m er)" "\<forall>a\<in>D. memcpy_prog_hdr er d m a = m a"
    using copy_segments [OF h] by simp_all
qed

definition bss_region :: "memory \<Rightarrow> ElfReader \<Rightarrow> u64 \<Rightarrow> ptr set" where
  "bss_region m er d =
     (if s_hdr_bss er = NULL then {}
      else region (sh_addr (shdr_at m (s_hdr_bss er)) + d) (unat (sh_size (shdr_at m (s_hdr_bss er)))))"

lemma clear_bss_eq:
  assumes "tables_inside er D" "\<forall>a\<in>D. m' a = m a"
  shows "clear_bss er d m' = (\<lambda>a. if a \<in> bss_region m er d then 0 else m' a)"
proof (cases "s_hdr_bss er = NULL")
  case False
  then have "\<forall>a\<in>region (s_hdr_bss er) 64. m' a = m a" using assms by (auto simp: tables_inside_def)
  then show ?thesis using False bss_cong [of "s_hdr_bss er" m' m]
    by (auto simp: clear_bss_def bss_region_def Let_def util_memset_eq fun_eq_iff)
qed (simp add: clear_bss_def bss_region_def)

lemma apply_relocations_eq:
  assumes t: "tables_inside er D" and s: "\<forall>a\<in>D. m' a = m a"
    and r: "\<forall>r\<in>set (relas m er). region (r_offset r + d) 8 \<inter> D = {}"
  shows "apply_relocations er d m' = fold (relocate d) (relas m er) m'" "\<forall>a\<in>D. apply_relocations er d m' a = m a"
proof -
  let ?rel = "\<lambda>i. rela_at m (rela_elem (rela_arr er) i)"
  let ?f = "\<lambda>i s. if ELF64_R_TYPE (r_info (?rel i)) = R_AARCH64_RELATIV then relocate d (?rel i) s else s"
  have "apply_relocations er d m' = fold ?f [0..<unat (rela_arrlen er)] m' \<and>
      (\<forall>a\<in>D. fold ?f [0..<unat (rela_arrlen er)] m' a = m a)"
    unfolding apply_relocations_def Let_def
  proof (rule fold_stable [where P = "\<lambda>s. \<forall>a\<in>D. s a = m a"])
    fix i s
    assume i: "i \<in> set [0..<unat (rela_arrlen er)]" and s: "\<forall>a\<in>D. s a = m a"
    have "region (rela_elem (rela_arr er) i) 24 \<subseteq> D" using t i by (simp add: tables_inside_def)
    then have ph: "rela_at s (rela_elem (rela_arr er) i) = ?rel i" using s by (intro rela_at_cong) auto
    have "relocate d (?rel i) s a = s a" if "ELF64_R_TYPE (r_info (?rel i)) = R_AARCH64_RELATIV" "a \<in> D" for a
    proof -
      have "?rel i \<in> set (relas m er)" using that i by (auto simp: relas_def)
      then show ?thesis unfolding relocate_def using r that by (intro store64_frame) auto
    qed
    then show "(if ELF64_R_TYPE (r_info (rela_at s (rela_elem (rela_arr er) i))) = R_AARCH64_RELATIV
        then apply_relocation_relativ (rela_at s (rela_elem (rela_arr er) i)) d s else s) = ?f i s \<and> (\<forall>a\<in>D. ?f i s a = m a)"
      using s unfolding ph by (simp add: relocate_def apply_relocation_relativ_def)
  qed (use s in simp)
  then show "apply_relocations er d m' = fold (relocate d) (relas m er) m'" "\<forall>a\<in>D. apply_relocations er d m' a = m a"
    by (simp_all add: fold_filter [where h = ?rel and f = "relocate d" and
          P = "\<lambda>r. ELF64_R_TYPE (r_info r) = R_AARCH64_RELATIV"] relas_def)
qed

text \<open>The memory a program starts in.\<close>

definition loaded :: "memory \<Rightarrow> ElfReader \<Rightarrow> u64 \<Rightarrow> memory" where
  "loaded m er d = fold (relocate d) (relas m er)
     (\<lambda>a. if a \<in> bss_region m er d then 0 else image_byte m (e_hdr er) d (load_hdrs m er) a)"

lemma load_elf_eq:
  assumes a: "resolve_args elf_of m args len = Some e" and r: "elf_reader_ctr m e = Inr er" "e_hdr er \<noteq> NULL"
    and c: "calc_mem_size m er = (vb, sz)" and l: "loadable m er (ke_mmap sz) N"
  shows "load_elf elf_of ke_mmap args len m =
    Inr (loaded m er (ke_mmap sz - vb), Some (e_entry (ehdr_at m (e_hdr er)) + (ke_mmap sz - vb)))"
    "x \<notin> region (ke_mmap sz) (unat sz) \<Longrightarrow> loaded m er (ke_mmap sz - vb) x = m x"
proof -
  let ?d = "ke_mmap sz - vb" and ?D = "region (e_hdr er) N" and ?T = "region (ke_mmap sz) (unat sz)"
  have sh: "region (p + ?d) n \<subseteq> ?T" if "region p n \<subseteq> region vb (unat sz)" for p n
    using region_shift_sub [OF that, of ?d] by simp
  have TD: "?T \<inter> ?D = {}" and t: "tables_inside er ?D" using l c by (simp_all add: loadable_def)
  have h: "\<forall>h\<in>set (load_hdrs m er). region (e_hdr er + p_offset h) (unat (p_filesz h)) \<subseteq> ?D \<and>
      region (p_vaddr h + ?d) (unat (p_filesz h)) \<subseteq> ?T"
    using l c sh by (auto simp: loadable_def)
  have b: "bss_region m er ?d \<subseteq> ?T" using l c sh by (auto simp: loadable_def bss_region_def)
  have rl: "\<forall>r\<in>set (relas m er). region (r_offset r + ?d) 8 \<subseteq> ?T" using l c sh by (auto simp: loadable_def)
  have "\<forall>h\<in>set (load_hdrs m er). region (e_hdr er + p_offset h) (unat (p_filesz h)) \<subseteq> ?D \<and>
      region (p_vaddr h + ?d) (unat (p_filesz h)) \<inter> ?D = {}"
    using h TD by blast
  note m1 = memcpy_prog_hdr_eq [OF t this]
  note m2 = clear_bss_eq [OF t m1(2), of ?d]
  have s2: "\<forall>a\<in>?D. clear_bss er ?d (memcpy_prog_hdr er ?d m) a = m a" using m1(2) m2 b TD by auto
  have "\<forall>r\<in>set (relas m er). region (r_offset r + ?d) 8 \<inter> ?D = {}" using rl TD by blast
  note m3 = apply_relocations_eq [OF t s2 this]
  have ent: "e_entry (ehdr_at (apply_relocations er ?d (clear_bss er ?d (memcpy_prog_hdr er ?d m))) (e_hdr er)) =
      e_entry (ehdr_at m (e_hdr er))"
    by (rule e_entry_cong) (use m3(2) t in \<open>auto simp: tables_inside_def\<close>)
  have ld: "apply_relocations er ?d (clear_bss er ?d (memcpy_prog_hdr er ?d m)) = loaded m er ?d"
    unfolding m3(1) unfolding m2 unfolding m1(1) loaded_def ..
  show "load_elf elf_of ke_mmap args len m = Inr (loaded m er ?d, Some (e_entry (ehdr_at m (e_hdr er)) + ?d))"
    using a r c ent ld by (simp add: load_elf_def Let_def)
  assume x: "x \<notin> ?T"
  have "image_byte m (e_hdr er) ?d (load_hdrs m er) x = m x"
    using h x by (auto simp: image_byte_def last_or_def filter_empty_conv)
  then show "loaded m er ?d x = m x"
    unfolding loaded_def using x rl b by (subst relocate_frame) auto
qed


lemma loaded_byte:
  assumes "\<forall>r\<in>set (relas m er). x \<notin> region (r_offset r + d) 8"
  shows "loaded m er d x = (if x \<in> bss_region m er d then 0 else image_byte m (e_hdr er) d (load_hdrs m er) x)"
  unfolding loaded_def by (rule relocate_frame [OF assms])

lemma loaded_relocation:
  assumes "relas m er = xs @ r # ys" "\<forall>r'\<in>set ys. region (r_offset r' + d) 8 \<inter> region (r_offset r + d) 8 = {}"
  shows "load64 (r_offset r + d) (loaded m er d) = r_addend r + d"
  unfolding loaded_def by (rule relocate_value [OF assms])

end
