(* ===== verification/LoaderWitness.thy ===== *)
theory LoaderWitness
  imports Loader
begin

text \<open>
  A small image, for the hypotheses of the loader's theorems: one segment of 16 bytes at 0x180, a \<open>.bss\<close> of 16 bytes behind
  it, and one relocation, linked at 0x2000, with an argument block that names it at 0x1000. Memory is given by its words.
\<close>


definition word_mem :: "(ptr \<Rightarrow> u64) \<Rightarrow> memory" where
  "word_mem w a = ucast (drop_bit (8 * unat (a AND 7)) (w (a - (a AND 7))))"

lemma aligned_add:
  assumes q: "q AND 7 = (0 :: u64)" and j: "j < 8"
  shows "(q + of_nat j) AND 7 = of_nat j"
proof -
  have m: "(7 :: u64) = mask 3" by (simp add: mask_eq_exp_minus_1)
  have q3: "\<not> bit q n" if "n < 3" for n
  proof -
    have "bit (take_bit 3 q) n \<longleftrightarrow> bit q n" using that by (simp add: bit_take_bit_iff)
    then show ?thesis using q by (simp add: m take_bit_eq_mask)
  qed
  have j3: "\<not> bit (of_nat j :: u64) n" if "3 \<le> n" for n
  proof -
    have "take_bit 3 j = j" using j by (simp add: take_bit_nat_eq_self)
    then have "\<not> bit j n" using that by (metis bit_take_bit_iff not_less)
    moreover have "unat (of_nat j :: u64) = j" using j by (intro unat_of_nat_small) simp
    moreover have "bit (unat (of_nat j :: u64)) n \<longleftrightarrow> bit (of_nat j :: u64) n" by (simp only: bit_unsigned_iff) simp
    ultimately show ?thesis by simp
  qed
  have "q + of_nat j = q OR of_nat j" using q3 j3 by (intro disjunctive_add) (metis not_less)
  then have "bit ((q + of_nat j) AND 7) n \<longleftrightarrow> bit (of_nat j :: u64) n" for n
    unfolding m take_bit_eq_mask [symmetric] using q3 [of n] j3 [of n] by (auto simp: bit_take_bit_iff bit_or_iff not_less)
  then show ?thesis by (intro bit_word_eqI) blast
qed

lemma word_mem_byte: "q AND 7 = 0 \<Longrightarrow> j < 8 \<Longrightarrow> word_mem w (q + of_nat j) = ucast (drop_bit (8 * j) (w q))"
  using unat_of_nat_small [of j, where 'a = 64] by (simp add: word_mem_def aligned_add)

lemma load_word_mem:
  assumes q: "q AND 7 = 0"
  shows "j + n \<le> 8 \<Longrightarrow> load_le n (q + of_nat j) (word_mem w) = take_bit (8 * n) (drop_bit (8 * j) (w q))"
proof (induction n arbitrary: j)
  case (Suc n)
  have e: "q + of_nat j + 1 = q + of_nat (Suc j)" by simp
  have ih: "load_le n (q + of_nat j + 1) (word_mem w) = take_bit (8 * n) (drop_bit (8 * Suc j) (w q))"
    unfolding e using Suc by (intro Suc.IH) simp
  show ?case unfolding load_le.simps(2) ih word_mem_byte [OF q, of j] 
    using Suc.prems word_mem_byte [OF q, of j]
    by (simp add: word_mem_byte) (rule bit_word_eqI, auto simp: bit_simps)
qed simp

definition demo_words :: "ptr \<Rightarrow> u64" where
  "demo_words a =
     (if a = 0x1000 then 0x4D4152474F5250
      else if a = 0x1008 then 0x646970
      else if a = 0x2000 then 0x10102464C457F
      else if a = 0x2018 then 0x184
      else if a = 0x2020 then 0x40
      else if a = 0x2028 then 0x78
      else if a = 0x2038 then 0x2000300000001
      else if a = 0x2040 then 0x1
      else if a = 0x2048 then 0x180
      else if a = 0x2050 then 0x180
      else if a = 0x2060 then 0x10
      else if a = 0x2068 then 0x20
      else if a = 0x2070 then 0x10
      else if a = 0x2078 then 0x600000000
      else if a = 0x2090 then 0x138
      else if a = 0x2098 then 0x30
      else if a = 0x20B0 then 0x10
      else if a = 0x20B8 then 0x800000000
      else if a = 0x20C8 then 0x190
      else if a = 0x20D8 then 0x10
      else if a = 0x20F8 then 0x300000000
      else if a = 0x2110 then 0x190
      else if a = 0x2138 then 0x7
      else if a = 0x2140 then 0x168
      else if a = 0x2148 then 0x9
      else if a = 0x2150 then 0x18
      else if a = 0x2158 then 0x8
      else if a = 0x2160 then 0x18
      else if a = 0x2168 then 0x188
      else if a = 0x2170 then 0x403
      else if a = 0x2178 then 0x184
      else if a = 0x2180 then 0xBB000000AA
      else if a = 0x2190 then 0x63696D616E79642E
      else 0)"

definition demo_mem :: memory where
  "demo_mem = word_mem demo_words"


lemma align_split: "(p - (p AND c)) AND c = (0 :: 'a::len word)"
proof -
  have "(p AND NOT c) + (p AND c) = (p AND NOT c) OR (p AND c)"
    by (rule disjunctive_add) (auto simp: bit_and_iff bit_not_iff)
  also have "\<dots> = p" by (rule bit_word_eqI) (auto simp: bit_and_iff bit_or_iff bit_not_iff)
  finally have "p - (p AND c) = p AND NOT c" by (simp only: eq_diff_eq [symmetric])
  moreover have "(p AND NOT c) AND c = 0" by (rule bit_word_eqI) (auto simp: bit_and_iff bit_not_iff)
  ultimately show ?thesis by metis
qed

lemma load_le_words:
  assumes "unat (p AND 7) + n \<le> 8"
  shows "load_le n p (word_mem w) = take_bit (8 * n) (drop_bit (8 * unat (p AND 7)) (w (p - (p AND 7))))"
  using load_word_mem [OF align_split [of p 7] assms] by simp


lemma demo_ehdr:
  "e_shoff (ehdr_at demo_mem 0x2000) = 120" "e_shnum (ehdr_at demo_mem 0x2000) = 3"
  "e_shstrndx (ehdr_at demo_mem 0x2000) = 2" "e_phoff (ehdr_at demo_mem 0x2000) = 64"
  "e_phnum (ehdr_at demo_mem 0x2000) = 1" "e_entry (ehdr_at demo_mem 0x2000) = 0x184"
  by (simp_all add: ehdr_at_def demo_mem_def load64_def load32_def load16_def load_le_words demo_words_def)

lemma demo_shdr:
  "shdr_at demo_mem 0x2078 = \<lparr>sh_name = 0, sh_type = 6, sh_flags = 0, sh_addr = 0, sh_offset = 312, sh_size = 48, sh_link = 0,
    sh_info = 0, sh_addralign = 0, sh_entsize = 16\<rparr>"
  "shdr_at demo_mem 0x20B8 = \<lparr>sh_name = 0, sh_type = 8, sh_flags = 0, sh_addr = 0x190, sh_offset = 0, sh_size = 16, sh_link = 0,
    sh_info = 0, sh_addralign = 0, sh_entsize = 0\<rparr>"
  "shdr_at demo_mem 0x20F8 = \<lparr>sh_name = 0, sh_type = 3, sh_flags = 0, sh_addr = 0, sh_offset = 400, sh_size = 0, sh_link = 0,
    sh_info = 0, sh_addralign = 0, sh_entsize = 0\<rparr>"
  by (simp_all add: shdr_at_def demo_mem_def load64_def load32_def load16_def load_le_words demo_words_def)


lemma demo_phdr:
  "phdr_at demo_mem 0x2040 = \<lparr>p_type = 1, p_flags = 0, p_offset = 384, p_vaddr = 0x180, p_paddr = 0, p_filesz = 16,
    p_memsz = 32, p_align = 16\<rparr>"
  by (simp add: phdr_at_def demo_mem_def load64_def load32_def load_le_words demo_words_def)

lemma demo_dyn:
  "dyn_at demo_mem 0x2138 = \<lparr>d_tag = 7, d_un = 360\<rparr>" "dyn_at demo_mem 0x2148 = \<lparr>d_tag = 9, d_un = 24\<rparr>"
  "dyn_at demo_mem 0x2158 = \<lparr>d_tag = 8, d_un = 24\<rparr>"
  by (simp_all add: dyn_at_def demo_mem_def load64_def load_le_words demo_words_def)

lemma demo_rela: "rela_at demo_mem 0x2168 = \<lparr>r_offset = 0x188, r_info = 0x403, r_addend = 0x184\<rparr>"
  by (simp add: rela_at_def demo_mem_def load64_def load_le_words demo_words_def)

lemma demo_ident: "ident_ok demo_mem 0x2000"
  by (simp add: ident_ok_def bytes_def upt_rec demo_mem_def word_mem_def demo_words_def)

lemma demo_args: "args_ok demo_mem 0x1000 [(''PROGRAM'', ''pid'')]"
  by (simp add: args_ok_def args_bytes_def lit_def bytes_def upt_rec demo_mem_def word_mem_def demo_words_def)

lemma demo_sections: "image_sections demo_mem 0x2000 = [0x2078, 0x20B8, 0x20F8]"
  by (simp add: image_sections_def demo_ehdr shdr_elem_def upt_rec)

lemma demo_dynamic: "dynamic_section demo_mem 0x2000 = 0x2078"
proof -
  have "util_strcmp_lit demo_mem (section_name demo_mem 0x2000 0x2078) ''.dynamic''"
  proof -
    have "section_name demo_mem 0x2000 0x2078 = 0x2190"
      by (simp add: section_name_def demo_ehdr shdr_elem_def demo_shdr)
    moreover have "bytes demo_mem 0x2190 (length (lit ''.dynamic'')) = lit ''.dynamic''"
      by (simp add: lit_def bytes_def upt_rec demo_mem_def word_mem_def demo_words_def)
    moreover have "demo_mem (0x2190 + of_nat (length (lit ''.dynamic''))) = 0" by (simp add: demo_mem_def word_mem_def demo_words_def)
    ultimately show ?thesis unfolding util_strcmp_lit_def strcmp_bytes_iff by (intro conjI) simp_all
  qed
  then show ?thesis by (simp add: dynamic_section_def demo_sections demo_shdr SHT_DYNAMIC_def last_or_def)
qed

lemma demo_bss: "bss_section demo_mem 0x2000 = 0x20B8"
  by (simp add: bss_section_def demo_sections demo_shdr SHT_NOBITS_def last_or_def)

lemma demo_entries: "dynamic_entries demo_mem 0x2000 = map (dyn_at demo_mem) [0x2138, 0x2148, 0x2158]"
  by (simp add: dynamic_entries_def demo_dynamic demo_shdr Let_def dyn_elem_def upt_rec)

lemma demo_values:
  "dyn_value demo_mem 0x2000 DT_RELA = 360" "dyn_value demo_mem 0x2000 DT_RELAENT = 24"
  "dyn_value demo_mem 0x2000 DT_RELASZ = 24" "has_dyn demo_mem 0x2000 DT_RELA"
  by (simp_all add: dyn_value_def has_dyn_def demo_entries demo_dyn DT_RELA_def DT_RELAENT_def DT_RELASZ_def last_or_def)


lemma region_subI:
  assumes "unat (p - q) + n \<le> k" "k \<le> 2 ^ 64"
  shows "region p n \<subseteq> region q k"
proof -
  have "q + of_nat (unat (p - q)) = p" by simp
  then show ?thesis using region_sub [of "unat (p - q)" n k q] assms by (metis)
qed

lemma region_apart:
  assumes "n \<le> unat (q - p)" "k \<le> unat (p - q)"
  shows "region p n \<inter> region q k = {}"
proof (rule ccontr)
  assume "region p n \<inter> region q k \<noteq> {}"
  then obtain a where a: "unat (a - p) < n" "unat (a - q) < k" by (auto simp: region_def)
  have e: "q - p = (a - p) - (a - q)" "p - q = (a - q) - (a - p)" by simp_all
  show False
  proof (cases "a - q \<le> a - p")
    case True
    then have "unat (q - p) \<le> unat (a - p)" using unat_sub_no_wrap [OF True] e(1) by (metis diff_le_self)
    then show False using a(1) assms(1) by simp
  next
    case False
    then have "a - p \<le> a - q" by simp
    from unat_sub_no_wrap [OF this] have "unat (p - q) \<le> unat (a - q)" using e(2) by (metis diff_le_self)
    then show False using a(2) assms(2) by simp
  qed
qed

lemma demo_hdrs:
  assumes "p_hdr_arr er = 0x2040" "p_hdr_arrlen er = 1"
  shows "prog_hdrs demo_mem er = [phdr_at demo_mem 0x2040]" "calc_mem_size demo_mem er = (0x180, 0x20)"
proof -
  show p: "prog_hdrs demo_mem er = [phdr_at demo_mem 0x2040]" using assms by (simp add: prog_hdrs_def phdr_elem_def)
  show "calc_mem_size demo_mem er = (0x180, 0x20)"
    by (simp add: calc_mem_size_hdrs sized_hdrs_def p demo_phdr PT_LOAD_def Let_def)
qed

text \<open>The reader and the loader accept the image.\<close>

lemma demo_reader:
  "\<exists>er. elf_reader_ctr demo_mem 0x2000 = Inr er \<and> e_hdr er = 0x2000 \<and> calc_mem_size demo_mem er = (0x180, 0x20) \<and>
     loadable demo_mem er 0x100000 0x199 \<and> relas demo_mem er = [rela_at demo_mem 0x2168] \<and> s_hdr_bss er = 0x20B8 \<and>
     load_hdrs demo_mem er = [phdr_at demo_mem 0x2040]"
proof -
  obtain er where er: "elf_reader_ctr demo_mem 0x2000 = Inr er" "e_hdr er = 0x2000" "s_hdr_bss er = 0x20B8"
    "p_hdr_arr er = 0x2040" "p_hdr_arrlen er = 1" "rela_arrlen er = 1" "rela_arr er = 0x2168"
    using elf_reader_ctr_ok [of "0x2000" demo_mem] demo_ident
    by (auto simp: demo_dynamic demo_shdr demo_values demo_bss demo_ehdr)
  note c = demo_hdrs [OF er(4,5)]
  have r: "relas demo_mem er = [rela_at demo_mem 0x2168]"
    using er by (simp add: relas_def rela_elem_def demo_rela ELF64_R_TYPE_def R_AARCH64_RELATIV_def)
  have t: "tables_inside er (region 0x2000 0x199)"
    unfolding tables_inside_def using er
    by (simp add: phdr_elem_def rela_elem_def region_subI)
  have "loadable demo_mem er 0x100000 0x199"
    unfolding loadable_def using er t
    by (simp add: c r load_hdrs_def demo_phdr demo_rela demo_shdr PT_LOAD_def region_apart region_subI)
  moreover have "load_hdrs demo_mem er = [phdr_at demo_mem 0x2040]" by (simp add: load_hdrs_def c demo_phdr PT_LOAD_def)
  ultimately show ?thesis using er c r by blast
qed

lemma demo_byte: "demo_mem 0x2180 = 0xAA"
  by (simp add: demo_mem_def word_mem_def demo_words_def)

end
