(* ===== verification/Rps.thy ===== *)
theory Rps
  imports LList
begin

text \<open>
  The rock-paper-scissors server (user/src/rps/rps_server.c, user/include/rps.h): one waiting player, a list of games and a
  list of free ones over a pool of 100. A step answers one request; the replies are listed in the order they go out. The task
  ids are C's \<open>int\<close>, kept in \<open>int64_t\<close> fields, which preserves equality. The prompts that wait for a key (\<open>uart_getc\<close>) are left out.
\<close>

section \<open>rps.h\<close>

definition RPS_SIGNUP :: u8 where "RPS_SIGNUP = 0"
definition RPS_PLAY :: u8 where "RPS_PLAY = 1"
definition RPS_QUIT :: u8 where "RPS_QUIT = 2"

lemmas action_defs = RPS_SIGNUP_def RPS_PLAY_def RPS_QUIT_def

definition GAME_STOP :: u8 where "GAME_STOP = 0"
definition GAME_WIN :: u8 where "GAME_WIN = 1"
definition GAME_LOSE :: u8 where "GAME_LOSE = 2"
definition GAME_DRAW :: u8 where "GAME_DRAW = 3"

lemmas result_defs = GAME_STOP_def GAME_WIN_def GAME_LOSE_def GAME_DRAW_def

definition ROCK :: u8 where "ROCK = 0"
definition PAPER :: u8 where "PAPER = 1"
definition SCISSOR :: u8 where "SCISSOR = 2"

lemmas move_defs = ROCK_def PAPER_def SCISSOR_def

datatype GameProgress = WAIT_0 | WAIT_1 | QUIT_PENDING

record GameState =
  progress :: GameProgress
  player_1_tid :: u32
  player_2_tid :: u32
  player_1_move :: u8
  player_2_move :: u8

section \<open>rps_server.c\<close>

record Game =
  all_pairs :: "nat \<Rightarrow> GameState"
  pair_links :: "nat links"
  games_list :: "nat option"
  free_list :: "nat option"

text \<open>\<open>for (i = 100 - 1; i >= 0; i -= 1) DL_PREPEND2\<close>.\<close>

fun prepend_all :: "nat \<Rightarrow> nat option \<times> nat links \<Rightarrow> nat option \<times> nat links" where
  "prepend_all 0 st = st"
| "prepend_all (Suc i) st = prepend_all i (dl_prepend (fst st) i (snd st))"

definition game_init :: "Game \<Rightarrow> Game" where
  "game_init game =
     (let (fl, l) = prepend_all 100 (None, pair_links game) in game\<lparr>free_list := fl, games_list := None, pair_links := l\<rparr>)"

definition tid_in_game :: "GameState \<Rightarrow> u32 \<Rightarrow> bool" where
  "tid_in_game pair tid \<longleftrightarrow> player_1_tid pair \<noteq> tid \<and> player_2_tid pair \<noteq> tid"

text \<open>\<open>LL_SEARCH2(games_list, pair, tid, tid_in_game, next_pair)\<close> stops where the comparison gives 0.\<close>

definition search_pair :: "Game \<Rightarrow> u32 \<Rightarrow> nat option res" where
  "search_pair game tid =
     returns (ll_search (\<lambda>p. Some (\<not> tid_in_game (all_pairs game p) tid)) (lnext (pair_links game)) (games_list game))"

type_synonym rps_out = "(u32 \<times> u8) list"

definition quit_game :: "Game \<Rightarrow> nat \<Rightarrow> (Game \<times> rps_out) res" where
  "quit_game game pair =
     bindR (dl_delete (games_list game) pair (pair_links game)) (\<lambda>(gl, l).
     bindR (dl_append (free_list game) pair l) (\<lambda>(fl, l).
       Inr (game\<lparr>games_list := gl, free_list := fl, pair_links := l\<rparr>,
         [(player_1_tid (all_pairs game pair), GAME_STOP), (player_2_tid (all_pairs game pair), GAME_STOP)])))"

definition calc_game :: "u8 \<Rightarrow> u8 \<Rightarrow> u8 res" where
  "calc_game m1 m2 =
     (if m1 = m2 then Inr GAME_DRAW
      else if m1 = ROCK \<and> m2 = SCISSOR then Inr GAME_WIN
      else if m1 = ROCK \<and> m2 = PAPER then Inr GAME_LOSE
      else if m1 = PAPER \<and> m2 = ROCK then Inr GAME_WIN
      else if m1 = PAPER \<and> m2 = SCISSOR then Inr GAME_LOSE
      else if m1 = SCISSOR \<and> m2 = PAPER then Inr GAME_WIN
      else if m1 = SCISSOR \<and> m2 = ROCK then Inr GAME_DRAW
      else Inl Assert_fail)"

record RpsServer =
  game :: Game
  waiting_tid :: u32
  waiting :: bool

definition rps_start :: "Game \<Rightarrow> u32 \<Rightarrow> RpsServer" where
  "rps_start g w = \<lparr>game = game_init g, waiting_tid = w, waiting = False\<rparr>"

text \<open>The branch of \<open>RPS_SIGNUP\<close>.\<close>

definition rps_signup :: "u32 \<Rightarrow> RpsServer \<Rightarrow> (RpsServer \<times> rps_out) res" where
  "rps_signup req_tid s =
     (let g = game s in
      if waiting s then
        bindR (c_assert (free_list g \<noteq> None)) (\<lambda>_.
        bindR (deref (free_list g)) (\<lambda>pair.
        bindR (dl_delete (free_list g) pair (pair_links g)) (\<lambda>(fl, l).
          let st = (all_pairs g pair)\<lparr>player_1_tid := waiting_tid s, player_2_tid := req_tid, progress := WAIT_0\<rparr>;
              (gl, l) = dl_prepend (games_list g) pair l
          in Inr (s\<lparr>game := \<lparr>all_pairs = (all_pairs g)(pair := st), pair_links = l, games_list = gl, free_list = fl\<rparr>,
                    waiting := False\<rparr>,
                  [(player_1_tid st, RPS_SIGNUP), (player_2_tid st, RPS_SIGNUP)]))))
      else Inr (s\<lparr>waiting_tid := req_tid, waiting := True\<rparr>, []))"

definition set_pair :: "nat \<Rightarrow> GameState \<Rightarrow> RpsServer \<Rightarrow> RpsServer" where
  "set_pair pair st s = s\<lparr>game := (game s)\<lparr>all_pairs := (all_pairs (game s))(pair := st)\<rparr>\<rparr>"

definition record_move :: "u32 \<Rightarrow> u8 \<Rightarrow> GameState \<Rightarrow> GameState" where
  "record_move req_tid choice st =
     (if player_1_tid st = req_tid then st\<lparr>player_1_move := choice\<rparr>
      else if player_2_tid st = req_tid then st\<lparr>player_2_move := choice\<rparr> else st)"

definition rps_play :: "u32 \<Rightarrow> u8 \<Rightarrow> RpsServer \<Rightarrow> (RpsServer \<times> rps_out) res" where
  "rps_play req_tid choice s =
     bindR (search_pair (game s) req_tid) (\<lambda>found.
     bindR (c_assert (found \<noteq> None)) (\<lambda>_.
     bindR (deref found) (\<lambda>pair.
       let st = record_move req_tid choice (all_pairs (game s) pair); s = set_pair pair st s in
       case progress st of
         WAIT_0 \<Rightarrow> Inr (set_pair pair (st\<lparr>progress := WAIT_1\<rparr>) s, [])
       | WAIT_1 \<Rightarrow>
           bindR (calc_game (player_1_move st) (player_2_move st)) (\<lambda>result.
             let second = (if result = GAME_WIN then GAME_LOSE else if result = GAME_LOSE then GAME_WIN else GAME_DRAW)
             in Inr (set_pair pair (st\<lparr>progress := WAIT_0\<rparr>) s, [(player_1_tid st, result), (player_2_tid st, second)]))
       | QUIT_PENDING \<Rightarrow> bindR (quit_game (game s) pair) (\<lambda>(g, out). Inr (s\<lparr>game := g\<rparr>, out)))))"

text \<open>\<open>RPS_QUIT\<close> reads the pair without checking that it was found.\<close>

definition rps_quit :: "u32 \<Rightarrow> RpsServer \<Rightarrow> (RpsServer \<times> rps_out) res" where
  "rps_quit req_tid s =
     bindR (search_pair (game s) req_tid) (\<lambda>found.
     bindR (deref found) (\<lambda>pair.
       let st = all_pairs (game s) pair in
       if progress st = QUIT_PENDING \<or> progress st = WAIT_1
       then bindR (quit_game (game s) pair) (\<lambda>(g, out). Inr (s\<lparr>game := g\<rparr>, out))
       else Inr (set_pair pair (st\<lparr>progress := QUIT_PENDING\<rparr>) s, [])))"

definition rps_step :: "u32 \<Rightarrow> u8 \<Rightarrow> u8 \<Rightarrow> RpsServer \<Rightarrow> (RpsServer \<times> rps_out) res" where
  "rps_step req_tid action choice s =
     (if action = RPS_SIGNUP then rps_signup req_tid s
      else if action = RPS_PLAY then rps_play req_tid choice s
      else if action = RPS_QUIT then rps_quit req_tid s
      else Inl Assert_fail)"

section \<open>The server and its players\<close>

definition game_inv :: "Game \<Rightarrow> nat list \<Rightarrow> nat list \<Rightarrow> bool" where
  "game_inv g gs fs \<longleftrightarrow> two_lists (pair_links g) (games_list g) (free_list g) gs fs \<and> set gs \<union> set fs = {0..<100}"

definition players :: "Game \<Rightarrow> nat list \<Rightarrow> u32 list" where
  "players g gs = concat (map (\<lambda>p. [player_1_tid (all_pairs g p), player_2_tid (all_pairs g p)]) gs)"

definition valid_move :: "u8 \<Rightarrow> bool" where
  "valid_move m \<longleftrightarrow> m = ROCK \<or> m = PAPER \<or> m = SCISSOR"

text \<open>\<open>B\<close> are the tasks that wait for an answer: of a game that is under way, one player or none.\<close>

definition pair_ok :: "u32 set \<Rightarrow> GameState \<Rightarrow> bool" where
  "pair_ok B st \<longleftrightarrow>
     (case progress st of
        WAIT_0 \<Rightarrow> player_1_tid st \<notin> B \<and> player_2_tid st \<notin> B
      | WAIT_1 \<Rightarrow> (player_1_tid st \<in> B \<and> player_2_tid st \<notin> B \<and> valid_move (player_1_move st)) \<or>
                  (player_1_tid st \<notin> B \<and> player_2_tid st \<in> B \<and> valid_move (player_2_move st))
      | QUIT_PENDING \<Rightarrow> (player_1_tid st \<in> B) \<noteq> (player_2_tid st \<in> B))"

definition rps_ok :: "RpsServer \<Rightarrow> nat list \<Rightarrow> nat list \<Rightarrow> u32 set \<Rightarrow> bool" where
  "rps_ok s gs fs B \<longleftrightarrow>
     game_inv (game s) gs fs \<and>
     distinct (players (game s) gs @ (if waiting s then [waiting_tid s] else [])) \<and>
     (\<forall>p\<in>set gs. pair_ok B (all_pairs (game s) p)) \<and> (waiting s \<longrightarrow> waiting_tid s \<in> B) \<and>
     B \<subseteq> set (players (game s) gs) \<union> (if waiting s then {waiting_tid s} else {})"

text \<open>What a task may ask: it signs up once, then it plays with a valid move or quits, always waiting for the answer.\<close>

definition legal :: "u32 \<Rightarrow> u8 \<Rightarrow> u8 \<Rightarrow> RpsServer \<Rightarrow> nat list \<Rightarrow> u32 set \<Rightarrow> bool" where
  "legal tid action choice s gs B \<longleftrightarrow> tid \<notin> B \<and>
     (action = RPS_SIGNUP \<and> tid \<notin> set (players (game s) gs) \<and> (waiting s \<longrightarrow> length gs < 100) \<or>
      action = RPS_PLAY \<and> tid \<in> set (players (game s) gs) \<and> valid_move choice \<or>
      action = RPS_QUIT \<and> tid \<in> set (players (game s) gs))"


section \<open>The lists of games\<close>

lemma dlist_ll_path:
  fixes l :: "'a links"
  assumes "dlist l h xs"
  shows "ll_path (lnext l) h xs"
proof -
  have "dseg l ys None \<Longrightarrow> ll_path (lnext l) (case ys of [] \<Rightarrow> None | y # _ \<Rightarrow> Some y) ys" for ys
    by (induction l ys "None :: 'a option" rule: dseg.induct) auto
  from this [of xs] assms show ?thesis by (cases xs) (auto simp: dlist_def)
qed

lemma prepend_all_dlist:
  "prepend_all n (h, l) = (h', l') \<Longrightarrow> dlist l h xs \<Longrightarrow> \<forall>x\<in>set xs. n \<le> x \<Longrightarrow> dlist l' h' ([0..<n] @ xs)"
proof (induction n arbitrary: h l xs)
  case (Suc n)
  have n: "n \<notin> set xs" using Suc.prems(3) by auto
  note d = dl_prepend_dlist [OF Suc.prems(2) n]
  have "prepend_all n (Some n, snd (dl_prepend h n l)) = (h', l')"
    using Suc.prems(1) d(1) by (cases "dl_prepend h n l") simp
  moreover have "\<forall>x\<in>set (n # xs). n \<le> x" using Suc.prems(3) by auto
  ultimately have "dlist l' h' ([0..<n] @ n # xs)" using Suc.IH d(2) by blast
  then show ?case by simp
qed simp

lemma game_init_ok: "game_inv (game_init g) [] [0..<100]"
proof -
  obtain h l where e: "prepend_all 100 (None, pair_links g) = (h, l)" by fastforce
  then have "dlist l h ([0..<100] @ [])" by (rule prepend_all_dlist) simp_all
  then show ?thesis by (simp add: game_inv_def game_init_def e two_lists_def)
qed

lemma game_inv_distinct: "game_inv g gs fs \<Longrightarrow> distinct gs \<and> distinct fs \<and> set gs \<inter> set fs = {}"
  by (auto simp: game_inv_def two_lists_def dest: dlist_distinct)

lemma game_inv_length:
  assumes "game_inv g gs fs"
  shows "length gs + length fs = 100"
proof -
  have "length (gs @ fs) = card (set (gs @ fs))" using game_inv_distinct [OF assms] by (metis distinct_append distinct_card)
  also have "set (gs @ fs) = {0..<100}" using assms by (simp add: game_inv_def)
  finally show ?thesis by simp
qed

abbreviation plays :: "Game \<Rightarrow> u32 \<Rightarrow> nat \<Rightarrow> bool" where
  "plays g tid p \<equiv> player_1_tid (all_pairs g p) = tid \<or> player_2_tid (all_pairs g p) = tid"

lemma search_pair_ok:
  assumes "game_inv g gs fs"
  shows "search_pair g tid = Inr (find (plays g tid) gs)"
proof -
  have "ll_path (lnext (pair_links g)) (games_list g) gs"
    using assms by (intro dlist_ll_path) (auto simp: game_inv_def two_lists_def)
  from ll_search_path [OF this, where P = "plays g tid"] show ?thesis
    by (simp add: search_pair_def tid_in_game_def disj_commute)
qed

lemma quit_game_ok:
  assumes i: "game_inv g gs fs" and p: "p \<in> set gs"
  shows "\<exists>g'. quit_game g p = Inr (g', [(player_1_tid (all_pairs g p), GAME_STOP), (player_2_tid (all_pairs g p), GAME_STOP)]) \<and>
    game_inv g' (remove1 p gs) (fs @ [p]) \<and> all_pairs g' = all_pairs g"
proof -
  have d: "p \<notin> set (remove1 p gs)" "p \<notin> set fs" using game_inv_distinct [OF i] p by auto
  obtain gl l where 1: "dl_delete (games_list g) p (pair_links g) = Inr (gl, l)" "two_lists l gl (free_list g) (remove1 p gs) fs"
    using two_lists_delete [of "pair_links g" "games_list g" "free_list g" gs fs p] i p by (auto simp: game_inv_def)
  obtain fl l2 where 2: "dl_append (free_list g) p l = Inr (fl, l2)" "two_lists l2 fl gl (fs @ [p]) (remove1 p gs)"
    using two_lists_append [of l "free_list g" gl fs "remove1 p gs" p] 1(2) d two_lists_sym by metis
  have "set (remove1 p gs) \<union> set (fs @ [p]) = {0..<100}"
    using i p game_inv_distinct [OF i] by (auto simp: game_inv_def)
  then show ?thesis using 1 2 by (auto simp: quit_game_def game_inv_def two_lists_sym)
qed

section \<open>Players\<close>

lemma players_Cons: "players g (p # gs) = player_1_tid (all_pairs g p) # player_2_tid (all_pairs g p) # players g gs"
  by (simp add: players_def)

lemma players_append: "players g (us @ vs) = players g us @ players g vs"
  by (simp add: players_def)

lemma mem_players: "tid \<in> set (players g gs) \<longleftrightarrow> (\<exists>p\<in>set gs. plays g tid p)"
  by (auto simp: players_def)

lemma players_cong:
  "(\<And>p. p \<in> set gs \<Longrightarrow> player_1_tid (all_pairs g p) = player_1_tid (all_pairs g' p) \<and>
     player_2_tid (all_pairs g p) = player_2_tid (all_pairs g' p)) \<Longrightarrow> players g gs = players g' gs"
  by (induction gs) (simp_all add: players_def)

text \<open>A task plays in one game only.\<close>

lemma other_game:
  assumes "distinct (players g gs)" "p \<in> set gs" "q \<in> set gs" "p \<noteq> q" "plays g x p"
  shows "\<not> plays g x q"
proof -
  obtain us vs where gs: "gs = us @ p # vs" using assms(2) by (metis split_list)
  then have "q \<in> set (us @ vs)" using assms(3,4) by auto
  then have "plays g x q \<Longrightarrow> x \<in> set (players g us) \<union> set (players g vs)" by (auto simp: mem_players)
  then show ?thesis using assms(1,5) unfolding gs by (auto simp: players_append players_Cons)
qed

lemma two_players: "distinct (players g gs) \<Longrightarrow> p \<in> set gs \<Longrightarrow> player_1_tid (all_pairs g p) \<noteq> player_2_tid (all_pairs g p)"
  by (induction gs) (auto simp: players_Cons)

lemma players_remove:
  assumes "distinct (players g gs)" "p \<in> set gs" "distinct gs"
  shows "set (players g (remove1 p gs)) = set (players g gs) - {player_1_tid (all_pairs g p), player_2_tid (all_pairs g p)}"
    "distinct (players g (remove1 p gs))"
proof -
  obtain us vs where gs: "gs = us @ p # vs" "p \<notin> set us" using assms(2) by (metis split_list_first)
  then have "remove1 p gs = us @ vs" by (simp add: remove1_append)
  then show "set (players g (remove1 p gs)) = set (players g gs) - {player_1_tid (all_pairs g p), player_2_tid (all_pairs g p)}"
    "distinct (players g (remove1 p gs))"
    using assms(1) unfolding gs by (auto simp: players_append players_Cons)
qed

lemma pair_ok_cong:
  "(player_1_tid st \<in> B \<longleftrightarrow> player_1_tid st \<in> B') \<Longrightarrow> (player_2_tid st \<in> B \<longleftrightarrow> player_2_tid st \<in> B') \<Longrightarrow> pair_ok B st = pair_ok B' st"
  by (simp add: pair_ok_def split: GameProgress.splits)


section \<open>The steps\<close>

lemma set_pair_simps [simp]:
  "all_pairs (game (set_pair p st s)) = (all_pairs (game s))(p := st)" "waiting (set_pair p st s) = waiting s"
  "waiting_tid (set_pair p st s) = waiting_tid s"
  "game_inv (game (set_pair p st s)) gs fs = game_inv (game s) gs fs"
  by (simp_all add: set_pair_def game_inv_def)

lemma find_pair:
  assumes o: "rps_ok s gs fs B" and t: "tid \<in> set (players (game s) gs)"
  shows "\<exists>p\<in>set gs. search_pair (game s) tid = Inr (Some p) \<and> plays (game s) tid p"
proof -
  obtain q where "q \<in> set gs" "plays (game s) tid q" using t by (auto simp: mem_players)
  then obtain p where p: "find (plays (game s) tid) gs = Some p" by (metis (mono_tags, lifting) find_None_iff not_None_eq)
  then have "p \<in> set gs" "plays (game s) tid p" using find_Some_iff [of "plays (game s) tid" gs p] by auto
  moreover have "search_pair (game s) tid = Inr (Some p)" using search_pair_ok [of "game s" gs fs tid] o p by (simp add: rps_ok_def)
  ultimately show ?thesis by blast
qed

text \<open>The state of one game changes and nobody, or both of its players, get an answer.\<close>

lemma update_pair:
  assumes o: "rps_ok s gs fs B" and p: "p \<in> set gs"
    and t: "player_1_tid st = player_1_tid (all_pairs (game s) p)" "player_2_tid st = player_2_tid (all_pairs (game s) p)"
    and B: "B' \<subseteq> B \<union> {player_1_tid st, player_2_tid st}" "B - {player_1_tid st, player_2_tid st} \<subseteq> B'" and st: "pair_ok B' st"
  shows "rps_ok (set_pair p st s) gs fs B'"
proof -
  have d: "distinct (players (game s) gs @ (if waiting s then [waiting_tid s] else []))" using o by (simp add: rps_ok_def)
  have pl: "players (game (set_pair p st s)) gs = players (game s) gs"
    by (rule players_cong) (simp add: t)
  have mine: "player_1_tid st \<in> set (players (game s) gs)" "player_2_tid st \<in> set (players (game s) gs)"
    using p t by (auto simp: mem_players)
  have "pair_ok B' (all_pairs (game (set_pair p st s)) q)" if q: "q \<in> set gs" for q
  proof (cases "q = p")
    case False
    have "x = player_1_tid st \<or> x = player_2_tid st \<Longrightarrow> \<not> plays (game s) x q" for x
      using other_game [of "game s" gs p q x] d p q False t by auto
    then have "pair_ok B' (all_pairs (game s) q) = pair_ok B (all_pairs (game s) q)"
      using B by (intro pair_ok_cong) blast+
    then show ?thesis using False o q by (simp add: rps_ok_def)
  qed (use st in simp)
  moreover have "waiting s \<longrightarrow> waiting_tid s \<in> B'"
    using o B mine d unfolding rps_ok_def by auto
  moreover have "B' \<subseteq> set (players (game s) gs) \<union> (if waiting s then {waiting_tid s} else {})"
    using o B mine unfolding rps_ok_def by blast
  ultimately show ?thesis using o unfolding rps_ok_def pl by (cases "waiting s") simp_all
qed

lemma update_reply:
  assumes o: "rps_ok s gs fs B" and p: "p \<in> set gs"
    and t: "player_1_tid st = player_1_tid (all_pairs (game s) p)" "player_2_tid st = player_2_tid (all_pairs (game s) p)"
    and tid: "tid = player_1_tid st \<or> tid = player_2_tid st"
    and st: "progress st = WAIT_0"
  shows "rps_ok (set_pair p st s) gs fs (insert tid B - {player_1_tid st, player_2_tid st})"
  by (rule update_pair [OF o p t]) (use tid st in \<open>auto simp: pair_ok_def\<close>)

lemma quit_pair:
  assumes o: "rps_ok s gs fs B" and p: "p \<in> set gs" and tid: "plays (game s) tid p"
    and st: "\<forall>q. q \<noteq> p \<longrightarrow> all_pairs g q = all_pairs (game s) q" "player_1_tid (all_pairs g p) = player_1_tid (all_pairs (game s) p)"
      "player_2_tid (all_pairs g p) = player_2_tid (all_pairs (game s) p)" and g: "game_inv g gs fs"
  shows "\<exists>g'. quit_game g p = Inr (g', [(player_1_tid (all_pairs g p), GAME_STOP), (player_2_tid (all_pairs g p), GAME_STOP)]) \<and>
    rps_ok (s\<lparr>game := g'\<rparr>) (remove1 p gs) (fs @ [p]) (insert tid B - {player_1_tid (all_pairs g p), player_2_tid (all_pairs g p)})"
proof -
  let ?g = "game s" and ?P = "{player_1_tid (all_pairs g p), player_2_tid (all_pairs g p)}"
  obtain g' where q: "quit_game g p = Inr (g', [(player_1_tid (all_pairs g p), GAME_STOP), (player_2_tid (all_pairs g p), GAME_STOP)])"
    "game_inv g' (remove1 p gs) (fs @ [p])" "all_pairs g' = all_pairs g"
    using quit_game_ok [OF g p] by blast
  have d: "distinct (players ?g gs @ (if waiting s then [waiting_tid s] else []))" "distinct gs"
    using o game_inv_distinct by (auto simp: rps_ok_def)
  have rm: "set (remove1 p gs) = set gs - {p}" using d(2) by simp
  have pl: "players g' (remove1 p gs) = players ?g (remove1 p gs)"
    by (rule players_cong) (use st(1) q(3) rm in auto)
  have pr: "set (players ?g (remove1 p gs)) = set (players ?g gs) - ?P" "distinct (players ?g (remove1 p gs))"
    using players_remove [OF _ p d(2), of ?g] d(1) st by auto
  have mine: "?P \<subseteq> set (players ?g gs)" using p st by (auto simp: mem_players)
  have tidP: "tid \<in> ?P" using tid st by auto
  have "pair_ok (insert tid B - ?P) (all_pairs g' r)" if r: "r \<in> set (remove1 p gs)" for r
  proof -
    have r': "r \<in> set gs" "r \<noteq> p" using r rm by auto
    have "x \<in> ?P \<Longrightarrow> \<not> plays ?g x r" for x
      using other_game [of ?g gs p r x] d(1) p r' st by auto
    then have "pair_ok (insert tid B - ?P) (all_pairs ?g r) = pair_ok B (all_pairs ?g r)"
      using tidP by (intro pair_ok_cong) blast+
    then show ?thesis using o r' q(3) st(1) by (simp add: rps_ok_def)
  qed
  moreover have "waiting s \<longrightarrow> waiting_tid s \<in> insert tid B - ?P"
    using o d(1) mine unfolding rps_ok_def by auto
  moreover have "insert tid B - ?P \<subseteq> set (players ?g (remove1 p gs)) \<union> (if waiting s then {waiting_tid s} else {})"
    using o tidP unfolding rps_ok_def pr by auto
  ultimately have "rps_ok (s\<lparr>game := g'\<rparr>) (remove1 p gs) (fs @ [p]) (insert tid B - ?P)"
    using q(2) pr d(1) unfolding rps_ok_def by (auto simp: pl)
  then show ?thesis using q(1) by blast
qed


text \<open>What a step promises: replies to tasks that wait, one each, and a state that is in order.\<close>

definition answered :: "u32 \<Rightarrow> u32 set \<Rightarrow> (RpsServer \<times> rps_out) res \<Rightarrow> bool" where
  "answered tid B r \<longleftrightarrow>
     (\<exists>s' out gs' fs'. r = Inr (s', out) \<and> distinct (map fst out) \<and> set (map fst out) \<subseteq> insert tid B \<and>
        rps_ok s' gs' fs' (insert tid B - set (map fst out)))"

lemma answered_nobody: "r = Inr (s', []) \<Longrightarrow> rps_ok s' gs' fs' (insert tid B) \<Longrightarrow> answered tid B r"
  unfolding answered_def by (intro exI conjI) auto

lemma answered_both:
  assumes "r = Inr (s', [(a, x), (b, y)])" "a \<noteq> b" "{a, b} \<subseteq> insert tid B" "rps_ok s' gs' fs' (insert tid B - {a, b})"
  shows "answered tid B r"
  unfolding answered_def by (intro exI conjI) (use assms in auto)

lemma signup_ok:
  assumes o: "rps_ok s gs fs B" and l: "legal tid RPS_SIGNUP c s gs B"
  shows "answered tid B (rps_signup tid s)"
proof (cases "waiting s")
  case False
  have tid: "tid \<notin> set (players (game s) gs)" using l by (simp add: legal_def action_defs)
  have "pair_ok (insert tid B) (all_pairs (game s) q)" if q: "q \<in> set gs" for q
  proof -
    have "pair_ok (insert tid B) (all_pairs (game s) q) = pair_ok B (all_pairs (game s) q)"
      using q tid by (intro pair_ok_cong) (auto simp: mem_players)
    then show ?thesis using o q by (simp add: rps_ok_def)
  qed
  then have "rps_ok (s\<lparr>waiting_tid := tid, waiting := True\<rparr>) gs fs (insert tid B)"
    using o tid False unfolding rps_ok_def by auto
  from answered_nobody [OF _ this] show ?thesis using False by (simp add: rps_signup_def)
next
  case True
  let ?g = "game s"
  have g: "game_inv ?g gs fs" and d: "distinct (players ?g gs @ [waiting_tid s])" using o True by (simp_all add: rps_ok_def)
  have tid: "tid \<notin> B" "tid \<notin> set (players ?g gs)" "length gs < 100" using l True by (auto simp: legal_def action_defs)
  have w: "waiting_tid s \<in> B" "waiting_tid s \<notin> set (players ?g gs)" using o True by (auto simp: rps_ok_def)
  obtain p fs1 where fs: "fs = p # fs1" using game_inv_length [OF g] tid(3) by (cases fs) auto
  have tl: "two_lists (pair_links ?g) (free_list ?g) (games_list ?g) fs gs"
    using g two_lists_sym [of "pair_links ?g"] by (simp add: game_inv_def)
  have fl: "free_list ?g = Some p" using tl fs by (auto simp: two_lists_def dest: dlist_head)
  obtain h l1 where 1: "dl_delete (free_list ?g) p (pair_links ?g) = Inr (h, l1)" "two_lists l1 h (games_list ?g) fs1 gs"
    using two_lists_delete [OF tl, of p] fs by auto
  have pn: "p \<notin> set fs1" "p \<notin> set gs" using game_inv_distinct [OF g] fs by auto
  obtain h2 l2 where 2: "dl_prepend (games_list ?g) p l1 = (h2, l2)" "two_lists l2 h2 h (p # gs) fs1"
    using two_lists_prepend [of l1 "games_list ?g" h gs fs1 p] 1(2) pn two_lists_sym by metis
  define st where "st = (all_pairs ?g p)\<lparr>player_1_tid := waiting_tid s, player_2_tid := tid, progress := WAIT_0\<rparr>"
  define g' where "g' = \<lparr>all_pairs = (all_pairs ?g)(p := st), pair_links = l2, games_list = h2, free_list = h\<rparr>"
  let ?s = "s\<lparr>game := g', waiting := False\<rparr>" and ?B = "insert tid B - {waiting_tid s, tid}"
  have step: "rps_signup tid s = Inr (?s, [(waiting_tid s, RPS_SIGNUP), (tid, RPS_SIGNUP)])"
    using True 1(1) 2(1) fl by (simp add: rps_signup_def st_def g'_def Let_def)
  have gi: "game_inv g' (p # gs) fs1" using 2(2) g fs by (auto simp: game_inv_def g'_def)
  have pl: "players g' (p # gs) = waiting_tid s # tid # players ?g gs"
    using pn by (simp add: players_Cons g'_def st_def) (rule players_cong, auto)
  have "pair_ok ?B (all_pairs g' q)" if q: "q \<in> set gs" for q
  proof -
    have "pair_ok ?B (all_pairs ?g q) = pair_ok B (all_pairs ?g q)"
      using q w tid by (intro pair_ok_cong) (auto simp: mem_players)
    then show ?thesis using o q pn by (auto simp: rps_ok_def g'_def)
  qed
  moreover have "pair_ok ?B (all_pairs g' p)" by (simp add: pair_ok_def g'_def st_def)
  moreover have "waiting_tid s \<noteq> tid" using w tid by auto
  moreover have "?B \<subseteq> set (players ?g gs)" using o True by (auto simp: rps_ok_def)
  ultimately have "rps_ok ?s (p # gs) fs1 ?B"
    unfolding rps_ok_def using gi d w tid by (auto simp: pl)
  then show ?thesis using w tid by (intro answered_both [OF step]) auto
qed

lemma calc_game_valid: "valid_move a \<Longrightarrow> valid_move b \<Longrightarrow> \<exists>r. calc_game a b = Inr r"
  by (auto simp: valid_move_def calc_game_def)

lemma play_ok:
  assumes o: "rps_ok s gs fs B" and l: "legal tid RPS_PLAY c s gs B"
  shows "answered tid B (rps_play tid c s)"
proof -
  let ?g = "game s"
  have tid: "tid \<notin> B" "tid \<in> set (players ?g gs)" "valid_move c" using l by (auto simp: legal_def action_defs)
  obtain p where p: "p \<in> set gs" "search_pair ?g tid = Inr (Some p)" "plays ?g tid p" using find_pair [OF o tid(2)] by blast
  have d: "distinct (players ?g gs)" using o by (simp add: rps_ok_def)
  define st where "st = record_move tid c (all_pairs ?g p)"
  have st: "player_1_tid st = player_1_tid (all_pairs ?g p)" "player_2_tid st = player_2_tid (all_pairs ?g p)"
    "progress st = progress (all_pairs ?g p)"
    "tid = player_1_tid st \<Longrightarrow> player_1_move st = c \<and> player_2_move st = player_2_move (all_pairs ?g p)"
    "tid \<noteq> player_1_tid st \<Longrightarrow> player_2_move st = c \<and> player_1_move st = player_1_move (all_pairs ?g p)"
    using p(3) by (auto simp: st_def record_move_def)
  have ne: "player_1_tid st \<noteq> player_2_tid st" using two_players [OF d p(1)] st by simp
  have mine: "tid = player_1_tid st \<or> tid = player_2_tid st" using p(3) st by auto
  have ok: "pair_ok B (all_pairs ?g p)" using o p(1) by (simp add: rps_ok_def)
  have up: "all_pairs (game (set_pair p st s)) p = st" by simp
  have twice: "set_pair p st' (set_pair p st s) = set_pair p st' s" for st'
    by (simp add: set_pair_def)
  note play = rps_play_def [of tid c s, unfolded p(2), simplified, folded st_def, unfolded Let_def]
  show ?thesis
  proof (cases "progress st")
    case WAIT_0
    have "rps_ok (set_pair p (st\<lparr>progress := WAIT_1\<rparr>) s) gs fs (insert tid B)"
      by (rule update_pair [OF o p(1)]) (use WAIT_0 st mine tid ok ne in \<open>auto simp: pair_ok_def\<close>)
    from answered_nobody [OF _ this] show ?thesis using WAIT_0 by (simp add: play twice)
  next
    case WAIT_1
    have v: "valid_move (player_1_move st)" "valid_move (player_2_move st)"
      and B: "{player_1_tid st, player_2_tid st} \<subseteq> insert tid B"
      using ok st ne mine tid WAIT_1 by (auto simp: pair_ok_def)
    obtain r where r: "calc_game (player_1_move st) (player_2_move st) = Inr r" using calc_game_valid [OF v] by blast
    have "rps_ok (set_pair p (st\<lparr>progress := WAIT_0\<rparr>) s) gs fs (insert tid B - {player_1_tid st, player_2_tid st})"
      using update_reply [OF o p(1), of "st\<lparr>progress := WAIT_0\<rparr>" tid] st mine by simp
    from answered_both [OF _ ne B this] show ?thesis using WAIT_1 r by (simp add: play twice)
  next
    case QUIT_PENDING
    have B: "{player_1_tid st, player_2_tid st} \<subseteq> insert tid B"
      using ok st mine tid QUIT_PENDING by (auto simp: pair_ok_def)
    have gi: "game_inv (game (set_pair p st s)) gs fs" using o by (simp add: rps_ok_def)
    obtain g' where q: "quit_game (game (set_pair p st s)) p = Inr (g', [(player_1_tid st, GAME_STOP), (player_2_tid st, GAME_STOP)])"
      "rps_ok (s\<lparr>game := g'\<rparr>) (remove1 p gs) (fs @ [p]) (insert tid B - {player_1_tid st, player_2_tid st})"
      using quit_pair [OF o p(1,3) _ _ _ gi] st up by auto
    have same: "(set_pair p st s)\<lparr>game := g'\<rparr> = s\<lparr>game := g'\<rparr>" by (simp add: set_pair_def)
    show ?thesis using answered_both [OF _ ne B q(2)] QUIT_PENDING q(1) by (simp add: play same)
  qed
qed

lemma quit_ok:
  assumes o: "rps_ok s gs fs B" and l: "legal tid RPS_QUIT c s gs B"
  shows "answered tid B (rps_quit tid s)"
proof -
  let ?g = "game s"
  have tid: "tid \<notin> B" "tid \<in> set (players ?g gs)" using l by (auto simp: legal_def action_defs)
  obtain p where p: "p \<in> set gs" "search_pair ?g tid = Inr (Some p)" "plays ?g tid p" using find_pair [OF o tid(2)] by blast
  let ?st = "all_pairs ?g p"
  have ne: "player_1_tid ?st \<noteq> player_2_tid ?st" using o p(1) two_players by (auto simp: rps_ok_def)
  have ok: "pair_ok B ?st" using o p(1) by (simp add: rps_ok_def)
  show ?thesis
  proof (cases "progress ?st = WAIT_0")
    case True
    have "rps_ok (set_pair p (?st\<lparr>progress := QUIT_PENDING\<rparr>) s) gs fs (insert tid B)"
      by (rule update_pair [OF o p(1)]) (use True p(3) tid ok ne in \<open>auto simp: pair_ok_def\<close>)
    from answered_nobody [OF _ this] show ?thesis using True p by (simp add: rps_quit_def)
  next
    case False
    have B: "{player_1_tid ?st, player_2_tid ?st} \<subseteq> insert tid B"
      using ok p(3) tid False by (cases "progress ?st") (auto simp: pair_ok_def)
    have gi: "game_inv ?g gs fs" using o by (simp add: rps_ok_def)
    obtain g' where q: "quit_game ?g p = Inr (g', [(player_1_tid ?st, GAME_STOP), (player_2_tid ?st, GAME_STOP)])"
      "rps_ok (s\<lparr>game := g'\<rparr>) (remove1 p gs) (fs @ [p]) (insert tid B - {player_1_tid ?st, player_2_tid ?st})"
      using quit_pair [OF o p(1,3) _ _ _ gi] by auto
    have "progress ?st = QUIT_PENDING \<or> progress ?st = WAIT_1" using False by (cases "progress ?st") auto
    then show ?thesis using answered_both [OF _ ne B q(2)] q(1) p(2) by (simp add: rps_quit_def Let_def)
  qed
qed

lemma rps_step_ok: "rps_ok s gs fs B \<Longrightarrow> legal tid a c s gs B \<Longrightarrow> answered tid B (rps_step tid a c s)"
  using signup_ok play_ok quit_ok unfolding rps_step_def by (auto simp: legal_def action_defs)


section \<open>The server with its players\<close>

text \<open>The states and the sets of waiting tasks that legal requests lead to.\<close>

inductive rps_reach :: "RpsServer \<Rightarrow> u32 set \<Rightarrow> bool" where
  start: "rps_reach (rps_start g w) {}"
| request: "rps_reach s B \<Longrightarrow> rps_ok s gs fs B \<Longrightarrow> legal tid a c s gs B \<Longrightarrow> rps_step tid a c s = Inr (s', out) \<Longrightarrow>
    rps_reach s' (insert tid B - set (map fst out))"

lemma rps_start_ok: "rps_ok (rps_start g w) [] [0..<100] {}"
  using game_init_ok [of g] by (simp add: rps_ok_def rps_start_def players_def)

lemma rps_reach_ok: "rps_reach s B \<Longrightarrow> \<exists>gs fs. rps_ok s gs fs B"
proof (induction rule: rps_reach.induct)
  case (start g w)
  then show ?case using rps_start_ok by blast
next
  case (request s B gs fs tid a c s' out)
  then have "answered tid B (Inr (s', out))" using rps_step_ok by metis
  then show ?case by (auto simp: answered_def)
qed

text \<open>A round of a game.\<close>

lemma rps_round_ok:
  assumes o: "rps_ok s gs fs B" and p: "p \<in> set gs" and st: "all_pairs (game s) p = st" "progress st = WAIT_1"
    and t: "tid = player_2_tid st" "tid \<notin> B" and v: "valid_move c"
  shows "\<exists>s' r. rps_step tid RPS_PLAY c s = Inr (s', [(player_1_tid st, r),
      (tid, if r = GAME_WIN then GAME_LOSE else if r = GAME_LOSE then GAME_WIN else GAME_DRAW)]) \<and>
    calc_game (player_1_move st) c = Inr r \<and> progress (all_pairs (game s') p) = WAIT_0 \<and> valid_move (player_1_move st)"
proof -
  let ?g = "game s"
  have d: "distinct (players ?g gs)" using o by (simp add: rps_ok_def)
  have ne: "player_1_tid st \<noteq> player_2_tid st" using two_players [OF d p] st by simp
  have "tid \<in> set (players ?g gs)" using p st t by (auto simp: mem_players)
  then obtain q where q: "q \<in> set gs" "search_pair ?g tid = Inr (Some q)" "plays ?g tid q" using find_pair [OF o] by blast
  have "q = p" using other_game [OF d p q(1), of tid] q(3) st t by auto
  then have f: "search_pair ?g tid = Inr (Some p)" using q(2) by simp
  have "pair_ok B st" using o p st by (auto simp: rps_ok_def)
  then have v1: "valid_move (player_1_move st)" using st(2) t by (auto simp: pair_ok_def)
  then obtain r where r: "calc_game (player_1_move st) c = Inr r" using calc_game_valid [OF _ v] by blast
  have rec: "record_move (player_2_tid st) c st = st\<lparr>player_2_move := c\<rparr>" using ne by (simp add: record_move_def)
  show ?thesis
    using f r v1 st(2) t(1) by (simp add: rps_step_def action_defs rps_play_def st(1) rec Let_def)
qed


text \<open>The result of a round: the rules of the game, but \<open>SCISSOR\<close> against \<open>ROCK\<close> is a draw.\<close>

definition round_result :: "u8 \<Rightarrow> u8 \<Rightarrow> u8" where
  "round_result a b =
     (if a = b \<or> a = SCISSOR \<and> b = ROCK then GAME_DRAW
      else if (a, b) \<in> {(ROCK, SCISSOR), (PAPER, ROCK), (SCISSOR, PAPER)} then GAME_WIN else GAME_LOSE)"

lemma calc_game_result: "valid_move a \<Longrightarrow> valid_move b \<Longrightarrow> calc_game a b = Inr (round_result a b)"
  by (auto simp: valid_move_def calc_game_def round_result_def move_defs)

text \<open>Example states: nobody has signed up, and a game in which player 7 has moved and 9 has not.\<close>

lemma start_games: "rps_ok (rps_start g w) gs fs B \<Longrightarrow> gs = []"
  by (auto simp: rps_ok_def game_inv_def two_lists_def rps_start_def game_init_def split: prod.splits list.splits dest!: dlist_head)

lemma one_game: "\<exists>g. game_inv g [0] [1..<100] \<and> all_pairs g 0 = st"
proof -
  define g0 where "g0 = game_init \<lparr>all_pairs = \<lambda>_. st, pair_links = \<lparr>lnext = \<lambda>_. None, lprev = \<lambda>_. None\<rparr>, games_list = None, free_list = None\<rparr>"
  have 0: "game_inv g0 [] [0..<100]" "all_pairs g0 0 = st" unfolding g0_def
    by (rule game_init_ok) (simp add: game_init_def split: prod.splits)
  have u: "[0..<100] = 0 # [1..<100 :: nat]" by (simp add: upt_conv_Cons)
  have "two_lists (pair_links g0) (free_list g0) (games_list g0) (0 # [1..<100]) []"
    using 0(1) two_lists_sym [of "pair_links g0"] unfolding u by (simp add: game_inv_def)
  from two_lists_delete [OF this, of 0] obtain h l where 1: "two_lists l h (games_list g0) [1..<100] []" by auto
  then obtain h2 l2 where "two_lists l2 h2 h [0] [1..<100]"
    using two_lists_prepend [of l "games_list g0" h "[]" "[1..<100]" 0] two_lists_sym [of l] by auto
  then have "game_inv (g0\<lparr>pair_links := l2, games_list := h2, free_list := h\<rparr>) [0] [1..<100]" by (auto simp: game_inv_def)
  moreover have "all_pairs (g0\<lparr>pair_links := l2, games_list := h2, free_list := h\<rparr>) 0 = st" using 0(2) by simp
  ultimately show ?thesis by blast
qed

lemma rps_example:
  "\<exists>s st. rps_ok s [0] [1..<100] {7} \<and> all_pairs (game s) 0 = st \<and> progress st = WAIT_1 \<and> player_2_tid st = 9 \<and>
     player_1_tid st = 7 \<and> player_1_move st = SCISSOR"
proof -
  let ?st = "\<lparr>progress = WAIT_1, player_1_tid = 7, player_2_tid = 9, player_1_move = SCISSOR, player_2_move = 0\<rparr>"
  obtain g where g: "game_inv g [0] [1..<100]" "all_pairs g 0 = ?st" using one_game [of ?st] by blast
  then have "rps_ok \<lparr>game = g, waiting_tid = 0, waiting = False\<rparr> [0] [1..<100] {7}"
    by (simp add: rps_ok_def players_Cons pair_ok_def valid_move_def) (simp add: players_def)
  then show ?thesis using g(2)
    by (intro exI [of _ "\<lparr>game = g, waiting_tid = 0, waiting = False\<rparr>"] exI [of _ ?st]) simp
qed

end
