(* ===== verification/UartServ.thy ===== *)
theory UartServ
  imports Spi RingBuf
begin

text \<open>
  The two UART servers (user/include/uart_priv.h, user/src/uart/uart_server_term.c, uart_server_marklin.c), one request at a time.
  The registers are read and written by system calls: \<open>rd channel register\<close> and \<open>wr channel register value\<close> over a state \<open>'h\<close> of the
  hardware. Replies are listed in the order they go out. A buffer pointer is the index into the ring's array. The character of a
  refused \<open>getc\<close>, which the code leaves unset, is 0 here.
\<close>

section \<open>Common part\<close>

definition TERM_CHANNEL :: u32 where "TERM_CHANNEL = 0"
definition MARKLIN_CHANNEL :: u32 where "MARKLIN_CHANNEL = 1"

lemmas channel_defs = TERM_CHANNEL_def MARKLIN_CHANNEL_def

type_synonym 'h uart_rd = "u32 \<Rightarrow> u8 \<Rightarrow> 'h \<Rightarrow> u8 \<times> 'h"
type_synonym 'h uart_wr = "u32 \<Rightarrow> u8 \<Rightarrow> u8 \<Rightarrow> 'h \<Rightarrow> 'h"

definition INPUT_QUEUE_CAP :: u64 where "INPUT_QUEUE_CAP = 64"
definition INPUT_BUF_CAP :: u64 where "INPUT_BUF_CAP = 256"

lemmas input_caps = INPUT_QUEUE_CAP_def INPUT_BUF_CAP_def

datatype uart_reply = UartEmptyResp | UartGetcResp (getc_ch: u8) (getc_result: u32) | UartPutsResp (puts_result: u32)

type_synonym uart_out = "(u32 \<times> uart_reply) list"

partial_function (option) uart_drain_input :: "'h uart_rd \<Rightarrow> u32 \<Rightarrow> 'h \<Rightarrow> 'h option" where
  "uart_drain_input rd chnl h =
     (case rd chnl UART_RXLVL h of (lvl, h) \<Rightarrow>
        if lvl \<noteq> 0 then uart_drain_input rd chnl (snd (rd chnl UART_RHR h)) else Some h)"

text \<open>The loop that empties the receive FIFO into the buffer.\<close>

partial_function (option) fill_input :: "'h uart_rd \<Rightarrow> u32 \<Rightarrow> u8 ring \<Rightarrow> 'h \<Rightarrow> (u8 ring \<times> 'h) option" where
  "fill_input rd chnl buf h =
     (case rd chnl UART_RXLVL h of (lvl, h) \<Rightarrow>
        if lvl = 0 then Some (buf, h)
        else case rb_push_pre buf of
          (buf, None) \<Rightarrow> Some (buf, h)
        | (buf, Some slot) \<Rightarrow> (case rd chnl UART_RHR h of (c, h) \<Rightarrow> fill_input rd chnl (rb_store slot c buf) h))"

text \<open>The loop that answers waiting tasks; the flag says that no task is left waiting, where the code returns.\<close>

partial_function (option) answer_getc ::
  "u8 ring \<Rightarrow> u32 ring \<Rightarrow> uart_out \<Rightarrow> (u8 ring \<times> u32 ring \<times> uart_out \<times> bool) option" where
  "answer_getc buf wq out =
     (case rb_front wq of
        None \<Rightarrow> Some (buf, wq, out, True)
      | Some tid \<Rightarrow>
          (case rb_front buf of
             None \<Rightarrow> Some (buf, wq, out, False)
           | Some c \<Rightarrow> answer_getc (rb_pop buf) (rb_pop wq) (out @ [(tid, UartGetcResp c 0)])))"

partial_function (option) uart_flush_input ::
  "'h uart_rd \<Rightarrow> u32 \<Rightarrow> u32 \<Rightarrow> u8 ring \<Rightarrow> u32 ring \<Rightarrow> uart_out \<Rightarrow> 'h \<Rightarrow> (u8 ring \<times> u32 ring \<times> uart_out \<times> 'h) option" where
  "uart_flush_input rd chnl notifier buf wq out h =
     Option.bind (fill_input rd chnl buf h) (\<lambda>(buf, h).
     Option.bind (answer_getc buf wq out) (\<lambda>(buf, wq, out, done).
       if done then Some (buf, wq, out, h)
       else case rd TERM_CHANNEL UART_RXLVL h of (lvl, h) \<Rightarrow>
         if lvl = 0 then Some (buf, wq, out @ [(notifier, UartEmptyResp)], h)
         else uart_flush_input rd chnl notifier buf wq out h))"

text \<open>What the servers can be asked.\<close>

datatype uart_request =
    UartGetcReq u32
  | UartPutsReq u32 u32 bool "u8 list"
  | UartTermInputReq | UartTermOutputReq
  | UartMarklinInputReq | UartMarklinOutputReq | UartMarklinCtsReq
  | UartOther

section \<open>The terminal server\<close>

definition OUTPUT_BUF_CAP :: u64 where "OUTPUT_BUF_CAP = 4096"

record UartServerTerm =
  t_output_notifier_tid :: u32
  t_input_notifier_tid :: u32
  t_input_buf :: "u8 ring"
  t_input_wqueue :: "u32 ring"
  t_output_buf :: "u8 ring"

text \<open>The notifiers are created in order; their ids are what \<open>ke_create\<close> returned.\<close>

definition term_server_init :: "u32 \<Rightarrow> u32 \<Rightarrow> UartServerTerm res" where
  "term_server_init output_tid input_tid =
     bindR (c_assert (0 \<le> sint output_tid)) (\<lambda>_.
     bindR (c_assert (0 \<le> sint input_tid)) (\<lambda>_.
       Inr \<lparr>t_output_notifier_tid = output_tid, t_input_notifier_tid = input_tid, t_input_buf = rb_init 0 INPUT_BUF_CAP,
         t_input_wqueue = rb_init 0 INPUT_QUEUE_CAP, t_output_buf = rb_init 0 OUTPUT_BUF_CAP\<rparr>))"

text \<open>The loop that writes while there is room in the transmit FIFO; the flag says that output is left.\<close>

partial_function (option) term_output_loop :: "'h uart_rd \<Rightarrow> 'h uart_wr \<Rightarrow> u8 \<Rightarrow> u8 ring \<Rightarrow> 'h \<Rightarrow> (u8 ring \<times> 'h \<times> bool) option" where
  "term_output_loop rd wr c buf h =
     (case rd TERM_CHANNEL UART_TXLVL h of (lvl, h) \<Rightarrow>
        if lvl = 0 then Some (buf, h, True)
        else let h = wr TERM_CHANNEL UART_THR c h; buf = rb_pop buf in
          case rb_front buf of
            None \<Rightarrow> Some (buf, h, False)
          | Some c \<Rightarrow> term_output_loop rd wr c buf h)"

definition term_flush_output :: "'h uart_rd \<Rightarrow> 'h uart_wr \<Rightarrow> UartServerTerm \<Rightarrow> 'h \<Rightarrow> (UartServerTerm \<times> uart_out \<times> 'h) option" where
  "term_flush_output rd wr s h =
     (case rb_front (t_output_buf s) of
        None \<Rightarrow> Some (s, [], h)
      | Some c \<Rightarrow> Option.bind (term_output_loop rd wr c (t_output_buf s) h) (\<lambda>(buf, h, left).
          Some (s\<lparr>t_output_buf := buf\<rparr>, if left then [(t_output_notifier_tid s, UartEmptyResp)] else [], h)))"

definition term_flush_input :: "'h uart_rd \<Rightarrow> UartServerTerm \<Rightarrow> 'h \<Rightarrow> (UartServerTerm \<times> uart_out \<times> 'h) option" where
  "term_flush_input rd s h =
     Option.bind (uart_flush_input rd TERM_CHANNEL (t_input_notifier_tid s) (t_input_buf s) (t_input_wqueue s) [] h)
       (\<lambda>(buf, wq, out, h). Some (s\<lparr>t_input_buf := buf, t_input_wqueue := wq\<rparr>, out, h))"

text \<open>The copy of the string, byte \<open>i\<close> on; the assertion is the defensive one.\<close>

fun push_str :: "u8 list \<Rightarrow> nat \<Rightarrow> nat \<Rightarrow> u8 ring \<Rightarrow> u8 ring res" where
  "push_str str i 0 r = Inr r"
| "push_str str i (Suc n) r =
     (case rb_push_pre r of
        (r, None) \<Rightarrow> Inl Assert_fail
      | (r, Some slot) \<Rightarrow>
          if i < length str then push_str str (Suc i) n (rb_store slot (str ! i) r) else Inl Out_of_bounds)"

fun term_server_step ::
  "'h uart_rd \<Rightarrow> 'h uart_wr \<Rightarrow> u32 \<Rightarrow> uart_request \<Rightarrow> UartServerTerm \<Rightarrow> 'h \<Rightarrow> (UartServerTerm \<times> uart_out \<times> 'h) res" where
  "term_server_step rd wr tid (UartGetcReq channel) s h =
     bindR (c_assert (channel = TERM_CHANNEL)) (\<lambda>_.
       case rb_push_pre (t_input_wqueue s) of
         (wq, None) \<Rightarrow> Inr (s, [(tid, UartGetcResp 0 (- 2))], h)
       | (wq, Some slot) \<Rightarrow> returns (term_flush_input rd (s\<lparr>t_input_wqueue := rb_store slot tid wq\<rparr>) h))"
| "term_server_step rd wr tid (UartPutsReq channel str_len blocking str) s h =
     bindR (c_assert (channel = TERM_CHANNEL)) (\<lambda>_.
       if sint (ucast (OUTPUT_BUF_CAP - rb_len (t_output_buf s)) :: u32) < sint str_len
       then Inr (s, [(tid, UartPutsResp (- 2))], h)
       else bindR (push_str str 0 (nat (sint str_len)) (t_output_buf s)) (\<lambda>buf.
         bindR (returns (term_flush_output rd wr (s\<lparr>t_output_buf := buf\<rparr>) h)) (\<lambda>(s, out, h).
           Inr (s, (tid, UartPutsResp str_len) # out, h))))"
| "term_server_step rd wr tid UartTermInputReq s h = returns (term_flush_input rd s h)"
| "term_server_step rd wr tid UartTermOutputReq s h = returns (term_flush_output rd wr s h)"
| "term_server_step rd wr tid _ s h = Inr (s, [], h)"

section \<open>The Marklin server\<close>

definition OUTPUT_QUEUE_CAP :: u64 where "OUTPUT_QUEUE_CAP = 64"

datatype OutputStatus = OS_READY | OS_WAIT_CTS | OS_WAIT_TX

record OutputWaitElem =
  ow_tid :: u32
  ow_progress :: u32
  ow_str_len :: u32
  ow_blocking :: bool
  ow_str :: "u8 list"

text \<open>\<open>first\<close> is the static variable of the branch for an early output interrupt.\<close>

record UartServerMarklin =
  output_notifier_tid :: u32
  input_notifier_tid :: u32
  cts_notifier_tid :: u32
  input_buf :: "u8 ring"
  input_wqueue :: "u32 ring"
  output_wqueue :: "OutputWaitElem ring"
  output_status :: OutputStatus
  first :: bool

definition marklin_server_init :: "u32 \<Rightarrow> u32 \<Rightarrow> u32 \<Rightarrow> UartServerMarklin res" where
  "marklin_server_init output_tid input_tid cts_tid =
     bindR (c_assert (0 \<le> sint output_tid)) (\<lambda>_.
     bindR (c_assert (0 \<le> sint input_tid)) (\<lambda>_.
     bindR (c_assert (0 \<le> sint cts_tid)) (\<lambda>_.
       Inr \<lparr>output_notifier_tid = output_tid, input_notifier_tid = input_tid, cts_notifier_tid = cts_tid,
         input_buf = rb_init 0 INPUT_BUF_CAP, input_wqueue = rb_init 0 INPUT_QUEUE_CAP,
         output_wqueue = rb_init \<lparr>ow_tid = 0, ow_progress = 0, ow_str_len = 0, ow_blocking = False, ow_str = replicate 1010 0\<rparr>
           OUTPUT_QUEUE_CAP,
         output_status = OS_READY, first = True\<rparr>)))"

partial_function (option) marklin_flush_output ::
  "'h uart_rd \<Rightarrow> 'h uart_wr \<Rightarrow> UartServerMarklin \<Rightarrow> uart_out \<Rightarrow> 'h \<Rightarrow> (UartServerMarklin \<times> uart_out \<times> 'h) res option" where
  "marklin_flush_output rd wr s out h =
     (if output_status s \<noteq> OS_READY then Some (Inr (s, out, h))
      else case rb_peek (output_wqueue s) of
        None \<Rightarrow> Some (Inr (s, out, h))
      | Some idx \<Rightarrow>
          (case rd MARKLIN_CHANNEL UART_TXLVL h of (lvl, h) \<Rightarrow>
             if lvl = 0
             then Some (Inr (s\<lparr>output_status := OS_WAIT_TX\<rparr>, out @ [(output_notifier_tid s, UartEmptyResp)], h))
             else let elem = rb_array (output_wqueue s) ! unat idx in
               if \<not> (0 \<le> sint (ow_progress elem) \<and> nat (sint (ow_progress elem)) < length (ow_str elem))
               then Some (Inl Out_of_bounds)
               else let h = wr MARKLIN_CHANNEL UART_THR (ow_str elem ! nat (sint (ow_progress elem))) h;
                        elem = elem\<lparr>ow_progress := ow_progress elem + 1\<rparr>;
                        q = rb_store idx elem (output_wqueue s);
                        fin = (sint (ow_progress elem) \<ge> sint (ow_str_len elem))
                    in marklin_flush_output rd wr
                         (s\<lparr>output_status := OS_WAIT_CTS, output_wqueue := if fin then rb_pop q else q\<rparr>)
                         (out @ (if fin \<and> ow_blocking elem then [(ow_tid elem, UartPutsResp 0)] else [])) h))"

definition marklin_flush_input :: "'h uart_rd \<Rightarrow> UartServerMarklin \<Rightarrow> 'h \<Rightarrow> (UartServerMarklin \<times> uart_out \<times> 'h) option" where
  "marklin_flush_input rd s h =
     Option.bind (uart_flush_input rd MARKLIN_CHANNEL (input_notifier_tid s) (input_buf s) (input_wqueue s) [] h)
       (\<lambda>(buf, wq, out, h). Some (s\<lparr>input_buf := buf, input_wqueue := wq\<rparr>, out, h))"

fun marklin_server_step ::
  "'h uart_rd \<Rightarrow> 'h uart_wr \<Rightarrow> u32 \<Rightarrow> uart_request \<Rightarrow> UartServerMarklin \<Rightarrow> 'h \<Rightarrow> (UartServerMarklin \<times> uart_out \<times> 'h) res" where
  "marklin_server_step rd wr tid (UartGetcReq channel) s h =
     (case rb_push_pre (input_wqueue s) of
        (wq, None) \<Rightarrow> Inr (s, [(tid, UartGetcResp 0 (- 2))], h)
      | (wq, Some slot) \<Rightarrow> bindR (c_assert (channel = MARKLIN_CHANNEL)) (\<lambda>_.
          returns (marklin_flush_input rd (s\<lparr>input_wqueue := rb_store slot tid wq\<rparr>) h)))"
| "marklin_server_step rd wr tid (UartPutsReq channel str_len blocking str) s h =
     bindR (c_assert (channel = MARKLIN_CHANNEL)) (\<lambda>_.
       if str_len = 0 then Inr (s, [(tid, UartPutsResp 0)], h)
       else case rb_push_pre (output_wqueue s) of
         (q, None) \<Rightarrow> Inr (s, [(tid, UartPutsResp (- 2))], h)
       | (q, Some slot) \<Rightarrow>
           let elem = \<lparr>ow_tid = tid, ow_progress = 0, ow_str_len = str_len, ow_blocking = blocking, ow_str = str\<rparr> in
           bindR (returns (marklin_flush_output rd wr (s\<lparr>output_wqueue := rb_store slot elem q\<rparr>)
             (if blocking then [] else [(tid, UartPutsResp 0)]) h)) (\<lambda>r. r))"
| "marklin_server_step rd wr tid UartMarklinInputReq s h = returns (marklin_flush_input rd s h)"
| "marklin_server_step rd wr tid UartMarklinOutputReq s h =
     (case output_status s of
        OS_WAIT_TX \<Rightarrow> bindR (returns (marklin_flush_output rd wr (s\<lparr>output_status := OS_READY\<rparr>) [] h)) (\<lambda>r. r)
      | OS_READY \<Rightarrow> bindR (c_assert (first s)) (\<lambda>_. Inr (s\<lparr>first := False\<rparr>, [], h))
      | OS_WAIT_CTS \<Rightarrow> Inl Assert_fail)"
| "marklin_server_step rd wr tid UartMarklinCtsReq s h =
     (let out = [(cts_notifier_tid s, UartEmptyResp)] in
      if output_status s = OS_WAIT_CTS
      then (case rd MARKLIN_CHANNEL UART_TXLVL h of (lvl, h) \<Rightarrow>
              if lvl \<noteq> 0
              then bindR (returns (marklin_flush_output rd wr (s\<lparr>output_status := OS_READY\<rparr>) out h)) (\<lambda>r. r)
              else Inr (s\<lparr>output_status := OS_WAIT_TX\<rparr>, out @ [(output_notifier_tid s, UartEmptyResp)], h))
      else Inr (s, out, h))"
| "marklin_server_step rd wr tid _ s h = Inl Assert_fail"


declare fill_input.simps [simp del] answer_getc.simps [simp del] uart_flush_input.simps [simp del]
  term_output_loop.simps [simp del] marklin_flush_output.simps [simp del] uart_drain_input.simps [simp del]

section \<open>The receiving side\<close>

text \<open>
  The hardware as the servers rely on it. \<open>rx h ch\<close> are the bytes that channel \<open>ch\<close> will still deliver, those in its FIFO and
  those to come; \<open>rdy ch h\<close> says that the FIFO is not empty. The level register tells whether it is, a FIFO that has a byte keeps
  it, and reading \<open>RHR\<close> then takes out the first byte. Bytes may arrive between any two reads.
\<close>

definition rx_ok :: "'h uart_rd \<Rightarrow> ('h \<Rightarrow> u32 \<Rightarrow> u8 list) \<Rightarrow> (u32 \<Rightarrow> 'h \<Rightarrow> bool) \<Rightarrow> bool" where
  "rx_ok rd rx rdy \<longleftrightarrow>
     (\<forall>ch h. case rd ch UART_RXLVL h of (l, h') \<Rightarrow>
        rx h' = rx h \<and> (l \<noteq> 0 \<longleftrightarrow> rdy ch h') \<and> (rdy ch h \<longrightarrow> rdy ch h') \<and> (rdy ch h' \<longrightarrow> rx h' ch \<noteq> [])) \<and>
     (\<forall>ch h. rdy ch h \<longrightarrow> (case rd ch UART_RHR h of (c, h') \<Rightarrow> c = hd (rx h ch) \<and> rx h' = (rx h)(ch := tl (rx h ch))))"

lemma rx_level:
  assumes "rx_ok rd rx rdy" "rd ch UART_RXLVL h = (l, h')"
  shows "rx h' = rx h" "l \<noteq> 0 \<longleftrightarrow> rdy ch h'" "rdy ch h \<Longrightarrow> rdy ch h'" "rdy ch h' \<Longrightarrow> rx h' ch \<noteq> []"
  using assms by (auto simp: rx_ok_def split: prod.splits)

lemma rx_byte:
  assumes "rx_ok rd rx rdy" "rdy ch h" "rd ch UART_RHR h = (c, h')"
  shows "c = hd (rx h ch)" "rx h' = (rx h)(ch := tl (rx h ch))"
  using assms by (auto simp: rx_ok_def split: prod.splits)

text \<open>A ring in use: it is well formed and its capacity is \<open>n\<close>.\<close>

definition ring_ok :: "u64 \<Rightarrow> 'a ring \<Rightarrow> bool" where
  "ring_ok n r \<longleftrightarrow> rb_ok r \<and> rb_capacity r = n"

lemma ring_push:
  assumes "ring_ok n r"
  shows "length (rb_list r) < unat n \<Longrightarrow> \<exists>r' slot. rb_push_pre r = (r', Some slot) \<and> ring_ok n (rb_store slot v r') \<and>
      rb_list (rb_store slot v r') = rb_list r @ [v]"
    "\<not> length (rb_list r) < unat n \<Longrightarrow> rb_push_pre r = (r, None)"
proof -
  have full: "rb_push v r = None \<longleftrightarrow> \<not> length (rb_list r) < unat n"
    using assms by (simp add: rb_push_None ring_ok_def word_le_nat_alt not_less)
  show "\<not> length (rb_list r) < unat n \<Longrightarrow> rb_push_pre r = (r, None)"
    using full by (auto simp: rb_push_def rb_push_pre_def Let_def split: if_splits)
  assume "length (rb_list r) < unat n"
  then obtain r' where p: "rb_push v r = Some r'" using full by auto
  then obtain q slot where "rb_push_pre r = (q, Some slot)" "r' = rb_store slot v q"
    unfolding rb_push_def by (cases "rb_push_pre r") (auto split: option.splits)
  then show "\<exists>r' slot. rb_push_pre r = (r', Some slot) \<and> ring_ok n (rb_store slot v r') \<and>
      rb_list (rb_store slot v r') = rb_list r @ [v]"
    using rb_push_Some [OF _ p] assms by (auto simp: ring_ok_def)
qed

lemma ring_pop:
  assumes "ring_ok n r" "rb_list r = x # xs"
  shows "rb_front r = Some x" "ring_ok n (rb_pop r)" "rb_list (rb_pop r) = xs"
proof -
  have "rb_size r \<noteq> 0" using assms(2) length_rb_list [of r] by auto
  then show "rb_front r = Some x" "ring_ok n (rb_pop r)" "rb_list (rb_pop r) = xs"
    using assms rb_pop_list [of r] rb_front_list [of r] by (auto simp: ring_ok_def rb_pop_def)
qed

lemma ring_front: "ring_ok n r \<Longrightarrow> rb_front r = (case rb_list r of [] \<Rightarrow> None | x # _ \<Rightarrow> Some x)"
  by (simp add: ring_ok_def rb_front_list)

lemma fill_input_ok:
  assumes hw: "rx_ok rd rx rdy" and b: "ring_ok n buf"
  shows "\<exists>k buf' h'. fill_input rd ch buf h = Some (buf', h') \<and> ring_ok n buf' \<and> k \<le> length (rx h ch) \<and>
    rb_list buf' = rb_list buf @ take k (rx h ch) \<and> rx h' = (rx h)(ch := drop k (rx h ch)) \<and>
    (rdy ch h \<and> length (rb_list buf) < unat n \<longrightarrow> 0 < k)"
  using b
proof (induction "length (rx h ch)" arbitrary: h buf rule: less_induct)
  case less
  obtain l h1 where l: "rd ch UART_RXLVL h = (l, h1)" by fastforce
  note lv = rx_level [OF hw l]
  show ?case
  proof (cases "l = 0")
    case True
    then show ?thesis using lv less.prems l by (intro exI [of _ 0] exI [of _ buf] exI [of _ h1]) (subst fill_input.simps, auto)
  next
    case False
    then have r: "rdy ch h1" "rx h ch \<noteq> []" using lv by auto
    show ?thesis
    proof (cases "length (rb_list buf) < unat n")
      case full: False
      then show ?thesis using l False lv(1) ring_push(2) [OF less.prems full] less.prems
        by (intro exI [of _ 0] exI [of _ buf] exI [of _ h1]) (subst fill_input.simps, simp)
    next
      case True
      obtain c h2 where c: "rd ch UART_RHR h1 = (c, h2)" by fastforce
      note cb = rx_byte [OF hw r(1) c]
      obtain q slot where p: "rb_push_pre buf = (q, Some slot)" "ring_ok n (rb_store slot c q)"
        "rb_list (rb_store slot c q) = rb_list buf @ [c]" using ring_push(1) [OF less.prems True] by blast
      have rx2: "rx h2 = (rx h)(ch := tl (rx h ch))" using cb(2) lv(1) by simp
      have "length (rx h2 ch) < length (rx h ch)" using r(2) rx2 by simp
      from less.hyps [OF this p(2)] obtain k buf' h' where k: "fill_input rd ch (rb_store slot c q) h2 = Some (buf', h')"
        "ring_ok n buf'" "k \<le> length (rx h2 ch)" "rb_list buf' = rb_list (rb_store slot c q) @ take k (rx h2 ch)"
        "rx h' = (rx h2)(ch := drop k (rx h2 ch))" by blast
      have "fill_input rd ch buf h = Some (buf', h')" using l False p(1) c k(1) by (subst fill_input.simps) simp
      moreover have "Suc k \<le> length (rx h ch)" using k(3) r(2) rx2 by (cases "rx h ch") auto
      moreover have "rb_list buf' = rb_list buf @ take (Suc k) (rx h ch)"
        using k(4) p(3) cb(1) lv(1) rx2 r(2) by (cases "rx h ch") auto
      moreover have "rx h' = (rx h)(ch := drop (Suc k) (rx h ch))"
        using k(5) rx2 by (simp add: fun_eq_iff drop_Suc)
      ultimately show ?thesis using k(2) by blast
    qed
  qed
qed

text \<open>Each waiting task gets the next character.\<close>

definition getc_replies :: "u32 list \<Rightarrow> u8 list \<Rightarrow> uart_out" where
  "getc_replies ws cs = map (\<lambda>(t, c). (t, UartGetcResp c 0)) (zip ws cs)"

lemma answer_getc_ok:
  assumes "ring_ok n buf" "ring_ok n' wq"
  shows "\<exists>buf' wq'. answer_getc buf wq out = Some (buf', wq', out @ getc_replies (rb_list wq) (rb_list buf), rb_list wq' = []) \<and>
    ring_ok n buf' \<and> ring_ok n' wq' \<and> rb_list wq' = drop (length (rb_list buf)) (rb_list wq) \<and>
    rb_list buf' = drop (length (rb_list wq)) (rb_list buf)"
  using assms
proof (induction "rb_list wq" arbitrary: buf wq out)
  case Nil
  then show ?case using ring_front [OF Nil(3)]
    by (intro exI [of _ buf] exI [of _ wq]) (subst answer_getc.simps, simp add: getc_replies_def)
next
  case (Cons w ws)
  note w = ring_pop [OF Cons.prems(2) Cons.hyps(2) [symmetric]]
  show ?case
  proof (cases "rb_list buf")
    case Nil
    then show ?thesis using w(1) ring_front [OF Cons.prems(1)] Cons.prems Cons.hyps(2) [symmetric]
      by (intro exI [of _ buf] exI [of _ wq]) (subst answer_getc.simps, simp add: getc_replies_def)
  next
    case (Cons c cs)
    note c = ring_pop [OF \<open>ring_ok n buf\<close> Cons]
    obtain buf' wq' where "answer_getc (rb_pop buf) (rb_pop wq) (out @ [(w, UartGetcResp c 0)]) =
        Some (buf', wq', (out @ [(w, UartGetcResp c 0)]) @ getc_replies ws cs, rb_list wq' = [])"
      "ring_ok n buf'" "ring_ok n' wq'" "rb_list wq' = drop (length cs) ws" "rb_list buf' = drop (length ws) cs"
      using Cons.hyps(1) [OF w(3) [symmetric] c(2) w(2)] unfolding w(3) c(3) by blast
    then show ?thesis using w(1) c(1) Cons Cons.hyps(2) [symmetric]
      by (intro exI [of _ buf'] exI [of _ wq']) (subst answer_getc.simps, simp add: getc_replies_def)
  qed
qed

lemma getc_replies_append:
  "getc_replies ws (cs @ ds) = getc_replies ws cs @ getc_replies (drop (length cs) ws) ds"
proof (induction cs arbitrary: ws)
  case (Cons c cs)
  then show ?case by (cases ws) (auto simp: getc_replies_def)
qed (simp add: getc_replies_def)

text \<open>
  One flush of the input of channel \<open>ch\<close>: it takes some bytes \<open>take k (rx h ch)\<close> in, answers waiting tasks in order with the bytes
  in order, and arms the notifier exactly when tasks are left waiting. The loop ends when the terminal's FIFO is empty, which is
  the channel's own only for the terminal.
\<close>

lemma uart_flush_input_ok:
  assumes hw: "rx_ok rd rx rdy" and quiet: "ch = TERM_CHANNEL \<or> (\<forall>h. fst (rd TERM_CHANNEL UART_RXLVL h) = 0)"
    and "ring_ok n buf" "ring_ok n' wq"
  shows "\<exists>k buf' wq' h'. uart_flush_input rd ch nt buf wq out h =
      Some (buf', wq', out @ getc_replies (rb_list wq) (rb_list buf @ take k (rx h ch)) @
        (if rb_list wq' = [] then [] else [(nt, UartEmptyResp)]), h') \<and>
    ring_ok n buf' \<and> ring_ok n' wq' \<and> k \<le> length (rx h ch) \<and> rx h' = (rx h)(ch := drop k (rx h ch)) \<and>
    rb_list wq' = drop (length (rb_list buf) + k) (rb_list wq) \<and>
    rb_list buf' = drop (length (rb_list wq)) (rb_list buf @ take k (rx h ch)) \<and>
    (rdy ch h \<and> length (rb_list buf) < unat n \<longrightarrow> 0 < k)"
  using assms(3,4)
proof (induction "2 * length (rx h ch) + (if rdy ch h \<and> rb_list buf = [] then 0 else 1)" arbitrary: h buf wq out rule: less_induct)
  case less
  obtain k buf1 h1 where f: "fill_input rd ch buf h = Some (buf1, h1)" "ring_ok n buf1" "k \<le> length (rx h ch)"
      "rb_list buf1 = rb_list buf @ take k (rx h ch)" "rx h1 = (rx h)(ch := drop k (rx h ch))"
      "rdy ch h \<and> length (rb_list buf) < unat n \<longrightarrow> 0 < k"
    using fill_input_ok [OF hw less.prems(1), of ch h] by blast
  define out1 where "out1 = out @ getc_replies (rb_list wq) (rb_list buf1)"
  obtain buf2 wq2 where a: "answer_getc buf1 wq out = Some (buf2, wq2, out1, rb_list wq2 = [])"
      "ring_ok n buf2" "ring_ok n' wq2" "rb_list wq2 = drop (length (rb_list buf1)) (rb_list wq)"
      "rb_list buf2 = drop (length (rb_list wq)) (rb_list buf1)"
    using answer_getc_ok [OF f(2) less.prems(2), of out] unfolding out1_def by blast
  have len1: "length (rb_list buf1) = length (rb_list buf) + k" using f(3,4) by simp
  note step = uart_flush_input.simps [of rd ch nt buf wq out h]
  obtain l h2 where l: "rd TERM_CHANNEL UART_RXLVL h1 = (l, h2)" by fastforce
  note lv = rx_level [OF hw l]
  show ?case
  proof (cases "rb_list wq2 = []")
    case True
    then show ?thesis using f a len1 by (intro exI [of _ k] exI [of _ buf2] exI [of _ wq2] exI [of _ h1]) (simp add: step out1_def)
  next
    case left: False
    then have empty: "rb_list buf2 = []" using a(4,5) by simp
    show ?thesis
    proof (cases "l = 0")
      case True
      then show ?thesis using f a len1 left l lv(1)
        by (intro exI [of _ k] exI [of _ buf2] exI [of _ wq2] exI [of _ h2]) (simp add: step out1_def)
    next
      case False
      then have ch: "ch = TERM_CHANNEL" using quiet l by (metis fst_conv)
      have r: "rdy ch h2" "rx h2 = rx h1" using lv(1,2) False by (auto simp: ch)
      have len2: "length (rx h2 ch) = length (rx h ch) - k" using r(2) f(5) by simp
      have pos: "0 < unat n" using f(2) by (auto simp: ring_ok_def rb_ok_def)
      have k: "0 < k" if "rdy ch h" "rb_list buf = []" using f(6) pos that by (simp del: length_rb_list)
      have dec: "2 * length (rx h2 ch) + (if rdy ch h2 \<and> rb_list buf2 = [] then 0 else 1)
          < 2 * length (rx h ch) + (if rdy ch h \<and> rb_list buf = [] then 0 else 1)"
        using f(3) k by (auto simp: r(1) empty len2)
      obtain k' buf' wq' h' where ih: "uart_flush_input rd ch nt buf2 wq2 out1 h2 =
          Some (buf', wq', out1 @ getc_replies (rb_list wq2) (rb_list buf2 @ take k' (rx h2 ch)) @
            (if rb_list wq' = [] then [] else [(nt, UartEmptyResp)]), h')"
          "ring_ok n buf'" "ring_ok n' wq'" "k' \<le> length (rx h2 ch)" "rx h' = (rx h2)(ch := drop k' (rx h2 ch))"
          "rb_list wq' = drop (length (rb_list buf2) + k') (rb_list wq2)"
          "rb_list buf' = drop (length (rb_list wq2)) (rb_list buf2 @ take k' (rx h2 ch))"
        using less.hyps [OF dec a(2,3), of out1] by blast
      have rx2: "rx h2 ch = drop k (rx h ch)" using r(2) f(5) by simp
      have all: "take (k + k') (rx h ch) = take k (rx h ch) @ take k' (rx h2 ch)" by (simp add: take_add rx2)
      have flush: "uart_flush_input rd ch nt buf wq out h = uart_flush_input rd ch nt buf2 wq2 out1 h2"
        using f(1) a(1) left l False by (simp add: step)
      show ?thesis
      proof (intro exI [of _ "k + k'"] exI [of _ buf'] exI [of _ wq'] exI [of _ h'] conjI)
        show "uart_flush_input rd ch nt buf wq out h =
            Some (buf', wq', out @ getc_replies (rb_list wq) (rb_list buf @ take (k + k') (rx h ch)) @
              (if rb_list wq' = [] then [] else [(nt, UartEmptyResp)]), h')"
          unfolding flush ih(1) all using empty
          by (simp add: out1_def f(4) [symmetric] a(4) getc_replies_append [of _ "rb_list buf1"] flip: append_assoc)
        show "rx h' = (rx h)(ch := drop (k + k') (rx h ch))" using ih(5) r(2) f(5) rx2 by (simp add: add.commute fun_eq_iff)
        show "rb_list wq' = drop (length (rb_list buf) + (k + k')) (rb_list wq)"
          using ih(6) a(4) empty len1 by (simp add: ac_simps)
        show "rb_list buf' = drop (length (rb_list wq)) (rb_list buf @ take (k + k') (rx h ch))"
          using ih(7) a(4) empty f(4) left len1 all by simp
        show "rdy ch h \<and> length (rb_list buf) < unat n \<longrightarrow> 0 < k + k'" using f(6) by simp
      qed (use ih(2,3,4) len2 f(3) in auto)
    qed
  qed
qed

text \<open>
  The Marklin server spins while the terminal's FIFO has a byte that nobody takes out and one of its own tasks waits in vain.
\<close>

definition input_stuck :: "'h uart_rd \<Rightarrow> u32 \<Rightarrow> u8 ring \<Rightarrow> u32 ring \<Rightarrow> 'h \<Rightarrow> bool" where
  "input_stuck rd ch buf wq h \<longleftrightarrow> rb_front wq \<noteq> None \<and> rb_front buf = None \<and> rd ch UART_RXLVL h = (0, h) \<and>
     (\<exists>l. l \<noteq> 0 \<and> rd TERM_CHANNEL UART_RXLVL h = (l, h))"

lemma input_stuckD:
  assumes "input_stuck rd ch buf wq h"
  shows "fill_input rd ch buf h = Some (buf, h)" "answer_getc buf wq out = Some (buf, wq, out, False)"
  using assms by (subst fill_input.simps answer_getc.simps, auto simp: input_stuck_def)+

lemma flush_not_stuck:
  assumes "uart_flush_input rd ch nt buf wq out h = Some r"
  shows "\<not> input_stuck rd ch buf wq h"
  using assms
proof (induction rule: uart_flush_input.raw_induct [rotated, consumes 1, case_names step])
  case (step f rd ch nt buf wq out h r)
  show ?case
  proof
    assume s: "input_stuck rd ch buf wq h"
    then have "f rd ch nt buf wq out h = Some r"
      using step(2) input_stuckD [OF s] by (auto simp: input_stuck_def)
    then show False using step(1) s by blast
  qed
qed

lemma uart_flush_input_spins: "input_stuck rd ch buf wq h \<Longrightarrow> uart_flush_input rd ch nt buf wq out h = None"
  using flush_not_stuck by (metis option.exhaust)

section \<open>The sending side\<close>

text \<open>\<open>sent h ch\<close> are the bytes written to \<open>THR\<close> of channel \<open>ch\<close> so far. Reading a register sends nothing.\<close>

definition tx_ok :: "'h uart_rd \<Rightarrow> 'h uart_wr \<Rightarrow> ('h \<Rightarrow> u32 \<Rightarrow> u8 list) \<Rightarrow> bool" where
  "tx_ok rd wr sent \<longleftrightarrow> (\<forall>ch r h. sent (snd (rd ch r h)) = sent h) \<and>
     (\<forall>ch c h. sent (wr ch UART_THR c h) = (sent h)(ch := sent h ch @ [c]))"

lemma tx_rd: "tx_ok rd wr sent \<Longrightarrow> rd ch r h = (v, h') \<Longrightarrow> sent h' = sent h"
  unfolding tx_ok_def by (metis snd_conv)

lemma tx_wr: "tx_ok rd wr sent \<Longrightarrow> sent (wr ch UART_THR c h) = (sent h)(ch := sent h ch @ [c])"
  by (simp add: tx_ok_def)

lemma term_output_loop_ok:
  assumes hw: "tx_ok rd wr sent" and b: "ring_ok n buf" "rb_list buf = c # cs"
  shows "\<exists>k buf' h'. term_output_loop rd wr c buf h = Some (buf', h', rb_list buf' \<noteq> []) \<and> ring_ok n buf' \<and>
    rb_list buf' = drop k (c # cs) \<and> sent h' = (sent h)(TERM_CHANNEL := sent h TERM_CHANNEL @ take k (c # cs))"
  using b
proof (induction cs arbitrary: c buf h)
  case (Nil c)
  obtain l h1 where l: "rd TERM_CHANNEL UART_TXLVL h = (l, h1)" by fastforce
  note q = ring_pop [OF Nil]
  show ?case
  proof (cases "l = 0")
    case True
    then show ?thesis using l Nil tx_rd [OF hw l]
      by (intro exI [of _ 0] exI [of _ buf] exI [of _ h1]) (subst term_output_loop.simps, simp)
  next
    case False
    then show ?thesis using l q ring_front [OF q(2)] tx_rd [OF hw l] tx_wr [OF hw]
      by (intro exI [of _ 1] exI [of _ "rb_pop buf"] exI [of _ "wr TERM_CHANNEL UART_THR c h1"]) (subst term_output_loop.simps, simp)
  qed
next
  case (Cons d ds c)
  obtain l h1 where l: "rd TERM_CHANNEL UART_TXLVL h = (l, h1)" by fastforce
  note q = ring_pop [OF Cons.prems]
  show ?case
  proof (cases "l = 0")
    case True
    then show ?thesis using l Cons.prems tx_rd [OF hw l]
      by (intro exI [of _ 0] exI [of _ buf] exI [of _ h1]) (subst term_output_loop.simps, simp)
  next
    case False
    define h2 where "h2 = wr TERM_CHANNEL UART_THR c h1"
    obtain k buf' h' where "term_output_loop rd wr d (rb_pop buf) h2 = Some (buf', h', rb_list buf' \<noteq> [])" "ring_ok n buf'"
        "rb_list buf' = drop k (d # ds)" "sent h' = (sent h2)(TERM_CHANNEL := sent h2 TERM_CHANNEL @ take k (d # ds))"
      using Cons.IH [OF q(2,3)] by blast
    then show ?thesis using l False ring_front [OF q(2)] q(3) tx_rd [OF hw l] tx_wr [OF hw]
      by (intro exI [of _ "Suc k"] exI [of _ buf'] exI [of _ h']) (subst term_output_loop.simps, simp add: h2_def)
  qed
qed

definition term_ok :: "UartServerTerm \<Rightarrow> bool" where
  "term_ok s \<longleftrightarrow> ring_ok INPUT_BUF_CAP (t_input_buf s) \<and> ring_ok INPUT_QUEUE_CAP (t_input_wqueue s) \<and>
     ring_ok OUTPUT_BUF_CAP (t_output_buf s)"

lemma term_flush_output_ok:
  assumes hw: "tx_ok rd wr sent" and s: "term_ok s"
  shows "\<exists>k buf h'. term_flush_output rd wr s h =
      Some (s\<lparr>t_output_buf := buf\<rparr>, if rb_list buf = [] then [] else [(t_output_notifier_tid s, UartEmptyResp)], h') \<and>
    term_ok (s\<lparr>t_output_buf := buf\<rparr>) \<and> rb_list buf = drop k (rb_list (t_output_buf s)) \<and>
    sent h' = (sent h)(TERM_CHANNEL := sent h TERM_CHANNEL @ take k (rb_list (t_output_buf s)))"
proof (cases "rb_list (t_output_buf s)")
  case Nil
  then show ?thesis using s ring_front [of _ "t_output_buf s"]
    by (intro exI [of _ 0] exI [of _ "t_output_buf s"] exI [of _ h]) (auto simp: term_flush_output_def term_ok_def)
next
  case (Cons c cs)
  have b: "ring_ok OUTPUT_BUF_CAP (t_output_buf s)" using s by (simp add: term_ok_def)
  obtain k buf' h' where "term_output_loop rd wr c (t_output_buf s) h = Some (buf', h', rb_list buf' \<noteq> [])"
      "ring_ok OUTPUT_BUF_CAP buf'" "rb_list buf' = drop k (c # cs)"
      "sent h' = (sent h)(TERM_CHANNEL := sent h TERM_CHANNEL @ take k (c # cs))"
    using term_output_loop_ok [OF hw b Cons] by blast
  then show ?thesis using s Cons ring_front [OF b]
    by (intro exI [of _ k] exI [of _ buf'] exI [of _ h']) (auto simp: term_flush_output_def term_ok_def)
qed

lemma push_str_ok:
  "ring_ok n r \<Longrightarrow> length (rb_list r) + m \<le> unat n \<Longrightarrow> i + m \<le> length str \<Longrightarrow>
    \<exists>r'. push_str str i m r = Inr r' \<and> ring_ok n r' \<and> rb_list r' = rb_list r @ take m (drop i str)"
proof (induction m arbitrary: i r)
  case (Suc m)
  then obtain q slot where p: "rb_push_pre r = (q, Some slot)" "ring_ok n (rb_store slot (str ! i) q)"
      "rb_list (rb_store slot (str ! i) q) = rb_list r @ [str ! i]"
    using ring_push(1) [OF Suc.prems(1)] by fastforce
  have "length (rb_list (rb_store slot (str ! i) q)) + m \<le> unat n" unfolding p(3) using Suc.prems(2) by simp
  then obtain r' where "push_str str (Suc i) m (rb_store slot (str ! i) q) = Inr r'" "ring_ok n r'"
      "rb_list r' = rb_list (rb_store slot (str ! i) q) @ take m (drop (Suc i) str)"
    using Suc.IH [OF p(2), of "Suc i"] Suc.prems(3) by fastforce
  then show ?case using p Suc.prems(3) by (auto simp: Cons_nth_drop_Suc [symmetric])
qed simp

lemma term_flush_input_ok:
  assumes hw: "rx_ok rd rx rdy" and s: "term_ok s"
  defines "ch \<equiv> TERM_CHANNEL" and "ws \<equiv> rb_list (t_input_wqueue s)" and "cs \<equiv> rb_list (t_input_buf s)"
  shows "\<exists>k buf wq h'. returns (term_flush_input rd s h) =
      Inr (s\<lparr>t_input_buf := buf, t_input_wqueue := wq\<rparr>, getc_replies ws (cs @ take k (rx h ch)) @
        (if rb_list wq = [] then [] else [(t_input_notifier_tid s, UartEmptyResp)]), h') \<and>
    term_ok (s\<lparr>t_input_buf := buf, t_input_wqueue := wq\<rparr>) \<and> k \<le> length (rx h ch) \<and> rx h' = (rx h)(ch := drop k (rx h ch)) \<and>
    rb_list wq = drop (length cs + k) ws \<and> rb_list buf = drop (length ws) (cs @ take k (rx h ch)) \<and>
    (rdy ch h \<and> length cs < 256 \<longrightarrow> 0 < k)"
proof -
  have r: "ring_ok INPUT_BUF_CAP (t_input_buf s)" "ring_ok INPUT_QUEUE_CAP (t_input_wqueue s)" using s by (auto simp: term_ok_def)
  have q: "ch = TERM_CHANNEL \<or> (\<forall>h. fst (rd TERM_CHANNEL UART_RXLVL h) = 0)" by (simp add: ch_def)
  obtain k buf wq h' where "uart_flush_input rd ch (t_input_notifier_tid s) (t_input_buf s) (t_input_wqueue s) [] h =
      Some (buf, wq, [] @ getc_replies ws (cs @ take k (rx h ch)) @
        (if rb_list wq = [] then [] else [(t_input_notifier_tid s, UartEmptyResp)]), h')"
      "ring_ok INPUT_BUF_CAP buf" "ring_ok INPUT_QUEUE_CAP wq" "k \<le> length (rx h ch)" "rx h' = (rx h)(ch := drop k (rx h ch))"
      "rb_list wq = drop (length cs + k) ws" "rb_list buf = drop (length ws) (cs @ take k (rx h ch))"
      "rdy ch h \<and> length cs < unat INPUT_BUF_CAP \<longrightarrow> 0 < k"
    using uart_flush_input_ok [OF hw q r, of "t_input_notifier_tid s" "[]" h] unfolding ws_def cs_def by blast
  then show ?thesis using s
    by (intro exI [of _ k] exI [of _ buf] exI [of _ wq] exI [of _ h'])
      (simp add: term_flush_input_def term_ok_def INPUT_BUF_CAP_def flip: ch_def)
qed

lemma term_getc_ok:
  assumes hw: "rx_ok rd rx rdy" and s: "term_ok s"
  defines "ch \<equiv> TERM_CHANNEL" and "ws \<equiv> rb_list (t_input_wqueue s)" and "cs \<equiv> rb_list (t_input_buf s)"
  shows "length ws < 64 \<Longrightarrow> \<exists>k buf wq h'. term_server_step rd wr tid (UartGetcReq ch) s h =
      Inr (s\<lparr>t_input_buf := buf, t_input_wqueue := wq\<rparr>, getc_replies (ws @ [tid]) (cs @ take k (rx h ch)) @
        (if rb_list wq = [] then [] else [(t_input_notifier_tid s, UartEmptyResp)]), h') \<and>
    term_ok (s\<lparr>t_input_buf := buf, t_input_wqueue := wq\<rparr>) \<and> k \<le> length (rx h ch) \<and> rx h' = (rx h)(ch := drop k (rx h ch)) \<and>
    rb_list wq = drop (length cs + k) (ws @ [tid]) \<and> rb_list buf = drop (Suc (length ws)) (cs @ take k (rx h ch)) \<and>
    (rdy ch h \<and> length cs < 256 \<longrightarrow> 0 < k)"
    "\<not> length ws < 64 \<Longrightarrow> term_server_step rd wr tid (UartGetcReq ch) s h = Inr (s, [(tid, UartGetcResp 0 (- 2))], h)"
proof -
  have q: "ring_ok INPUT_QUEUE_CAP (t_input_wqueue s)" using s by (simp add: term_ok_def)
  have cap: "unat INPUT_QUEUE_CAP = 64" by (simp add: INPUT_QUEUE_CAP_def)
  show "term_server_step rd wr tid (UartGetcReq ch) s h = Inr (s, [(tid, UartGetcResp 0 (- 2))], h)" if "\<not> length ws < 64"
    using ring_push(2) [OF q] that unfolding cap ws_def [symmetric] by (simp add: ch_def)
  assume "length ws < 64"
  then obtain wq0 slot where p: "rb_push_pre (t_input_wqueue s) = (wq0, Some slot)" "ring_ok INPUT_QUEUE_CAP (rb_store slot tid wq0)"
      "rb_list (rb_store slot tid wq0) = ws @ [tid]"
    using ring_push(1) [OF q] unfolding cap ws_def by blast
  define s1 where "s1 = s\<lparr>t_input_wqueue := rb_store slot tid wq0\<rparr>"
  have s1: "term_ok s1" "rb_list (t_input_wqueue s1) = ws @ [tid]" "rb_list (t_input_buf s1) = cs" "t_input_notifier_tid s1 = t_input_notifier_tid s"
    using s p(2,3) by (simp_all add: term_ok_def s1_def cs_def)
  have upd: "s1\<lparr>t_input_buf := buf, t_input_wqueue := wq\<rparr> = s\<lparr>t_input_buf := buf, t_input_wqueue := wq\<rparr>" for buf wq by (simp add: s1_def)
  have step: "term_server_step rd wr tid (UartGetcReq ch) s h = returns (term_flush_input rd s1 h)" using p(1) by (simp add: ch_def s1_def)
  have Suc_len: "length (ws @ [tid]) = Suc (length ws)" by simp
  show "\<exists>k buf wq h'. term_server_step rd wr tid (UartGetcReq ch) s h =
      Inr (s\<lparr>t_input_buf := buf, t_input_wqueue := wq\<rparr>, getc_replies (ws @ [tid]) (cs @ take k (rx h ch)) @
        (if rb_list wq = [] then [] else [(t_input_notifier_tid s, UartEmptyResp)]), h') \<and>
    term_ok (s\<lparr>t_input_buf := buf, t_input_wqueue := wq\<rparr>) \<and> k \<le> length (rx h ch) \<and> rx h' = (rx h)(ch := drop k (rx h ch)) \<and>
    rb_list wq = drop (length cs + k) (ws @ [tid]) \<and> rb_list buf = drop (Suc (length ws)) (cs @ take k (rx h ch)) \<and>
    (rdy ch h \<and> length cs < 256 \<longrightarrow> 0 < k)"
    using term_flush_input_ok [OF hw s1(1), of h, unfolded s1 upd Suc_len] unfolding step unfolding ch_def .
qed

lemma sint_ucast_small:
  fixes x :: u64
  assumes "x \<le> 4096"
  shows "sint (ucast x :: u32) = int (unat x)"
proof -
  have "uint x \<le> 4096" using assms by (simp add: word_le_def)
  moreover have "- (2 ^ 31) \<le> uint x" by (rule order_trans [OF _ uint_ge_0]) simp
  ultimately have "take_bit 32 (uint x) = uint x" "signed_take_bit 31 (uint x) = uint x"
    by (simp_all add: take_bit_int_eq_self signed_take_bit_int_eq_self)
  then show ?thesis by (simp add: sint_uint unsigned_ucast_eq)
qed

lemma ring_room:
  assumes "ring_ok OUTPUT_BUF_CAP r"
  shows "sint (ucast (OUTPUT_BUF_CAP - rb_len r) :: u32) = 4096 - int (length (rb_list r))"
proof -
  have le: "rb_size r \<le> 4096" using assms by (auto simp: ring_ok_def rb_ok_def OUTPUT_BUF_CAP_def)
  then have u: "unat (4096 - rb_size r) = 4096 - unat (rb_size r)" "unat (rb_size r) \<le> 4096"
    by (simp_all add: unat_sub_if_size word_le_nat_alt)
  then have "4096 - rb_size r \<le> 4096" by (simp add: word_le_nat_alt)
  then show ?thesis using u by (simp add: sint_ucast_small rb_len_def OUTPUT_BUF_CAP_def of_nat_diff)
qed

lemma term_puts_ok:
  assumes hw: "tx_ok rd wr sent" and s: "term_ok s" and n: "0 \<le> sint n" "nat (sint n) \<le> length str"
  defines "ch \<equiv> TERM_CHANNEL" and "left \<equiv> rb_list (t_output_buf s)" and "new \<equiv> take (nat (sint n)) str"
  shows "length (left @ new) \<le> 4096 \<Longrightarrow> \<exists>k buf h'. term_server_step rd wr tid (UartPutsReq ch n blocking str) s h =
      Inr (s\<lparr>t_output_buf := buf\<rparr>, (tid, UartPutsResp n) # (if rb_list buf = [] then [] else [(t_output_notifier_tid s, UartEmptyResp)]), h') \<and>
    term_ok (s\<lparr>t_output_buf := buf\<rparr>) \<and> rb_list buf = drop k (left @ new) \<and>
    sent h' = (sent h)(ch := sent h ch @ take k (left @ new))"
    "\<not> length (left @ new) \<le> 4096 \<Longrightarrow>
      term_server_step rd wr tid (UartPutsReq ch n blocking str) s h = Inr (s, [(tid, UartPutsResp (- 2))], h)"
proof -
  have b: "ring_ok OUTPUT_BUF_CAP (t_output_buf s)" using s by (simp add: term_ok_def)
  have room: "sint (ucast (OUTPUT_BUF_CAP - rb_len (t_output_buf s)) :: u32) < sint n \<longleftrightarrow> \<not> length (left @ new) \<le> 4096"
    using n unfolding ring_room [OF b] left_def [symmetric] new_def by auto
  then show "term_server_step rd wr tid (UartPutsReq ch n blocking str) s h = Inr (s, [(tid, UartPutsResp (- 2))], h)"
    if "\<not> length (left @ new) \<le> 4096" using that by (simp add: ch_def)
  assume fits: "length (left @ new) \<le> 4096"
  have "length left + nat (sint n) \<le> unat OUTPUT_BUF_CAP" using fits n by (simp add: new_def OUTPUT_BUF_CAP_def)
  then obtain buf1 where p: "push_str str 0 (nat (sint n)) (t_output_buf s) = Inr buf1" "ring_ok OUTPUT_BUF_CAP buf1"
      "rb_list buf1 = left @ new"
    using push_str_ok [OF b, of "nat (sint n)" 0 str] n(2) unfolding left_def new_def by auto
  define s1 where "s1 = s\<lparr>t_output_buf := buf1\<rparr>"
  have s1: "term_ok s1" "rb_list (t_output_buf s1) = left @ new" "t_output_notifier_tid s1 = t_output_notifier_tid s"
    using s p(2,3) by (simp_all add: term_ok_def s1_def)
  have upd: "s1\<lparr>t_output_buf := buf\<rparr> = s\<lparr>t_output_buf := buf\<rparr>" for buf by (simp add: s1_def)
  obtain k buf h' where f: "term_flush_output rd wr s1 h = Some (s\<lparr>t_output_buf := buf\<rparr>,
        if rb_list buf = [] then [] else [(t_output_notifier_tid s, UartEmptyResp)], h')"
      "term_ok (s\<lparr>t_output_buf := buf\<rparr>)" "rb_list buf = drop k (left @ new)"
      "sent h' = (sent h)(TERM_CHANNEL := sent h TERM_CHANNEL @ take k (left @ new))"
    using term_flush_output_ok [OF hw s1(1), of h, unfolded s1 upd] by blast
  show "\<exists>k buf h'. term_server_step rd wr tid (UartPutsReq ch n blocking str) s h =
      Inr (s\<lparr>t_output_buf := buf\<rparr>, (tid, UartPutsResp n) # (if rb_list buf = [] then [] else [(t_output_notifier_tid s, UartEmptyResp)]), h') \<and>
    term_ok (s\<lparr>t_output_buf := buf\<rparr>) \<and> rb_list buf = drop k (left @ new) \<and>
    sent h' = (sent h)(ch := sent h ch @ take k (left @ new))"
    using f fits room p(1) by (intro exI [of _ k] exI [of _ buf] exI [of _ h']) (simp add: ch_def flip: s1_def)
qed

section \<open>The Marklin server's output\<close>

text \<open>What is left to send of an element and of the queue.\<close>

definition elem_ok :: "OutputWaitElem \<Rightarrow> bool" where
  "elem_ok e \<longleftrightarrow> 0 \<le> sint (ow_progress e) \<and> sint (ow_progress e) < sint (ow_str_len e) \<and> nat (sint (ow_str_len e)) \<le> length (ow_str e)"

definition unsent :: "OutputWaitElem \<Rightarrow> u8 list" where
  "unsent e = drop (nat (sint (ow_progress e))) (take (nat (sint (ow_str_len e))) (ow_str e))"

definition to_send :: "UartServerMarklin \<Rightarrow> u8 list" where
  "to_send s = concat (map unsent (rb_list (output_wqueue s)))"

definition rings_ok :: "UartServerMarklin \<Rightarrow> bool" where
  "rings_ok s \<longleftrightarrow> ring_ok INPUT_BUF_CAP (input_buf s) \<and> ring_ok INPUT_QUEUE_CAP (input_wqueue s) \<and>
     ring_ok OUTPUT_QUEUE_CAP (output_wqueue s) \<and> (\<forall>e\<in>set (rb_list (output_wqueue s)). elem_ok e)"

text \<open>Between two requests the server is not ready unless it has nothing to send.\<close>

definition marklin_ok :: "UartServerMarklin \<Rightarrow> bool" where
  "marklin_ok s \<longleftrightarrow> rings_ok s \<and> (output_status s = OS_READY \<longrightarrow> rb_list (output_wqueue s) = [])"

lemma sint_Suc:
  fixes x y :: u32
  assumes "sint x < sint y"
  shows "sint (x + 1) = sint x + 1"
proof -
  have b: "- (2 ^ 31) \<le> sint x + 1" "sint x + 1 < 2 ^ 31"
    using assms sint_lt [of y] sint_ge [of x] by auto
  have "sint (x + 1) = signed_take_bit 31 (sint x + 1)" by (simp add: sint_word_ariths)
  then show ?thesis using b by (simp add: signed_take_bit_int_eq_self)
qed

lemma unsent_step:
  assumes "elem_ok e"
  defines "i \<equiv> nat (sint (ow_progress e))" and "e' \<equiv> e\<lparr>ow_progress := ow_progress e + 1\<rparr>"
  shows "i < length (ow_str e)" "unsent e = ow_str e ! i # unsent e'"
    "sint (ow_progress e') \<ge> sint (ow_str_len e') \<longleftrightarrow> unsent e' = []" "unsent e' \<noteq> [] \<Longrightarrow> elem_ok e'"
proof -
  have e: "0 \<le> sint (ow_progress e)" "sint (ow_progress e) < sint (ow_str_len e)" "nat (sint (ow_str_len e)) \<le> length (ow_str e)"
    using assms(1) by (auto simp: elem_ok_def)
  have p: "sint (ow_progress e') = sint (ow_progress e) + 1" using sint_Suc [OF e(2)] by (simp add: e'_def)
  then have i': "nat (sint (ow_progress e')) = Suc i" using e(1) by (simp add: i_def)
  have same: "ow_str_len e' = ow_str_len e" "ow_str e' = ow_str e" by (simp_all add: e'_def)
  have il: "i < nat (sint (ow_str_len e))" using e by (simp add: i_def)
  show "i < length (ow_str e)" using il e(3) by simp
  have "unsent e = drop i (take (nat (sint (ow_str_len e))) (ow_str e))" by (simp add: unsent_def i_def)
  then show "unsent e = ow_str e ! i # unsent e'"
    using il e(3) by (simp add: unsent_def i' same drop_take Cons_nth_drop_Suc [symmetric] Suc_diff_Suc [symmetric])
  show fin: "sint (ow_progress e') \<ge> sint (ow_str_len e') \<longleftrightarrow> unsent e' = []"
    using e p by (simp add: unsent_def i' same i_def) linarith
  show "unsent e' \<noteq> [] \<Longrightarrow> elem_ok e'" using e p fin by (auto simp: elem_ok_def same)
qed

lemma ring_peek_front:
  assumes "ring_ok n r" "rb_list r = x # xs"
  shows "\<exists>i. rb_peek r = Some i \<and> rb_array r ! unat i = x \<and> ring_ok n (rb_store i v r) \<and> rb_list (rb_store i v r) = v # xs"
proof -
  have ok: "rb_ok r" using assms(1) by (simp add: ring_ok_def)
  note b = rb_ok_nat [OF ok]
  obtain i where i: "rb_peek r = Some i" "rb_array r ! unat i = x"
    using ring_pop(1) [OF assms] by (auto simp: rb_front_def)
  then have i0: "unat i = rb_idx r 0" using unat_peek_idx [OF ok] by (auto simp: rb_peek_def split: if_splits)
  have other: "rb_idx r j \<noteq> rb_idx r 0" if "0 < j" "j < unat (rb_size r)" for j
  proof
    assume "rb_idx r j = rb_idx r 0"
    then have "j mod unat (rb_capacity r) = 0"
      by (metis (no_types, lifting) rb_idx_def add_0_right mod_eq_dvd_iff_nat add_diff_cancel_left' le_add1 mod_0_imp_dvd dvd_imp_mod_0)
    then show False using that b(2) by simp
  qed
  have idx: "rb_idx (rb_store i v r) = rb_idx r" "rb_size (rb_store i v r) = rb_size r" by (auto simp: rb_idx_def rb_store_def)
  have arr: "rb_array (rb_store i v r) = (rb_array r)[rb_idx r 0 := v]" by (simp add: rb_store_def i0)
  have "length (rb_list r) = Suc (length xs)" using assms(2) by simp
  then have sz: "unat (rb_size r) = Suc (length xs)" by simp
  have nth: "rb_list (rb_store i v r) ! j = (v # xs) ! j" if "j < Suc (length xs)" for j
  proof -
    have "rb_list (rb_store i v r) ! j = (if j = 0 then v else rb_array r ! rb_idx r j)"
      using that b(5) rb_idx_less [OF ok, of 0] other [of j]
      by (auto simp: rb_list_def idx sz arr nth_list_update simp del: upt_Suc)
    moreover have "rb_list r ! j = rb_array r ! rb_idx r j" using that by (simp add: rb_list_def sz del: upt_Suc)
    ultimately show ?thesis using assms(2) by (cases j) auto
  qed
  have "rb_list (rb_store i v r) = v # xs"
    by (rule nth_equalityI) (use nth sz idx in auto)
  moreover have "ring_ok n (rb_store i v r)" using assms(1) by (auto simp: ring_ok_def rb_ok_def rb_store_def)
  ultimately show ?thesis using i by blast
qed

text \<open>
  The replies of a flush of the elements \<open>es\<close> that leaves the server in status \<open>st\<close>: the notifier is armed when the FIFO has no room, and a blocking
  task is answered with the last byte of its string.
\<close>

definition flush_replies :: "u32 \<Rightarrow> OutputWaitElem list \<Rightarrow> OutputStatus \<Rightarrow> uart_out" where
  "flush_replies nt es st = (case (st, es) of
       (OS_WAIT_TX, _) \<Rightarrow> [(nt, UartEmptyResp)]
     | (OS_WAIT_CTS, e # _) \<Rightarrow> if length (unsent e) = 1 \<and> ow_blocking e then [(ow_tid e, UartPutsResp 0)] else []
     | _ \<Rightarrow> [])"

text \<open>
  \<open>out_step sent s h s' h' d\<close>: from \<open>s\<close> to \<open>s'\<close> the bytes \<open>d\<close> have gone out of the front of the queue, at most one, and then
  the server waits for CTS.
\<close>

definition out_step :: "('h \<Rightarrow> u32 \<Rightarrow> u8 list) \<Rightarrow> UartServerMarklin \<Rightarrow> 'h \<Rightarrow> UartServerMarklin \<Rightarrow> 'h \<Rightarrow> u8 list \<Rightarrow> bool" where
  "out_step sent s h s' h' d \<longleftrightarrow> marklin_ok s' \<and> to_send s = d @ to_send s' \<and>
     sent h' = (sent h)(MARKLIN_CHANNEL := sent h MARKLIN_CHANNEL @ d) \<and> length d \<le> 1 \<and> (d \<noteq> [] \<longleftrightarrow> output_status s' = OS_WAIT_CTS)"

lemma unsent_nonempty: "elem_ok e \<Longrightarrow> unsent e \<noteq> []"
  using unsent_step(2) by fastforce

lemma marklin_flush_ready:
  assumes hw: "tx_ok rd wr sent" and s: "rings_ok s" "output_status s = OS_READY"
  shows "\<exists>st q h' d. marklin_flush_output rd wr s out h =
      Some (Inr (s\<lparr>output_status := st, output_wqueue := q\<rparr>, out @ flush_replies (output_notifier_tid s) (rb_list (output_wqueue s)) st, h')) \<and>
    out_step sent s h (s\<lparr>output_status := st, output_wqueue := q\<rparr>) h' d"
proof (cases "rb_list (output_wqueue s)")
  case Nil
  let ?q = "output_wqueue s"
  have "rb_peek ?q = None" using ring_front [of _ ?q] s(1) Nil by (auto simp: rings_ok_def rb_front_def)
  moreover have "s\<lparr>output_status := OS_READY, output_wqueue := ?q\<rparr> = s" using s(2) by simp
  ultimately show ?thesis using s Nil
    by (intro exI [of _ OS_READY] exI [of _ ?q] exI [of _ h] exI [of _ "[]"])
      (subst marklin_flush_output.simps, simp add: flush_replies_def out_step_def marklin_ok_def rings_ok_def to_send_def)
next
  case (Cons e es)
  let ?q = "output_wqueue s"
  have q: "ring_ok OUTPUT_QUEUE_CAP ?q" and e: "elem_ok e" and es: "\<forall>e\<in>set es. elem_ok e" using s(1) Cons by (auto simp: rings_ok_def)
  obtain l h1 where l: "rd MARKLIN_CHANNEL UART_TXLVL h = (l, h1)" by fastforce
  have h1: "sent h1 = sent h" using tx_rd [OF hw l] .
  define e' where "e' = e\<lparr>ow_progress := ow_progress e + 1\<rparr>"
  obtain i where i: "rb_peek ?q = Some i" "rb_array ?q ! unat i = e" "ring_ok OUTPUT_QUEUE_CAP (rb_store i e' ?q)"
      "rb_list (rb_store i e' ?q) = e' # es" using ring_peek_front [OF q Cons, of e'] by blast
  note u = unsent_step [OF e, folded e'_def]
  show ?thesis
  proof (cases "l = 0")
    case True
    let ?s = "s\<lparr>output_status := OS_WAIT_TX, output_wqueue := ?q\<rparr>"
    have "marklin_flush_output rd wr s out h = Some (Inr (?s, out @ flush_replies (output_notifier_tid s) (rb_list (output_wqueue s)) OS_WAIT_TX, h1))"
      using True l i(1) s(2) by (subst marklin_flush_output.simps) (simp add: flush_replies_def)
    moreover have "out_step sent s h ?s h1 []" using s h1 by (simp add: out_step_def marklin_ok_def rings_ok_def to_send_def)
    ultimately show ?thesis by blast
  next
    case False
    define b where "b = ow_str e ! nat (sint (ow_progress e))"
    define q' where "q' = (if unsent e' = [] then rb_pop (rb_store i e' ?q) else rb_store i e' ?q)"
    let ?s = "s\<lparr>output_status := OS_WAIT_CTS, output_wqueue := q'\<rparr>"
    let ?h = "wr MARKLIN_CHANNEL UART_THR b h1"
    have rep: "flush_replies (output_notifier_tid s) (rb_list (output_wqueue s)) OS_WAIT_CTS = (if unsent e' = [] \<and> ow_blocking e then [(ow_tid e, UartPutsResp 0)] else [])"
      using u(2) by (simp add: flush_replies_def Cons)
    have pr: "0 \<le> sint (ow_progress e) \<and> nat (sint (ow_progress e)) < length (ow_str e)" using e u(1) by (simp add: elem_ok_def)
    have same: "ow_tid e' = ow_tid e" "ow_blocking e' = ow_blocking e" by (simp_all add: e'_def)
    have "marklin_flush_output rd wr ?s o2 ?h = Some (Inr (?s, o2, ?h))" for o2
      by (subst marklin_flush_output.simps) simp
    then have run: "marklin_flush_output rd wr s out h = Some (Inr (?s, out @ flush_replies (output_notifier_tid s) (rb_list (output_wqueue s)) OS_WAIT_CTS, ?h))"
      using False l i(1,2) s(2) pr u(3)
      by (subst marklin_flush_output.simps) (simp add: Let_def rep same q'_def flip: e'_def b_def)
    have q': "ring_ok OUTPUT_QUEUE_CAP q'" "rb_list q' = (if unsent e' = [] then es else e' # es)"
      using ring_pop(2,3) [OF i(3,4)] i(3,4) by (auto simp: q'_def)
    have "out_step sent s h ?s ?h [b]"
      using s(1) q' u(2,4) es h1 tx_wr [OF hw]
      by (auto simp: out_step_def marklin_ok_def rings_ok_def to_send_def Cons b_def)
    with run show ?thesis by blast
  qed
qed

lemma marklin_puts_ok:
  fixes blocking tid
  assumes hw: "tx_ok rd wr sent" and s: "marklin_ok s" and n: "0 < sint n" "nat (sint n) \<le> length str"
  defines "e \<equiv> \<lparr>ow_tid = tid, ow_progress = 0, ow_str_len = n, ow_blocking = blocking, ow_str = str\<rparr>"
    and "es \<equiv> rb_list (output_wqueue s)" and "req \<equiv> UartPutsReq MARKLIN_CHANNEL n blocking str"
  shows "\<not> length es < 64 \<Longrightarrow> marklin_server_step rd wr tid req s h = Inr (s, [(tid, UartPutsResp (- 2))], h)"
    "length es < 64 \<Longrightarrow> \<exists>s1. rings_ok s1 \<and> output_status s1 = output_status s \<and> rb_list (output_wqueue s1) = es @ [e] \<and>
      (\<forall>st q. s1\<lparr>output_status := st, output_wqueue := q\<rparr> = s\<lparr>output_status := st, output_wqueue := q\<rparr>) \<and>
      to_send s1 = to_send s @ take (nat (sint n)) str \<and>
      marklin_server_step rd wr tid req s h =
        bindR (returns (marklin_flush_output rd wr s1 (if blocking then [] else [(tid, UartPutsResp 0)]) h)) (\<lambda>r. r)"
proof -
  have q: "ring_ok OUTPUT_QUEUE_CAP (output_wqueue s)" using s by (simp add: marklin_ok_def rings_ok_def)
  have cap: "unat OUTPUT_QUEUE_CAP = 64" by (simp add: OUTPUT_QUEUE_CAP_def)
  have n0: "n \<noteq> 0" using n(1) by auto
  show "\<not> length es < 64 \<Longrightarrow> marklin_server_step rd wr tid req s h = Inr (s, [(tid, UartPutsResp (- 2))], h)"
    using ring_push(2) [OF q] n0 unfolding cap es_def [symmetric] by (simp add: req_def)
  assume "length es < 64"
  then obtain q0 slot where p: "rb_push_pre (output_wqueue s) = (q0, Some slot)" "ring_ok OUTPUT_QUEUE_CAP (rb_store slot e q0)"
      "rb_list (rb_store slot e q0) = es @ [e]"
    using ring_push(1) [OF q] unfolding cap es_def by blast
  have e: "elem_ok e" "unsent e = take (nat (sint n)) str" using n by (simp_all add: elem_ok_def unsent_def e_def)
  define s1 where "s1 = s\<lparr>output_wqueue := rb_store slot e q0\<rparr>"
  have "rings_ok s1" "to_send s1 = to_send s @ take (nat (sint n)) str" "rb_list (output_wqueue s1) = es @ [e]" "output_status s1 = output_status s"
    using s p(2,3) e by (auto simp: marklin_ok_def rings_ok_def s1_def to_send_def es_def)
  moreover have "marklin_server_step rd wr tid req s h =
        bindR (returns (marklin_flush_output rd wr s1 (if blocking then [] else [(tid, UartPutsResp 0)]) h)) (\<lambda>r. r)"
    using p(1) n0 by (simp add: req_def Let_def s1_def flip: e_def)
  moreover have "s1\<lparr>output_status := st, output_wqueue := q\<rparr> = s\<lparr>output_status := st, output_wqueue := q\<rparr>" for st q by (simp add: s1_def)
  ultimately show "\<exists>s1. rings_ok s1 \<and> output_status s1 = output_status s \<and> rb_list (output_wqueue s1) = es @ [e] \<and>
      (\<forall>st q. s1\<lparr>output_status := st, output_wqueue := q\<rparr> = s\<lparr>output_status := st, output_wqueue := q\<rparr>) \<and>
      to_send s1 = to_send s @ take (nat (sint n)) str \<and>
      marklin_server_step rd wr tid req s h =
        bindR (returns (marklin_flush_output rd wr s1 (if blocking then [] else [(tid, UartPutsResp 0)]) h)) (\<lambda>r. r)"
    by blast
qed

text \<open>
  A request about output, seen from outside: the elements it adds to the queue, the replies it gets at once, and whether the
  queue is served: a string when the server is ready, an interrupt when the server waits for it.
\<close>

fun enqueued :: "u32 \<Rightarrow> uart_request \<Rightarrow> OutputWaitElem list \<Rightarrow> OutputWaitElem list" where
  "enqueued tid (UartPutsReq ch n blocking str) es = (if length es < 64
     then [\<lparr>ow_tid = tid, ow_progress = 0, ow_str_len = n, ow_blocking = blocking, ow_str = str\<rparr>] else [])"
| "enqueued tid _ es = []"

fun at_once :: "u32 \<Rightarrow> uart_request \<Rightarrow> UartServerMarklin \<Rightarrow> uart_out" where
  "at_once tid (UartPutsReq ch n blocking str) s = (if \<not> length (rb_list (output_wqueue s)) < 64 then [(tid, UartPutsResp (- 2))]
     else if blocking then [] else [(tid, UartPutsResp 0)])"
| "at_once tid UartMarklinCtsReq s = [(cts_notifier_tid s, UartEmptyResp)]"
| "at_once tid _ s = []"

fun serves :: "uart_request \<Rightarrow> UartServerMarklin \<Rightarrow> bool" where
  "serves (UartPutsReq ch n blocking str) s \<longleftrightarrow> output_status s = OS_READY"
| "serves UartMarklinOutputReq s \<longleftrightarrow> output_status s = OS_WAIT_TX"
| "serves UartMarklinCtsReq s \<longleftrightarrow> output_status s = OS_WAIT_CTS"
| "serves _ s \<longleftrightarrow> False"

fun output_request :: "uart_request \<Rightarrow> UartServerMarklin \<Rightarrow> bool" where
  "output_request (UartPutsReq ch n blocking str) s \<longleftrightarrow> ch = MARKLIN_CHANNEL \<and> 0 < sint n \<and> nat (sint n) \<le> length str"
| "output_request UartMarklinOutputReq s \<longleftrightarrow> output_status s = OS_WAIT_TX \<or> output_status s = OS_READY \<and> first s"
| "output_request UartMarklinCtsReq s \<longleftrightarrow> True"
| "output_request _ s \<longleftrightarrow> False"

definition out_done :: "('h \<Rightarrow> u32 \<Rightarrow> u8 list) \<Rightarrow> u32 \<Rightarrow> uart_request \<Rightarrow> UartServerMarklin \<Rightarrow> 'h \<Rightarrow>
    (UartServerMarklin \<times> uart_out \<times> 'h) res \<Rightarrow> bool" where
  "out_done sent tid req s h r \<longleftrightarrow> (\<exists>s' h' d.
     let es = rb_list (output_wqueue s) @ enqueued tid req (rb_list (output_wqueue s)) in
     r = Inr (s', at_once tid req s @ (if serves req s then flush_replies (output_notifier_tid s) es (output_status s') else []), h') \<and>
     marklin_ok s' \<and> concat (map unsent es) = d @ to_send s' \<and>
     sent h' = (sent h)(MARKLIN_CHANNEL := sent h MARKLIN_CHANNEL @ d) \<and>
     length d \<le> 1 \<and> (d \<noteq> [] \<longrightarrow> serves req s \<and> output_status s' = OS_WAIT_CTS))"

lemma flushed_done:
  assumes hw: "tx_ok rd wr sent" and s1: "rings_ok s1" "output_status s1 = OS_READY"
    and es: "rb_list (output_wqueue s1) = rb_list (output_wqueue s) @ enqueued tid req (rb_list (output_wqueue s))"
    and eq: "output_notifier_tid s1 = output_notifier_tid s" "sent h1 = sent h"
    and serves: "serves req s"
  shows "out_done sent tid req s h (bindR (returns (marklin_flush_output rd wr s1 (at_once tid req s) h1)) (\<lambda>r. r))"
proof -
  obtain st q h' d where f: "marklin_flush_output rd wr s1 (at_once tid req s) h1 = Some (Inr (s1\<lparr>output_status := st, output_wqueue := q\<rparr>,
        at_once tid req s @ flush_replies (output_notifier_tid s1) (rb_list (output_wqueue s1)) st, h'))"
      "out_step sent s1 h1 (s1\<lparr>output_status := st, output_wqueue := q\<rparr>) h' d"
    using marklin_flush_ready [OF hw s1] by blast
  then show ?thesis unfolding out_done_def f(1) using serves es eq
    by (intro exI [of _ "s1\<lparr>output_status := st, output_wqueue := q\<rparr>"] exI [of _ h'] exI [of _ d])
      (auto simp: out_step_def to_send_def Let_def)
qed

lemma idle_done:
  assumes "r = Inr (s', at_once tid req s, h)" "\<not> serves req s" "marklin_ok s'"
    "rb_list (output_wqueue s') = rb_list (output_wqueue s) @ enqueued tid req (rb_list (output_wqueue s))"
  shows "out_done sent tid req s h r"
  using assms by (auto simp: out_done_def Let_def to_send_def)

lemma marklin_output_ok:
  assumes hw: "tx_ok rd wr sent" and s: "marklin_ok s" and req: "output_request req s"
  shows "out_done sent tid req s h (marklin_server_step rd wr tid req s h)"
proof (cases req)
  case (UartPutsReq ch n blocking str)
  then have n: "ch = MARKLIN_CHANNEL" "0 < sint n" "nat (sint n) \<le> length str" using req by auto
  note puts = marklin_puts_ok [OF hw s n(2,3), of tid blocking h]
  show ?thesis
  proof (cases "length (rb_list (output_wqueue s)) < 64")
    case True
    obtain s1 where s1: "rings_ok s1" "output_status s1 = output_status s"
        "rb_list (output_wqueue s1) = rb_list (output_wqueue s) @ enqueued tid req (rb_list (output_wqueue s))"
        "\<And>st q. s1\<lparr>output_status := st, output_wqueue := q\<rparr> = s\<lparr>output_status := st, output_wqueue := q\<rparr>"
        "marklin_server_step rd wr tid req s h = bindR (returns (marklin_flush_output rd wr s1 (at_once tid req s) h)) (\<lambda>r. r)"
      using puts(2) [OF True] True by (auto simp: UartPutsReq n(1))
    have nt: "output_notifier_tid s1 = output_notifier_tid s"
      using arg_cong [OF s1(4), of output_notifier_tid] by simp
    show ?thesis
    proof (cases "output_status s = OS_READY")
      case True
      then show ?thesis unfolding s1(5) using s1 by (intro flushed_done [OF hw _ _ s1(3) nt]) (simp_all add: UartPutsReq)
    next
      case False
      have "marklin_flush_output rd wr s1 (at_once tid req s) h = Some (Inr (s1, at_once tid req s, h))"
        using False s1(2) by (subst marklin_flush_output.simps) simp
      then show ?thesis using False s1 by (intro idle_done [of _ s1]) (auto simp: marklin_ok_def UartPutsReq)
    qed
  next
    case False
    show ?thesis
    proof (cases "output_status s = OS_READY")
      case True
      then show ?thesis using False s by (simp add: marklin_ok_def del: length_rb_list)
    next
      case notready: False
      then show ?thesis using puts(1) [OF False] False s by (intro idle_done [of _ s]) (auto simp: UartPutsReq n(1))
    qed
  qed
next
  case UartMarklinOutputReq
  let ?s = "s\<lparr>output_status := OS_READY\<rparr>"
  consider "output_status s = OS_WAIT_TX" | "output_status s = OS_READY" "first s" using req UartMarklinOutputReq by auto
  then show ?thesis
  proof cases
    case 1
    have "rings_ok ?s" using s by (simp add: marklin_ok_def rings_ok_def)
    then have "out_done sent tid req s h (bindR (returns (marklin_flush_output rd wr ?s (at_once tid req s) h)) (\<lambda>r. r))"
      by (intro flushed_done [OF hw]) (simp_all add: UartMarklinOutputReq 1)
    then show ?thesis by (simp add: UartMarklinOutputReq 1)
  next
    case 2
    then show ?thesis using s
      by (intro idle_done [of _ "s\<lparr>first := False\<rparr>"]) (simp_all add: UartMarklinOutputReq marklin_ok_def rings_ok_def)
  qed
next
  case UartMarklinCtsReq
  obtain l h1 where l: "rd MARKLIN_CHANNEL UART_TXLVL h = (l, h1)" by fastforce
  have h1: "sent h1 = sent h" using tx_rd [OF hw l] .
  show ?thesis
  proof (cases "output_status s = OS_WAIT_CTS")
    case False
    then show ?thesis using s by (intro idle_done [of _ s]) (simp_all add: UartMarklinCtsReq Let_def)
  next
    case cts: True
    show ?thesis
    proof (cases "l = 0")
      case True
      let ?s = "s\<lparr>output_status := OS_WAIT_TX\<rparr>"
      show ?thesis unfolding out_done_def using True cts l s h1
        by (intro exI [of _ ?s] exI [of _ h1] exI [of _ "[]"])
          (simp add: UartMarklinCtsReq Let_def flush_replies_def marklin_ok_def rings_ok_def to_send_def)
    next
      case False
      let ?s = "s\<lparr>output_status := OS_READY\<rparr>"
      have "rings_ok ?s" using s by (simp add: marklin_ok_def rings_ok_def)
      then have "out_done sent tid req s h (bindR (returns (marklin_flush_output rd wr ?s (at_once tid req s) h1)) (\<lambda>r. r))"
        by (intro flushed_done [OF hw]) (simp_all add: UartMarklinCtsReq cts h1)
      then show ?thesis using False cts l by (simp add: UartMarklinCtsReq Let_def)
    qed
  qed
qed (use req in auto)

section \<open>The Marklin server's input\<close>

lemma marklin_flush_input_ok:
  assumes hw: "rx_ok rd rx rdy" and quiet: "\<forall>h. fst (rd TERM_CHANNEL UART_RXLVL h) = 0" and s: "rings_ok s"
  defines "ch \<equiv> MARKLIN_CHANNEL" and "ws \<equiv> rb_list (input_wqueue s)" and "cs \<equiv> rb_list (input_buf s)"
  shows "\<exists>k buf wq h'. marklin_server_step rd wr tid UartMarklinInputReq s h =
      Inr (s\<lparr>input_buf := buf, input_wqueue := wq\<rparr>, getc_replies ws (cs @ take k (rx h ch)) @
        (if rb_list wq = [] then [] else [(input_notifier_tid s, UartEmptyResp)]), h') \<and>
    rings_ok (s\<lparr>input_buf := buf, input_wqueue := wq\<rparr>) \<and> rx h' = (rx h)(ch := drop k (rx h ch)) \<and>
    rb_list wq = drop (length cs + k) ws \<and> rb_list buf = drop (length ws) (cs @ take k (rx h ch)) \<and>
    (rdy ch h \<and> length cs < 256 \<longrightarrow> 0 < k)"
proof -
  have r: "ring_ok INPUT_BUF_CAP (input_buf s)" "ring_ok INPUT_QUEUE_CAP (input_wqueue s)" using s by (auto simp: rings_ok_def)
  obtain k buf wq h' where "uart_flush_input rd ch (input_notifier_tid s) (input_buf s) (input_wqueue s) [] h =
      Some (buf, wq, [] @ getc_replies ws (cs @ take k (rx h ch)) @
        (if rb_list wq = [] then [] else [(input_notifier_tid s, UartEmptyResp)]), h')"
      "ring_ok INPUT_BUF_CAP buf" "ring_ok INPUT_QUEUE_CAP wq" "rx h' = (rx h)(ch := drop k (rx h ch))"
      "rb_list wq = drop (length cs + k) ws" "rb_list buf = drop (length ws) (cs @ take k (rx h ch))"
      "rdy ch h \<and> length cs < unat INPUT_BUF_CAP \<longrightarrow> 0 < k"
    using uart_flush_input_ok [OF hw disjI2 [OF quiet] r, of ch "input_notifier_tid s" "[]" h] unfolding ws_def cs_def by blast
  then show ?thesis using s
    by (intro exI [of _ k] exI [of _ buf] exI [of _ wq] exI [of _ h'])
      (simp add: marklin_flush_input_def rings_ok_def INPUT_BUF_CAP_def flip: ch_def)
qed

lemma marklin_flush_spins:
  assumes s: "rings_ok s" and ws: "rb_list (input_wqueue s) \<noteq> []" "rb_list (input_buf s) = []"
    and hw: "rd MARKLIN_CHANNEL UART_RXLVL h = (0, h)" "l \<noteq> 0" "rd TERM_CHANNEL UART_RXLVL h = (l, h)"
  shows "marklin_server_step rd wr tid UartMarklinInputReq s h = Inl Diverges"
proof -
  have "input_stuck rd MARKLIN_CHANNEL (input_buf s) (input_wqueue s) h"
    using s ws hw by (auto simp: input_stuck_def rings_ok_def ring_front split: list.splits)
  then show ?thesis by (simp add: marklin_flush_input_def uart_flush_input_spins)
qed

section \<open>A line to try the servers on\<close>

text \<open>Channel \<open>line\<close> has bytes to deliver; both take a byte at any time. The state is the bytes to come and those written.\<close>

type_synonym demo_line = "u8 list \<times> (u32 \<times> u8) list"

definition demo_rd :: "u32 \<Rightarrow> demo_line uart_rd" where
  "demo_rd line ch r = (\<lambda>(inp, outp).
     if r = UART_TXLVL then (1, inp, outp)
     else if ch = line \<and> inp \<noteq> [] then
       if r = UART_RXLVL then (1, inp, outp) else if r = UART_RHR then (hd inp, tl inp, outp) else (0, inp, outp)
     else (0, inp, outp))"

definition demo_wr :: "demo_line uart_wr" where
  "demo_wr ch r c = (\<lambda>(inp, outp). (inp, if r = UART_THR then outp @ [(ch, c)] else outp))"

definition demo_rx :: "u32 \<Rightarrow> demo_line \<Rightarrow> u32 \<Rightarrow> u8 list" where
  "demo_rx line h ch = (if ch = line then fst h else [])"

definition demo_rdy :: "u32 \<Rightarrow> u32 \<Rightarrow> demo_line \<Rightarrow> bool" where
  "demo_rdy line ch h \<longleftrightarrow> ch = line \<and> fst h \<noteq> []"

definition demo_sent :: "demo_line \<Rightarrow> u32 \<Rightarrow> u8 list" where
  "demo_sent h ch = map snd (filter (\<lambda>(c, b). c = ch) (snd h))"

lemma demo_rx_ok: "rx_ok (demo_rd line) (demo_rx line) (demo_rdy line)"
  by (auto simp: rx_ok_def demo_rd_def demo_rx_def demo_rdy_def fun_eq_iff UART_RXLVL_def UART_RHR_def UART_TXLVL_def)

lemma demo_tx_ok: "tx_ok (demo_rd line) demo_wr demo_sent"
  by (auto simp: tx_ok_def demo_rd_def demo_wr_def demo_sent_def fun_eq_iff split: prod.splits)

lemma rb_init_ring: "0 < unat n \<Longrightarrow> unat n < 2 ^ 62 \<Longrightarrow> ring_ok n (rb_init z n)"
  using rb_init_ok [of n z] by (simp add: ring_ok_def rb_init_def)

lemma term_start:
  "0 \<le> sint a \<Longrightarrow> 0 \<le> sint b \<Longrightarrow> \<exists>s. term_server_init a b = Inr s \<and> term_ok s \<and> rb_list (t_input_wqueue s) = [] \<and>
    rb_list (t_input_buf s) = [] \<and> rb_list (t_output_buf s) = [] \<and> t_input_notifier_tid s = b \<and> t_output_notifier_tid s = a"
  by (simp add: term_server_init_def term_ok_def rb_init_ring input_caps OUTPUT_BUF_CAP_def)

lemma marklin_start:
  "0 \<le> sint a \<Longrightarrow> 0 \<le> sint b \<Longrightarrow> 0 \<le> sint c \<Longrightarrow> \<exists>s. marklin_server_init a b c = Inr s \<and> marklin_ok s \<and>
    rb_list (output_wqueue s) = [] \<and> output_status s = OS_READY \<and> output_notifier_tid s = a \<and> cts_notifier_tid s = c"
  by (simp add: marklin_server_init_def marklin_ok_def rings_ok_def rb_init_ring input_caps OUTPUT_QUEUE_CAP_def)

lemma marklin_waiting:
  "\<exists>s. rings_ok s \<and> rb_list (input_wqueue s) = [tid] \<and> rb_list (input_buf s) = []"
proof -
  obtain s where s: "marklin_server_init 4 5 6 = Inr s" "rings_ok s" using marklin_start [of 4 5 6] by (auto simp: marklin_ok_def)
  then have e: "rb_list (input_wqueue s) = []" "rb_list (input_buf s) = []" "ring_ok INPUT_QUEUE_CAP (input_wqueue s)"
    by (auto simp: marklin_server_init_def rings_ok_def)
  then obtain q slot where "ring_ok INPUT_QUEUE_CAP (rb_store slot tid q)" "rb_list (rb_store slot tid q) = [tid]"
    using ring_push(1) [OF e(3), of tid] by (auto simp: INPUT_QUEUE_CAP_def)
  then show ?thesis using s(2) e by (intro exI [of _ "s\<lparr>input_wqueue := rb_store slot tid q\<rparr>"]) (simp add: rings_ok_def)
qed

end
