(* ===== verification/Spec2Isabelle.thy ===== *)
theory Spec2Isabelle
  imports Prelude Macros MathLib DList RingBuf PrioHeap Pgmgr PgInit Slab BootMem Util LeMem Timer Gpio Encoder Kernel Syscalls KLoop SchedInv
    KMem IpcInv Ipc Proc Wake KRun Spare KBoot Rendezvous KWitness Mmu Spi LList Clock NameServer LoaderArgs Elf Loader LoaderWitness Rps UartServ
begin

text \<open>
  A development for trains-os, a microkernel for the Raspberry Pi 4 (AArch64) with message passing, and the
  libraries and servers it runs.

  \<^bold>\<open>The program.\<close> The kernel (src/kernel) owns the processor. Its loop (kernel/src/loop.c) takes the most urgent ready
  task from a heap, runs it until a system call or an interrupt, handles that, and puts the task back unless the
  handler has blocked or ended it. Tasks exchange messages with \<open>Send\<close>, \<open>Receive\<close> and \<open>Reply\<close>
  (kernel/src/syscall_handler.c over kernel/include/mailbox.h), wait for interrupts with \<open>AwaitEvent\<close>
  (kernel/src/interrupt.c), and get memory with \<open>Mmap\<close>. Pages come from a buddy allocator (kernel/src/pgmgr.c), task
  descriptors from a slab allocator on top of it (lib/libslab/slab.c). Lists, heaps, rings and hash tables are the
  macros of lib/include. In user space, servers answer requests (src/user/src): names, delays, games of rock-paper-scissors,
  the two UART lines. A new program begins in the loader (src/loader), which finds its image by name, reads it as an ELF
  file, copies its segments into memory from \<open>Mmap\<close>, relocates them and jumps to the entry point.

  \<^bold>\<open>The theories\<close>, in the order of the imports.
  \<^item> Prelude: machine integers as words (\<open>u8\<close> to \<open>u64\<close>, wrapping), the fault monad \<open>'a res\<close> (a failed assertion, which in the
    program is an endless loop, a null dereference, an index out of bounds, a division by zero, a loop that does not
    end), and the lemmas on words and lists everything uses. Macros and MathLib: lib/include/macro.h, math.h and libbase/math.c.
  \<^item> DList, LList, RingBuf, PrioHeap: the containers, on explicit stores of link fields where the C code has links. Their
    contracts are the locales \<open>bounded_fifo\<close> and \<open>key_order\<close>, interpreted on the ring buffer, on the scheduler's keys and on the
    clock server's deadlines.
  \<^item> Pgmgr, PgInit: the page manager and its start-up; \<open>pm_ok\<close> says that free and allocated blocks tile the segment and that
    descriptors, free lists and blocks agree. The locale \<open>page_source\<close> is what a client of pages relies on; \<open>pgs\<close>, \<open>ks\<close>
    and \<open>kf\<close> interpret it. Slab: the slab allocator, proved inside that locale; \<open>slab_inv\<close> ties the slabs, their free chains and
    the objects in use. BootMem: both at boot, and a sequence of calls that makes \<open>pg_free_page\<close> fail.
  \<^item> Util, LeMem: byte-addressed memory, the routines of util.h and util.c, little-endian words in memory. Timer, Gpio,
    Encoder, Spi: times, GPIO and UART registers, quadrature encoders, the SPI controller and the UART bridge.
    Mmu: the translation tables of kernel/src/mmu.c and the processor's walk over them.
  \<^item> Kernel: tasks, mailboxes, scheduler, task manager (\<open>struct kGlobalState\<close> is the record \<open>kState\<close>). Syscalls: the handlers and
    their dispatch. KLoop: interrupts, \<open>k_loop\<close>, bootstrap and \<open>k_main\<close>.
  \<^item> SchedInv, KMem, IpcInv: the invariant \<open>kinv s bl L E\<close>, where \<open>bl\<close> are the four lists of blocked tasks, \<open>L\<close> the tasks in the hands
    of the kernel and \<open>E\<close> the blocks given out by \<open>Mmap\<close>. Ipc, Proc, Wake: what each handler does under it. KRun: the step
    relation \<open>kstep\<close>, the states \<open>reachable\<close> from a start, and the invariant along them. Spare: counting free pages, so that allocations
    are known to succeed. KBoot: \<open>k_main\<close> reaches the loop. Rendezvous: an abstract kernel of phases and inboxes,
    which every system call refines, and the remote call. KWitness: a machine of sixteen pages that boots, and states of it.
  \<^item> LoaderArgs, Elf, Loader, LoaderWitness: the loader's argument list (loader/src/loader_args.c), the ELF reader (elf_reader.c) and
    loading with relocation (loader.c), over byte-addressed memory; an image of two segments on which all of it runs.
  \<^item> Clock, NameServer, Rps, UartServ: the servers, one step per received message, with the replies as a list in the order they
    go out; the hash table of the name server over memory. Rps: the pool of games is two linked lists over one array.
    UartServ: the terminal and the Marklin server over register reads and writes that are parameters.
  \<^bold>\<open>How the code is represented.\<close> Pointers are 64-bit words or options of them (\<open>None\<close> is \<open>NULL\<close>), structures are records, and
  objects reached through pointers are functions from addresses to records (\<open>tds\<close>, \<open>dsps\<close>, \<open>slab_mem\<close>), with their list links in a store
  of their own. User memory and the kernel's copies are one byte-addressed memory \<open>mem\<close>; the kernel's own structures are kept
  apart from it, so a user pointer into the kernel is outside the model. Loops that must end are structural recursion
  or \<open>function\<close>; the others are \<open>partial_function (option)\<close>, where \<open>None\<close> means that the loop runs for ever, and the
  theorems prove \<open>Some\<close>. No fuel is used anywhere. Values that the hardware supplies (clock readings, interrupt numbers, flag
  registers while polling, the SPI controller with what hangs on its wires) are arguments, or a parameter with the
  documented behaviour as hypotheses: \<open>bus_ok\<close>, with \<open>ready_bus\<close> as an instance, for the SPI controller, \<open>rx_ok\<close> and \<open>tx_ok\<close>, with
  \<open>demo_rd\<close> and \<open>demo_wr\<close>, for the UART registers as the system calls give them. The loader's parameters are \<open>ke_mmap\<close> and the
  addresses of the images, which the linker sets.

  \<^bold>\<open>Bounds.\<close> The heap holds 200 tasks and the idle task stands outside it; a mailbox holds 64 senders. \<open>MAX_TASKS\<close> = 65 keeps every
  mailbox from filling up, because neither the idle task nor the running one is queued: this is the bound under which
  no handler faults. The clock server has 256 wait elements, the name server keeps nine characters of a name,
  the game server 100 games, the terminal server 64 waiting tasks, 256 bytes of input and 4096 of output, the Marklin server 64 strings.

  \<^bold>\<open>The properties\<close> below are grouped by component. For the kernel: boot, safety of every iteration, the invariant of all reachable
  states, refinement of the abstract message-passing kernel, scheduling, and each handler on each of its branches.
  For memory: that allocation hands out fresh blocks and objects and freeing gives back exactly what was allocated. For the
  tables: the identity mapping. For the loader: that after it the memory holds the image, relocated, and
  that nothing else has changed; what the reader accepts; how arguments are found. For the servers: what each request answers, that
  the game server answers every player, and that the UART servers lose, double and reorder no byte. Several state faults of the code, each on the
  input that shows it.

  \<^bold>\<open>Not modelled.\<close> The assembly (context switch, exception entry, boot) is represented by what the C code sees of it: the system call
  with its arguments, the interrupt numbers. lib/libfdt, lib/libbase/printf.c and the unused part of utlist.h are
  vendored. lib/librbtree, the red-black trees taken over from Linux, is represented by the finite map it implements.
  The page manager's \<open>pg_init\<close> is proved for one segment whose tail is a single block (\<open>rest_single\<close>); \<open>k_bootstrap_pgmgr\<close> passes two.
  A slab's header is a record, so the overlap of its data with its chain, which the code's layout computation allows, is
  not visible. The macros of
  msg/msg.h, the system-call stubs and the DMA routines, which no modelled code calls, are left out: a message is the value of
  a datatype, a call its effect. The notifiers of the servers are loops of two system calls. Debug printing and the demonstration programs
  (k1, k2, the players, the test of pie-c) only print and wait for keys; the Rust programs are another language.
\<close>

section \<open>The kernel\<close>









text \<open>
  C5. A remote call. A task sends to one that waits in \<open>Receive\<close>, nothing else being ready: the receiver is dispatched next, finds the
  message, its length and the sender's id in its memory, and its \<open>Reply\<close> copies the answer to the sender's buffer, cut to
  its length, tells both sides the number of bytes, and makes the sender ready again.
\<close>

theorem remote_call_roundtrip:
  assumes "kinv s bl {#cur#} E" "kg_current_td s = Some cur" "td_state (tds s cur) = READY" "card (tasks s) \<le> 201"
    "map_tid s (scast t) = Some r" "td_state (tds s r) = RECEIVE_BLOCKED" "map_tid s (scast u) = Some cur" "ready s = []"
  shows "\<exists>s1 s2 s3. k_send_handler t msg len rep rl s = Inr s1 \<and> k_loop_enter now (it, s1) = (it, s2) \<and> kg_current_td s2 = Some r \<and>
     syscall_retval (tds s2 r) = len \<and>
     mem s2 = store32 (in_tid (mailbox (tds s r))) (ucast (td_tid (tds s cur)))
       (util_memcpy (in_buf (mailbox (tds s r))) msg (min (in_buf_len (mailbox (tds s r))) len) (mem s)) \<and>
     k_reply_handler u ans al s2 = Inr s3 \<and> mem s3 = util_memcpy rep ans (min al rl) (mem s2) \<and>
     syscall_retval (tds s3 cur) = al \<and> syscall_retval (tds s3 r) = min al rl \<and> td_state (tds s3 cur) = READY \<and>
     ready s3 = [cur] \<and> kg_current_td s3 = Some r"
  by (rule remote_call [OF assms])

theorem remote_call_witness:
  "\<exists>s s1 s2 s3 t u cur. k_send_handler t 0x1000 16 0x2000 8 s = Inr s1 \<and> k_loop_enter 0 (0, s1) = (0, s2) \<and>
     k_reply_handler u 0x3000 20 s2 = Inr s3 \<and> syscall_retval (tds s3 cur) = 20 \<and> mem s3 = util_memcpy 0x2000 0x3000 8 (mem s2) \<and> ready s3 = [cur]"
proof -
  obtain s bl E cur oth t u where d: "duo s bl E cur oth t u" "td_state (tds s oth) = RECEIVE_BLOCKED" "ready s = []" using duo_recv by blast
  then have k: "kinv s bl {#cur#} E" "kg_current_td s = Some cur" "td_state (tds s cur) = READY" "card (tasks s) \<le> 201"
    "map_tid s (scast u) = Some oth" "map_tid s (scast t) = Some cur" by (simp_all add: duo_def)
  have m: "min 20 8 = (8 :: u64)" by simp
  show ?thesis
    using remote_call_roundtrip [OF k(1-5) d(2) k(6) d(3), of "0x1000" 16 "0x2000" 8 0 0 "0x3000" 20] unfolding m by blast
qed

text \<open>
  C6. Scheduling. At the head of the loop the kernel runs the idle task exactly when no task is ready; otherwise it takes out of the
  heap a task such that no other ready one has a smaller priority number, or the same one and an earlier stamp.
\<close>

theorem scheduler_minimal:
  assumes "loop_inv s"
  shows "\<exists>it' s'. k_loop_enter now (it, s) = (it', s') \<and>
     (if ready s = [] then kg_current_td s' = Some (idle_task s')
      else \<exists>p. kg_current_td s' = Some p \<and> p \<noteq> idle_task s' \<and> p \<in> set (ready s) \<and> td_state (tds s' p) = READY \<and>
         (\<forall>r\<in>set (ready s). \<not> (priority (priority_key (tds s r)) < priority (priority_key (tds s p)) \<or>
            priority (priority_key (tds s r)) = priority (priority_key (tds s p)) \<and>
            insert_val (priority_key (tds s r)) < insert_val (priority_key (tds s p)))))"
proof (cases "ready s = []")
  case True
  then show ?thesis using loop_enter_ok [OF assms, of now it] by auto
next
  case False
  then show ?thesis using loop_enter_ok [OF assms, of now it] unfolding cmp_keys_lex by (simp only: if_False simp_thms) blast
qed

theorem scheduler_minimal_witness: "\<exists>s it' s' p. k_loop_enter 0 (0, s) = (it', s') \<and> kg_current_td s' = Some p \<and> p \<in> set (ready s)"
proof -
  obtain s u n where s: "loop_inv s" "mset (ready s) = {#u, n#}" using boot_state by metis
  then have "ready s \<noteq> []" by auto
  then show ?thesis using scheduler_minimal [OF s(1), of 0 0] by auto
qed

text \<open>
  C7. \<open>Send\<close> to a task that waits in \<open>Receive\<close>. The message, cut to the receiver's buffer, and the sender's id are written to the
  receiver's memory; the receiver becomes ready with the length as the value of its call, the sender waits for the
  reply, no other descriptor changes, and the kernel's invariant holds.
\<close>

theorem send_delivers_message:
  assumes "kinv s bl {#cur#} E" "kg_current_td s = Some cur" "td_state (tds s cur) = READY" "card (tasks s) \<le> 201"
    "map_tid s (scast t) = Some r" "td_state (tds s r) = RECEIVE_BLOCKED"
  shows "\<exists>s'. k_send_handler t msg len rep rl s = Inr s' \<and>
     kinv s' (bl[2 := bl ! 2 @ [cur], 0 := remove1 r (bl ! 0)]) {#} E \<and> kg_current_td s' = None \<and>
     mem s' = store32 (in_tid (mailbox (tds s r))) (ucast (td_tid (tds s cur)))
       (util_memcpy (in_buf (mailbox (tds s r))) msg (min (in_buf_len (mailbox (tds s r))) len) (mem s)) \<and>
     syscall_retval (tds s' r) = len \<and> mset (ready s') = add_mset r (mset (ready s)) \<and> td_state (tds s' r) = READY \<and>
     td_state (tds s' cur) = REPLY_BLOCKED \<and> (\<forall>p. p \<noteq> r \<and> p \<noteq> cur \<longrightarrow> tds s' p = tds s p)"
  using send_delivers [OF assms, of msg len rep rl] by blast

theorem send_delivers_witness:
  "\<exists>s s' t r cur. k_send_handler t 0x1000 16 0x2000 8 s = Inr s' \<and> td_state (tds s' r) = READY \<and> td_state (tds s' cur) = REPLY_BLOCKED"
proof -
  obtain s bl E cur oth t u where d: "duo s bl E cur oth t u" "td_state (tds s oth) = RECEIVE_BLOCKED" using duo_recv by blast
  then have k: "kinv s bl {#cur#} E" "kg_current_td s = Some cur" "td_state (tds s cur) = READY" "card (tasks s) \<le> 201"
    "map_tid s (scast u) = Some oth" by (simp_all add: duo_def)
  show ?thesis using send_delivers_message [OF k d(2), of "0x1000" 16 "0x2000" 8] by blast
qed

text \<open>
  C8. \<open>Send\<close> to a task that is not in \<open>Receive\<close>, with room in its mailbox: the sender goes to the end of that task's queue and is
  blocked, with its message and its reply buffer on record; memory and all other tasks stay.
\<close>

theorem send_queues_fifo:
  assumes "kinv s bl {#cur#} E" "kg_current_td s = Some cur" "td_state (tds s cur) = READY"
    "map_tid s (scast t) = Some r" "td_state (tds s r) \<noteq> RECEIVE_BLOCKED" "length (queue s r) < 64"
  shows "\<exists>s'. k_send_handler t msg len rep rl s = Inr s' \<and> kinv s' (bl[1 := bl ! 1 @ [cur]]) {#} E \<and> kg_current_td s' = None \<and>
     mem s' = mem s \<and> ready s' = ready s \<and> queue s' r = queue s r @ [cur] \<and> (\<forall>p. p \<noteq> r \<longrightarrow> queue s' p = queue s p) \<and>
     td_state (tds s' cur) = SEND_BLOCKED \<and> out_msg (mailbox (tds s' cur)) = msg \<and> out_msg_len (mailbox (tds s' cur)) = len \<and>
     in_buf (mailbox (tds s' cur)) = rep \<and> in_buf_len (mailbox (tds s' cur)) = rl \<and> (\<forall>p. p \<noteq> r \<and> p \<noteq> cur \<longrightarrow> tds s' p = tds s p)"
  using send_queues(2) [OF assms, of msg len rep rl] by blast

theorem send_queues_witness:
  "\<exists>s s' t r cur. k_send_handler t 0x1000 16 0x2000 8 s = Inr s' \<and> queue s r = [] \<and> queue s' r = [cur] \<and> td_state (tds s' cur) = SEND_BLOCKED"
proof -
  obtain s E cur oth t u where d: "duo s [[], [], [], []] E cur oth t u" "td_state (tds s oth) = READY" "queue s oth = []" using duo_start by blast
  then have k: "kinv s [[], [], [], []] {#cur#} E" "kg_current_td s = Some cur" "td_state (tds s cur) = READY"
    "map_tid s (scast u) = Some oth" "td_state (tds s oth) \<noteq> RECEIVE_BLOCKED" "length (queue s oth) < 64" by (simp_all add: duo_def)
  show ?thesis using send_queues_fifo [OF k, of "0x1000" 16 "0x2000" 8] d(3) by fastforce
qed

text \<open>
  C9. \<open>Receive\<close>. With senders waiting, the first of the queue is taken: its message, cut to the buffer, and its id are written to the
  caller's memory, it waits for the reply and the caller is ready. With none, the caller is blocked and its buffer is
  on record.
\<close>

theorem recv_takes_first:
  assumes "kinv s bl {#cur#} E" "kg_current_td s = Some cur" "card (tasks s) \<le> 201"
  shows "\<exists>s'. k_recv_handler ta msg len s = Inr s' \<and> kg_current_td s' = None \<and>
     (case queue s cur of
        [] \<Rightarrow> kinv s' (bl[0 := bl ! 0 @ [cur]]) {#} E \<and> mem s' = mem s \<and> ready s' = ready s \<and> td_state (tds s' cur) = RECEIVE_BLOCKED \<and>
          in_buf (mailbox (tds s' cur)) = msg \<and> in_buf_len (mailbox (tds s' cur)) = len \<and> in_tid (mailbox (tds s' cur)) = ta
      | x # xs \<Rightarrow> kinv s' (bl[1 := remove1 x (bl ! 1), 2 := bl ! 2 @ [x]]) {#} E \<and> queue s' cur = xs \<and>
          mem s' = store32 ta (ucast (td_tid (tds s x)))
            (util_memcpy msg (out_msg (mailbox (tds s x))) (min len (out_msg_len (mailbox (tds s x)))) (mem s)) \<and>
          syscall_retval (tds s' cur) = out_msg_len (mailbox (tds s x)) \<and> td_state (tds s' cur) = READY \<and>
          mset (ready s') = add_mset cur (mset (ready s)) \<and> td_state (tds s' x) = REPLY_BLOCKED)"
proof (cases "queue s cur")
  case Nil
  from recv_blocks [OF assms(1,2) Nil, of ta msg len] Nil show ?thesis by auto
next
  case (Cons x xs)
  from recv_takes [OF assms(1,2) Cons assms(3), of ta msg len] Cons show ?thesis by auto
qed

theorem recv_takes_witness:
  "\<exists>s s' cur x. queue s cur = [x] \<and> k_recv_handler 0x1000 0x2000 8 s = Inr s' \<and> queue s' cur = [] \<and> td_state (tds s' x) = REPLY_BLOCKED"
proof -
  obtain s bl E cur oth t u where d: "duo s bl E cur oth t u" "queue s cur = [oth]" using duo_queued by blast
  then have k: "kinv s bl {#cur#} E" "kg_current_td s = Some cur" "card (tasks s) \<le> 201" by (simp_all add: duo_def)
  from recv_takes_first [OF k, of "0x1000" "0x2000" 8] d(2) show ?thesis by auto
qed

text \<open>
  C10. \<open>Reply\<close>, on each of its branches. To a task that waits for a reply: the answer, cut to that task's buffer, is copied, both sides
  get their counts, and the task is ready while the caller goes on running. To a task id that is not in use the call
  returns -1, to a task in another state -2, and nothing else changes.
\<close>

theorem reply_answers:
  assumes "kinv s bl {#cur#} E" "kg_current_td s = Some cur" "td_state (tds s cur) = READY" "card (tasks s) \<le> 201"
  shows "case map_tid s (scast t) of
     None \<Rightarrow> k_reply_handler t rep rl s = Inr (set_retval (- 1) cur s)
   | Some x \<Rightarrow>
       if td_state (tds s x) \<noteq> REPLY_BLOCKED then k_reply_handler t rep rl s = Inr (set_retval (- 2) cur s)
       else \<exists>s'. k_reply_handler t rep rl s = Inr s' \<and> kinv s' (bl[2 := remove1 x (bl ! 2)]) {#cur#} E \<and> kg_current_td s' = Some cur \<and>
         mem s' = util_memcpy (in_buf (mailbox (tds s x))) rep (min rl (in_buf_len (mailbox (tds s x)))) (mem s) \<and>
         syscall_retval (tds s' x) = rl \<and> syscall_retval (tds s' cur) = min rl (in_buf_len (mailbox (tds s x))) \<and>
         td_state (tds s' x) = READY \<and> mset (ready s') = add_mset x (mset (ready s)) \<and> (\<forall>p. p \<noteq> cur \<and> p \<noteq> x \<longrightarrow> tds s' p = tds s p)"
proof (cases "map_tid s (scast t)")
  case None
  then show ?thesis using reply_errors(1) [OF assms(2), of t rep rl] by simp
next
  case (Some x)
  then show ?thesis using reply_errors(2) [OF assms(2), of t x rep rl] reply_ok [OF assms Some, of rep rl] by auto
qed

theorem reply_answers_witness:
  "\<exists>s s' t x. td_state (tds s x) = REPLY_BLOCKED \<and> k_reply_handler t 0x1000 8 s = Inr s' \<and> td_state (tds s' x) = READY \<and> syscall_retval (tds s' x) = 8"
proof -
  obtain s bl E cur oth t u where d: "duo s bl E cur oth t u" "td_state (tds s oth) = REPLY_BLOCKED" using duo_reply by blast
  then have k: "kinv s bl {#cur#} E" "kg_current_td s = Some cur" "td_state (tds s cur) = READY" "card (tasks s) \<le> 201"
    "map_tid s (scast u) = Some oth" by (simp_all add: duo_def)
  from reply_answers [OF k(1-4), of u "0x1000" 8] k(5) d(2) show ?thesis by auto
qed

text \<open>
  C11. \<open>Create\<close>, with a priority in range and two free pages. Exactly one task is added: it has the next task id, which the caller gets,
  the caller as its parent, the priority, an empty mailbox and the loader as its program counter, and it is ready.
  The caller keeps running, no other task changes, and the kernel's invariant holds.
\<close>

theorem create_task:
  assumes "kinv s bl {#cur#} E" "kg_current_td s = Some cur" "td_state (tds s cur) = READY" "card (tasks s) \<le> 200"
    "k_sched_priority_is_valid prio" "next_tid s \<noteq> - 1" "spare (pgmgr s) 2"
  shows "\<exists>s' p. k_create_handler prio args len s = Inr s' \<and> kinv s' bl {#cur#} E \<and> p \<notin> tasks s \<and> tasks s' = insert p (tasks s) \<and>
     map_tid s' = (map_tid s)(next_tid s := Some p) \<and> next_tid s' = next_tid s + 1 \<and> tds s' cur = (tds s cur)\<lparr>syscall_retval := next_tid s\<rparr> \<and>
     mset (ready s') = add_mset p (mset (ready s)) \<and> td_state (tds s' p) = READY \<and> td_tid (tds s' p) = next_tid s \<and>
     parent_tid (tds s' p) = td_tid (tds s cur) \<and> td_pc (tds s' p) = load_elf_addr s \<and> priority (priority_key (tds s' p)) = scast prio \<and>
     queue s' p = [] \<and> (\<forall>q. q \<noteq> p \<and> q \<noteq> cur \<longrightarrow> tds s' q = tds s q)"
  by (rule create_succeeds [OF assms])

theorem create_task_witness:
  "\<exists>s s' p cur. k_create_handler 5 0x1000 32 s = Inr s' \<and> p \<notin> tasks s \<and> tasks s' = insert p (tasks s) \<and> map_tid s' 3 = Some p \<and>
     syscall_retval (tds s' cur) = 3"
proof -
  obtain s E cur oth t u where d: "duo s [[], [], [], []] E cur oth t u" "spare (pgmgr s) 8" "next_tid s = 3" using duo_start by blast
  have k: "kinv s [[], [], [], []] {#cur#} E" "kg_current_td s = Some cur" "td_state (tds s cur) = READY" "card (tasks s) \<le> 200"
    using d(1) by (simp_all add: duo_def)
  have v: "k_sched_priority_is_valid 5" "next_tid s \<noteq> - 1" by (simp_all add: k_sched_priority_is_valid_def d(3))
  have sp: "spare (pgmgr s) 2" using spare_mono [OF d(2)] by simp
  obtain s' p where s': "k_create_handler 5 0x1000 32 s = Inr s'" "p \<notin> tasks s" "tasks s' = insert p (tasks s)"
    "map_tid s' = (map_tid s)(next_tid s := Some p)" "tds s' cur = (tds s cur)\<lparr>syscall_retval := next_tid s\<rparr>"
    using create_task [OF k v sp, of "0x1000" 32] by blast
  have "map_tid s' 3 = Some p" "syscall_retval (tds s' cur) = 3" using s'(4,5) d(3) by simp_all
  then show ?thesis using s'(1-3) by blast
qed





text \<open>
  C14. \<open>k_intr_wakeup_tasks\<close>. The loop over the list, which deletes elements as it goes, ends; every task that waits for the interrupt
  becomes ready with the interrupt's value as the result of its \<open>AwaitEvent\<close>, every other task stays as it was, and the number
  returned is theirs.
\<close>

theorem wakeup_all_waiters:
  assumes "kinv s bl L E" "card (tasks s) \<le> 201"
  shows "\<exists>s'. k_intr_wakeup_tasks i rv s = Inr (s', of_nat (length (filter (\<lambda>p. td_state (tds s p) = i) (bl ! 3)))) \<and>
     kinv s' (bl[3 := filter (\<lambda>p. td_state (tds s p) \<noteq> i) (bl ! 3)]) L E \<and>
     mset (ready s') = mset (ready s) + mset (filter (\<lambda>p. td_state (tds s p) = i) (bl ! 3)) \<and>
     (\<forall>p. if p \<in> set (bl ! 3) \<and> td_state (tds s p) = i
          then td_state (tds s' p) = READY \<and> syscall_retval (tds s' p) = ucast rv \<and> mailbox (tds s' p) = mailbox (tds s p)
          else tds s' p = tds s p)"
  using wakeup_tasks_ok [OF assms, of i rv] by blast

theorem wakeup_all_witness:
  "\<exists>s s' n p. td_state (tds s p) = INTR_ID_TIMER \<and> k_intr_wakeup_tasks INTR_ID_TIMER 7 s = Inr (s', n) \<and> td_state (tds s' p) = READY \<and>
     syscall_retval (tds s' p) = 7"
proof -
  obtain s bl E p where s: "kinv s bl {#} E" "card (tasks s) \<le> 201" "p \<in> set (bl ! 3)" "td_state (tds s p) = INTR_ID_TIMER"
    using waiting by blast
  obtain s' n where w: "k_intr_wakeup_tasks INTR_ID_TIMER 7 s = Inr (s', n)"
    "\<forall>q. if q \<in> set (bl ! 3) \<and> td_state (tds s q) = INTR_ID_TIMER
          then td_state (tds s' q) = READY \<and> syscall_retval (tds s' q) = ucast (7 :: u32) \<and> mailbox (tds s' q) = mailbox (tds s q)
          else tds s' q = tds s q" using wakeup_all_waiters [OF s(1,2), of INTR_ID_TIMER 7] by blast
  have "td_state (tds s' p) = READY" "syscall_retval (tds s' p) = 7" using w(2) [rule_format, of p] s(3,4) by simp_all
  then show ?thesis using w(1) s(4) by blast
qed



text \<open>
  C16. The limit of a mailbox. A sender is appended while fewer than 64 wait; the 65th makes the kernel write through the null
  pointer that \<open>RB_PUSH_PRE\<close> leaves for a full buffer, because the slot is not checked.
\<close>

theorem mailbox_full:
  assumes "mbox_ok b"
  shows "if length (mbox_queue b) < 64
     then \<exists>q. k_mbox_add_send_queue p b = Inr (b\<lparr>sender_waitqueue := q\<rparr>) \<and> mbox_ok (b\<lparr>sender_waitqueue := q\<rparr>) \<and> rb_list q = mbox_queue b @ [p]
     else k_mbox_add_send_queue p b = Inl Null_deref"
  using add_send_queue_ok [OF assms, of p] add_send_queue_full [OF assms, of p] mbox_queue_le [OF assms] by auto

theorem mailbox_full_witness: "\<exists>b. k_mbox_add_send_queue 1 b = Inl Null_deref \<and> length (mbox_queue b) = 64"
proof -
  obtain b where b: "mbox_ok b" "length (mbox_queue b) = 64" using mbox_fill [of 64] by auto
  from mailbox_full [OF b(1), of 1] b(2) show ?thesis by auto
qed

section \<open>Memory: pages and slabs\<close>

text \<open>
  C17. \<open>pg_alloc_page\<close> of the page manager. In a consistent manager with the blocks \<open>L\<close> allocated, a
  request of order \<open>p0\<close> (at least one page) either returns the address of a block of exactly the
  requested level, aligned and disjoint from every allocated block, taken out of the free pages and
  nothing else, and the manager stays consistent; or it returns \<open>NULL\<close>, changes nothing, and no
  free list holds a block of that level or a larger one.
\<close>

theorem alloc_page_correct:
  fixes p0 :: u8
  assumes "pm_ok m fl L"
  shows "(\<exists>m' fl' r i. pg_alloc_page p0 flg m = Inr (m', pr_start (roots m ! r) + push_bit PG_SFT (of_nat i)) \<and>
            pm_ok m' fl' (insert (r, i, unat p0 - PG_SFT) L) \<and> roots m' = roots m \<and> (r, i, unat p0 - PG_SFT) \<notin> L \<and>
            blk_pages (r, i, unat p0 - PG_SFT) \<subseteq> covered (fblocks fl) \<and>
            covered (fblocks fl') \<union> blk_pages (r, i, unat p0 - PG_SFT) = covered (fblocks fl)) \<or>
         (pg_alloc_page p0 flg m = Inr (m, NULL) \<and>
            (\<forall>q. unat p0 - PG_SFT \<le> q \<and> q \<le> PGMGR_MAXLVL \<longrightarrow> fl ! q = []))"
  by (rule pg_alloc_page_spec [OF assms])

theorem alloc_page_witness:
  "\<exists>m fl. pm_ok m fl {} \<and> (\<exists>m' a. pg_alloc_page 21 0 m = Inr (m', a))"
proof -
  obtain m fl where "pm_ok m fl {}" using four_pages_boot by blast
  then show ?thesis using alloc_page_correct [of m fl "{}" 21 0] by blast
qed






text \<open>
  C21. \<open>slab_alloc\<close> over the kernel's page source. On a consistent allocator the call returns without a
  fault; it either returns \<open>NULL\<close> and leaves the objects in use as they are, or returns an object that
  was not in use and adds it to them. The allocator stays consistent.
\<close>

theorem slab_alloc_correct:
  assumes "slab_inv mgr_owns m k xs ys C"
  shows "\<exists>m' p xs' ys' C'. slab_alloc slab_kernel_func_alloc_page k flag m = Inr (m', p) \<and>
     slab_inv mgr_owns m' k xs' ys' C' \<and>
     (if p = NULL then slab_live m' k xs' C' = slab_live m k xs C \<and> ys = [] \<and> (\<forall>t\<in>set xs. C t = []) \<and>
        (\<exists>pm. slab_kernel_func_alloc_page (of_nat PG_SFT) 0 (source m) = Inr (pm, NULL))
      else p \<notin> slab_live m k xs C \<and> slab_live m' k xs' C' = insert p (slab_live m k xs C))"
  by (rule ks.slab_alloc_ok [OF assms])

theorem slab_alloc_witness:
  "\<exists>m xs ys C m' p. slab_inv mgr_owns m 0 xs ys C \<and>
     slab_alloc slab_kernel_func_alloc_page 0 0 m = Inr (m', p) \<and> p \<noteq> NULL"
proof -
  obtain m :: "PgMgr SlabMgr" and C where "slab_inv mgr_owns m 0 [] [] C"
    "\<not> (\<exists>pm. slab_kernel_func_alloc_page (of_nat PG_SFT) 0 (source m) = Inr (pm, NULL))"
    using boot_slab by blast
  then show ?thesis using slab_alloc_correct [of m 0 "[]" "[]" C 0] by (metis (no_types, lifting))
qed

text \<open>
  C22. \<open>slab_free\<close> of an object in use: the call returns without a fault (the magic number and the list
  assertions hold), the object and no other leaves the objects in use, and the allocator stays
  consistent.
\<close>

theorem slab_free_correct:
  assumes "slab_inv mgr_owns m k xs ys C" "p \<in> slab_live m k xs C"
  shows "\<exists>m' xs' ys' C'. slab_free k p m = Inr m' \<and> slab_inv mgr_owns m' k xs' ys' C' \<and>
     slab_live m' k xs' C' = slab_live m k xs C - {p}"
  by (rule ks.slab_free_ok [OF assms])

theorem slab_free_witness:
  "\<exists>m xs ys C p. slab_inv mgr_owns m 0 xs ys C \<and> p \<in> slab_live m 0 xs C \<and> (\<exists>m'. slab_free 0 p m = Inr m')"
proof -
  obtain m :: "PgMgr SlabMgr" and C where "slab_inv mgr_owns m 0 [] [] C"
    "\<not> (\<exists>pm. slab_kernel_func_alloc_page (of_nat PG_SFT) 0 (source m) = Inr (pm, NULL))"
    using boot_slab by blast
  then obtain m' xs ys C' p where "slab_inv mgr_owns m' 0 xs ys C'" "p \<in> slab_live m' 0 xs C'"
    using ks.slab_alloc_ok [of m 0 "[]" "[]" C 0] by (metis (no_types, lifting) insertI1)
  then show ?thesis using slab_free_correct [of m' 0 xs ys C' p] by blast
qed

section \<open>Translation tables and devices\<close>

text \<open>
  C23. \<open>create_page_tables\<close>. With the six table pages aligned and below \<open>2 ^ 48\<close>, the routine returns, and the processor's walk
  over the tables maps every address below 4 GiB to itself, as device, code or data memory according to its region,
  and no other address. Memory outside the six pages is unchanged.
\<close>

theorem page_tables_identity:
  assumes "take_bit 12 b = 0" "unat b + 24576 \<le> 2 ^ 48"
  shows "\<exists>m'. create_page_tables b m = Some m' \<and> (\<forall>a. a \<notin> region b 24576 \<longrightarrow> m' a = m a) \<and>
     (\<forall>va. translate m' b va =
        (if unat va < 2 ^ 32
         then Some (va, if va \<ge> DEVICE_BASE then TD_DEVICE_BLOCK_FLAGS
                        else if va < DATA_BASE then TD_CODE_BLOCK_FLAGS else TD_DATA_BLOCK_FLAGS)
         else None))"
  using create_page_tables_ok [OF assms, of m] by (simp only: attributes_def)

theorem page_tables_witness:
  "\<exists>m'. create_page_tables 0x9a000 (\<lambda>_. 0) = Some m' \<and> translate m' 0x9a000 0xFE200000 = Some (0xFE200000, TD_DEVICE_BLOCK_FLAGS) \<and>
     translate m' 0x9a000 0x100000000 = None"
proof -
  have "take_bit 12 (0x9a000 :: u64) = 0" "unat (0x9a000 :: u64) + 24576 \<le> 2 ^ 48" by simp_all
  from page_tables_identity [OF this, of "\<lambda>_. 0"] obtain m' where m': "create_page_tables 0x9a000 (\<lambda>_. 0) = Some m'"
    "\<And>va. translate m' 0x9a000 va = (if unat va < 2 ^ 32
         then Some (va, if va \<ge> DEVICE_BASE then TD_DEVICE_BLOCK_FLAGS else if va < DATA_BASE then TD_CODE_BLOCK_FLAGS else TD_DATA_BLOCK_FLAGS)
         else None)" by blast
  show ?thesis by (intro exI [of _ m'] conjI m'(1)) (simp_all add: m'(2) DEVICE_BASE_def)
qed



section \<open>The loader\<close>

text \<open>
  C25. Loading a program. Let the arguments name an image that fits its own headers, and let \<open>ke_mmap\<close> give a block apart from the image.
  Then \<open>load_elf\<close> jumps to the entry point of the image moved by \<open>d\<close>, the difference of the block and the base of the
  image. Memory outside the block is unchanged. In the block, a byte that no relocation covers is zero in \<open>.bss\<close>,
  and otherwise the byte of the last segment that contains it; and each relative relocation that no later one overlaps
  holds its addend plus \<open>d\<close>.
\<close>

theorem load_elf_correct:
  assumes "args_ok m args kvs" "elf_reader_ctr m (args_image elf_of kvs) = Inr er" "e_hdr er \<noteq> NULL"
    "calc_mem_size m er = (vb, sz)" "loadable m er (ke_mmap sz) N"
  shows "let d = ke_mmap sz - vb in \<exists>m'.
    load_elf elf_of ke_mmap args (of_nat (length (args_bytes kvs))) m = Inr (m', Some (e_entry (ehdr_at m (e_hdr er)) + d)) \<and>
    (\<forall>x. x \<notin> region (ke_mmap sz) (unat sz) \<longrightarrow> m' x = m x) \<and>
    (\<forall>x. (\<forall>r\<in>set (relas m er). x \<notin> region (r_offset r + d) 8) \<longrightarrow>
      m' x = (if x \<in> bss_region m er d then 0 else image_byte m (e_hdr er) d (load_hdrs m er) x)) \<and>
    (\<forall>xs r ys. relas m er = xs @ r # ys \<and> (\<forall>r'\<in>set ys. region (r_offset r' + d) 8 \<inter> region (r_offset r + d) 8 = {}) \<longrightarrow>
      load64 (r_offset r + d) m' = r_addend r + d)"
  unfolding Let_def
proof (intro exI conjI allI impI)
  show "load_elf elf_of ke_mmap args (of_nat (length (args_bytes kvs))) m =
      Inr (loaded m er (ke_mmap sz - vb), Some (e_entry (ehdr_at m (e_hdr er)) + (ke_mmap sz - vb)))"
    by (rule load_elf_eq(1) [where ke_mmap = ke_mmap, OF resolve_args_ok [OF assms(1)] assms(2-5)])
qed (use load_elf_eq(2) [where ke_mmap = ke_mmap, OF resolve_args_ok [OF assms(1)] assms(2-5)] loaded_byte loaded_relocation in blast)+

theorem load_elf_witness:
  "\<exists>m'. load_elf (\<lambda>_. 0x2000) (\<lambda>_. 0x100000) 0x1000 12 demo_mem = Inr (m', Some 0x100004) \<and> m' 0x100000 = 0xAA \<and>
     load64 0x100008 m' = 0x100004 \<and> m' 0x100010 = 0"
proof -
  obtain er where er: "elf_reader_ctr demo_mem 0x2000 = Inr er" "e_hdr er = 0x2000" "calc_mem_size demo_mem er = (0x180, 0x20)"
    "loadable demo_mem er 0x100000 0x199" "relas demo_mem er = [rela_at demo_mem 0x2168]" "s_hdr_bss er = 0x20B8"
    "load_hdrs demo_mem er = [phdr_at demo_mem 0x2040]"
    using demo_reader by blast
  have img: "args_image (\<lambda>_. 0x2000) [(''PROGRAM'', ''pid'')] = 0x2000" by (simp add: args_image_def image_addr_def elf_programs_def)
  have bss: "bss_region demo_mem er 0xFFE80 = region 0x100010 16" using er(6) by (simp add: bss_region_def demo_shdr)
  have e: "e_hdr er \<noteq> NULL" and len: "of_nat (length (args_bytes [(''PROGRAM'', ''pid'')])) = (12 :: u64)"
    using er(2) by (simp_all add: args_bytes_def)
  have ctr: "elf_reader_ctr demo_mem (args_image (\<lambda>_. 0x2000) [(''PROGRAM'', ''pid'')]) = Inr er" using er(1) img by simp
  note load = load_elf_correct [where ke_mmap = "\<lambda>_. 0x100000", OF demo_args ctr e er(3,4), unfolded Let_def len]
  obtain m' where m: "load_elf (\<lambda>_. 0x2000) (\<lambda>_. 0x100000) 0x1000 12 demo_mem =
        Inr (m', Some (e_entry (ehdr_at demo_mem (e_hdr er)) + (0x100000 - 0x180)))"
    "\<forall>x. (\<forall>r\<in>set (relas demo_mem er). x \<notin> region (r_offset r + (0x100000 - 0x180)) 8) \<longrightarrow>
      m' x = (if x \<in> bss_region demo_mem er (0x100000 - 0x180) then 0
        else image_byte demo_mem (e_hdr er) (0x100000 - 0x180) (load_hdrs demo_mem er) x)"
    "\<forall>xs r ys. relas demo_mem er = xs @ r # ys \<and> (\<forall>r'\<in>set ys. region (r_offset r' + (0x100000 - 0x180)) 8 \<inter>
        region (r_offset r + (0x100000 - 0x180)) 8 = {}) \<longrightarrow> load64 (r_offset r + (0x100000 - 0x180)) m' = r_addend r + (0x100000 - 0x180)"
    using load by blast
  have m'1: "load_elf (\<lambda>_. 0x2000) (\<lambda>_. 0x100000) 0x1000 12 demo_mem = Inr (m', Some 0x100004)"
    using m(1) by (simp add: er(2) demo_ehdr)
  have m'2: "m' x = (if x \<in> region 0x100010 16 then 0 else image_byte demo_mem 0x2000 0xFFE80 (load_hdrs demo_mem er) x)"
    if "x \<notin> region 0x100008 8" for x
    using m(2) [rule_format, of x] that by (simp add: er(2,5) demo_rela bss)
  have "relas demo_mem er = [] @ rela_at demo_mem 0x2168 # []" using er(5) by simp
  then have m'3: "load64 0x100008 m' = 0x100004"
    using m(3) [rule_format, of "[]" "rela_at demo_mem 0x2168" "[]"] by (simp add: demo_rela)
  note m' = m'1 m'2 m'3
  have "image_byte demo_mem 0x2000 0xFFE80 (load_hdrs demo_mem er) 0x100000 = 0xAA"
    using er(7) by (simp add: image_byte_def demo_phdr last_or_def region_def demo_byte)
  then have "m' 0x100000 = 0xAA" using m'(2) [of "0x100000"] by (simp add: region_def)
  moreover have "m' 0x100010 = 0" using m'(2) [of "0x100010"] by (simp add: region_def)
  ultimately show ?thesis using m' by blast
qed



text \<open>
  C27. Parsing the arguments of a program. On a block that encodes a list of keys and values, each terminated by a zero byte,
  \<open>resolve_args\<close> ends, and the result is the image that the last value of the key \<open>PROGRAM\<close> names: \<open>NULL\<close> when there is
  no such key or no image of that name.
\<close>

theorem resolve_args_correct:
  assumes "args_ok m args kvs"
  shows "resolve_args elf_of m args (of_nat (length (args_bytes kvs))) =
    Some (case filter (\<lambda>kv. fst kv = ''PROGRAM'') kvs of [] \<Rightarrow> NULL
      | ps \<Rightarrow> if snd (last ps) \<in> set elf_programs then elf_of (snd (last ps)) else NULL)"
  using resolve_args_ok [OF assms, of elf_of] unfolding args_image_def image_addr_def .

theorem resolve_args_witness: "resolve_args (\<lambda>_. 0x2000) demo_mem 0x1000 12 = Some 0x2000"
  using resolve_args_correct [OF demo_args, of "\<lambda>_. 0x2000"] by (simp add: args_bytes_def elf_programs_def)

section \<open>The servers\<close>





text \<open>
  C30. The limits of the name server. A name of ten or more characters is not found, registered or not; with every object in
  use, registering a new name reads through the null pointer in \<open>LL_DELETE2\<close>; and \<open>HT_INIT\<close> starts its loop at the
  capacity, one past the last object, so that its first store to a link is outside the array, whatever the sizes.
\<close>

theorem ns_limits:
  assumes "ns_inv m ht ks ch fl" "cstr m p s"
  shows "(9 < length s \<longrightarrow> ns_whois_tid p (m, ht) = Inr U_NO_TID_FOUND) \<and>
     (fl = [] \<and> ns_lookup ht ks ch s = None \<longrightarrow> ns_register_name_with_tid p tid (m, ht) = Inl Null_deref) \<and>
     HT_INIT bsz cap ht = Inl Out_of_bounds"
  using ns_whois_ok [OF assms] ns_long_name [OF assms(1), of s] ns_register_full [of m ht ks ch p s tid] assms
    HT_INIT_out_of_bounds [of bsz cap ht] by auto

theorem ns_limits_witness: "ns_whois_tid 0x1000 (\<lambda>a. if 0x1000 \<le> a \<and> a < 0x100A then 65 else 0, ns_empty) = Inr U_NO_TID_FOUND"
proof -
  let ?m = "\<lambda>a. if 0x1000 \<le> a \<and> a < 0x100A then 65 else 0 :: u8"
  have "cstr ?m 0x1000 [65, 65, 65, 65, 65, 65, 65, 65, 65, 65]" by (simp add: cstr_def bytes_def word_le_nat_alt word_less_nat_alt)
  from ns_limits [OF ns_empty_inv this, of "\<lambda>_. []" 0] show ?thesis by simp
qed

text \<open>
  C31. The game server with its players. In every state that legal requests lead to from the start, with \<open>B\<close> the tasks that wait for an
  answer, the server is in order, and it handles every further legal request without a fault: the replies go to tasks that
  wait, at most one to each, and the server is again in order with the tasks that remain. A request is legal when its
  task does not wait, has a valid move if it plays, plays if it quits, and there are fewer than 100 games when one starts.
\<close>

theorem rps_protocol:
  assumes "rps_reach s B"
  shows "\<exists>gs fs. rps_ok s gs fs B \<and>
    (\<forall>tid a c. legal tid a c s gs B \<longrightarrow>
      (\<exists>s' out gs' fs'. rps_step tid a c s = Inr (s', out) \<and> distinct (map fst out) \<and> set (map fst out) \<subseteq> insert tid B \<and>
        rps_ok s' gs' fs' (insert tid B - set (map fst out))))"
  using rps_reach_ok [OF assms] rps_step_ok unfolding answered_def by meson

theorem rps_protocol_witness: "\<exists>g w s' out. rps_step 7 RPS_SIGNUP 0 (rps_start g w) = Inr (s', out) \<and> distinct (map fst out)"
proof -
  obtain g w gs fs where o: "rps_ok (rps_start g w) gs fs {}"
    "\<forall>tid a c. legal tid a c (rps_start g w) gs {} \<longrightarrow> (\<exists>s' out gs' fs'. rps_step tid a c (rps_start g w) = Inr (s', out) \<and>
      distinct (map fst out) \<and> set (map fst out) \<subseteq> insert tid {} \<and> rps_ok s' gs' fs' (insert tid {} - set (map fst out)))"
    using rps_protocol [OF rps_reach.start] by blast
  have "legal 7 RPS_SIGNUP 0 (rps_start g w) gs {}"
    using start_games [OF o(1)] by (simp add: legal_def players_def rps_start_def)
  then show ?thesis using o(2) by blast
qed





text \<open>
  C34. \<open>uart_flush_input\<close> asks for the level of the terminal's FIFO, also for the Marklin line. So the Marklin server, when a task
  waits for a byte that has not come and the terminal's FIFO stays non-empty, never comes back from an input interrupt. When the
  terminal's FIFO reads empty it comes back, the bytes have gone to the waiting tasks in order, and the notifier is armed exactly
  when tasks are left.
\<close>

theorem marklin_input_spins:
  assumes "rings_ok s"
  defines "ch \<equiv> MARKLIN_CHANNEL" and "ws \<equiv> rb_list (input_wqueue s)" and "cs \<equiv> rb_list (input_buf s)"
  shows "(ws \<noteq> [] \<and> cs = [] \<and> rd ch UART_RXLVL h = (0, h) \<and> l \<noteq> 0 \<and> rd TERM_CHANNEL UART_RXLVL h = (l, h) \<longrightarrow>
      marklin_server_step rd wr tid UartMarklinInputReq s h = Inl Diverges) \<and>
   (rx_ok rd rx rdy \<and> (\<forall>h. fst (rd TERM_CHANNEL UART_RXLVL h) = 0) \<longrightarrow>
      (\<exists>k buf wq h'. marklin_server_step rd wr tid UartMarklinInputReq s h =
         Inr (s\<lparr>input_buf := buf, input_wqueue := wq\<rparr>, getc_replies ws (cs @ take k (rx h ch)) @
           (if rb_list wq = [] then [] else [(input_notifier_tid s, UartEmptyResp)]), h') \<and>
       rings_ok (s\<lparr>input_buf := buf, input_wqueue := wq\<rparr>) \<and> rx h' = (rx h)(ch := drop k (rx h ch)) \<and>
       rb_list wq = drop (length cs + k) ws \<and> rb_list buf = drop (length ws) (cs @ take k (rx h ch)) \<and>
       (rdy ch h \<and> length cs < 256 \<longrightarrow> 0 < k)))"
  unfolding ch_def ws_def cs_def
  by (intro conjI impI; elim conjE) (rule marklin_flush_spins [OF assms(1)], assumption+, rule marklin_flush_input_ok [OF _ _ assms(1)])

theorem marklin_input_witness:
  "\<exists>s s' h'. rb_list (input_wqueue s) = [9] \<and>
     marklin_server_step (demo_rd 0) demo_wr 2 UartMarklinInputReq s ([65], []) = Inl Diverges \<and>
     marklin_server_step (demo_rd 1) demo_wr 2 UartMarklinInputReq s ([65], []) = Inr (s', [(9, UartGetcResp 65 0)], h')"
proof -
  obtain s where s: "rings_ok s" "rb_list (input_wqueue s) = [9]" "rb_list (input_buf s) = []" using marklin_waiting by blast
  have stuck: "demo_rd 0 MARKLIN_CHANNEL UART_RXLVL ([65], []) = (0, ([65], []))" "demo_rd 0 TERM_CHANNEL UART_RXLVL ([65], []) = (1, ([65], []))"
    and quiet: "\<forall>h. fst (demo_rd 1 TERM_CHANNEL UART_RXLVL h) = 0"
    and line: "demo_rx 1 ([65], []) MARKLIN_CHANNEL = [65]" "demo_rdy 1 MARKLIN_CHANNEL ([65], [])"
    by (auto simp: demo_rd_def demo_rx_def demo_rdy_def channel_defs UART_RXLVL_def UART_TXLVL_def)
  note c = marklin_input_spins [OF s(1), unfolded s(2,3)]
  have "marklin_server_step (demo_rd 0) demo_wr 2 UartMarklinInputReq s ([65], []) = Inl Diverges"
    using c [THEN conjunct1, of "demo_rd 0" "([65], [])" 1 demo_wr 2] stuck by simp
  moreover obtain k buf wq h' where x: "marklin_server_step (demo_rd 1) demo_wr 2 UartMarklinInputReq s ([65], []) =
      Inr (s\<lparr>input_buf := buf, input_wqueue := wq\<rparr>, getc_replies [9] (take k [65]) @
        (if rb_list wq = [] then [] else [(input_notifier_tid s, UartEmptyResp)]), h')" "rb_list wq = drop k [9]" "0 < k"
    using c [THEN conjunct2, of "demo_rd 1" "demo_rx 1" "demo_rdy 1" demo_wr 2 "([65], [])"] demo_rx_ok [of 1] quiet
    unfolding line append_Nil list.size add_0 by (metis line(2) zero_less_numeral)
  moreover obtain j where "k = Suc j" using x(3) by (cases k) auto
  ultimately show ?thesis using s(2) by (auto simp: getc_replies_def)
qed

section \<open>The library\<close>

text \<open>
  C35. \<open>HEAP_POP\<close>, for any comparison that is a strict order. On a heap that is not empty it returns an element that no other comes
  before, takes exactly that element out, and leaves a heap.
\<close>

theorem heap_pop_minimal:
  assumes "key_order cmp" "is_heap key cmp h" "hcount h \<noteq> 0"
  shows "\<exists>e h'. heap_pop key cmp h = (Some e, h') \<and> is_heap key cmp h' \<and> mset (heap_elems h) = add_mset e (mset (heap_elems h')) \<and>
     (\<forall>q\<in>set (heap_elems h). \<not> cmp (key q) (key e))"
  using key_order.heap_pop_correct [OF assms] by blast

theorem heap_pop_witness:
  "\<exists>h'. heap_pop (\<lambda>x. x) heap_cmp_delay \<lparr>heap_array = [1, 3, 2], hcount = 3, hcapacity = 3, global_insertion_count = 3\<rparr> = (Some 1, h') \<and>
     mset (heap_elems h') = {#2, 3#}"
proof -
  let ?h = "\<lparr>heap_array = [1, 3, 2 :: int], hcount = 3, hcapacity = 3, global_insertion_count = 3\<rparr>"
  have k: "k = 1 \<or> k = 2" if "0 < k" "k < 3" for k :: nat using that by auto
  have "ordered_at (\<lambda>x. x) heap_cmp_delay [1, 3, 2] (parent_of k) k" if "0 < k" "k < 3" for k
    using k [OF that] by (auto simp: ordered_at_def heap_cmp_delay_def parent_of_def)
  then have "is_heap (\<lambda>x. x) heap_cmp_delay ?h" by (simp add: is_heap_def heap_ok_def heap_ordered_def)
  then obtain e h' where r: "heap_pop (\<lambda>x. x) heap_cmp_delay ?h = (Some e, h')" "mset (heap_elems ?h) = add_mset e (mset (heap_elems h'))"
    using heap_pop_minimal [OF ck.key_order_axioms, of "\<lambda>x. x" ?h] by fastforce
  have "e = 1" using r(1) by (simp add: heap_pop_def Let_def)
  then have "mset (heap_elems h') = {#2, 3#}" using r(2) by (simp add: heap_elems_def add_mset_commute)
  then show ?thesis using r(1) \<open>e = 1\<close> by blast
qed



text \<open>
  C37. Strings. \<open>util_strcmp\<close> returns on any two null-terminated strings and tells whether they are equal. \<open>util_strncpy\<close> into a buffer
  of \<open>n\<close> bytes writes nowhere else, and the buffer then holds a null-terminated string, the source cut to \<open>n - 1\<close> characters.
\<close>

theorem strings_correct:
  assumes "cstr m p s"
  shows "(cstr m q t \<longrightarrow> util_strcmp m p q = Some (s = t)) \<and>
    (d \<noteq> NULL \<and> 0 < unat n \<and> region d (unat n) \<inter> region p (unat n) = {} \<longrightarrow>
      (\<exists>m'. util_strncpy d n p m = Some m' \<and> cstr m' d (take (unat n - 1) s) \<and> (\<forall>a. a \<notin> region d (unat n) \<longrightarrow> m' a = m a)))"
  using util_strcmp_cstr [OF assms] util_strncpy_cstr [OF assms] by blast

theorem strings_witness: "\<exists>m'. util_strncpy 0x100 2 0x200 ((\<lambda>_. 0)(0x200 := 65, 0x201 := 66)) = Some m' \<and> cstr m' 0x100 [65]"
proof -
  let ?m = "(\<lambda>_. 0)(0x200 := 65, 0x201 := 66) :: memory"
  have c: "cstr ?m 0x200 [65, 66]" by (simp add: cstr_def bytes_def)
  have d: "region (0x100 :: u64) (unat (2 :: u64)) \<inter> region 0x200 (unat (2 :: u64)) = {}" by (rule region_apart) simp_all
  from strings_correct [OF c, of "0x200" "[65, 66]" "0x100" 2] d show ?thesis by auto
qed

text \<open>
  C38. \<open>math_sqrt\<close>: Newton's iteration ends and gives the integer square root of every argument below \<open>2 ^ 32\<close>. For \<open>2 ^ 32\<close> the
  square of the first guess wraps to zero, and the result is \<open>2 ^ 32\<close> itself.
\<close>

theorem sqrt_correct:
  assumes "unat a < 2 ^ 32"
  shows "(\<exists>r. math_sqrt a = Some (Inr (of_nat r)) \<and> r * r \<le> unat a \<and> unat a < Suc r * Suc r) \<and> math_sqrt (2 ^ 32) = Some (Inr (2 ^ 32))"
proof -
  obtain r where r: "r * r \<le> unat a" "unat a < Suc r * Suc r" using floor_root by blast
  then show ?thesis using math_sqrt_correct [OF assms r] math_sqrt_wraps by blast
qed

theorem sqrt_witness: "\<exists>r. math_sqrt 99 = Some (Inr (of_nat r)) \<and> r * r \<le> 99 \<and> 99 < Suc r * Suc r"
  using sqrt_correct [of 99] by simp

text \<open>
  C39. \<open>gpio_clear_triggered\<close>: the registers clear where a one is written, and the code writes back what it read, so every pending
  event of both banks is gone, whatever range of pins was asked for.
\<close>

theorem gpio_clear_drops_events:
  assumes "gpio_ok g"
  shows "gpio_get_triggered (gpio_clear_triggered a b g) = 0"
  by (rule gpio_clear_triggered_all [OF assms])

theorem gpio_clear_witness:
  "\<exists>g. gpio_get_triggered g = 0x80 \<and> gpio_get_triggered (gpio_clear_triggered 1 2 g) = 0"
proof -
  let ?g = "\<lparr>GPFSEL = replicate 6 0, GPSET = [0, 0], GPCLR = [0, 0], GPLEV = [0, 0], GPEDS = [0x80, 0], GPREN = [0, 0], GPFEN = [0, 0], GPLEN0 = 0,
    PUP_PDN_CNTRL_REG = replicate 4 0\<rparr>"
  have "gpio_ok ?g" by (simp add: gpio_ok_def)
  from gpio_clear_drops_events [OF this, of 1 2] show ?thesis by (intro exI [of _ ?g]) (simp add: gpio_get_triggered_def)
qed

text \<open>
  C40. The quadrature decoder. Over any sequence of readings of a shaft that moves by at most one quarter between readings, the
  forward count less the backward count changes by exactly the distance turned, and no reading is counted as a skipped quarter.
\<close>

theorem encoder_tracks:
  assumes "encoder_ok e" "at_pos p (last_a e, last_b e)" "list_all2 at_pos ps xs" "small_steps p ps"
  shows "\<exists>e'. enc_run e xs = Inr e' \<and> encoder_ok e' \<and> net e' = net e + of_int (last (p # ps) - p) \<and>
     invalid_2_cnt (stat e') = invalid_2_cnt (stat e) \<and> change_lookup (encoder_mgr_init mgr) = enc_table"
  using enc_run_net [OF assms] by (simp add: encoder_mgr_init_def enc_table_def numeral_eq_Suc)

theorem encoder_witness:
  "\<exists>e e'. enc_run e [(1, 0), (1, 1), (0, 1), (0, 0), (1, 0)] = Inr e' \<and> net e' = net e + 5"
proof -
  let ?e = "\<lparr>pin_a = 0, pin_b = 1, last_a = 0, last_b = 0, stat = ke_quad_encoder_stat_clear\<rparr>"
  have "encoder_ok ?e" "at_pos 0 (last_a ?e, last_b ?e)" by (simp_all add: encoder_ok_def at_pos_def phase_def)
  moreover have "list_all2 at_pos [1, 2, 3, 4, 5] [(1, 0), (1, 1), (0, 1), (0, 0), (1, 0)]" by (simp add: at_pos_def phase_def)
  moreover have "small_steps 0 [1, 2, 3, 4, 5]" by simp
  ultimately obtain e' where "enc_run ?e [(1, 0), (1, 1), (0, 1), (0, 0), (1, 0)] = Inr e'" "net e' = net ?e + of_int (last [0, 1, 2, 3, 4, 5] - 0)"
    using encoder_tracks [of ?e 0 "[1, 2, 3, 4, 5]" "[(1, 0), (1, 1), (0, 1), (0, 0), (1, 0)]"] by blast
  moreover have "last [0, 1, 2, 3, 4, 5 :: int] - 0 = 5" by simp
  ultimately have "net e' = net ?e + 5" by simp
  then show ?thesis using \<open>enc_run ?e _ = Inr e'\<close> by blast
qed

end
